(* ===== verification/Steps.thy ===== *)
theory Steps
  imports Main
begin

text \<open>
  Transition systems, shared by the components that are modelled as step relations: the states
  that can be reached, invariants, and simulations of one system by another.  A component
  interprets \<open>invariant_of\<close> on its own steps, and \<open>refinement\<close> where a specification is simulated.
\<close>

inductive reach :: "('s \<Rightarrow> bool) \<Rightarrow> ('s \<Rightarrow> 's \<Rightarrow> bool) \<Rightarrow> 's \<Rightarrow> bool" for init step where
  reach_init: "init s \<Longrightarrow> reach init step s"
| reach_step: "reach init step s \<Longrightarrow> step s t \<Longrightarrow> reach init step t"

lemma reach_steps: "step\<^sup>*\<^sup>* s t \<Longrightarrow> reach init step s \<Longrightarrow> reach init step t"
  by (induction rule: rtranclp_induct) (auto intro: reach_step)

section \<open>Invariants\<close>

locale invariant_of =
  fixes init :: "'s \<Rightarrow> bool" and step :: "'s \<Rightarrow> 's \<Rightarrow> bool" and inv :: "'s \<Rightarrow> bool"
  assumes init_inv: "init s \<Longrightarrow> inv s"
    and step_inv: "step s t \<Longrightarrow> inv s \<Longrightarrow> inv t"
begin

lemma reach_inv: "reach init step s \<Longrightarrow> inv s"
  by (induction rule: reach.induct) (auto intro: init_inv step_inv)

lemma steps_inv: "step\<^sup>*\<^sup>* s t \<Longrightarrow> inv s \<Longrightarrow> inv t"
  by (induction rule: rtranclp_induct) (auto intro: step_inv)

end

section \<open>Simulations\<close>

text \<open>
  A system refines a specification when every step is matched by some steps of the
  specification; the match may rely on the invariant of the specification.
\<close>

locale refinement = spec: invariant_of ainit astep ainv
  for ainit :: "'a \<Rightarrow> bool" and astep :: "'a \<Rightarrow> 'a \<Rightarrow> bool" and ainv :: "'a \<Rightarrow> bool" +
  fixes init :: "'s \<Rightarrow> bool" and step :: "'s \<Rightarrow> 's \<Rightarrow> bool" and R :: "'s \<Rightarrow> 'a \<Rightarrow> bool"
  assumes init_sim: "init s \<Longrightarrow> \<exists>a. ainit a \<and> R s a"
    and step_sim: "step s t \<Longrightarrow> R s a \<Longrightarrow> ainv a \<Longrightarrow> \<exists>b. astep\<^sup>*\<^sup>* a b \<and> R t b"
begin

lemma reach_sim: "reach init step s \<Longrightarrow> \<exists>a. reach ainit astep a \<and> R s a"
proof (induction rule: reach.induct)
  case (reach_init s)
  from init_sim [OF this] obtain a where a: "ainit a" "R s a" by (elim exE conjE)
  from reach.reach_init [of ainit, OF a(1)] a(2) show ?case by (intro exI conjI)
next
  case (reach_step s t)
  then obtain a where a: "reach ainit astep a" "R s a" by blast
  from step_sim [OF reach_step(2) a(2) spec.reach_inv [OF a(1)]] obtain b where b: "astep\<^sup>*\<^sup>* a b" "R t b"
    by (elim exE conjE)
  from reach_steps [OF b(1) a(1)] b(2) show ?case by (intro exI conjI)
qed

end

text \<open>What the specification keeps holds of the system.\<close>

sublocale refinement \<subseteq> impl: invariant_of init step "\<lambda>s. \<exists>a. ainv a \<and> R s a"
proof
  fix s
  assume "init s"
  then show "\<exists>a. ainv a \<and> R s a" using init_sim spec.init_inv by blast
next
  fix s t
  assume "step s t" "\<exists>a. ainv a \<and> R s a"
  then obtain a b where "ainv a" "astep\<^sup>*\<^sup>* a b" "R t b" using step_sim by blast
  then show "\<exists>a. ainv a \<and> R t a" using spec.steps_inv by blast
qed

end
