(* ===== verification/Prelude.thy ===== *)
theory Prelude
  imports Steps "HOL-Library.Word"
begin

text \<open>
  Shared vocabulary of the development: the machine types of the LP64 platform the C code is
  built for (\<open>long\<close>, \<open>size_t\<close> and pointers are 64 bits wide, \<open>int\<close> 32 bits), the status codes
  of \<open>lancaster/status.h\<close>, byte sequences and byte-addressed memory (the memory-mapped segment
  of a storage is such a memory), the host and network byte orders of \<open>lancaster/h2n2h.h\<close>, and
  the list and word lemmas the component theories use.

  Conventions.  A C \<open>long\<close> whose overflow matters (revisions, queue indices, sizes) is a
  64-bit word read with \<open>sint\<close> or \<open>unat\<close>; identifiers, sequence numbers and microsecond
  times are \<open>int\<close>, with the wrap-around written out as \<open>wrap_long\<close> where the code can
  leave the range.  A function that fails returns \<open>Inl\<close> of its (negative) status.
\<close>

unbundle bit_operations_syntax

named_theorems status_defs "the numeric values of the status codes"
named_theorems mem_simps "reading memory after writing it"

section \<open>Machine types\<close>

type_synonym byte = "8 word"
type_synonym u16 = "16 word"
type_synonym u32 = "32 word"
type_synonym u64 = "64 word"
type_synonym status = int
type_synonym ident = int
type_synonym microsec = int
type_synonym sequence = int
type_synonym 'a result = "status + 'a"

definition LONG_MAX :: int where "LONG_MAX = 2 ^ 63 - 1"
definition LONG_MIN :: int where "LONG_MIN = - (2 ^ 63)"

definition is_long :: "int \<Rightarrow> bool" where
  "is_long x \<longleftrightarrow> LONG_MIN \<le> x \<and> x \<le> LONG_MAX"

definition wrap_long :: "int \<Rightarrow> int" where
  "wrap_long x = sint (word_of_int x :: u64)"

section \<open>Status codes\<close>

definition FAILED :: "status \<Rightarrow> bool" where
  "FAILED st \<longleftrightarrow> st < 0"

definition OK :: status where [status_defs]: "OK = 0"
definition TRUE_ST :: status where [status_defs]: "TRUE_ST = 1"
definition FALSE_ST :: status where [status_defs]: "FALSE_ST = 0"

definition SIG_ERROR_BASE :: status where [status_defs]: "SIG_ERROR_BASE = - 128"
definition ERRNO_ERROR_BASE_1 :: status where [status_defs]: "ERRNO_ERROR_BASE_1 = 0"
definition ERRNO_ERROR_BASE_2 :: status where [status_defs]: "ERRNO_ERROR_BASE_2 = 70"
definition LANCASTER_ERROR_BASE :: status where [status_defs]: "LANCASTER_ERROR_BASE = - 220"

definition EOF_STATUS :: status where [status_defs]: "EOF_STATUS = LANCASTER_ERROR_BASE - 1"
definition BLOCKED :: status where [status_defs]: "BLOCKED = LANCASTER_ERROR_BASE - 3"
definition NOT_FOUND :: status where [status_defs]: "NOT_FOUND = LANCASTER_ERROR_BASE - 4"
definition NO_MEMORY :: status where [status_defs]: "NO_MEMORY = LANCASTER_ERROR_BASE - 5"
definition NO_HEARTBEAT :: status where [status_defs]: "NO_HEARTBEAT = LANCASTER_ERROR_BASE - 6"
definition PROTOCOL_ERROR :: status where [status_defs]: "PROTOCOL_ERROR = LANCASTER_ERROR_BASE - 7"
definition PROTOCOL_TIMEOUT :: status where
  [status_defs]: "PROTOCOL_TIMEOUT = LANCASTER_ERROR_BASE - 8"
definition WRONG_FILE_VERSION :: status where
  [status_defs]: "WRONG_FILE_VERSION = LANCASTER_ERROR_BASE - 9"
definition WRONG_WIRE_VERSION :: status where
  [status_defs]: "WRONG_WIRE_VERSION = LANCASTER_ERROR_BASE - 10"
definition SEQUENCE_OVERFLOW :: status where
  [status_defs]: "SEQUENCE_OVERFLOW = LANCASTER_ERROR_BASE - 12"
definition UNEXPECTED_SOURCE :: status where
  [status_defs]: "UNEXPECTED_SOURCE = LANCASTER_ERROR_BASE - 13"
definition WRONG_DATA_VERSION :: status where
  [status_defs]: "WRONG_DATA_VERSION = LANCASTER_ERROR_BASE - 11"
definition CHANGE_QUEUE_OVERRUN :: status where
  [status_defs]: "CHANGE_QUEUE_OVERRUN = LANCASTER_ERROR_BASE - 14"
definition BUFFER_TOO_SMALL :: status where
  [status_defs]: "BUFFER_TOO_SMALL = LANCASTER_ERROR_BASE - 15"
definition MTU_TOO_SMALL :: status where [status_defs]: "MTU_TOO_SMALL = LANCASTER_ERROR_BASE - 16"
definition INVALID_ADDRESS :: status where
  [status_defs]: "INVALID_ADDRESS = LANCASTER_ERROR_BASE - 17"
definition DEADLOCK_DETECTED :: status where
  [status_defs]: "DEADLOCK_DETECTED = LANCASTER_ERROR_BASE - 18"
definition NO_CHANGE_QUEUE :: status where
  [status_defs]: "NO_CHANGE_QUEUE = LANCASTER_ERROR_BASE - 19"
definition STORAGE_READ_ONLY :: status where
  [status_defs]: "STORAGE_READ_ONLY = LANCASTER_ERROR_BASE - 20"
definition STORAGE_UNEQUAL :: status where
  [status_defs]: "STORAGE_UNEQUAL = LANCASTER_ERROR_BASE - 21"
definition STORAGE_CORRUPTED :: status where
  [status_defs]: "STORAGE_CORRUPTED = LANCASTER_ERROR_BASE - 22"
definition STORAGE_ORPHANED :: status where
  [status_defs]: "STORAGE_ORPHANED = LANCASTER_ERROR_BASE - 23"
definition STORAGE_RECREATED :: status where
  [status_defs]: "STORAGE_RECREATED = LANCASTER_ERROR_BASE - 24"
definition STORAGE_FULL :: status where [status_defs]: "STORAGE_FULL = LANCASTER_ERROR_BASE - 25"
definition INVALID_CAPACITY :: status where
  [status_defs]: "INVALID_CAPACITY = LANCASTER_ERROR_BASE - 26"
definition INVALID_OPEN_FLAGS :: status where
  [status_defs]: "INVALID_OPEN_FLAGS = LANCASTER_ERROR_BASE - 27"
definition INVALID_RECORD :: status where
  [status_defs]: "INVALID_RECORD = LANCASTER_ERROR_BASE - 28"
definition INVALID_NUMBER :: status where
  [status_defs]: "INVALID_NUMBER = LANCASTER_ERROR_BASE - 31"

text \<open>The \<open>errno\<close> values the code names, with their Linux numbers.\<close>

definition ENOENT :: int where "ENOENT = 2"
definition EINVAL :: int where "EINVAL = 22"

text \<open>
  \<open>error_errno\<close> of \<open>error.c\<close> without its message: the status an \<open>errno\<close> value becomes.
\<close>

definition error_errno :: "int \<Rightarrow> status" where
  "error_errno e = ERRNO_ERROR_BASE_1 - (if e < 128 then e else e + ERRNO_ERROR_BASE_2)"

definition error_invalid_arg :: status where
  "error_invalid_arg = error_errno EINVAL"

lemma error_invalid_arg_eq [status_defs]: "error_invalid_arg = - 22"
  by (simp add: error_invalid_arg_def error_errno_def EINVAL_def status_defs)

lemma FAILED_iff [simp]: "FAILED st \<longleftrightarrow> st < 0"
  by (simp add: FAILED_def)

lemma error_errno_neg: "0 < e \<Longrightarrow> error_errno e < 0"
  by (simp add: error_errno_def status_defs)

text \<open>A chain of calls joined by \<open>||\<close>: the first failure counts.\<close>

fun first_failed :: "status list \<Rightarrow> status" where
  "first_failed [] = OK"
| "first_failed (st # sts) = (if FAILED st then st else first_failed sts)"

section \<open>Byte sequences and byte order\<close>

text \<open>
  \<open>lebytes k w\<close> is the little-endian layout of the low \<open>k\<close> bytes of \<open>w\<close>, which is how an
  x86-64 host stores an integer; \<open>leword\<close> reads it back.  \<open>bswap64\<close> is
  \<open>__builtin_bswap64\<close>, to which \<open>htonll\<close> and \<open>ntohll\<close> expand on such a host.
\<close>

primrec lebytes :: "nat \<Rightarrow> u64 \<Rightarrow> byte list" where
  "lebytes 0 w = []"
| "lebytes (Suc k) w = ucast w # lebytes k (drop_bit 8 w)"

primrec leword :: "byte list \<Rightarrow> u64" where
  "leword [] = 0"
| "leword (b # bs) = ucast b OR push_bit 8 (leword bs)"

definition bswap64 :: "u64 \<Rightarrow> u64" where
  "bswap64 w = leword (rev (lebytes 8 w))"

definition htonll :: "u64 \<Rightarrow> u64" where
  "htonll w = bswap64 w"

definition ntohll :: "u64 \<Rightarrow> u64" where
  "ntohll w = bswap64 w"

lemma length_lebytes [simp]: "length (lebytes k w) = k"
  by (induction k arbitrary: w) auto

lemma leword_lebytes: "leword (lebytes k w) = take_bit (8 * k) w"
proof (induction k arbitrary: w)
  case 0
  then show ?case by simp
next
  case (Suc k)
  show ?case
    by (rule bit_word_eqI) (auto simp: Suc bit_simps not_less)
qed

lemma leword_lebytes8 [simp]: "leword (lebytes 8 w) = w"
  by (rule bit_word_eqI) (simp add: leword_lebytes bit_simps)

lemma bit_leword_bound: "bit (leword bs) n \<Longrightarrow> n < 8 * length bs"
proof (induction bs arbitrary: n)
  case Nil
  then show ?case by simp
next
  case (Cons b bs)
  then show ?case
    by (cases "n < 8") (fastforce simp: bit_simps dest: bit_imp_le_length)+
qed

lemma drop_bit_leword:
  assumes "length bs < 8"
  shows "drop_bit 8 (leword (b # bs)) = leword bs"
proof (rule bit_word_eqI)
  fix n
  assume "n < LENGTH(64)"
  show "bit (drop_bit 8 (leword (b # bs))) n \<longleftrightarrow> bit (leword bs) n"
    using assms bit_leword_bound [of bs n]
    by (auto simp: bit_simps dest: bit_imp_le_length)
qed

lemma lebytes_leword: "length bs \<le> 8 \<Longrightarrow> lebytes (length bs) (leword bs) = bs"
proof (induction bs)
  case Nil
  then show ?case by simp
next
  case (Cons b bs)
  have "ucast (leword (b # bs)) = b"
    by (rule bit_word_eqI) (auto simp: bit_simps)
  with Cons show ?case
    by (simp add: drop_bit_leword del: leword.simps)
qed

lemma lebytes8_leword: "length bs = 8 \<Longrightarrow> lebytes 8 (leword bs) = bs"
  using lebytes_leword [of bs] by simp

lemma lebytes_htonll: "lebytes 8 (htonll w) = rev (lebytes 8 w)"
  by (simp add: htonll_def bswap64_def lebytes8_leword)

lemma ntohll_htonll [simp]: "ntohll (htonll w) = w"
  by (simp add: ntohll_def htonll_def bswap64_def lebytes8_leword)

lemma htonll_ntohll [simp]: "htonll (ntohll w) = w"
  by (simp add: ntohll_def htonll_def bswap64_def lebytes8_leword)

section \<open>Byte-addressed memory\<close>

type_synonym mem = "nat \<Rightarrow> byte"

definition mread :: "mem \<Rightarrow> nat \<Rightarrow> nat \<Rightarrow> byte list" where
  "mread m a n = map m [a..<a + n]"

definition mwrite :: "mem \<Rightarrow> nat \<Rightarrow> byte list \<Rightarrow> mem" where
  "mwrite m a bs = (\<lambda>i. if a \<le> i \<and> i < a + length bs then bs ! (i - a) else m i)"

definition mzero :: "mem \<Rightarrow> nat \<Rightarrow> nat \<Rightarrow> mem" where
  "mzero m a n = mwrite m a (replicate n 0)"

definition load :: "nat \<Rightarrow> mem \<Rightarrow> nat \<Rightarrow> u64" where
  "load k m a = leword (mread m a k)"

definition store :: "nat \<Rightarrow> mem \<Rightarrow> nat \<Rightarrow> u64 \<Rightarrow> mem" where
  "store k m a w = mwrite m a (lebytes k w)"

abbreviation load64 :: "mem \<Rightarrow> nat \<Rightarrow> u64" where
  "load64 \<equiv> load 8"

abbreviation store64 :: "mem \<Rightarrow> nat \<Rightarrow> u64 \<Rightarrow> mem" where
  "store64 \<equiv> store 8"

lemma length_mread [simp]: "length (mread m a n) = n"
  by (simp add: mread_def)

lemma mread_0 [simp]: "mread m a 0 = []"
  by (simp add: mread_def)

lemma nth_mread [simp]: "i < n \<Longrightarrow> mread m a n ! i = m (a + i)"
  by (simp add: mread_def)

lemma mread_cong:
  "(\<And>i. a \<le> i \<Longrightarrow> i < a + n \<Longrightarrow> m i = m' i) \<Longrightarrow> mread m a n = mread m' a n"
  by (simp add: mread_def)

lemma mread_mwrite_same [simp, mem_simps]:
  "n = length bs \<Longrightarrow> mread (mwrite m a bs) a n = bs"
  by (rule nth_equalityI) (auto simp: mwrite_def)

lemma mread_mwrite_disjoint [mem_simps]:
  "a + n \<le> b \<or> b + length bs \<le> a \<Longrightarrow> mread (mwrite m b bs) a n = mread m a n"
  by (rule mread_cong) (auto simp: mwrite_def)

lemma mread_store_disjoint [mem_simps]:
  "a + n \<le> b \<or> b + k \<le> a \<Longrightarrow> mread (store k m b w) a n = mread m a n"
  by (simp add: store_def mread_mwrite_disjoint)

lemma mread_mzero_same [mem_simps]: "mread (mzero m a n) a n = replicate n 0"
  by (simp add: mzero_def)

lemma mread_mzero_disjoint [mem_simps]:
  "a + n \<le> b \<or> b + k \<le> a \<Longrightarrow> mread (mzero m b k) a n = mread m a n"
  by (simp add: mzero_def mread_mwrite_disjoint)

lemma leword_replicate0 [simp]: "leword (replicate n 0) = 0"
  by (induction n) auto

lemma load_store_same: "load k (store k m a w) a = take_bit (8 * k) w"
  by (simp add: load_def store_def leword_lebytes)

lemma load64_store64_same [simp, mem_simps]: "load64 (store64 m a w) a = w"
  by (simp add: load_def store_def)

lemma load_store_disjoint [mem_simps]:
  "a + j \<le> b \<or> b + k \<le> a \<Longrightarrow> load j (store k m b w) a = load j m a"
  by (simp add: load_def mread_store_disjoint)

lemma load_mwrite_disjoint [mem_simps]:
  "a + j \<le> b \<or> b + length bs \<le> a \<Longrightarrow> load j (mwrite m b bs) a = load j m a"
  by (simp add: load_def mread_mwrite_disjoint)

lemma load_mzero_disjoint [mem_simps]:
  "a + j \<le> b \<or> b + k \<le> a \<Longrightarrow> load j (mzero m b k) a = load j m a"
  by (simp add: load_def mread_mzero_disjoint)

lemma mread_mzero_inside:
  assumes "b \<le> a" "a + n \<le> b + k"
  shows "mread (mzero m b k) a n = replicate n 0"
  using assms by (auto intro!: nth_equalityI simp: mzero_def mwrite_def)

lemma load_mzero_inside [mem_simps]:
  "b \<le> a \<Longrightarrow> a + n \<le> b + k \<Longrightarrow> load n (mzero m b k) a = 0"
  by (simp add: load_def mread_mzero_inside)

lemma mwrite_other: "a < b \<or> b + length bs \<le> a \<Longrightarrow> mwrite m b bs a = m a"
  by (auto simp: mwrite_def)

lemma store_other: "a < b \<or> b + k \<le> a \<Longrightarrow> store k m b w a = m a"
  by (simp add: store_def mwrite_other)

lemma mzero_other: "a < b \<or> b + k \<le> a \<Longrightarrow> mzero m b k a = m a"
  by (simp add: mzero_def mwrite_other)

lemmas mem_other = mwrite_other store_other mzero_other

lemma load_cong:
  "(\<And>i. a \<le> i \<Longrightarrow> i < a + k \<Longrightarrow> m i = m' i) \<Longrightarrow> load k m a = load k m' a"
  by (simp add: load_def cong: mread_cong)

lemma mwrite_mread [simp]: "mwrite m a (mread m a n) = m"
  by (auto simp: mwrite_def fun_eq_iff)

lemma mwrite_Nil [simp]: "mwrite m a [] = m"
  by (auto simp: mwrite_def fun_eq_iff)

lemma mwrite_append: "mwrite m a (xs @ ys) = mwrite (mwrite m a xs) (a + length xs) ys"
  by (auto simp: mwrite_def fun_eq_iff nth_append)

lemma mread_add: "mread m a (n + k) = mread m a n @ mread m (a + n) k"
  by (auto intro!: nth_equalityI simp: nth_append)

lemma take_mread [simp]: "k \<le> n \<Longrightarrow> take k (mread m a n) = mread m a k"
  by (rule nth_equalityI) auto

lemma drop_mread [simp]: "k \<le> n \<Longrightarrow> drop k (mread m a n) = mread m (a + k) (n - k)"
  by (rule nth_equalityI) (auto simp: add.assoc)

lemma store64_restore [simp]: "store64 (store64 m a w) a (load64 m a) = m"
proof -
  have "mread m a 8 ! (i - a) = m i" if "a \<le> i" "i < a + 8" for i
    using that by simp
  then show ?thesis
    by (auto simp: store_def mwrite_def load_def fun_eq_iff lebytes8_leword)
qed

section \<open>Word and integer lemmas\<close>

lemma sint_less_0_iff_bit: "sint (w :: u64) < 0 \<longleftrightarrow> bit w 63"
  by (simp add: sint_uint bit_simps signed_take_bit_negative_iff)

lemma sint_nonneg_unat:
  assumes "0 \<le> sint (w :: u64)"
  shows "sint w = int (unat w)"
proof -
  have "\<not> bit (uint w) 63"
    using assms sint_less_0_iff_bit [of w] by (simp add: bit_simps)
  moreover have "take_bit 64 (uint w) = uint w"
    using uint_lt2p [of w] by (simp add: take_bit_int_eq_self)
  ultimately show ?thesis
    by (simp add: sint_uint signed_take_bit_eq_take_bit_minus)
qed

lemma is_long_sint [simp]: "is_long (sint (w :: u64))"
  using sint_ge [of w] sint_lt [of w] by (simp add: is_long_def LONG_MAX_def LONG_MIN_def)

lemma sint_word_of_int_long [simp]: "is_long x \<Longrightarrow> sint (word_of_int x :: u64) = x"
  by (simp add: is_long_def LONG_MAX_def LONG_MIN_def sint_sbintrunc'
      signed_take_bit_int_eq_self)

lemma wrap_long_id [simp]: "is_long x \<Longrightarrow> wrap_long x = x"
  by (simp add: wrap_long_def)

lemma is_long_wrap_long [simp]: "is_long (wrap_long x)"
  by (simp add: wrap_long_def)

section \<open>Streams of messages\<close>

text \<open>
  The contract of a message format on a byte stream: no message is empty and none is the
  beginning of another, so that a stream can be cut into messages in one way only, wherever the
  calls that read it stop.
\<close>

locale framing =
  fixes enc :: "'m \<Rightarrow> byte list" and ok :: "'m \<Rightarrow> bool"
  assumes enc_nonempty: "ok m \<Longrightarrow> enc m \<noteq> []"
    and enc_delimits: "ok m \<Longrightarrow> ok q \<Longrightarrow> enc m @ xs = enc q @ ys \<Longrightarrow> m = q"
begin

lemma stream_nil: "concat (map enc ms) = [] \<Longrightarrow> \<forall>m\<in>set ms. ok m \<Longrightarrow> ms = []"
  by (cases ms) (auto simp: enc_nonempty)

lemma stream_first:
  assumes "enc m @ xs = concat (map enc ms)" "ok m" "\<forall>m\<in>set ms. ok m"
  obtains ms' where "ms = m # ms'" "xs = concat (map enc ms')"
proof (cases ms)
  case Nil
  then show thesis using assms(1) enc_nonempty [OF assms(2)] by simp
next
  case (Cons q ms')
  then have e: "enc m @ xs = enc q @ concat (map enc ms')" "ok q" using assms(1,3) by simp_all
  then have "m = q" using enc_delimits assms(2) by blast
  then show thesis using that Cons e(1) by simp
qed

lemma stream_unique:
  "concat (map enc ms) = concat (map enc ms') \<Longrightarrow> \<forall>m\<in>set ms. ok m \<Longrightarrow> \<forall>m\<in>set ms'. ok m \<Longrightarrow> ms = ms'"
proof (induction ms arbitrary: ms')
  case Nil
  then show ?case using stream_nil [of ms'] by simp
next
  case (Cons m ms)
  then have "enc m @ concat (map enc ms) = concat (map enc ms')" by simp
  then obtain ns where "ms' = m # ns" "concat (map enc ms) = concat (map enc ns)" by (rule stream_first) (use Cons.prems in auto)
  then show ?case using Cons.IH [of ns] Cons.prems by simp
qed

end

end
