(* ===== verification/Spin.thy ===== *)
theory Spin
  imports Prelude
begin

text \<open>
  The revision locks of \<open>spin.c\<close>.  A lock is a \<open>long\<close>: negative while a writer holds it,
  otherwise the revision of the data it guards.  The model of the two waiting loops is run
  against what other processes do to the lock word: \<open>obs k\<close> is the value the \<open>k\<close>-th look at
  the lock finds (for the write lock, the value \<open>__sync_fetch_and_or\<close> returns) and \<open>slp k\<close>
  the status of the \<open>k\<close>-th \<open>clock_sleep\<close>.  A lock that nobody else touches is the special
  case of a constant \<open>obs\<close>; the \<open>_at\<close> versions are that case, on a word of memory.
\<close>

section \<open>Lock words and revisions\<close>

definition SPIN_MASK :: u64 where
  "SPIN_MASK = push_bit (8 * (8 - 1)) 0x80"

definition SPIN_MAX :: u64 where
  "SPIN_MAX = word_of_int LONG_MAX"

definition NEXT_REV :: "u64 \<Rightarrow> u64" where
  "NEXT_REV v = (v + 1) AND SPIN_MAX"

definition MAX_SPINS :: nat where "MAX_SPINS = 10000"
definition MAX_WAIT_USEC :: nat where "MAX_WAIT_USEC = 1 * 1000000"
definition SLEEP_USEC :: nat where "SLEEP_USEC = 1000"

definition spin_create :: u64 where
  "spin_create = 0"

function spin_loop ::
  "(nat \<Rightarrow> u64) \<Rightarrow> (nat \<Rightarrow> status) \<Rightarrow> nat \<Rightarrow> nat \<Rightarrow> nat \<Rightarrow> (u64 \<times> nat) result" where
  "spin_loop obs slp k spins sleeps =
     (if sint (obs k) < 0 then
        (if spins + 1 \<le> MAX_SPINS then spin_loop obs slp (k + 1) (spins + 1) sleeps
         else if sleeps + 1 > MAX_WAIT_USEC div SLEEP_USEC then Inl DEADLOCK_DETECTED
         else if FAILED (slp sleeps) then Inl (slp sleeps)
         else spin_loop obs slp (k + 1) (spins + 1) (sleeps + 1))
      else Inr (obs k, k))"
  by pat_completeness auto
termination
  by (relation "measure (\<lambda>(obs, slp, k, spins, sleeps).
        (MAX_SPINS - spins) + (MAX_WAIT_USEC div SLEEP_USEC - sleeps))") auto

declare spin_loop.simps [simp del]

definition spin_read_lock :: "(nat \<Rightarrow> u64) \<Rightarrow> (nat \<Rightarrow> status) \<Rightarrow> (u64 \<times> nat) result" where
  "spin_read_lock obs slp = spin_loop obs slp 0 0 0"

text \<open>
  The write lock's look is itself a write: it sets the mask bit.  The result is the old
  revision, the number of the look that took the lock, and the word that look left behind.
\<close>

definition spin_write_lock ::
  "(nat \<Rightarrow> u64) \<Rightarrow> (nat \<Rightarrow> status) \<Rightarrow> (u64 \<times> nat \<times> u64) result" where
  "spin_write_lock obs slp =
     (case spin_loop obs slp 0 0 0 of
        Inl st \<Rightarrow> Inl st
      | Inr (rv, k) \<Rightarrow> Inr (rv, k, rv OR SPIN_MASK))"

definition spin_unlock :: "mem \<Rightarrow> nat \<Rightarrow> u64 \<Rightarrow> mem" where
  "spin_unlock m a new_rev = store64 m a new_rev"

definition spin_read_lock_at :: "(nat \<Rightarrow> status) \<Rightarrow> mem \<Rightarrow> nat \<Rightarrow> u64 result" where
  "spin_read_lock_at slp m a = map_sum id fst (spin_read_lock (\<lambda>_. load64 m a) slp)"

definition spin_write_lock_at :: "(nat \<Rightarrow> status) \<Rightarrow> mem \<Rightarrow> nat \<Rightarrow> (u64 \<times> mem) result" where
  "spin_write_lock_at slp m a =
     map_sum id (\<lambda>(rv, _, w). (rv, store64 m a w)) (spin_write_lock (\<lambda>_. load64 m a) slp)"

section \<open>Lemmas on lock words\<close>

text \<open>A lock word is free when it is not negative.\<close>

definition unlocked :: "u64 \<Rightarrow> bool" where
  "unlocked w \<longleftrightarrow> 0 \<le> sint w"

lemma unlocked_iff_bit: "unlocked w \<longleftrightarrow> \<not> bit w 63"
  using sint_less_0_iff_bit [of w] by (auto simp: unlocked_def)

lemma not_unlocked: "\<not> unlocked w \<longleftrightarrow> sint w < 0"
  by (auto simp: unlocked_def)

lemma unlocked_0 [simp]: "unlocked 0"
  by (simp add: unlocked_def)

lemma SPIN_MASK_push_bit: "SPIN_MASK = push_bit 63 1"
  by (simp add: SPIN_MASK_def)

lemma bit_SPIN_MASK: "bit SPIN_MASK n \<longleftrightarrow> n = 63"
  unfolding SPIN_MASK_push_bit by (auto simp: bit_push_bit_iff bit_1_iff simp del: push_bit_of_1)

lemma SPIN_MAX_mask: "SPIN_MAX = mask 63"
  by (simp add: SPIN_MAX_def LONG_MAX_def mask_eq_decr_exp)

lemma masked_is_locked [simp]: "\<not> unlocked (w OR SPIN_MASK)"
  by (simp add: unlocked_iff_bit bit_or_iff bit_SPIN_MASK)

lemma locked_masked_same: "\<not> unlocked w \<Longrightarrow> w OR SPIN_MASK = w"
  by (rule bit_word_eqI) (auto simp: unlocked_iff_bit bit_or_iff bit_SPIN_MASK)

lemma unmask_masked: "unlocked w \<Longrightarrow> (w OR SPIN_MASK) AND NOT SPIN_MASK = w"
  by (rule bit_word_eqI) (auto simp: unlocked_iff_bit bit_simps bit_SPIN_MASK)

lemma unlocked_unmask: "unlocked (w AND NOT SPIN_MASK)"
  by (simp add: unlocked_iff_bit bit_simps bit_SPIN_MASK)

lemma unlocked_NEXT_REV [simp]: "unlocked (NEXT_REV v)"
  by (simp add: unlocked_iff_bit NEXT_REV_def SPIN_MAX_mask bit_simps)

lemma unat_NEXT_REV: "unat (NEXT_REV v) = (unat v + 1) mod 2 ^ 63"
proof -
  have "unat (NEXT_REV v) = take_bit 63 (unat (v + 1))"
    by (simp add: NEXT_REV_def SPIN_MAX_mask flip: take_bit_eq_mask unsigned_take_bit_eq)
  also have "\<dots> = unat (v + 1) mod 2 ^ 63"
    by (simp add: take_bit_nat_def)
  also have "\<dots> = (unat v + 1) mod 2 ^ 64 mod 2 ^ 63"
    by (simp add: unat_word_ariths)
  also have "\<dots> = (unat v + 1) mod 2 ^ 63"
    by (simp add: mod_mod_cancel)
  finally show ?thesis .
qed

lemma unlocked_unat_less: "unlocked v \<longleftrightarrow> unat v < 2 ^ 63"
proof -
  have "bit v 63 \<longleftrightarrow> bit (unat v) 63" by (simp add: bit_simps)
  also have "\<dots> \<longleftrightarrow> odd (unat v div 2 ^ 63)" by (simp add: bit_iff_odd)
  also have "\<dots> \<longleftrightarrow> \<not> unat v < 2 ^ 63"
  proof -
    have "unat v < 2 ^ 64" using unsigned_less [of v] by simp
    then have "unat v div 2 ^ 63 < 2" by simp
    then have "unat v div 2 ^ 63 = 0 \<or> unat v div 2 ^ 63 = 1" by arith
    then show ?thesis by (auto simp: div_eq_0_iff)
  qed
  finally show ?thesis by (simp add: unlocked_iff_bit)
qed

section \<open>What the waiting loop returns\<close>

definition max_looks :: nat where
  "max_looks = MAX_SPINS + MAX_WAIT_USEC div SLEEP_USEC"

lemma max_looks_eq: "max_looks = 11000"
  by (simp add: max_looks_def MAX_SPINS_def MAX_WAIT_USEC_def SLEEP_USEC_def)

lemma max_looks_ge [simp]: "\<not> max_looks < MAX_SPINS"
  by (simp add: max_looks_def)

text \<open>
  The loop counts one spin per look and one sleep per look after the first \<open>MAX_SPINS\<close>, so the
  two counters are functions of the number of looks.
\<close>

abbreviation spin_from :: "(nat \<Rightarrow> u64) \<Rightarrow> (nat \<Rightarrow> status) \<Rightarrow> nat \<Rightarrow> (u64 \<times> nat) result" where
  "spin_from obs slp k \<equiv> spin_loop obs slp k k (k - MAX_SPINS)"

lemma spin_from_free:
  "unlocked (obs k) \<Longrightarrow> spin_from obs slp k = Inr (obs k, k)"
  by (subst spin_loop.simps) (simp add: unlocked_def)

lemma spin_from_held:
  assumes "\<not> unlocked (obs k)"
  shows "spin_from obs slp k =
    (if k < MAX_SPINS then spin_from obs slp (Suc k)
     else if max_looks \<le> k then Inl DEADLOCK_DETECTED
     else if FAILED (slp (k - MAX_SPINS)) then Inl (slp (k - MAX_SPINS))
     else spin_from obs slp (Suc k))"
  using assms by (subst spin_loop.simps) (auto simp: unlocked_def max_looks_def Suc_diff_le)

lemma spin_from_waits:
  assumes "\<And>j. k \<le> j \<Longrightarrow> j < n \<Longrightarrow> \<not> unlocked (obs j)" "k \<le> n" "n \<le> max_looks"
    and "\<And>i. \<not> FAILED (slp i)"
  shows "spin_from obs slp k = spin_from obs slp n"
  using assms(1,2)
proof (induction "n - k" arbitrary: k)
  case 0
  then show ?case by simp
next
  case (Suc d)
  then have "spin_from obs slp k = spin_from obs slp (Suc k)"
    using assms(3,4) by (subst spin_from_held) auto
  with Suc show ?case by simp
qed

lemma spin_from_deadlock:
  assumes "\<And>j. j \<le> max_looks \<Longrightarrow> \<not> unlocked (obs j)" "\<And>i. \<not> FAILED (slp i)"
  shows "spin_from obs slp 0 = Inl DEADLOCK_DETECTED"
proof -
  have "spin_from obs slp 0 = spin_from obs slp max_looks"
    using assms by (intro spin_from_waits) auto
  also have "\<dots> = Inl DEADLOCK_DETECTED"
    using assms(1) by (subst spin_from_held) (auto simp: max_looks_def)
  finally show ?thesis .
qed

lemma spin_from_InrD:
  assumes "k \<le> max_looks" "spin_from obs slp k = Inr (rv, n)"
  shows "rv = obs n \<and> unlocked rv \<and> k \<le> n \<and> n \<le> max_looks \<and>
    (\<forall>j. k \<le> j \<and> j < n \<longrightarrow> \<not> unlocked (obs j))"
  using assms
proof (induction k rule: inc_induct)
  case base
  then show ?case
    by (cases "unlocked (obs max_looks)") (auto simp: spin_from_free spin_from_held)
next
  case (step k)
  show ?case
  proof (cases "unlocked (obs k)")
    case True
    with step show ?thesis by (auto simp: spin_from_free)
  next
    case False
    with step.prems step.hyps have "spin_from obs slp (Suc k) = Inr (rv, n)"
      by (auto simp: spin_from_held split: if_splits)
    from step.IH [OF this] False show ?thesis by (metis Suc_leD not_less_eq_eq le_antisym)
  qed
qed

lemma spin_from_InlD:
  assumes "k \<le> max_looks" "spin_from obs slp k = Inl st"
  shows "st = DEADLOCK_DETECTED \<or> (\<exists>i. st = slp i \<and> FAILED st)"
  using assms
proof (induction k rule: inc_induct)
  case base
  then show ?case
    by (cases "unlocked (obs max_looks)") (auto simp: spin_from_free spin_from_held)
next
  case (step k)
  show ?case
  proof (cases "unlocked (obs k)")
    case True
    with step show ?thesis by (auto simp: spin_from_free)
  next
    case False
    with step.prems step.hyps have "spin_from obs slp (Suc k) = Inl st \<or> FAILED st \<and> (\<exists>i. st = slp i)"
      by (auto simp: spin_from_held split: if_splits)
    with step.IH show ?thesis by blast
  qed
qed

lemma spin_read_lock_from: "spin_read_lock obs slp = spin_from obs slp 0"
  by (simp add: spin_read_lock_def)

lemma spin_write_lock_from:
  "spin_write_lock obs slp =
     map_sum id (\<lambda>(rv, k). (rv, k, rv OR SPIN_MASK)) (spin_from obs slp 0)"
  by (auto simp: spin_write_lock_def split: sum.splits)

subsection \<open>The locks on a word nobody else touches\<close>

lemma spin_read_lock_at_free [simp]:
  "unlocked (load64 m a) \<Longrightarrow> spin_read_lock_at slp m a = Inr (load64 m a)"
  by (simp add: spin_read_lock_at_def spin_read_lock_from spin_from_free [of _ 0, simplified])

lemma spin_write_lock_at_free [simp]:
  "unlocked (load64 m a) \<Longrightarrow>
    spin_write_lock_at slp m a = Inr (load64 m a, store64 m a (load64 m a OR SPIN_MASK))"
  by (simp add: spin_write_lock_at_def spin_write_lock_from spin_from_free [of _ 0, simplified])

lemma spin_at_held:
  assumes "\<not> unlocked (load64 m a)"
  shows "\<exists>st. spin_read_lock_at slp m a = Inl st \<and> spin_write_lock_at slp m a = Inl st \<and>
    FAILED st"
proof (cases "spin_from (\<lambda>_. load64 m a) slp 0")
  case (Inl st)
  with spin_from_InlD [OF _ this] show ?thesis
    by (auto simp: spin_read_lock_at_def spin_write_lock_at_def spin_read_lock_from
        spin_write_lock_from status_defs)
next
  case (Inr r)
  then obtain rv n where r: "spin_from (\<lambda>_. load64 m a) slp 0 = Inr (rv, n)"
    by (cases r) auto
  have "unlocked (load64 m a)" using spin_from_InrD [OF _ r] by auto
  with assms show ?thesis by simp
qed

lemma spin_write_lock_at_InrD:
  assumes "spin_write_lock_at slp m a = Inr (rv, m')"
  shows "unlocked (load64 m a) \<and> rv = load64 m a \<and> m' = store64 m a (rv OR SPIN_MASK)"
proof (cases "unlocked (load64 m a)")
  case True
  with assms show ?thesis by auto
next
  case False
  with spin_at_held [OF this, of slp] assms show ?thesis by auto
qed

lemma spin_read_lock_at_InrD:
  assumes "spin_read_lock_at slp m a = Inr rv"
  shows "unlocked (load64 m a) \<and> rv = load64 m a"
proof (cases "unlocked (load64 m a)")
  case True
  with assms show ?thesis by auto
next
  case False
  with spin_at_held [OF this, of slp] assms show ?thesis by auto
qed

lemma spin_write_lock_at_InlD: "spin_write_lock_at slp m a = Inl st \<Longrightarrow> st < 0"
  by (cases "unlocked (load64 m a)") (use spin_at_held [of m a slp] in auto)

lemma spin_read_lock_at_InlD: "spin_read_lock_at slp m a = Inl st \<Longrightarrow> st < 0"
  by (cases "unlocked (load64 m a)") (use spin_at_held [of m a slp] in auto)

section \<open>Properties\<close>

text \<open>
  C39.  The waiting loops end and say why.  Given that sleeping does not fail, \<open>spin_read_lock\<close> and
  \<open>spin_write_lock\<close> succeed exactly when one of their first 11001 looks finds the lock free; they
  then return the revision of the first such look, and the write lock's look has left the
  word locked.  Otherwise they report a deadlock.
\<close>

theorem spin_locks_spec:
  assumes "\<And>i. \<not> FAILED (slp i)"
  shows "if \<exists>k\<le>11000. unlocked (obs k)
    then let k = (LEAST k. unlocked (obs k)) in
      spin_read_lock obs slp = Inr (obs k, k) \<and>
      spin_write_lock obs slp = Inr (obs k, k, obs k OR SPIN_MASK) \<and>
      \<not> unlocked (obs k OR SPIN_MASK) \<and> (obs k OR SPIN_MASK) AND NOT SPIN_MASK = obs k
    else spin_read_lock obs slp = Inl DEADLOCK_DETECTED \<and>
      spin_write_lock obs slp = Inl DEADLOCK_DETECTED"
proof (cases "\<exists>k\<le>11000. unlocked (obs k)")
  case True
  define n where "n = (LEAST k. unlocked (obs k))"
  from True have free: "unlocked (obs n)" and le: "n \<le> max_looks"
    by (auto simp: n_def max_looks_eq intro: LeastI Least_le order_trans)
  have "\<not> unlocked (obs j)" if "j < n" for j
    using not_less_Least [OF that [unfolded n_def]] .
  then have "spin_from obs slp 0 = spin_from obs slp n"
    by (intro spin_from_waits [OF _ _ le assms]) auto
  also have "\<dots> = Inr (obs n, n)" using free by (rule spin_from_free)
  finally have loop: "spin_from obs slp 0 = Inr (obs n, n)" .
  then have "spin_read_lock obs slp = Inr (obs n, n)"
    "spin_write_lock obs slp = Inr (obs n, n, obs n OR SPIN_MASK)"
    by (simp_all add: spin_read_lock_from spin_write_lock_from)
  with True free show ?thesis by (simp add: Let_def unmask_masked flip: n_def)
next
  case False
  then have "spin_from obs slp 0 = Inl DEADLOCK_DETECTED"
    using assms by (intro spin_from_deadlock) (auto simp: max_looks_eq)
  with False show ?thesis
    by (simp add: spin_read_lock_from spin_write_lock_from)
qed

theorem spin_locks_spec_witness:
  "spin_read_lock (\<lambda>k. if k < 3 then SPIN_MASK else 5) (\<lambda>_. 0) = Inr (5, 3) \<and>
   spin_read_lock (\<lambda>_. SPIN_MASK) (\<lambda>_. 0) = Inl DEADLOCK_DETECTED"
proof -
  have m: "\<not> unlocked SPIN_MASK" using masked_is_locked [of 0] by simp
  have five: "unlocked 5" by (simp add: unlocked_def)
  have "(LEAST k. unlocked ((\<lambda>k. if k < 3 then SPIN_MASK else 5) k)) = (3::nat)"
    using m five by (intro Least_equality) (auto simp: not_less split: if_splits)
  moreover have "\<exists>k\<le>11000. unlocked ((\<lambda>k. if k < (3::nat) then SPIN_MASK else 5) k)"
    using five by (intro exI [of _ 3]) simp
  ultimately show ?thesis
    using spin_locks_spec [of "\<lambda>_. 0" "\<lambda>k. if k < 3 then SPIN_MASK else 5"]
      spin_locks_spec [of "\<lambda>_. 0" "\<lambda>_. SPIN_MASK"] m by simp
qed

text \<open>
  Revisions stay non-negative: the revision after \<open>v\<close> is \<open>v + 1\<close>, and the one after the greatest
  is zero, never a value that reads as a held lock.
\<close>

theorem NEXT_REV_range:
  "unlocked (NEXT_REV v) \<and> unat (NEXT_REV v) = (unat v + 1) mod 2 ^ 63 \<and> NEXT_REV SPIN_MAX = 0"
proof -
  have "NEXT_REV SPIN_MAX = 0" by (simp add: NEXT_REV_def SPIN_MAX_def LONG_MAX_def)
  then show ?thesis by (simp add: unat_NEXT_REV)
qed

end
