(* ===== verification/Seqlock.thy ===== *)
theory Seqlock
  imports Spin
begin

text \<open>
  A record of a storage under concurrent access.  Every process that writes a record follows
  the same protocol (\<open>batch_write_records\<close>, \<open>update_record\<close> of the receiver, \<open>update\<close> of the
  test writer): take the write lock, store the value and the timestamp, store the next
  revision.  Every process that reads one copies it between two looks at the revision
  (\<open>batch_read_records\<close>, the sender, the inspector).  A process that only probes a record
  (\<open>storage_find_next_unused\<close>) gives the lock back with the old revision.

  The model interleaves any number of such processes, one memory access per step.  The record's
  payload is \<open>n\<close> bytes; \<open>versions\<close> counts the commits and \<open>hist v\<close> is the payload after the
  \<open>v\<close>-th one: both are history variables that no step reads.  Memory accesses are sequentially
  consistent, which is what the \<open>__sync\<close> barriers of \<open>sync.h\<close> are there for.
\<close>

section \<open>Processes and steps\<close>

datatype wphase = WIdle | WHold u64 bool
datatype rphase = RIdle | RCopy u64 "byte list" nat | RDone u64 "byte list" nat nat

record rec_state =
  lockw :: u64
  cells :: "nat \<Rightarrow> byte"
  wpc :: "nat \<Rightarrow> wphase"
  rpc :: "nat \<Rightarrow> rphase"
  versions :: nat
  hist :: "nat \<Rightarrow> nat \<Rightarrow> byte"

definition rec_init :: "(nat \<Rightarrow> byte) \<Rightarrow> rec_state" where
  "rec_init c = \<lparr>lockw = 0, cells = c, wpc = (\<lambda>_. WIdle), rpc = (\<lambda>_. RIdle),
     versions = 0, hist = (\<lambda>_. c)\<rparr>"

inductive rec_step :: "nat \<Rightarrow> rec_state \<Rightarrow> rec_state \<Rightarrow> bool" for n :: nat where
  write_lock: "wpc s p = WIdle \<Longrightarrow> unlocked (lockw s) \<Longrightarrow>
     rec_step n s (s\<lparr>lockw := lockw s OR SPIN_MASK, wpc := (wpc s)(p := WHold (lockw s) False)\<rparr>)"
| write_wait: "wpc s p = WIdle \<Longrightarrow> \<not> unlocked (lockw s) \<Longrightarrow>
     rec_step n s (s\<lparr>lockw := lockw s OR SPIN_MASK\<rparr>)"
| write_cell: "wpc s p = WHold rv d \<Longrightarrow> i < n \<Longrightarrow>
     rec_step n s (s\<lparr>cells := (cells s)(i := b), wpc := (wpc s)(p := WHold rv True)\<rparr>)"
| write_commit: "wpc s p = WHold rv d \<Longrightarrow>
     rec_step n s (s\<lparr>lockw := NEXT_REV rv, wpc := (wpc s)(p := WIdle),
       versions := Suc (versions s), hist := (hist s)(Suc (versions s) := cells s)\<rparr>)"
| write_release: "wpc s p = WHold rv False \<Longrightarrow>
     rec_step n s (s\<lparr>lockw := rv, wpc := (wpc s)(p := WIdle)\<rparr>)"
| read_look: "rpc s p = RIdle \<Longrightarrow> unlocked (lockw s) \<Longrightarrow>
     rec_step n s (s\<lparr>rpc := (rpc s)(p := RCopy (lockw s) [] (versions s))\<rparr>)"
| read_cell: "rpc s p = RCopy rv bs v \<Longrightarrow> length bs < n \<Longrightarrow>
     rec_step n s (s\<lparr>rpc := (rpc s)(p := RCopy rv (bs @ [cells s (length bs)]) v)\<rparr>)"
| read_accept: "rpc s p = RCopy rv bs v \<Longrightarrow> length bs = n \<Longrightarrow> lockw s = rv \<Longrightarrow>
     rec_step n s (s\<lparr>rpc := (rpc s)(p := RDone rv bs v (versions s))\<rparr>)"
| read_retry: "rpc s p = RCopy rv bs v \<Longrightarrow> length bs = n \<Longrightarrow> lockw s \<noteq> rv \<Longrightarrow>
     rec_step n s (s\<lparr>rpc := (rpc s)(p := RIdle)\<rparr>)"
| read_again: "rpc s p = RDone rv bs v w \<Longrightarrow>
     rec_step n s (s\<lparr>rpc := (rpc s)(p := RIdle)\<rparr>)"

abbreviation rec_reach :: "nat \<Rightarrow> (nat \<Rightarrow> byte) \<Rightarrow> rec_state \<Rightarrow> bool" where
  "rec_reach n c \<equiv> reach (\<lambda>s. s = rec_init c) (rec_step n)"

section \<open>The invariant\<close>

text \<open>The payload of a version, as the list of its \<open>n\<close> bytes.\<close>

definition payload :: "nat \<Rightarrow> (nat \<Rightarrow> byte) \<Rightarrow> byte list" where
  "payload n c = map c [0..<n]"

definition rev_of :: "nat \<Rightarrow> u64" where
  "rev_of v = of_nat (v mod 2 ^ 63)"

text \<open>
  The lock word names the version: plainly while nobody holds the lock, masked while the one
  holder does.  The payload is the current version's until the holder writes to it.
\<close>

definition lock_inv :: "rec_state \<Rightarrow> bool" where
  "lock_inv s \<longleftrightarrow>
     (if unlocked (lockw s)
      then (\<forall>p. wpc s p = WIdle) \<and> lockw s = rev_of (versions s) \<and> cells s = hist s (versions s)
      else \<exists>p d. wpc s p = WHold (rev_of (versions s)) d \<and> (\<forall>q. q \<noteq> p \<longrightarrow> wpc s q = WIdle) \<and>
             (\<not> d \<longrightarrow> cells s = hist s (versions s)))"

definition dirty :: "rec_state \<Rightarrow> bool" where
  "dirty s \<longleftrightarrow> (\<exists>p rv. wpc s p = WHold rv True)"

fun reader_ok :: "nat \<Rightarrow> rec_state \<Rightarrow> rphase \<Rightarrow> bool" where
  "reader_ok n s RIdle = True"
| "reader_ok n s (RCopy rv bs v) \<longleftrightarrow> rv = rev_of v \<and> v \<le> versions s \<and> length bs \<le> n \<and>
     (v = versions s \<and> \<not> dirty s \<longrightarrow> bs = payload (length bs) (hist s v))"
| "reader_ok n s (RDone rv bs v w) \<longleftrightarrow> rv = rev_of v \<and> v \<le> w \<and> w \<le> versions s \<and>
     rev_of w = rev_of v \<and> (w < v + 2 ^ 63 \<longrightarrow> bs = payload n (hist s v))"

definition read_inv :: "nat \<Rightarrow> rec_state \<Rightarrow> bool" where
  "read_inv n s \<longleftrightarrow> (\<forall>p. reader_ok n s (rpc s p))"

lemma unat_rev_of: "unat (rev_of v) = v mod 2 ^ 63"
proof -
  have "v mod 2 ^ 63 < 2 ^ 64"
    by (rule order_less_trans [OF mod_less_divisor]) auto
  then show ?thesis by (simp add: rev_of_def unat_of_nat)
qed

lemma unlocked_rev_of [simp]: "unlocked (rev_of v)"
  by (simp add: unlocked_unat_less unat_rev_of)

lemma NEXT_REV_rev_of: "NEXT_REV (rev_of v) = rev_of (Suc v)"
  by (simp add: word_unat_eq_iff unat_NEXT_REV unat_rev_of mod_Suc_eq)

lemma rev_of_eq_window:
  assumes "rev_of w = rev_of v" "v \<le> w" "w < v + 2 ^ 63"
  shows "w = v"
proof -
  have "w mod 2 ^ 63 = v mod 2 ^ 63"
    using assms(1) by (metis unat_rev_of)
  with assms(2) have "2 ^ 63 dvd w - v"
    by (simp add: mod_eq_dvd_iff_nat)
  moreover have "w - v < 2 ^ 63" using assms(2,3) by linarith
  ultimately have "w - v = 0" by (meson nat_dvd_not_less not_gr_zero)
  with assms(2) show ?thesis by simp
qed

lemma payload_Suc: "payload (Suc k) c = payload k c @ [c k]"
  by (simp add: payload_def)

lemma length_payload [simp]: "length (payload n c) = n"
  by (simp add: payload_def)

lemma rec_init_inv: "lock_inv (rec_init c) \<and> read_inv n (rec_init c)"
  by (simp add: lock_inv_def read_inv_def rec_init_def rev_of_def)

lemma lock_inv_holder:
  assumes "lock_inv s" "wpc s p = WHold rv d"
  shows "\<not> unlocked (lockw s) \<and> rv = rev_of (versions s) \<and> (\<forall>q. q \<noteq> p \<longrightarrow> wpc s q = WIdle) \<and>
    (\<not> d \<longrightarrow> cells s = hist s (versions s))"
  using assms unfolding lock_inv_def
  by (cases "unlocked (lockw s)") (auto, (metis wphase.distinct(1) wphase.inject)+)

lemma rec_step_lock_inv:
  assumes "rec_step n s t" "lock_inv s"
  shows "lock_inv t"
  using assms
proof (cases rule: rec_step.cases)
  case (write_lock p)
  with assms(2) show ?thesis by (auto simp: lock_inv_def)
next
  case (write_cell p rv d i b)
  with lock_inv_holder [OF assms(2) write_cell(2)] show ?thesis by (auto simp: lock_inv_def)
next
  case (write_commit p rv d)
  with lock_inv_holder [OF assms(2) write_commit(2)] show ?thesis
    by (auto simp: lock_inv_def NEXT_REV_rev_of)
next
  case (write_release p rv)
  with lock_inv_holder [OF assms(2) write_release(2)] show ?thesis by (auto simp: lock_inv_def)
qed (auto simp: lock_inv_def locked_masked_same)


lemma free_not_dirty: "lock_inv s \<Longrightarrow> unlocked (lockw s) \<Longrightarrow> \<not> dirty s"
  by (auto simp: lock_inv_def dirty_def)

lemma not_dirty_cells: "lock_inv s \<Longrightarrow> \<not> dirty s \<Longrightarrow> cells s = hist s (versions s)"
  by (auto simp: lock_inv_def dirty_def split: if_splits)

lemma read_invD_copy:
  assumes "read_inv n s" "rpc s p = RCopy rv bs v"
  shows "rv = rev_of v" "v \<le> versions s" "length bs \<le> n"
    "v = versions s \<Longrightarrow> \<not> dirty s \<Longrightarrow> bs = payload (length bs) (hist s v)"
  using assms(1) [unfolded read_inv_def, rule_format, of p] assms(2) by auto

text \<open>
  A writer's step leaves every reader's invariant alone: it either keeps the version and makes
  the record dirty, or moves on to a version no reader has started from.
\<close>

lemma read_inv_writer:
  assumes "read_inv n s" "rpc t = rpc s" "versions s \<le> versions t"
    and "\<And>v. v \<le> versions s \<Longrightarrow> hist t v = hist s v"
    and "versions t = versions s \<Longrightarrow> \<not> dirty t \<Longrightarrow> \<not> dirty s"
  shows "read_inv n t"
  unfolding read_inv_def
proof
  fix p
  show "reader_ok n t (rpc t p)"
    using assms(1) [unfolded read_inv_def, rule_format, of p] assms(2-5)
    by (cases "rpc s p") (auto dest: order_trans)
qed

text \<open>A reader's own step needs its own new phase to be right only.\<close>

lemma reader_ok_rpc [simp]: "reader_ok n (s\<lparr>rpc := f\<rparr>) r = reader_ok n s r"
  by (cases r) (simp_all add: dirty_def)

lemma read_inv_reader:
  "read_inv n s \<Longrightarrow> t = s\<lparr>rpc := (rpc s)(p := r)\<rparr> \<Longrightarrow> reader_ok n s r \<Longrightarrow> read_inv n t"
  by (simp add: read_inv_def)

lemma rec_step_read_inv:
  assumes "rec_step n s t" "lock_inv s" "read_inv n s"
  shows "read_inv n t"
  using assms(1)
proof (cases rule: rec_step.cases)
  case (write_lock p)
  then show ?thesis
    using free_not_dirty [OF assms(2)] by (intro read_inv_writer [OF assms(3)]) auto
next
  case (write_wait p)
  then show ?thesis by (intro read_inv_writer [OF assms(3)]) (auto simp: dirty_def)
next
  case (write_cell p rv d i b)
  then have "dirty t" by (auto simp: dirty_def)
  with write_cell show ?thesis by (intro read_inv_writer [OF assms(3)]) auto
next
  case (write_commit p rv d)
  then show ?thesis by (intro read_inv_writer [OF assms(3)]) auto
next
  case (write_release p rv)
  have "\<not> dirty s"
    using lock_inv_holder [OF assms(2) write_release(2)] write_release(2)
    unfolding dirty_def by (metis wphase.distinct(1) wphase.inject)
  with write_release show ?thesis by (intro read_inv_writer [OF assms(3)]) auto
next
  case (read_look p)
  then show ?thesis
    using assms(2) by (intro read_inv_reader [OF assms(3) read_look(1)])
      (auto simp: lock_inv_def payload_def)
next
  case (read_cell p rv bs v)
  then show ?thesis
    using read_invD_copy [OF assms(3) read_cell(2)] not_dirty_cells [OF assms(2)]
    by (intro read_inv_reader [OF assms(3) read_cell(1)]) (auto simp: payload_Suc)
next
  case (read_accept p rv bs v)
  note c = read_invD_copy [OF assms(3) read_accept(2)]
  have free: "unlocked (lockw s)" using c(1) read_accept(4) by simp
  with assms(2) have rv: "rev_of (versions s) = rev_of v"
    using c(1) read_accept(4) by (simp add: lock_inv_def)
  have "versions s < v + 2 ^ 63 \<Longrightarrow> bs = payload n (hist s v)"
    using rev_of_eq_window [OF rv c(2)] c(4) free_not_dirty [OF assms(2) free] read_accept(3)
    by auto
  with rv c show ?thesis
    by (intro read_inv_reader [OF assms(3) read_accept(1)]) auto
next
  case (read_retry p rv bs v)
  then show ?thesis by (intro read_inv_reader [OF assms(3) read_retry(1)]) auto
next
  case (read_again p rv bs v w)
  then show ?thesis by (intro read_inv_reader [OF assms(3) read_again(1)]) auto
qed

interpretation shared_rec: invariant_of "\<lambda>s. s = rec_init c" "rec_step n" "\<lambda>s. lock_inv s \<and> read_inv n s" for c n
proof
  fix s
  assume "s = rec_init c"
  then show "lock_inv s \<and> read_inv n s" using rec_init_inv by simp
qed (blast intro: rec_step_lock_inv rec_step_read_inv)

section \<open>Executable runs\<close>

text \<open>
  A scheduler that performs named steps, for concrete runs.  \<open>EErase\<close> is the last step of
  \<open>storage_clear_record\<close>, which is not a step of the protocol above: once the payload is zeroed
  it stores revision zero instead of the next revision.
\<close>

datatype rec_event =
  ELock nat | EWrite nat nat byte | ECommit nat | ELook nat | ECopy nat | ECheck nat | EErase nat

fun rec_exec :: "nat \<Rightarrow> rec_state \<Rightarrow> rec_event \<Rightarrow> rec_state option" where
  "rec_exec n s (ELock p) =
     (if wpc s p = WIdle \<and> unlocked (lockw s)
      then Some (s\<lparr>lockw := lockw s OR SPIN_MASK, wpc := (wpc s)(p := WHold (lockw s) False)\<rparr>)
      else None)"
| "rec_exec n s (EWrite p i b) =
     (case wpc s p of
        WHold rv d \<Rightarrow>
          if i < n then Some (s\<lparr>cells := (cells s)(i := b), wpc := (wpc s)(p := WHold rv True)\<rparr>)
          else None
      | WIdle \<Rightarrow> None)"
| "rec_exec n s (ECommit p) =
     (case wpc s p of
        WHold rv d \<Rightarrow> Some (s\<lparr>lockw := NEXT_REV rv, wpc := (wpc s)(p := WIdle),
          versions := Suc (versions s), hist := (hist s)(Suc (versions s) := cells s)\<rparr>)
      | WIdle \<Rightarrow> None)"
| "rec_exec n s (ELook p) =
     (if rpc s p = RIdle \<and> unlocked (lockw s)
      then Some (s\<lparr>rpc := (rpc s)(p := RCopy (lockw s) [] (versions s))\<rparr>) else None)"
| "rec_exec n s (ECopy p) =
     (case rpc s p of
        RCopy rv bs v \<Rightarrow>
          if length bs < n
          then Some (s\<lparr>rpc := (rpc s)(p := RCopy rv (bs @ [cells s (length bs)]) v)\<rparr>) else None
      | _ \<Rightarrow> None)"
| "rec_exec n s (ECheck p) =
     (case rpc s p of
        RCopy rv bs v \<Rightarrow>
          if length bs = n
          then Some (s\<lparr>rpc := (rpc s)(p :=
                 if lockw s = rv then RDone rv bs v (versions s) else RIdle)\<rparr>) else None
      | _ \<Rightarrow> None)"
| "rec_exec n s (EErase p) =
     (case wpc s p of
        WHold rv d \<Rightarrow>
          if \<forall>i\<in>{0..<n}. cells s i = 0
          then Some (s\<lparr>lockw := 0, wpc := (wpc s)(p := WIdle),
                 versions := Suc (versions s), hist := (hist s)(Suc (versions s) := cells s)\<rparr>)
          else None
      | WIdle \<Rightarrow> None)"

fun rec_run :: "nat \<Rightarrow> rec_state \<Rightarrow> rec_event list \<Rightarrow> rec_state option" where
  "rec_run n s [] = Some s"
| "rec_run n s (e # es) =
     (case rec_exec n s e of None \<Rightarrow> None | Some t \<Rightarrow> rec_run n t es)"

definition step_or_erase :: "nat \<Rightarrow> rec_state \<Rightarrow> rec_state \<Rightarrow> bool" where
  "step_or_erase n s t \<longleftrightarrow> rec_step n s t \<or> (\<exists>p. rec_exec n s (EErase p) = Some t)"

abbreviation rec_reach_erase :: "nat \<Rightarrow> (nat \<Rightarrow> byte) \<Rightarrow> rec_state \<Rightarrow> bool" where
  "rec_reach_erase n c \<equiv> reach (\<lambda>s. s = rec_init c) (step_or_erase n)"

lemma rec_exec_step:
  assumes "rec_exec n s e = Some t" "\<And>p. e \<noteq> EErase p"
  shows "rec_step n s t"
  using assms
  by (cases e) (auto intro: rec_step.intros split: if_splits wphase.splits rphase.splits)

lemma rec_run_reach:
  "rec_run n s es = Some t \<Longrightarrow> rec_reach n c s \<Longrightarrow> (\<forall>p. EErase p \<notin> set es) \<Longrightarrow> rec_reach n c t"
proof (induction es arbitrary: s)
  case (Cons e es)
  then obtain u where u: "rec_exec n s e = Some u" "rec_run n u es = Some t"
    by (auto split: option.splits)
  have "rec_step n s u"
    using u(1) Cons.prems(3) by (intro rec_exec_step) auto
  with Cons.prems(2) have "rec_reach n c u" by (rule reach_step)
  with Cons.IH [OF u(2)] Cons.prems(3) show ?case by simp
qed simp

lemma rec_run_reach_erase:
  "rec_run n s es = Some t \<Longrightarrow> rec_reach_erase n c s \<Longrightarrow> rec_reach_erase n c t"
proof (induction es arbitrary: s)
  case (Cons e es)
  then obtain u where u: "rec_exec n s e = Some u" "rec_run n u es = Some t"
    by (auto split: option.splits)
  have "step_or_erase n s u"
    using u(1) rec_exec_step [OF u(1)] by (cases "\<exists>p. e = EErase p") (auto simp: step_or_erase_def simp del: rec_exec.simps)
  with Cons.prems(2) have "rec_reach_erase n c u" by (rule reach_step)
  with Cons.IH [OF u(2)] show ?case .
qed simp

section \<open>Properties\<close>

text \<open>
  C3.  A reader under any interleaving of writers and readers only ever accepts a consistent
  copy: what it returns is the whole payload of the one version whose revision it saw, provided
  fewer than \<open>2 ^ 63\<close> commits happened while it was copying (the revision wraps there).
\<close>

theorem seqlock_snapshot:
  assumes "rec_reach n c s" "rpc s p = RDone rv bs v w" "w < v + 2 ^ 63"
  shows "bs = payload n (hist s v) \<and> v = w \<and> unat rv = v mod 2 ^ 63"
proof -
  have "reader_ok n s (RDone rv bs v w)"
    using shared_rec.reach_inv [OF assms(1)] assms(2) unfolding read_inv_def by metis
  with assms(3) show ?thesis
    using rev_of_eq_window [of w v] by (auto simp: unat_rev_of)
qed

definition seqlock_demo :: rec_state where
  "seqlock_demo = the (rec_run 2 (rec_init (\<lambda>_. 0))
     [ELook 1, ELock 0, EWrite 0 0 7, ECopy 1, EWrite 0 1 9, ECommit 0, ECopy 1, ECheck 1,
      ELook 1, ECopy 1, ECopy 1, ECheck 1])"

lemma seqlock_demo_run:
  "rec_run 2 (rec_init (\<lambda>_. 0))
     [ELook 1, ELock 0, EWrite 0 0 7, ECopy 1, EWrite 0 1 9, ECommit 0, ECopy 1, ECheck 1,
      ELook 1, ECopy 1, ECopy 1, ECheck 1] = Some seqlock_demo \<and>
   rpc seqlock_demo 1 = RDone 1 [7, 9] 1 1"
  by (simp add: seqlock_demo_def rec_init_def SPIN_MASK_def unlocked_def NEXT_REV_def SPIN_MAX_def
      LONG_MAX_def)

theorem seqlock_snapshot_witness:
  "[7, 9] = payload 2 (hist seqlock_demo 1) \<and> (1::nat) = 1 \<and> unat (1::u64) = 1 mod 2 ^ 63"
proof (rule seqlock_snapshot)
  show "rec_reach 2 (\<lambda>_. 0) seqlock_demo"
    by (rule rec_run_reach [OF seqlock_demo_run [THEN conjunct1] reach_init]) simp_all
  show "rpc seqlock_demo 1 = RDone 1 [7, 9] 1 1"
    using seqlock_demo_run by simp
  show "(1::nat) < 1 + 2 ^ 63" by simp
qed



definition holder_demo :: rec_state where
  "holder_demo = the (rec_run 1 (rec_init (\<lambda>_. 0)) [ELock 3])"

lemma holder_demo_run:
  "rec_run 1 (rec_init (\<lambda>_. 0)) [ELock 3] = Some holder_demo \<and> wpc holder_demo 3 = WHold 0 False"
  by (simp add: holder_demo_def rec_init_def)


definition erase_events :: "rec_event list" where
  "erase_events = [ELook 0, ECopy 0, ELock 1, EWrite 1 0 1, EWrite 1 1 1, ECommit 1, ECopy 0,
     ELock 2, EWrite 2 0 0, EWrite 2 1 0, EErase 2, ECheck 0]"

definition erase_demo :: rec_state where
  "erase_demo = the (rec_run 2 (rec_init (\<lambda>_. 0)) erase_events)"

lemma erase_demo_run: "rec_run 2 (rec_init (\<lambda>_. 0)) erase_events = Some erase_demo"
  by (simp add: erase_demo_def erase_events_def rec_init_def SPIN_MASK_def unlocked_def
      NEXT_REV_def SPIN_MAX_def LONG_MAX_def)

lemma erase_demo_state:
  "rpc erase_demo 0 = RDone 0 [0, 1] 0 2"
  "hist erase_demo = ((\<lambda>_ _. 0)(1 := (\<lambda>_. 0)(0 := 1, 1 := 1)))(2 := (\<lambda>_. 0))"
  by (simp_all add: erase_demo_def erase_events_def rec_init_def SPIN_MASK_def unlocked_def
      NEXT_REV_def SPIN_MAX_def LONG_MAX_def fun_eq_iff numeral_2_eq_2)

text \<open>
  C19.  The consistency that \<open>seqlock_snapshot\<close> states is lost when a record is erased while it is being read: erasing
  stores revision zero, so a reader that began at revision zero accepts a copy whose bytes come
  from different versions and that no version ever held.
\<close>

theorem erase_breaks_snapshot:
  "\<exists>s v w. rec_reach_erase 2 (\<lambda>_. 0) s \<and> rpc s 0 = RDone 0 [0, 1] v w \<and> w < v + 2 ^ 63 \<and>
     (\<forall>u. payload 2 (hist s u) \<noteq> [0, 1])"
proof (intro exI conjI allI)
  show "rec_reach_erase 2 (\<lambda>_. 0) erase_demo"
    by (rule rec_run_reach_erase [OF erase_demo_run reach_init]) (rule refl)
  show "rpc erase_demo 0 = RDone 0 [0, 1] 0 2"
    by (simp add: erase_demo_state)
  show "(2::nat) < 0 + 2 ^ 63" by simp
  show "payload 2 (hist erase_demo u) \<noteq> [0, 1]" for u
    by (simp add: erase_demo_state payload_def upt_conv_Cons)
qed

end
