(* ===== verification/Storage.thy ===== *)
theory Storage
  imports Spin
begin

text \<open>
  Storages, first half of \<open>storage.c\<close>: the layout of a segment, creating, opening, closing and
  deleting a storage, and its attributes.

  A storage is a memory-mapped file.  The model keeps the mapped bytes as a memory (\<open>mem\<close>)
  addressed from the start of the segment; every process that maps the file sees the same
  memory, so an operation takes the memory and returns the new one.  The handle
  (\<open>struct storage\<close>) is the record \<open>storage\<close>; record handles are addresses within the segment.
  System calls are arguments: the environment records hold the outcome each call has.
\<close>

section \<open>Layout of a segment\<close>

text \<open>
  Offsets of the fields of \<open>struct segment\<close> and \<open>struct record\<close> on an LP64 platform, and the
  sizes of the two structures up to their trailing arrays.
\<close>

abbreviation (input) OFF_magic :: nat where "OFF_magic \<equiv> 0"
abbreviation (input) OFF_file_version :: nat where "OFF_file_version \<equiv> 4"
abbreviation (input) OFF_data_version :: nat where "OFF_data_version \<equiv> 6"
abbreviation (input) OFF_description :: nat where "OFF_description \<equiv> 8"
abbreviation (input) OFF_seg_size :: nat where "OFF_seg_size \<equiv> 264"
abbreviation (input) OFF_hdr_size :: nat where "OFF_hdr_size \<equiv> 272"
abbreviation (input) OFF_rec_size :: nat where "OFF_rec_size \<equiv> 280"
abbreviation (input) OFF_val_size :: nat where "OFF_val_size \<equiv> 288"
abbreviation (input) OFF_prop_size :: nat where "OFF_prop_size \<equiv> 296"
abbreviation (input) OFF_ts_offset :: nat where "OFF_ts_offset \<equiv> 304"
abbreviation (input) OFF_val_offset :: nat where "OFF_val_offset \<equiv> 312"
abbreviation (input) OFF_prop_offset :: nat where "OFF_prop_offset \<equiv> 320"
abbreviation (input) OFF_base_id :: nat where "OFF_base_id \<equiv> 328"
abbreviation (input) OFF_max_id :: nat where "OFF_max_id \<equiv> 336"
abbreviation (input) OFF_last_created :: nat where "OFF_last_created \<equiv> 344"
abbreviation (input) OFF_last_touched :: nat where "OFF_last_touched \<equiv> 352"
abbreviation (input) OFF_last_touched_rev :: nat where "OFF_last_touched_rev \<equiv> 360"
abbreviation (input) OFF_q_mask :: nat where "OFF_q_mask \<equiv> 368"
abbreviation (input) OFF_q_head :: nat where "OFF_q_head \<equiv> 376"
abbreviation (input) OFF_change_q :: nat where "OFF_change_q \<equiv> 1408"
abbreviation (input) SIZEOF_segment :: nat where "SIZEOF_segment \<equiv> 1416"
abbreviation (input) REC_ts :: nat where "REC_ts \<equiv> 8"
abbreviation (input) REC_val :: nat where "REC_val \<equiv> 16"

definition MAGIC_NUMBER :: u64 where "MAGIC_NUMBER = 0x0C0FFEE0"

definition DEFAULT_ALIGNMENT :: u64 where "DEFAULT_ALIGNMENT = 8"

definition ALIGNED_SIZE :: "u64 \<Rightarrow> u64 \<Rightarrow> u64" where
  "ALIGNED_SIZE sz aln = (sz - 1 + aln) AND NOT (aln - 1)"

text \<open>The sizes \<open>init_create\<close> computes, in 64-bit arithmetic.\<close>

definition create_rec_size :: "u64 \<Rightarrow> u64 \<Rightarrow> u64" where
  "create_rec_size value_size property_size =
     (let rec_sz = of_nat REC_val + ALIGNED_SIZE value_size DEFAULT_ALIGNMENT
      in if property_size > 0 then rec_sz + ALIGNED_SIZE property_size DEFAULT_ALIGNMENT
         else rec_sz)"

definition create_prop_offset :: "u64 \<Rightarrow> u64 \<Rightarrow> u64" where
  "create_prop_offset value_size property_size =
     (if property_size > 0 then of_nat REC_val + ALIGNED_SIZE value_size DEFAULT_ALIGNMENT else 0)"

definition create_hdr_size :: "u64 \<Rightarrow> u64" where
  "create_hdr_size q_capacity =
     of_nat OFF_change_q +
       ALIGNED_SIZE (8 * (if q_capacity > 0 then q_capacity else 1)) DEFAULT_ALIGNMENT"

definition create_seg_size :: "u64 \<Rightarrow> u64 \<Rightarrow> u64 \<Rightarrow> int \<Rightarrow> u64" where
  "create_seg_size page_sz hdr_sz rec_sz count =
     (hdr_sz + rec_sz * word_of_int count + page_sz - 1) AND NOT (page_sz - 1)"

section \<open>Handles\<close>

record storage =
  stg_mapped :: bool
  stg_first :: nat
  stg_limit :: nat
  stg_file :: string
  stg_mmap_size :: nat
  stg_fd :: int
  stg_read_only :: bool
  stg_persistent :: bool

definition version_get_file_major :: nat where "version_get_file_major = 1"
definition version_get_file_minor :: nat where "version_get_file_minor = 0"

text \<open>\<open>STORAGE_RECORD\<close> with a non-negative index; the record size is read from the header.\<close>

definition STORAGE_RECORD :: "mem \<Rightarrow> nat \<Rightarrow> nat \<Rightarrow> nat" where
  "STORAGE_RECORD m base idx = base + idx * unat (load64 m OFF_rec_size)"

text \<open>
  The addresses a loop \<open>for (r = from; r < limit; r = STORAGE_RECORD(stg, r, 1))\<close> visits.  A record
  size of zero, with which the C loop would not end, is excluded by the layout invariant.
\<close>

function rec_addrs :: "nat \<Rightarrow> nat \<Rightarrow> nat \<Rightarrow> nat list" where
  "rec_addrs r lim sz = (if r < lim \<and> 0 < sz then r # rec_addrs (r + sz) lim sz else [])"
  by pat_completeness auto
termination
  by (relation "measure (\<lambda>(r, lim, sz). lim - r)") auto

declare rec_addrs.simps [simp del]

section \<open>Attributes\<close>

definition storage_get_file_version :: "mem \<Rightarrow> u64" where
  "storage_get_file_version m = load 2 m OFF_file_version"

definition storage_get_data_version :: "mem \<Rightarrow> u64" where
  "storage_get_data_version m = load 2 m OFF_data_version"

definition storage_set_data_version :: "storage \<Rightarrow> mem \<Rightarrow> u64 \<Rightarrow> status \<times> mem" where
  "storage_set_data_version st m data_ver =
     (if stg_read_only st then (STORAGE_READ_ONLY, m)
      else (OK, store 2 m OFF_data_version data_ver))"

definition storage_get_base_id :: "mem \<Rightarrow> ident" where
  "storage_get_base_id m = sint (load64 m OFF_base_id)"

definition storage_get_max_id :: "mem \<Rightarrow> ident" where
  "storage_get_max_id m = sint (load64 m OFF_max_id)"

definition storage_get_segment_size :: "mem \<Rightarrow> nat" where
  "storage_get_segment_size m = unat (load64 m OFF_seg_size)"

definition storage_get_record_size :: "mem \<Rightarrow> nat" where
  "storage_get_record_size m = unat (load64 m OFF_rec_size)"

definition storage_get_value_size :: "mem \<Rightarrow> nat" where
  "storage_get_value_size m = unat (load64 m OFF_val_size)"

definition storage_get_property_size :: "mem \<Rightarrow> nat" where
  "storage_get_property_size m = unat (load64 m OFF_prop_size)"

definition storage_get_value_offset :: "mem \<Rightarrow> nat" where
  "storage_get_value_offset m = unat (load64 m OFF_val_offset)"

definition storage_get_property_offset :: "mem \<Rightarrow> nat" where
  "storage_get_property_offset m = unat (load64 m OFF_prop_offset)"

definition storage_get_timestamp_offset :: "mem \<Rightarrow> nat" where
  "storage_get_timestamp_offset m = unat (load64 m OFF_ts_offset)"

definition storage_is_read_only :: "storage \<Rightarrow> bool" where
  "storage_is_read_only st = stg_read_only st"

definition storage_set_persistence :: "storage \<Rightarrow> bool \<Rightarrow> status \<times> storage" where
  "storage_set_persistence st persist =
     (if stg_read_only st then (STORAGE_READ_ONLY, st)
      else (if stg_persistent st then TRUE_ST else FALSE_ST, st\<lparr>stg_persistent := persist\<rparr>))"

text \<open>
  Descriptions are C strings: byte lists without the terminating zero.  The field has 256 bytes.
\<close>

definition storage_get_description :: "mem \<Rightarrow> byte list" where
  "storage_get_description m = takeWhile (\<lambda>b. b \<noteq> 0) (mread m OFF_description 256)"

definition storage_set_description :: "storage \<Rightarrow> mem \<Rightarrow> byte list option \<Rightarrow> status \<times> mem" where
  "storage_set_description st m desc =
     (if stg_read_only st then (STORAGE_READ_ONLY, m)
      else case desc of
        Some d \<Rightarrow>
          if length d \<ge> 256 then (BUFFER_TOO_SMALL, m)
          else (OK, mwrite m OFF_description (d @ [0]))
      | None \<Rightarrow> (OK, mzero m OFF_description 256))"

definition storage_get_created_time :: "mem \<Rightarrow> bool \<Rightarrow> microsec result" where
  "storage_get_created_time m when_ok =
     (if \<not> when_ok then Inl error_invalid_arg else Inr (sint (load64 m OFF_last_created)))"

text \<open>With no other process on the segment the re-check of the revision succeeds at once.\<close>

definition storage_get_touched_time ::
  "(nat \<Rightarrow> status) \<Rightarrow> mem \<Rightarrow> bool \<Rightarrow> microsec result" where
  "storage_get_touched_time slp m when_ok =
     (if \<not> when_ok then Inl error_invalid_arg
      else case spin_read_lock_at slp m OFF_last_touched_rev of
        Inl st \<Rightarrow> Inl st
      | Inr rv \<Rightarrow> Inr (sint (load64 m OFF_last_touched)))"

definition storage_touch ::
  "(nat \<Rightarrow> status) \<Rightarrow> storage \<Rightarrow> mem \<Rightarrow> microsec \<Rightarrow> status \<times> mem" where
  "storage_touch slp st m usec =
     (if stg_read_only st then (STORAGE_READ_ONLY, m)
      else case spin_write_lock_at slp m OFF_last_touched_rev of
        Inl e \<Rightarrow> (e, m)
      | Inr (rv, m1) \<Rightarrow>
          (OK, spin_unlock (store64 m1 OFF_last_touched (word_of_int usec))
                 OFF_last_touched_rev (NEXT_REV rv)))"

definition storage_sync :: "status \<Rightarrow> storage \<Rightarrow> mem \<Rightarrow> status" where
  "storage_sync msync st m =
     (if stg_read_only st then STORAGE_READ_ONLY
      else if load64 m OFF_seg_size > 0 \<and> FAILED msync then msync
      else OK)"

section \<open>Creating\<close>

text \<open>Flags of \<open>open(2)\<close>, with their Linux values.\<close>

definition O_RDONLY :: u32 where "O_RDONLY = 0"
definition O_RDWR :: u32 where "O_RDWR = 2"
definition O_ACCMODE :: u32 where "O_ACCMODE = 3"
definition O_CREAT :: u32 where "O_CREAT = 0x40"
definition O_EXCL :: u32 where "O_EXCL = 0x80"
definition O_NOFOLLOW :: u32 where "O_NOFOLLOW = 0x20000"

text \<open>
  What the system calls of one \<open>init_create\<close> return: a failed call is given as the status it is
  turned into.  \<open>ce_contents\<close> is the file as it reads once it has been opened and truncated.
\<close>

record create_env =
  ce_pagesize :: u64
  ce_open :: "int result"
  ce_ftruncate :: status
  ce_fstat :: "nat result"
  ce_mmap :: status
  ce_contents :: mem
  ce_xstrdup :: bool
  ce_clock :: "microsec result"
  ce_msync :: status

definition write_header ::
  "mem \<Rightarrow> u64 \<Rightarrow> u64 \<Rightarrow> u64 \<Rightarrow> u64 \<Rightarrow> u64 \<Rightarrow> u64 \<Rightarrow> ident \<Rightarrow> ident \<Rightarrow> u64 \<Rightarrow> mem" where
  "write_header m seg_sz hdr_sz rec_sz value_size property_size prop_offset base_id max_id
     q_capacity =
     (let m = store 2 m OFF_file_version
                (of_nat (version_get_file_major * 256 + version_get_file_minor));
          m = store64 m OFF_seg_size seg_sz;
          m = store64 m OFF_hdr_size hdr_sz;
          m = store64 m OFF_rec_size rec_sz;
          m = store64 m OFF_val_size value_size;
          m = store64 m OFF_prop_size property_size;
          m = store64 m OFF_ts_offset (of_nat REC_ts);
          m = store64 m OFF_val_offset (of_nat REC_val);
          m = store64 m OFF_prop_offset prop_offset;
          m = store64 m OFF_base_id (word_of_int base_id);
          m = store64 m OFF_max_id (word_of_int max_id)
      in store64 m OFF_q_mask (q_capacity - 1))"

definition header_unequal ::
  "mem \<Rightarrow> u64 \<Rightarrow> u64 \<Rightarrow> u64 \<Rightarrow> u64 \<Rightarrow> u64 \<Rightarrow> u64 \<Rightarrow> u64 \<Rightarrow> byte list option \<Rightarrow> bool" where
  "header_unequal m seg_sz hdr_sz rec_sz value_size property_size prop_offset q_capacity desc \<longleftrightarrow>
     load64 m OFF_seg_size \<noteq> seg_sz \<or>
     load64 m OFF_hdr_size \<noteq> hdr_sz \<or>
     load64 m OFF_rec_size \<noteq> rec_sz \<or>
     load64 m OFF_val_size \<noteq> value_size \<or>
     load64 m OFF_prop_size \<noteq> property_size \<or>
     load64 m OFF_ts_offset \<noteq> of_nat REC_ts \<or>
     load64 m OFF_val_offset \<noteq> of_nat REC_val \<or>
     load64 m OFF_prop_offset \<noteq> prop_offset \<or>
     load64 m OFF_q_mask \<noteq> q_capacity - 1 \<or>
     (case desc of None \<Rightarrow> m OFF_description \<noteq> 0
      | Some d \<Rightarrow> d \<noteq> storage_get_description m)"

text \<open>Records left locked by a process that died are given back.\<close>

fun unlock_records :: "mem \<Rightarrow> nat list \<Rightarrow> mem" where
  "unlock_records m [] = m"
| "unlock_records m (r # rs) =
     unlock_records
       (if sint (load64 m r) < 0 then store64 m r (load64 m r AND NOT SPIN_MASK) else m) rs"

text \<open>The tail of \<open>init_create\<close>, after the header has been written or compared.\<close>

definition create_finish ::
  "create_env \<Rightarrow> u32 \<Rightarrow> storage \<Rightarrow> mem \<Rightarrow> u64 \<Rightarrow> int \<Rightarrow> status \<times> storage \<times> mem" where
  "create_finish e open_flags st m hdr_sz count =
     (let first = unat hdr_sz;
          limit = STORAGE_RECORD m first (nat count);
          st = st\<lparr>stg_first := first, stg_limit := limit\<rparr>;
          m = (if open_flags AND (O_CREAT OR O_EXCL) \<noteq> (O_CREAT OR O_EXCL)
               then unlock_records m (rec_addrs first limit (storage_get_record_size m)) else m)
      in case ce_clock e of
        Inl err \<Rightarrow> (err, st, m)
      | Inr now \<Rightarrow>
          let m = store64 m OFF_last_created (word_of_int now);
              m = (if open_flags AND O_CREAT \<noteq> 0 then store 4 m OFF_magic MAGIC_NUMBER else m)
          in (storage_sync (ce_msync e) st m, st, m))"

definition init_create ::
  "create_env \<Rightarrow> string \<Rightarrow> u32 \<Rightarrow> bool \<Rightarrow> ident \<Rightarrow> ident \<Rightarrow> u64 \<Rightarrow> u64 \<Rightarrow> u64 \<Rightarrow>
     byte list option \<Rightarrow> status \<times> storage \<times> mem" where
  "init_create e mmap_file open_flags persist base_id max_id value_size property_size
     q_capacity desc =
     (let rec_sz = create_rec_size value_size property_size;
          prop_offset = create_prop_offset value_size property_size;
          hdr_sz = create_hdr_size q_capacity;
          seg_sz = create_seg_size (ce_pagesize e) hdr_sz rec_sz (max_id - base_id);
          st = \<lparr>stg_mapped = False, stg_first = 0, stg_limit = 0, stg_file = [],
                stg_mmap_size = 0, stg_fd = -1, stg_read_only = False,
                stg_persistent = persist\<rparr>;
          m = ce_contents e
      in case ce_open e of
        Inl err \<Rightarrow> (err, st, m)
      | Inr fd \<Rightarrow>
        let st = st\<lparr>stg_fd := fd\<rparr>;
            sized = (if open_flags AND O_CREAT \<noteq> 0 then ce_ftruncate e
                     else case ce_fstat e of
                            Inl err \<Rightarrow> err
                          | Inr st_size \<Rightarrow> if st_size \<noteq> unat seg_sz then STORAGE_UNEQUAL else OK)
        in if FAILED sized then (sized, st, m)
           else if FAILED (ce_mmap e) then (ce_mmap e, st, m)
           else let st = st\<lparr>stg_mapped := True, stg_mmap_size := unat seg_sz\<rparr>
           in if \<not> ce_xstrdup e then (NO_MEMORY, st, m)
           else let st = st\<lparr>stg_file := mmap_file\<rparr>
           in if open_flags AND O_CREAT \<noteq> 0 then
                let m = write_header m seg_sz hdr_sz rec_sz value_size property_size prop_offset
                          base_id max_id q_capacity
                in case storage_set_description st m desc of
                     (res, m) \<Rightarrow>
                       if FAILED res then (res, st, m)
                       else create_finish e open_flags st m hdr_sz (max_id - base_id)
              else if unat (storage_get_file_version m) div 256 \<noteq> version_get_file_major
                then (WRONG_FILE_VERSION, st, m)
              else if header_unequal m seg_sz hdr_sz rec_sz value_size property_size prop_offset
                        q_capacity desc
                then (STORAGE_UNEQUAL, st, m)
              else create_finish e open_flags st m hdr_sz (max_id - base_id))"

section \<open>Closing and deleting\<close>

definition SHM_PREFIX :: string where "SHM_PREFIX = ''shm:''"

text \<open>\<open>res\<close> is \<open>None\<close> when \<open>shm_unlink\<close> or \<open>unlink\<close> succeeds and its \<open>errno\<close> otherwise.\<close>

definition storage_delete :: "int option \<Rightarrow> int option \<Rightarrow> string \<Rightarrow> bool \<Rightarrow> status" where
  "storage_delete shm_unlink_res unlink_res mmap_file force =
     (let res = (if take 4 mmap_file = SHM_PREFIX then shm_unlink_res else unlink_res)
      in case res of
           None \<Rightarrow> OK
         | Some e \<Rightarrow> if e \<noteq> ENOENT \<or> \<not> force then error_errno e else OK)"

record destroy_env =
  de_close :: status
  de_munmap :: status
  de_delete :: status

text \<open>The handle is gone (\<open>None\<close>) only when everything has been released.\<close>

definition storage_destroy :: "destroy_env \<Rightarrow> storage option \<Rightarrow> status \<times> storage option" where
  "storage_destroy e h =
     (case h of
        None \<Rightarrow> (OK, None)
      | Some st \<Rightarrow>
          if stg_fd st \<noteq> -1 \<and> FAILED (de_close e) then (de_close e, Some st)
          else let st = st\<lparr>stg_fd := -1\<rparr>
          in if stg_mapped st \<and> FAILED (de_munmap e) then (de_munmap e, Some st)
          else if stg_mapped st \<and> \<not> stg_persistent st \<and> FAILED (de_delete e)
            then (de_delete e, Some (st\<lparr>stg_mapped := False\<rparr>))
          else (OK, None))"

definition storage_create ::
  "create_env \<Rightarrow> destroy_env \<Rightarrow> bool \<Rightarrow> bool \<Rightarrow> string option \<Rightarrow> u32 \<Rightarrow> bool \<Rightarrow> ident \<Rightarrow>
     ident \<Rightarrow> u64 \<Rightarrow> u64 \<Rightarrow> u64 \<Rightarrow> byte list option \<Rightarrow> status \<times> storage option \<times> mem" where
  "storage_create e de malloc_ok pstore_ok file open_flags persist base_id max_id value_size property_size
     q_capacity desc =
     (case file of
        None \<Rightarrow> (error_invalid_arg, None, ce_contents e)
      | Some mmap_file \<Rightarrow>
          if \<not> pstore_ok \<or> max_id \<le> base_id \<or> value_size = 0
            then (error_invalid_arg, None, ce_contents e)
          else if q_capacity = 1 \<or> q_capacity AND (q_capacity - 1) \<noteq> 0
            then (INVALID_CAPACITY, None, ce_contents e)
          else if open_flags AND O_ACCMODE \<noteq> O_RDWR \<or>
                  open_flags AND NOT (O_RDWR OR O_CREAT OR O_EXCL OR O_NOFOLLOW) \<noteq> 0
            then (INVALID_OPEN_FLAGS, None, ce_contents e)
          else if \<not> malloc_ok then (NO_MEMORY, None, ce_contents e)
          else case init_create e mmap_file open_flags persist base_id max_id value_size
                      property_size q_capacity desc of
                 (res, st, m) \<Rightarrow>
                   if FAILED res then (res, snd (storage_destroy de (Some st)), m)
                   else (res, Some st, m))"

section \<open>Opening\<close>

record open_env =
  oe_open :: "int result"
  oe_fstat :: "nat result"
  oe_mmap_header :: status
  oe_munmap :: status
  oe_mmap :: status
  oe_contents :: mem
  oe_xstrdup :: bool

definition init_open :: "open_env \<Rightarrow> string \<Rightarrow> u32 \<Rightarrow> status \<times> storage" where
  "init_open e mmap_file open_flags =
     (let st = \<lparr>stg_mapped = False, stg_first = 0, stg_limit = 0, stg_file = [],
                stg_mmap_size = 0, stg_fd = -1,
                stg_read_only = (open_flags AND O_ACCMODE = O_RDONLY),
                stg_persistent = True\<rparr>;
          m = oe_contents e
      in case oe_open e of
        Inl err \<Rightarrow> (err, st)
      | Inr fd \<Rightarrow>
        let st = st\<lparr>stg_fd := fd\<rparr>
        in case oe_fstat e of
          Inl err \<Rightarrow> (err, st)
        | Inr st_size \<Rightarrow>
          if st_size < SIZEOF_segment then (STORAGE_CORRUPTED, st)
          else if FAILED (oe_mmap_header e) then (oe_mmap_header e, st)
          else let st = st\<lparr>stg_mapped := True, stg_mmap_size := SIZEOF_segment\<rparr>
          in if load 4 m OFF_magic \<noteq> MAGIC_NUMBER then (STORAGE_CORRUPTED, st)
          else if unat (storage_get_file_version m) div 256 \<noteq> version_get_file_major
            then (WRONG_FILE_VERSION, st)
          else if FAILED (oe_munmap e) then (oe_munmap e, st)
          else if FAILED (oe_mmap e) then (oe_mmap e, st\<lparr>stg_mapped := False\<rparr>)
          else let st = st\<lparr>stg_mmap_size := storage_get_segment_size m\<rparr>
          in if \<not> oe_xstrdup e then (NO_MEMORY, st)
          else let first = unat (load64 m OFF_hdr_size)
          in (OK, st\<lparr>stg_file := mmap_file, stg_first := first,
                stg_limit := STORAGE_RECORD m first
                  (nat (storage_get_max_id m - storage_get_base_id m))\<rparr>))"

definition storage_open ::
  "open_env \<Rightarrow> destroy_env \<Rightarrow> bool \<Rightarrow> bool \<Rightarrow> string option \<Rightarrow> u32 \<Rightarrow> status \<times> storage option" where
  "storage_open e de malloc_ok pstore_ok file open_flags =
     (case file of
        None \<Rightarrow> (error_invalid_arg, None)
      | Some mmap_file \<Rightarrow>
          if \<not> pstore_ok then (error_invalid_arg, None)
          else if open_flags AND O_ACCMODE \<noteq> O_RDONLY \<and> open_flags AND O_ACCMODE \<noteq> O_RDWR \<or>
             open_flags AND NOT (O_RDONLY OR O_RDWR OR O_NOFOLLOW) \<noteq> 0
            then (INVALID_OPEN_FLAGS, None)
          else if \<not> malloc_ok then (NO_MEMORY, None)
          else case init_open e mmap_file open_flags of
                 (res, st) \<Rightarrow>
                   if FAILED res then (res, snd (storage_destroy de (Some st)))
                   else (res, Some st))"


section \<open>Size arithmetic\<close>

text \<open>The reference for the 64-bit computations: sizes over the naturals.\<close>

definition align8 :: "nat \<Rightarrow> nat" where
  "align8 n = (n + 7) div 8 * 8"

definition ref_rec_size :: "nat \<Rightarrow> nat \<Rightarrow> nat" where
  "ref_rec_size v p = 16 + align8 v + (if 0 < p then align8 p else 0)"

definition ref_hdr_size :: "nat \<Rightarrow> nat" where
  "ref_hdr_size q = 1408 + 8 * (if 0 < q then q else 1)"

text \<open>
  The requested storage fits into the address space: \<open>k\<close> is the binary logarithm of the page size.
\<close>

definition create_fits :: "nat \<Rightarrow> u64 \<Rightarrow> u64 \<Rightarrow> u64 \<Rightarrow> int \<Rightarrow> bool" where
  "create_fits k value_size property_size q_capacity count \<longleftrightarrow> k < 64 \<and> 0 < count \<and>
     ref_hdr_size (unat q_capacity) +
       ref_rec_size (unat value_size) (unat property_size) * nat count + 2 ^ k \<le> 2 ^ 64"

lemma and_not_mask_unat: "unat ((w :: u64) AND NOT (mask k)) = unat w div 2 ^ k * 2 ^ k"
proof -
  have "unat (w AND NOT (mask k)) = push_bit k (drop_bit k (unat w))"
  proof (rule bit_eqI)
    fix n
    show "bit (unat (w AND NOT (mask k))) n \<longleftrightarrow> bit (push_bit k (drop_bit k (unat w))) n"
      by (auto simp: bit_simps dest: bit_imp_le_length)
  qed
  then show ?thesis
    by (simp add: push_bit_eq_mult drop_bit_eq_div)
qed

lemma unat_add_u64: "unat a + unat b < 2 ^ 64 \<Longrightarrow> unat (a + b :: u64) = unat a + unat b"
  by (simp add: unat_word_ariths)

lemma unat_mult_u64: "unat a * unat b < 2 ^ 64 \<Longrightarrow> unat (a * b :: u64) = unat a * unat b"
  by (simp add: unat_word_ariths)

lemma unat_mask_u64:
  assumes "k < 64"
  shows "unat (2 ^ k - 1 :: u64) = 2 ^ k - 1"
proof -
  have "unat (mask k :: u64) = mask k"
    using assms by (auto intro!: bit_eqI simp: bit_simps)
  then show ?thesis by (simp add: mask_eq_decr_exp mask_nat_def)
qed

lemma align8_ge: "n \<le> align8 n" "align8 n < n + 8"
  by (simp_all add: align8_def)

lemma align8_mod [simp]: "align8 n mod 8 = 0"
  by (simp add: align8_def)

lemma unat_ALIGNED_SIZE:
  assumes "unat sz + 7 < 2 ^ 64"
  shows "unat (ALIGNED_SIZE sz DEFAULT_ALIGNMENT) = align8 (unat sz)"
proof -
  have "ALIGNED_SIZE sz DEFAULT_ALIGNMENT = (sz + 7) AND NOT (mask 3)"
    by (simp add: ALIGNED_SIZE_def DEFAULT_ALIGNMENT_def mask_eq_decr_exp add.commute)
  then have "unat (ALIGNED_SIZE sz DEFAULT_ALIGNMENT) = unat (sz + 7) div 2 ^ 3 * 2 ^ 3"
    by (simp only: and_not_mask_unat)
  moreover have "unat (sz + 7) = unat sz + 7" using assms by (subst unat_add_u64) auto
  ultimately show ?thesis by (simp add: align8_def)
qed

lemma create_fits_bounds:
  assumes "create_fits k v p q count"
  shows "unat v + 7 < 2 ^ 64" "0 < p \<Longrightarrow> unat p + 7 < 2 ^ 64"
    "8 * (if 0 < unat q then unat q else 1) + 7 < 2 ^ 64"
    "ref_hdr_size (unat q) < 2 ^ 64" "ref_rec_size (unat v) (unat p) < 2 ^ 64"
    "ref_rec_size (unat v) (unat p) * nat count < 2 ^ 64"
proof -
  have "ref_rec_size (unat v) (unat p) * 1 \<le> ref_rec_size (unat v) (unat p) * nat count"
    using assms unfolding create_fits_def by (intro mult_le_mono2) auto
  then have r: "ref_hdr_size (unat q) + ref_rec_size (unat v) (unat p) + 2 ^ k \<le> 2 ^ 64"
    and h: "ref_hdr_size (unat q) + ref_rec_size (unat v) (unat p) * nat count + 2 ^ k \<le> 2 ^ 64"
    using assms unfolding create_fits_def by linarith+
  have pk: "(0::nat) < 2 ^ k" by simp
  have hq: "1408 \<le> ref_hdr_size (unat q)" by (simp add: ref_hdr_size_def)
  have rv: "unat v \<le> ref_rec_size (unat v) (unat p)"
    "0 < p \<Longrightarrow> unat p \<le> ref_rec_size (unat v) (unat p)"
    using align8_ge(1) [of "unat v"] align8_ge(1) [of "unat p"]
    by (auto simp: ref_rec_size_def word_less_nat_alt)
  from r hq rv show "unat v + 7 < 2 ^ 64" "0 < p \<Longrightarrow> unat p + 7 < 2 ^ 64"
    "8 * (if 0 < unat q then unat q else 1) + 7 < 2 ^ 64" "ref_hdr_size (unat q) < 2 ^ 64"
    "ref_rec_size (unat v) (unat p) < 2 ^ 64"
    using r pk unfolding ref_hdr_size_def by linarith+
  from h hq show "ref_rec_size (unat v) (unat p) * nat count < 2 ^ 64" by linarith
qed

lemma unat_create_rec_size:
  assumes "create_fits k v p q count"
  shows "unat (create_rec_size v p) = ref_rec_size (unat v) (unat p)"
    and "unat (create_prop_offset v p) = (if 0 < unat p then 16 + align8 (unat v) else 0)"
proof -
  note b = create_fits_bounds [OF assms]
  have v: "unat (16 + ALIGNED_SIZE v DEFAULT_ALIGNMENT) = 16 + align8 (unat v)"
    using b(1,5) by (subst unat_add_u64) (auto simp: unat_ALIGNED_SIZE ref_rec_size_def)
  show "unat (create_prop_offset v p) = (if 0 < unat p then 16 + align8 (unat v) else 0)"
    using v by (simp add: create_prop_offset_def word_less_nat_alt)
  show "unat (create_rec_size v p) = ref_rec_size (unat v) (unat p)"
  proof (cases "0 < p")
    case True
    then have "unat (create_rec_size v p) =
        unat (16 + ALIGNED_SIZE v DEFAULT_ALIGNMENT) + unat (ALIGNED_SIZE p DEFAULT_ALIGNMENT)"
      using b(2,5) v unfolding create_rec_size_def Let_def
      by (simp, subst unat_add_u64) (auto simp: unat_ALIGNED_SIZE ref_rec_size_def word_less_nat_alt)
    with True b(2) v show ?thesis
      by (simp add: unat_ALIGNED_SIZE ref_rec_size_def word_less_nat_alt)
  next
    case False
    with v show ?thesis
      by (simp add: create_rec_size_def Let_def ref_rec_size_def word_less_nat_alt)
  qed
qed

lemma unat_create_hdr_size:
  assumes "create_fits k v p q count"
  shows "unat (create_hdr_size q) = ref_hdr_size (unat q)"
proof -
  note b = create_fits_bounds [OF assms]
  let ?c = "8 * (if 0 < q then q else 1) :: u64"
  have c: "unat ?c = 8 * (if 0 < unat q then unat q else 1)"
    using b(3) by (subst unat_mult_u64) (auto simp: word_less_nat_alt)
  then have "unat (ALIGNED_SIZE ?c DEFAULT_ALIGNMENT) = unat ?c"
    using b(3) by (subst unat_ALIGNED_SIZE) (auto simp: align8_def)
  with c b(4) show ?thesis
    unfolding create_hdr_size_def by (subst unat_add_u64) (auto simp: ref_hdr_size_def)
qed

lemma unat_create_seg_size:
  assumes "create_fits k v p q count"
  shows "unat (create_seg_size (2 ^ k) (create_hdr_size q) (create_rec_size v p) count) =
    (ref_hdr_size (unat q) + ref_rec_size (unat v) (unat p) * nat count + 2 ^ k - 1)
      div 2 ^ k * 2 ^ k"
proof -
  note b = create_fits_bounds [OF assms]
  let ?h = "create_hdr_size q" and ?r = "create_rec_size v p" and ?c = "word_of_int count :: u64"
  let ?n = "ref_hdr_size (unat q) + ref_rec_size (unat v) (unat p) * nat count"
  have pk: "(0::nat) < 2 ^ k" by simp
  have k: "k < 64" "0 < count" "?n + 2 ^ k \<le> 2 ^ 64"
    using assms by (auto simp: create_fits_def)
  have "ref_rec_size (unat v) (unat p) \<noteq> 0" by (simp add: ref_rec_size_def)
  then have "1 * nat count \<le> ref_rec_size (unat v) (unat p) * nat count"
    by (intro mult_le_mono1) simp
  with b(6) have "nat count < 2 ^ 64" by linarith
  then have c: "unat ?c = nat count"
    using k(2) by (simp add: unat_eq_nat_uint uint_word_of_int nat_less_iff)
  have rc: "unat (?r * ?c) = ref_rec_size (unat v) (unat p) * nat count"
    using b(6) c unat_create_rec_size(1) [OF assms] by (subst unat_mult_u64) auto
  have hrc: "unat (?h + ?r * ?c) = ?n"
    using k(3) pk rc unat_create_hdr_size [OF assms] by (subst unat_add_u64) linarith+
  have m: "unat (2 ^ k - 1 :: u64) = 2 ^ k - 1"
    using k(1) by (rule unat_mask_u64)
  have "unat (?h + ?r * ?c + (2 ^ k - 1)) = ?n + (2 ^ k - 1)"
    using k(3) hrc m by (subst unat_add_u64) auto
  moreover have "create_seg_size (2 ^ k) ?h ?r count =
      (?h + ?r * ?c + (2 ^ k - 1)) AND NOT (mask k)"
    by (simp add: create_seg_size_def mask_eq_decr_exp add_diff_eq)
  ultimately show ?thesis
    by (simp add: and_not_mask_unat)
qed


section \<open>The layout invariant\<close>

text \<open>
  What the rest of the code relies on: the header's sizes describe records that do not overlap
  the change queue or each other, with the value and the property apart, all inside the segment;
  and the handle's pointers are those of the header.
\<close>

definition queue_slots :: "mem \<Rightarrow> nat" where
  "queue_slots m = (if load64 m OFF_q_mask = -1 then 1 else unat (load64 m OFF_q_mask) + 1)"

definition storage_count :: "mem \<Rightarrow> nat" where
  "storage_count m = nat (storage_get_max_id m - storage_get_base_id m)"

definition layout_ok :: "mem \<Rightarrow> bool" where
  "layout_ok m \<longleftrightarrow>
     storage_get_base_id m < storage_get_max_id m \<and>
     0 < storage_get_value_size m \<and>
     16 + storage_get_value_size m \<le>
       (if 0 < storage_get_property_size m then storage_get_property_offset m
        else storage_get_record_size m) \<and>
     (if 0 < storage_get_property_size m
      then storage_get_property_offset m + storage_get_property_size m \<le> storage_get_record_size m
      else storage_get_property_offset m = 0) \<and>
     storage_get_record_size m mod 8 = 0 \<and>
     unat (load64 m OFF_hdr_size) mod 8 = 0 \<and>
     (load64 m OFF_q_mask = -1 \<or> (\<exists>k. 0 < k \<and> k < 64 \<and> load64 m OFF_q_mask = 2 ^ k - 1)) \<and>
     OFF_change_q + 8 * queue_slots m \<le> unat (load64 m OFF_hdr_size) \<and>
     unat (load64 m OFF_hdr_size) + storage_get_record_size m * storage_count m
       \<le> storage_get_segment_size m"

definition stg_ok :: "storage \<Rightarrow> mem \<Rightarrow> bool" where
  "stg_ok st m \<longleftrightarrow> layout_ok m \<and> stg_mapped st \<and>
     stg_first st = unat (load64 m OFF_hdr_size) \<and>
     stg_limit st = stg_first st + storage_get_record_size m * storage_count m \<and>
     stg_mmap_size st = storage_get_segment_size m"

text \<open>Two memories with the same layout fields.\<close>

definition same_layout :: "mem \<Rightarrow> mem \<Rightarrow> bool" where
  "same_layout m m' \<longleftrightarrow>
     (\<forall>a. OFF_seg_size \<le> a \<and> a < OFF_last_created \<or> OFF_q_mask \<le> a \<and> a < OFF_q_head \<longrightarrow>
        m' a = m a)"

lemmas layout_getters =
  storage_get_base_id_def storage_get_max_id_def storage_get_segment_size_def
  storage_get_record_size_def storage_get_value_size_def storage_get_property_size_def
  storage_get_property_offset_def storage_get_value_offset_def storage_get_timestamp_offset_def

lemma same_layout_load:
  assumes "same_layout m m'" "264 \<le> a \<and> a + 8 \<le> 344 \<or> a = 368"
  shows "load64 m' a = load64 m a"
  using assms by (intro load_cong) (auto simp: same_layout_def)

lemma same_layout_fields:
  assumes "same_layout m m'"
  shows "storage_get_base_id m' = storage_get_base_id m"
    "storage_get_max_id m' = storage_get_max_id m"
    "storage_get_segment_size m' = storage_get_segment_size m"
    "storage_get_record_size m' = storage_get_record_size m"
    "storage_get_value_size m' = storage_get_value_size m"
    "storage_get_property_size m' = storage_get_property_size m"
    "storage_get_property_offset m' = storage_get_property_offset m"
    "load64 m' OFF_hdr_size = load64 m OFF_hdr_size"
    "load64 m' OFF_q_mask = load64 m OFF_q_mask"
    "storage_count m' = storage_count m"
    "queue_slots m' = queue_slots m"
  using assms by (simp_all add: layout_getters storage_count_def queue_slots_def same_layout_load)

lemma same_layout_ok: "same_layout m m' \<Longrightarrow> layout_ok m' = layout_ok m"
  by (simp add: layout_ok_def same_layout_fields)

lemma same_layout_stg_ok: "same_layout m m' \<Longrightarrow> stg_ok st m' = stg_ok st m"
  by (simp add: stg_ok_def same_layout_ok same_layout_fields)

lemma same_layout_refl [simp]: "same_layout m m"
  by (simp add: same_layout_def)

lemma same_layout_trans: "same_layout m m' \<Longrightarrow> same_layout m' m'' \<Longrightarrow> same_layout m m''"
  by (simp add: same_layout_def)

text \<open>An address range that holds no layout field.\<close>

definition off_layout :: "nat \<Rightarrow> nat \<Rightarrow> bool" where
  "off_layout a n \<longleftrightarrow> a + n \<le> OFF_seg_size \<or> OFF_last_created \<le> a \<and> a + n \<le> OFF_q_mask \<or>
     OFF_q_head \<le> a"

lemma same_layout_mwrite: "off_layout a (length bs) \<Longrightarrow> same_layout m (mwrite m a bs)"
  by (auto simp: same_layout_def off_layout_def mwrite_def)

lemma same_layout_store: "off_layout a k \<Longrightarrow> same_layout m (store k m a w)"
  by (simp add: store_def same_layout_mwrite)

lemma same_layout_mzero: "off_layout a k \<Longrightarrow> same_layout m (mzero m a k)"
  by (simp add: mzero_def same_layout_mwrite)

lemmas same_layout_writes = same_layout_mwrite same_layout_store same_layout_mzero

lemma layout_okD:
  assumes "layout_ok m"
  shows "storage_get_base_id m < storage_get_max_id m" "0 < storage_count m"
    "0 < storage_get_value_size m"
    "16 + storage_get_value_size m \<le> storage_get_record_size m"
    "0 < storage_get_property_size m \<Longrightarrow>
       16 + storage_get_value_size m \<le> storage_get_property_offset m"
    "0 < storage_get_property_size m \<Longrightarrow>
       storage_get_property_offset m + storage_get_property_size m \<le> storage_get_record_size m"
    "storage_get_property_size m = 0 \<Longrightarrow> storage_get_property_offset m = 0"
    "OFF_change_q + 8 * queue_slots m \<le> unat (load64 m OFF_hdr_size)"
    "OFF_change_q < unat (load64 m OFF_hdr_size)"
    "unat (load64 m OFF_hdr_size) + storage_get_record_size m * storage_count m
       \<le> storage_get_segment_size m"
proof -
  show "OFF_change_q < unat (load64 m OFF_hdr_size)"
    using assms by (auto simp: layout_ok_def queue_slots_def split: if_splits)
qed (use assms in \<open>auto simp: layout_ok_def storage_count_def split: if_splits\<close>)

lemma stg_okD:
  assumes "stg_ok st m"
  shows "layout_ok m" "stg_first st = unat (load64 m OFF_hdr_size)"
    "stg_limit st = stg_first st + storage_get_record_size m * storage_count m"
    "OFF_change_q < stg_first st" "stg_limit st \<le> storage_get_segment_size m"
    "stg_mmap_size st = storage_get_segment_size m"
  using assms layout_okD by (auto simp: stg_ok_def)

subsection \<open>Record addresses\<close>

lemma rec_addrs_eq:
  "0 < sz \<Longrightarrow> rec_addrs r (r + sz * n) sz = map (\<lambda>i. r + sz * i) [0..<n]"
proof (induction n arbitrary: r)
  case 0
  then show ?case by (subst rec_addrs.simps) simp
next
  case (Suc n)
  have "rec_addrs r (r + sz * Suc n) sz = r # rec_addrs (r + sz) (r + sz + sz * n) sz"
    using Suc.prems by (subst rec_addrs.simps) (simp add: add.assoc)
  also have "\<dots> = r # map (\<lambda>i. r + sz * Suc i) [0..<n]"
    using Suc.IH [OF Suc.prems, of "r + sz"] by (simp add: add.assoc)
  also have "\<dots> = map (\<lambda>i. r + sz * i) [0..<Suc n]"
    by (simp add: upt_conv_Cons map_Suc_upt [symmetric] del: upt_Suc)
  finally show ?case .
qed

lemma rec_addrs_ge: "a \<in> set (rec_addrs r lim sz) \<Longrightarrow> r \<le> a \<and> a < lim"
proof (induction r lim sz rule: rec_addrs.induct)
  case (1 r lim sz)
  then show ?case
    by (cases "r < lim \<and> 0 < sz") (auto simp: rec_addrs.simps [of r lim sz])
qed

definition record_at :: "storage \<Rightarrow> mem \<Rightarrow> nat \<Rightarrow> nat" where
  "record_at st m i = stg_first st + storage_get_record_size m * i"

definition storage_records :: "storage \<Rightarrow> mem \<Rightarrow> nat list" where
  "storage_records st m = map (record_at st m) [0..<storage_count m]"

lemma rec_addrs_storage:
  assumes "stg_ok st m"
  shows "rec_addrs (stg_first st) (stg_limit st) (storage_get_record_size m) = storage_records st m"
proof -
  have "0 < storage_get_record_size m"
    using layout_okD(4) [OF stg_okD(1) [OF assms]] by simp
  then show ?thesis
    by (simp add: stg_okD(3) [OF assms] rec_addrs_eq storage_records_def record_at_def)
qed

lemma record_at_apart:
  assumes "i < j"
  shows "record_at st m i + storage_get_record_size m \<le> record_at st m j"
proof -
  have "storage_get_record_size m * Suc i \<le> storage_get_record_size m * j"
    using assms by (intro mult_le_mono2) simp
  then show ?thesis by (simp add: record_at_def)
qed

lemma record_at_limit:
  assumes "stg_ok st m" "i < storage_count m"
  shows "record_at st m i + storage_get_record_size m \<le> stg_limit st"
  using record_at_apart [OF assms(2), of st m] stg_okD(3) [OF assms(1)]
  by (simp add: record_at_def)

lemma record_at_inj:
  "stg_ok st m \<Longrightarrow> record_at st m i = record_at st m j \<longleftrightarrow> i = j"
  using layout_okD(4) [OF stg_okD(1), of st m] by (auto simp: record_at_def)

lemma record_at_first: "stg_first st \<le> record_at st m i"
  by (simp add: record_at_def)

lemma STORAGE_RECORD_next: "STORAGE_RECORD m (record_at st m i) 1 = record_at st m (Suc i)"
  by (simp add: STORAGE_RECORD_def record_at_def storage_get_record_size_def)

lemma STORAGE_RECORD_first: "STORAGE_RECORD m (stg_first st) i = record_at st m i"
  by (simp add: STORAGE_RECORD_def record_at_def storage_get_record_size_def)


subsection \<open>Powers of two\<close>

lemma and_pred_pow2_nat: "n AND (n - 1) = 0 \<Longrightarrow> 0 < n \<Longrightarrow> \<exists>k. n = 2 ^ k" for n :: nat
proof (induction n rule: less_induct)
  case (less n)
  show ?case
  proof (cases "even n")
    case True
    then obtain j where j: "n = 2 * j" by blast
    with less.prems have "0 < j" by simp
    moreover have "(2 * j - Suc 0) div 2 = j - Suc 0" using \<open>0 < j\<close> by presburger
    ultimately have "n AND (n - 1) = 2 * (j AND (j - 1))"
      using j by (subst and_rec) auto
    with less.prems \<open>0 < j\<close> j less.IH [of j] obtain k where "j = 2 ^ k" by auto
    with j have "n = 2 ^ Suc k" by simp
    then show ?thesis ..
  next
    case False
    then have "n AND (n - 1) = n - 1"
      by (subst and_rec) (auto elim!: oddE)
    with less.prems have "n = 2 ^ 0" by simp
    then show ?thesis ..
  qed
qed

lemma capacity_mask:
  fixes q :: u64
  assumes "q AND (q - 1) = 0" "q \<noteq> 1" "q \<noteq> 0"
  shows "\<exists>k. 0 < k \<and> k < 64 \<and> q - 1 = 2 ^ k - 1 \<and> unat q = 2 ^ k"
proof -
  have "0 < unat q" using assms(3) by (simp add: unat_gt_0)
  have q1: "unat (q - 1) = unat q - 1" using assms(3) by (simp add: unat_minus_one)
  have "unat q AND (unat q - 1) = 0"
    using arg_cong [OF assms(1), of unat] by (simp add: unsigned_and_eq q1)
  then obtain k where k: "unat q = 2 ^ k"
    using and_pred_pow2_nat \<open>0 < unat q\<close> by blast
  have "unat q < 2 ^ 64" using unsigned_less [of q] by simp
  with k have "k < 64" by (metis nat_power_less_imp_less zero_less_numeral)
  moreover have "k \<noteq> 0"
    using k assms(2) by (metis power_0 unat_1 word_unat_eq_iff)
  moreover have "q = 2 ^ k"
  proof -
    have "q = of_nat (unat q)" by simp
    also have "\<dots> = 2 ^ k" unfolding k by simp
    finally show ?thesis .
  qed
  ultimately show ?thesis using k by auto
qed

section \<open>What creating a storage establishes\<close>

lemma unlock_records_other:
  "(\<forall>r\<in>set rs. a < r \<or> r + 8 \<le> a) \<Longrightarrow> unlock_records m rs a = m a"
  by (induction rs arbitrary: m) (auto simp: store_other)

text \<open>The header but for the magic number and the creation time.\<close>

definition same_header :: "mem \<Rightarrow> mem \<Rightarrow> bool" where
  "same_header m m' \<longleftrightarrow>
     (\<forall>a. OFF_file_version \<le> a \<and> a < OFF_last_created \<or> OFF_last_touched \<le> a \<and> a < OFF_change_q \<longrightarrow>
        m' a = m a)"

lemma same_header_layout: "same_header m m' \<Longrightarrow> same_layout m m'"
  by (simp add: same_header_def same_layout_def)

lemma same_header_description:
  assumes "same_header m m'"
  shows "storage_get_description m' = storage_get_description m"
proof -
  have "mread m' OFF_description 256 = mread m OFF_description 256"
    using assms by (intro mread_cong) (auto simp: same_header_def)
  then show ?thesis by (simp add: storage_get_description_def)
qed

lemma create_finish_OK:
  assumes "create_finish e flags st m hdr count = (res, st', m')" "\<not> FAILED res"
    and "OFF_change_q \<le> unat hdr"
  shows "st' = st\<lparr>stg_first := unat hdr,
           stg_limit := unat hdr + storage_get_record_size m * nat count\<rparr> \<and>
         same_header m m'"
proof -
  let ?rs = "rec_addrs (unat hdr) (STORAGE_RECORD m (unat hdr) (nat count)) (storage_get_record_size m)"
  have "a < OFF_change_q \<Longrightarrow> unlock_records m ?rs a = m a" for a
    using assms(3) by (intro unlock_records_other) (auto dest!: rec_addrs_ge)
  then show ?thesis
    using assms(1,2)
    by (auto simp: create_finish_def Let_def same_header_def store_other STORAGE_RECORD_def
        storage_get_record_size_def storage_sync_def status_defs mult.commute
        split: sum.splits if_splits)
qed

lemma write_header_loads:
  "write_header m0 sz h r v p po b x q = m \<Longrightarrow>
    load64 m OFF_seg_size = sz \<and> load64 m OFF_hdr_size = h \<and> load64 m OFF_rec_size = r \<and>
    load64 m OFF_val_size = v \<and> load64 m OFF_prop_size = p \<and> load64 m OFF_prop_offset = po \<and>
    load64 m OFF_base_id = word_of_int b \<and> load64 m OFF_max_id = word_of_int x \<and>
    load64 m OFF_q_mask = q - 1"
  by (auto simp: write_header_def Let_def mem_simps)

lemma storage_set_description_layout:
  assumes "storage_set_description st m desc = (res, m')"
  shows "same_layout m m'"
  using assms
  by (auto simp: storage_set_description_def off_layout_def split: if_splits option.splits
      intro!: same_layout_writes)


text \<open>A call that fails gives a failure status: what \<open>error_errno\<close> and \<open>error_eintr\<close> return.\<close>

definition create_env_ok :: "create_env \<Rightarrow> bool" where
  "create_env_ok e \<longleftrightarrow>
     (case ce_open e of Inl err \<Rightarrow> FAILED err | Inr _ \<Rightarrow> True) \<and>
     (case ce_fstat e of Inl err \<Rightarrow> FAILED err | Inr _ \<Rightarrow> True) \<and>
     (case ce_clock e of Inl err \<Rightarrow> FAILED err | Inr _ \<Rightarrow> True)"

lemma init_create_creat:
  assumes "create_env_ok e" and "init_create e f flags persist b x v p q d = (res, st, m)" "\<not> FAILED res"
    and "flags AND O_CREAT \<noteq> 0"
  obtains st0 m1 m2 r where
    "m1 = write_header (ce_contents e)
       (create_seg_size (ce_pagesize e) (create_hdr_size q) (create_rec_size v p) (x - b))
       (create_hdr_size q) (create_rec_size v p) v p (create_prop_offset v p) b x q"
    "storage_set_description st0 m1 d = (r, m2)" "\<not> FAILED r"
    "create_finish e flags st0 m2 (create_hdr_size q) (x - b) = (res, st, m)"
    "stg_mapped st0" "\<not> stg_read_only st0" "stg_persistent st0 = persist" "stg_file st0 = f"
    "stg_mmap_size st0 =
       unat (create_seg_size (ce_pagesize e) (create_hdr_size q) (create_rec_size v p) (x - b))"
  using assms unfolding init_create_def Let_def create_env_ok_def
  by (auto simp: status_defs split: sum.splits if_splits prod.splits)

lemma storage_create_created:
  assumes "storage_create e de mo po file flags persist b x v p q d = (res, Some st, m)"
    and "\<not> FAILED res"
  shows "init_create e (the file) flags persist b x v p q d = (res, st, m)"
    "b < x" "v \<noteq> 0" "q \<noteq> 1" "q AND (q - 1) = 0"
  using assms by (auto simp: storage_create_def status_defs split: option.splits if_splits prod.splits)

lemma storage_set_description_get:
  assumes "storage_set_description st m desc = (res, m')" "\<not> FAILED res"
    and "\<forall>d. desc = Some d \<longrightarrow> 0 \<notin> set d"
  shows "storage_get_description m' = (case desc of None \<Rightarrow> [] | Some d \<Rightarrow> d)"
proof (cases desc)
  case None
  with assms show ?thesis
    by (auto simp: storage_set_description_def storage_get_description_def mread_mzero_same
        status_defs takeWhile_replicate split: if_splits)
next
  case (Some d)
  with assms have m': "m' = mwrite m OFF_description (d @ [0])" and len: "length d < 256"
    by (auto simp: storage_set_description_def status_defs split: if_splits)
  have "mread m' OFF_description (Suc (length d) + (255 - length d)) =
      mread m' OFF_description (Suc (length d)) @ mread m' (OFF_description + Suc (length d)) (255 - length d)"
    by (rule mread_add)
  moreover have "mread m' OFF_description (Suc (length d)) = d @ [0]"
    unfolding m' by (rule mread_mwrite_same) simp
  ultimately have "mread m' OFF_description 256 = d @ 0 # mread m' (OFF_description + Suc (length d)) (255 - length d)"
    using len by simp
  moreover have "takeWhile (\<lambda>b. b \<noteq> 0) (d @ 0 # bs) = d" for bs
    using assms(3) Some by (subst takeWhile_append2) auto
  ultimately show ?thesis
    using Some by (simp add: storage_get_description_def)
qed

lemma create_layout_ok:
  assumes "create_fits k v p q (x - b)" "b < x" "v \<noteq> 0" "q \<noteq> 1" "q AND (q - 1) = 0"
    and "is_long b" "is_long x"
    and "load64 m OFF_seg_size =
      create_seg_size (2 ^ k) (create_hdr_size q) (create_rec_size v p) (x - b)"
    and "load64 m OFF_hdr_size = create_hdr_size q" "load64 m OFF_rec_size = create_rec_size v p"
    and "load64 m OFF_val_size = v" "load64 m OFF_prop_size = p"
    and "load64 m OFF_prop_offset = create_prop_offset v p"
    and "load64 m OFF_base_id = word_of_int b" "load64 m OFF_max_id = word_of_int x"
    and "load64 m OFF_q_mask = q - 1"
  shows "layout_ok m"
proof -
  note sz = unat_create_rec_size [OF assms(1)] unat_create_hdr_size [OF assms(1)]
    unat_create_seg_size [OF assms(1)]
  let ?n = "ref_hdr_size (unat q) + ref_rec_size (unat v) (unat p) * nat (x - b)"
  have "?n \<le> (?n + 2 ^ k - 1) div 2 ^ k * 2 ^ k"
  proof -
    have "?n + 2 ^ k - 1 = (?n + 2 ^ k - 1) div 2 ^ k * 2 ^ k + (?n + 2 ^ k - 1) mod 2 ^ k"
      by (rule div_mult_mod_eq [symmetric])
    moreover have "(?n + 2 ^ k - 1) mod 2 ^ k < 2 ^ k" by simp
    ultimately show ?thesis by linarith
  qed
  moreover have "queue_slots m = (if 0 < unat q then unat q else 1)"
    using assms(16) by (auto simp: queue_slots_def unat_minus_one unat_gt_0)
  moreover have "ref_rec_size (unat v) (unat p) mod 8 = 0" "ref_hdr_size (unat q) mod 8 = 0"
    by (auto simp: ref_rec_size_def ref_hdr_size_def mod_add_eq [symmetric])
  moreover have "unat v \<le> align8 (unat v)" "unat p \<le> align8 (unat p)"
    by (rule align8_ge)+
  moreover have "storage_get_base_id m = b" "storage_get_max_id m = x"
    "storage_get_value_size m = unat v" "storage_get_property_size m = unat p"
    "storage_get_record_size m = ref_rec_size (unat v) (unat p)"
    "unat (load64 m OFF_hdr_size) = ref_hdr_size (unat q)"
    "storage_get_property_offset m = (if 0 < unat p then 16 + align8 (unat v) else 0)"
    "storage_get_segment_size m = (?n + 2 ^ k - 1) div 2 ^ k * 2 ^ k"
    using assms(6-) sz by (simp_all add: layout_getters)
  moreover have "load64 m OFF_q_mask = -1 \<or> (\<exists>k. 0 < k \<and> k < 64 \<and> load64 m OFF_q_mask = 2 ^ k - 1)"
    using capacity_mask [OF assms(5,4)] assms(16) by auto
  moreover have "0 < unat v" using assms(3) by (simp add: unat_gt_0)
  ultimately show ?thesis
    using assms(2) unfolding layout_ok_def storage_count_def
    by (simp add: ref_rec_size_def ref_hdr_size_def)
qed

lemma unlock_records_unlocked:
  assumes "\<forall>r\<in>set rs. \<forall>r'\<in>set rs. r = r' \<or> r + 8 \<le> r' \<or> r' + 8 \<le> r"
    and "r \<in> set rs \<or> unlocked (load64 m r) \<and> (\<forall>r'\<in>set rs. r + 8 \<le> r' \<or> r' + 8 \<le> r \<or> r = r')"
  shows "unlocked (load64 (unlock_records m rs) r)"
  using assms
proof (induction rs arbitrary: m)
  case Nil
  then show ?case by simp
next
  case (Cons r' rs)
  let ?m = "if sint (load64 m r') < 0 then store64 m r' (load64 m r' AND NOT SPIN_MASK) else m"
  have "r \<in> set rs \<or> unlocked (load64 ?m r) \<and> (\<forall>r''\<in>set rs. r + 8 \<le> r'' \<or> r'' + 8 \<le> r \<or> r = r'')"
  proof (cases "r = r'")
    case True
    then show ?thesis
      using Cons.prems by (auto simp: unlocked_unmask not_unlocked [symmetric])
  next
    case False
    then show ?thesis
      using Cons.prems by (auto simp: mem_simps)
  qed
  with Cons.IH [of ?m] Cons.prems(1) show ?case by simp
qed

lemma storage_records_apart:
  assumes "stg_ok st m" "r \<in> set (storage_records st m)" "r' \<in> set (storage_records st m)"
  shows "r = r' \<or> r + 8 \<le> r' \<or> r' + 8 \<le> r"
proof -
  obtain i j where ij: "r = record_at st m i" "r' = record_at st m j"
    using assms(2,3) by (auto simp: storage_records_def)
  have "16 \<le> storage_get_record_size m"
    using layout_okD(4) [OF stg_okD(1) [OF assms(1)]] by simp
  then show ?thesis
    using record_at_apart [of i j st m] record_at_apart [of j i st m]
    by (cases i j rule: linorder_cases) (auto simp: ij)
qed

lemma create_finish_unlocked:
  assumes "create_finish e flags st0 m0 hdr count = (res, st, m)" "\<not> FAILED res"
    and "create_env_ok e" "flags AND (O_CREAT OR O_EXCL) \<noteq> (O_CREAT OR O_EXCL)"
    and "stg_ok st m" "storage_get_record_size m0 = storage_get_record_size m"
    and "r \<in> set (storage_records st m)"
  shows "unlocked (load64 m r)"
proof -
  let ?rs = "rec_addrs (stg_first st) (stg_limit st) (storage_get_record_size m0)"
  have "OFF_change_q < r"
    using assms(7) stg_okD(4) [OF assms(5)]
    by (auto simp: storage_records_def intro: less_le_trans [OF _ record_at_first])
  moreover have "unlocked (load64 (unlock_records m0 ?rs) r)"
    using assms(5,7) storage_records_apart [OF assms(5)]
    by (intro unlock_records_unlocked) (auto simp: rec_addrs_storage assms(6))
  moreover have "load64 m r = load64 (unlock_records m0 ?rs) r"
  proof -
    have "\<exists>now. m = (let m1 = store64 (unlock_records m0 ?rs) OFF_last_created (word_of_int now)
        in if flags AND O_CREAT \<noteq> 0 then store 4 m1 OFF_magic MAGIC_NUMBER else m1)"
      using assms(1-4)
      by (auto simp: create_finish_def Let_def create_env_ok_def split: sum.splits if_splits)
    then show ?thesis
      using \<open>OFF_change_q < r\<close> by (auto simp: Let_def mem_simps)
  qed
  ultimately show ?thesis by simp
qed

text \<open>Everything a successful \<open>init_create\<close> with \<open>O_CREAT\<close> leaves behind.\<close>

lemma init_create_layout:
  assumes "create_env_ok e" "init_create e f flags persist b x v p q d = (res, st, m)"
    and "\<not> FAILED res" "flags AND O_CREAT \<noteq> 0" "ce_pagesize e = 2 ^ k"
    and "create_fits k v p q (x - b)" "b < x" "v \<noteq> 0" "q \<noteq> 1" "q AND (q - 1) = 0"
    and "is_long b" "is_long x"
  shows "stg_ok st m" "\<not> stg_read_only st" "stg_persistent st = persist" "stg_file st = f"
    "storage_get_base_id m = b" "storage_get_max_id m = x"
    "storage_get_value_size m = unat v" "storage_get_property_size m = unat p"
    "load64 m OFF_q_mask = q - 1"
proof -
  from init_create_creat [OF assms(1-4)] obtain st0 m1 m2 r where
    m1: "write_header (ce_contents e)
       (create_seg_size (ce_pagesize e) (create_hdr_size q) (create_rec_size v p) (x - b))
       (create_hdr_size q) (create_rec_size v p) v p (create_prop_offset v p) b x q = m1"
    and m2: "storage_set_description st0 m1 d = (r, m2)"
    and fin: "create_finish e flags st0 m2 (create_hdr_size q) (x - b) = (res, st, m)"
    and st0: "stg_mapped st0" "\<not> stg_read_only st0" "stg_persistent st0 = persist" "stg_file st0 = f"
    "stg_mmap_size st0 =
       unat (create_seg_size (ce_pagesize e) (create_hdr_size q) (create_rec_size v p) (x - b))"
    by metis
  have "OFF_change_q \<le> unat (create_hdr_size q)"
    using unat_create_hdr_size [OF assms(6)] by (simp add: ref_hdr_size_def)
  note fin = create_finish_OK [OF fin assms(3) this]
  have same: "same_layout m1 m"
    using storage_set_description_layout [OF m2] same_header_layout fin same_layout_trans by blast
  note ld = write_header_loads [OF m1]
  note ld = ld [folded same_layout_load [OF same, of OFF_seg_size, simplified]
      same_layout_load [OF same, of OFF_hdr_size, simplified]
      same_layout_load [OF same, of OFF_rec_size, simplified]
      same_layout_load [OF same, of OFF_val_size, simplified]
      same_layout_load [OF same, of OFF_prop_size, simplified]
      same_layout_load [OF same, of OFF_prop_offset, simplified]
      same_layout_load [OF same, of OFF_base_id, simplified]
      same_layout_load [OF same, of OFF_max_id, simplified]
      same_layout_load [OF same, of OFF_q_mask, simplified]]
  have lay: "layout_ok m"
    using ld assms(5) by (intro create_layout_ok [OF assms(6-12)]) simp_all
  show f: "storage_get_base_id m = b" "storage_get_max_id m = x"
    "storage_get_value_size m = unat v" "storage_get_property_size m = unat p"
    "load64 m OFF_q_mask = q - 1"
    using ld assms(11,12) by (simp_all add: layout_getters)
  have "storage_get_record_size m2 = storage_get_record_size m"
    using same_layout_fields(4) [OF same_header_layout] fin by auto
  with lay fin f st0 ld show "stg_ok st m"
    by (simp add: stg_ok_def storage_count_def) (simp add: storage_get_segment_size_def)
  from fin st0 show "\<not> stg_read_only st" "stg_persistent st = persist" "stg_file st = f"
    by simp_all
qed

section \<open>Properties\<close>

definition c_string :: "byte list \<Rightarrow> bool" where
  "c_string d \<longleftrightarrow> 0 \<notin> set d"

lemma storage_created:
  assumes "storage_create e de mo po file flags persist b x v p q d = (res, Some st, m)"
    and "\<not> FAILED res" "create_env_ok e" "flags AND O_CREAT \<noteq> 0" "ce_pagesize e = 2 ^ k"
    and "create_fits k v p q (x - b)" "is_long b" "is_long x" "\<forall>s. d = Some s \<longrightarrow> c_string s"
  shows "stg_ok st m \<and> \<not> stg_read_only st \<and> stg_persistent st = persist \<and> file = Some (stg_file st) \<and>
    storage_get_base_id m = b \<and> storage_get_max_id m = x \<and>
    storage_get_value_size m = unat v \<and> storage_get_property_size m = unat p \<and>
    storage_get_description m = (case d of None \<Rightarrow> [] | Some s \<Rightarrow> s) \<and>
    load64 m OFF_q_mask + 1 = q \<and> (q = 0 \<or> (\<exists>j. 0 < j \<and> unat q = 2 ^ j)) \<and>
    load64 m OFF_q_head = load64 (ce_contents e) OFF_q_head \<and>
    (flags AND O_EXCL = 0 \<longrightarrow> (\<forall>r\<in>set (storage_records st m). unlocked (load64 m r)))"
proof -
  note c = storage_create_created [OF assms(1,2)]
  note lay = init_create_layout [OF assms(3) c(1) assms(2,4-6) c(2-5) assms(7,8)]
  from init_create_creat [OF assms(3) c(1) assms(2,4)] obtain st0 m1 m2 r where
    m1: "m1 = write_header (ce_contents e)
       (create_seg_size (ce_pagesize e) (create_hdr_size q) (create_rec_size v p) (x - b))
       (create_hdr_size q) (create_rec_size v p) v p (create_prop_offset v p) b x q"
    and m2: "storage_set_description st0 m1 d = (r, m2)" "\<not> FAILED r"
    and fin: "create_finish e flags st0 m2 (create_hdr_size q) (x - b) = (res, st, m)"
    by metis
  have "OFF_change_q \<le> unat (create_hdr_size q)"
    using unat_create_hdr_size [OF assms(6)] by (simp add: ref_hdr_size_def)
  note same = conjunct2 [OF create_finish_OK [OF fin assms(2) this]]
  have "storage_get_description m = (case d of None \<Rightarrow> [] | Some s \<Rightarrow> s)"
    using storage_set_description_get [OF m2] assms(9) same_header_description [OF same]
    by (simp add: c_string_def)
  moreover have "unlocked (load64 m r)"
    if "flags AND O_EXCL = 0" "r \<in> set (storage_records st m)" for r
  proof (rule create_finish_unlocked [OF fin assms(2,3) _ lay(1) _ that(2)])
    have "bit flags 7 = False"
      using that(1) bit_and_iff [of flags O_EXCL 7] by (simp add: O_EXCL_def bit_simps)
    moreover have "bit (O_CREAT OR O_EXCL) 7"
      by (simp add: O_EXCL_def O_CREAT_def)
    ultimately show "flags AND (O_CREAT OR O_EXCL) \<noteq> O_CREAT OR O_EXCL"
      by (metis bit_and_iff)
    show "storage_get_record_size m2 = storage_get_record_size m"
      using same_layout_fields(4) [OF same_header_layout [OF same]] by simp
  qed
  moreover have "q = 0 \<or> (\<exists>j. 0 < j \<and> unat q = 2 ^ j)"
    using capacity_mask [OF c(5,4)] by blast
  moreover have "load64 m OFF_q_head = load64 (ce_contents e) OFF_q_head"
  proof -
    have "load64 m OFF_q_head = load64 m2 OFF_q_head"
      using same by (intro load_cong) (simp add: same_header_def)
    also have "\<dots> = load64 m1 OFF_q_head"
      using m2(1) by (auto simp: storage_set_description_def mem_simps split: if_splits option.splits)
    also have "\<dots> = load64 (ce_contents e) OFF_q_head"
      by (simp add: m1 write_header_def Let_def mem_simps)
    finally show ?thesis .
  qed
  ultimately show ?thesis
    using lay assms(1) by (auto simp: storage_create_def split: option.splits)
qed

text \<open>
  C10.  A storage created with \<open>O_CREAT\<close> is well formed: when \<open>storage_create\<close> reports success, the
  header and the handle satisfy the layout invariant (records, values and properties lie inside
  the segment and do not overlap), the attributes are the ones asked for, the queue capacity
  is zero or a power of two greater than one, the queue head of an existing file is kept, and,
  unless the file had to be new, no record is left locked.  The hypotheses are that the sizes do not exceed the address space and that system
  calls report failures by failure statuses.
\<close>

theorem storage_create_establishes:
  assumes "storage_create e de mo po file flags persist b x v p q d = (res, Some st, m)"
    and "\<not> FAILED res" "create_env_ok e" "flags AND O_CREAT \<noteq> 0" "ce_pagesize e = 2 ^ k"
    and "create_fits k v p q (x - b)" "is_long b" "is_long x" "\<forall>s. d = Some s \<longrightarrow> c_string s"
  shows "stg_ok st m \<and> \<not> stg_read_only st \<and> stg_persistent st = persist \<and> file = Some (stg_file st) \<and>
    storage_get_base_id m = b \<and> storage_get_max_id m = x \<and>
    storage_get_value_size m = unat v \<and> storage_get_property_size m = unat p \<and>
    storage_get_description m = (case d of None \<Rightarrow> [] | Some s \<Rightarrow> s) \<and>
    load64 m OFF_q_mask + 1 = q \<and> (q = 0 \<or> (\<exists>j. 0 < j \<and> unat q = 2 ^ j)) \<and>
    load64 m OFF_q_head = load64 (ce_contents e) OFF_q_head \<and>
    (flags AND O_EXCL = 0 \<longrightarrow> (\<forall>r\<in>set (storage_records st m). unlocked (load64 m r)))"
  by (rule storage_created [OF assms])

text \<open>An environment in which every call succeeds, on a file of zeros.\<close>

definition fresh_env :: "mem \<Rightarrow> create_env" where
  "fresh_env contents = \<lparr>ce_pagesize = 4096, ce_open = Inr 3, ce_ftruncate = OK, ce_fstat = Inr 0,
     ce_mmap = OK, ce_contents = contents, ce_xstrdup = True, ce_clock = Inr 1000, ce_msync = OK\<rparr>"

definition close_ok :: destroy_env where
  "close_ok = \<lparr>de_close = OK, de_munmap = OK, de_delete = OK\<rparr>"

lemma fresh_env_ok [simp]: "create_env_ok (fresh_env c)" "ce_pagesize (fresh_env c) = 2 ^ 12"
  by (simp_all add: create_env_ok_def fresh_env_def)

lemma fresh_create:
  "\<exists>st m. storage_create (fresh_env c) close_ok True True (Some f) (O_RDWR OR O_CREAT) persist b x v p q d
     = (OK, Some st, m)"
  if "b < x" "v \<noteq> 0" "q \<noteq> 1" "q AND (q - 1) = 0" "\<forall>s. d = Some s \<longrightarrow> length s < 256"
proof -
  have "O_RDWR OR O_CREAT = 0x42" "(0x42 :: u32) AND O_ACCMODE = O_RDWR"
    "(0x42 :: u32) AND NOT (O_RDWR OR O_CREAT OR O_EXCL OR O_NOFOLLOW) = 0"
    "(0x42 :: u32) AND O_CREAT \<noteq> 0"
    by (simp_all add: O_RDWR_def O_CREAT_def O_ACCMODE_def O_EXCL_def O_NOFOLLOW_def)
  with that show ?thesis
    by (auto simp: storage_create_def init_create_def Let_def fresh_env_def create_finish_def
        storage_sync_def storage_set_description_def status_defs split: option.splits)
qed

theorem storage_create_establishes_witness:
  "\<exists>st m. storage_create (fresh_env (\<lambda>_. 0)) close_ok True True (Some ''f'') (O_RDWR OR O_CREAT) True
      10 20 12 4 8 (Some [65, 66]) = (OK, Some st, m) \<and>
    stg_ok st m \<and> storage_get_base_id m = 10 \<and> storage_get_description m = [65, 66]"
proof -
  obtain st m where c: "storage_create (fresh_env (\<lambda>_. 0)) close_ok True True (Some ''f'')
      (O_RDWR OR O_CREAT) True 10 20 12 4 8 (Some [65, 66]) = (OK, Some st, m)"
    using fresh_create [of 10 20 12 8 "Some [65, 66]" "\<lambda>_. 0" "''f''" True 4] by auto
  have "create_fits 12 12 4 8 (20 - 10)"
    by (simp add: create_fits_def ref_hdr_size_def ref_rec_size_def align8_def)
  moreover have "(O_RDWR OR O_CREAT) AND O_CREAT \<noteq> 0" by (simp add: O_RDWR_def O_CREAT_def)
  ultimately show ?thesis
    using storage_create_establishes [OF c, of 12] c
    by (auto simp: is_long_def LONG_MAX_def LONG_MIN_def c_string_def status_defs)
qed

text \<open>What the header of an initialised segment has besides its layout.\<close>

definition signed_segment :: "mem \<Rightarrow> bool" where
  "signed_segment m \<longleftrightarrow> load 4 m OFF_magic = MAGIC_NUMBER \<and>
     unat (storage_get_file_version m) div 256 = version_get_file_major"

definition open_calls_ok :: "open_env \<Rightarrow> bool" where
  "open_calls_ok e \<longleftrightarrow> (\<exists>fd. oe_open e = Inr fd) \<and> \<not> FAILED (oe_mmap_header e) \<and>
     \<not> FAILED (oe_munmap e) \<and> \<not> FAILED (oe_mmap e) \<and> oe_xstrdup e"

lemma init_create_signed:
  assumes "create_env_ok e" "init_create e f flags persist b x v p q d = (res, st, m)"
    and "\<not> FAILED res" "flags AND O_CREAT \<noteq> 0" "create_fits k v p q (x - b)"
  shows "signed_segment m"
proof -
  from init_create_creat [OF assms(1-4)] obtain st0 m1 m2 r where
    m1: "m1 = write_header (ce_contents e)
       (create_seg_size (ce_pagesize e) (create_hdr_size q) (create_rec_size v p) (x - b))
       (create_hdr_size q) (create_rec_size v p) v p (create_prop_offset v p) b x q"
    and m2: "storage_set_description st0 m1 d = (r, m2)"
    and fin: "create_finish e flags st0 m2 (create_hdr_size q) (x - b) = (res, st, m)"
    by metis
  have "OFF_change_q \<le> unat (create_hdr_size q)"
    using unat_create_hdr_size [OF assms(5)] by (simp add: ref_hdr_size_def)
  note same = conjunct2 [OF create_finish_OK [OF fin assms(3) this]]
  have "storage_get_file_version m = storage_get_file_version m2"
    using same unfolding storage_get_file_version_def
    by (intro load_cong) (auto simp: same_header_def)
  also have "\<dots> = storage_get_file_version m1"
    using m2 by (auto simp: storage_set_description_def storage_get_file_version_def mem_simps
        split: if_splits option.splits)
  also have "\<dots> = 256"
    by (simp add: m1 write_header_def Let_def storage_get_file_version_def mem_simps load_store_same
        version_get_file_major_def version_get_file_minor_def)
  finally have "storage_get_file_version m = 256" .
  moreover have "load 4 m OFF_magic = MAGIC_NUMBER"
    using fin assms(1,3,4)
    by (auto simp: create_finish_def Let_def create_env_ok_def load_store_same MAGIC_NUMBER_def
        split: sum.splits)
  ultimately show ?thesis
    by (simp add: signed_segment_def version_get_file_major_def)
qed

lemma storage_open_handle:
  assumes "stg_ok st m" "signed_segment m" "open_calls_ok e" "oe_contents e = m"
    and "oe_fstat e = Inr sz" "storage_get_segment_size m \<le> sz" "flags \<in> {O_RDONLY, O_RDWR}"
  shows "\<exists>st'. storage_open e de True True (Some f) flags = (OK, Some st') \<and> stg_ok st' m \<and>
    stg_first st' = stg_first st \<and> stg_limit st' = stg_limit st \<and>
    stg_read_only st' = (flags = O_RDONLY) \<and> stg_file st' = f"
proof -
  have "SIZEOF_segment \<le> storage_get_segment_size m"
    using layout_okD(4,8-10) [OF stg_okD(1) [OF assms(1)]] layout_okD(2) [OF stg_okD(1) [OF assms(1)]]
    by (auto simp: queue_slots_def split: if_splits)
  with assms show ?thesis
    by (auto simp: storage_open_def init_open_def Let_def open_calls_ok_def signed_segment_def
        stg_ok_def STORAGE_RECORD_def storage_count_def storage_get_record_size_def status_defs
        O_RDONLY_def O_RDWR_def O_ACCMODE_def O_NOFOLLOW_def mult.commute)
qed

text \<open>
  C27.  What one process creates, another can open: after a successful \<open>storage_create\<close> with
  \<open>O_CREAT\<close>, \<open>storage_open\<close> on the same file returns a handle with the same first record and
  limit, which again satisfies the layout invariant; it is read-only exactly when the file was
  opened with \<open>O_RDONLY\<close>.
\<close>

theorem storage_create_open:
  assumes "storage_create e de mo po file flags persist b x v p q d = (res, Some st, m)"
    and "\<not> FAILED res" "create_env_ok e" "flags AND O_CREAT \<noteq> 0" "ce_pagesize e = 2 ^ k"
    and "create_fits k v p q (x - b)" "is_long b" "is_long x"
    and "open_calls_ok oe" "oe_contents oe = m" "oe_fstat oe = Inr sz"
    and "storage_get_segment_size m \<le> sz" "oflags \<in> {O_RDONLY, O_RDWR}"
  shows "\<exists>st'. storage_open oe de True True file oflags = (OK, Some st') \<and> stg_ok st' m \<and>
    stg_first st' = stg_first st \<and> stg_limit st' = stg_limit st \<and>
    stg_read_only st' = (oflags = O_RDONLY)"
proof -
  note c = storage_create_created [OF assms(1,2)]
  obtain f where "file = Some f"
    using assms(1) by (auto simp: storage_create_def split: option.splits)
  moreover have "stg_ok st m"
    by (rule init_create_layout(1) [OF assms(3) c(1) assms(2,4-6) c(2-5) assms(7,8)])
  moreover have "signed_segment m"
    by (rule init_create_signed [OF assms(3) c(1) assms(2,4,6)])
  ultimately show ?thesis
    using storage_open_handle [of st m oe sz oflags de f] assms(9-13) by auto
qed

theorem storage_create_open_witness:
  "\<exists>st m st'. storage_create (fresh_env (\<lambda>_. 7)) close_ok True True (Some ''f'') (O_RDWR OR O_CREAT)
      True 0 4 8 0 0 None = (OK, Some st, m) \<and>
    storage_open \<lparr>oe_open = Inr 4, oe_fstat = Inr (storage_get_segment_size m), oe_mmap_header = OK,
      oe_munmap = OK, oe_mmap = OK, oe_contents = m, oe_xstrdup = True\<rparr> close_ok True True
      (Some ''f'') O_RDONLY = (OK, Some st') \<and> stg_ok st' m"
proof -
  obtain st m where c: "storage_create (fresh_env (\<lambda>_. 7)) close_ok True True (Some ''f'')
      (O_RDWR OR O_CREAT) True 0 4 8 0 0 None = (OK, Some st, m)"
    using fresh_create [of 0 4 8 0 None "\<lambda>_. 7" "''f''" True 0] by auto
  let ?oe = "\<lparr>oe_open = Inr 4, oe_fstat = Inr (storage_get_segment_size m), oe_mmap_header = OK,
      oe_munmap = OK, oe_mmap = OK, oe_contents = m, oe_xstrdup = True\<rparr>"
  have "create_fits 12 8 0 0 (4 - 0)"
    by (simp add: create_fits_def ref_hdr_size_def ref_rec_size_def align8_def)
  moreover have "(O_RDWR OR O_CREAT) AND O_CREAT \<noteq> 0" by (simp add: O_RDWR_def O_CREAT_def)
  ultimately have "\<exists>st'. storage_open ?oe close_ok True True (Some ''f'') O_RDONLY = (OK, Some st') \<and>
      stg_ok st' m \<and> stg_first st' = stg_first st \<and> stg_limit st' = stg_limit st \<and>
      stg_read_only st' = (O_RDONLY = O_RDONLY)"
    by (intro storage_create_open [OF c, where k = 12 and sz = "storage_get_segment_size m"])
      (simp_all add: is_long_def LONG_MAX_def LONG_MIN_def status_defs open_calls_ok_def)
  with c show ?thesis by blast
qed



text \<open>
  The size of the segment is computed without an overflow check: sixteen records of a value
  of two to the sixty bytes give a segment of one page.
\<close>

theorem create_seg_size_wraps:
  "create_seg_size 4096 (create_hdr_size 0) (create_rec_size (2 ^ 60) 0) 16 = 4096"
  by (simp add: create_seg_size_def create_hdr_size_def create_rec_size_def ALIGNED_SIZE_def
      DEFAULT_ALIGNMENT_def)

text \<open>
  Touching a storage is read back: a successful \<open>storage_touch\<close> stores the time and gives the
  lock back with the next revision, and the next \<open>storage_get_touched_time\<close> returns that time; a
  lock left held makes both fail.
\<close>

theorem storage_touch_get_touched_time:
  assumes "\<not> stg_read_only st" "is_long usec"
  shows "if unlocked (load64 m OFF_last_touched_rev)
    then \<exists>m'. storage_touch slp st m usec = (OK, m') \<and>
      storage_get_touched_time slp' m' True = Inr usec \<and>
      load64 m' OFF_last_touched_rev = NEXT_REV (load64 m OFF_last_touched_rev) \<and> same_layout m m'
    else \<exists>err. storage_touch slp st m usec = (err, m) \<and> FAILED err \<and>
      storage_get_touched_time slp m True = Inl err"
proof (cases "unlocked (load64 m OFF_last_touched_rev)")
  case True
  let ?m = "spin_unlock (store64 (store64 m OFF_last_touched_rev
      (load64 m OFF_last_touched_rev OR SPIN_MASK)) OFF_last_touched (word_of_int usec))
      OFF_last_touched_rev (NEXT_REV (load64 m OFF_last_touched_rev))"
  have "storage_touch slp st m usec = (OK, ?m)"
    using assms(1) True by (simp add: storage_touch_def)
  moreover have "load64 ?m OFF_last_touched_rev = NEXT_REV (load64 m OFF_last_touched_rev)"
    "load64 ?m OFF_last_touched = word_of_int usec"
    by (simp_all add: spin_unlock_def mem_simps)
  moreover have "same_layout m ?m"
    by (simp add: spin_unlock_def same_layout_def store_other)
  ultimately show ?thesis
    using True assms(2) by (simp add: storage_get_touched_time_def)
next
  case False
  then show ?thesis
    using spin_at_held [OF False, of slp] assms(1)
    by (auto simp: storage_touch_def storage_get_touched_time_def)
qed

theorem storage_touch_get_touched_time_witness:
  "\<exists>m'. storage_touch (\<lambda>_. 0) \<lparr>stg_mapped = True, stg_first = 1416, stg_limit = 1440, stg_file = [],
      stg_mmap_size = 4096, stg_fd = 3, stg_read_only = False, stg_persistent = True\<rparr> (\<lambda>_. 0) 42 =
      (OK, m') \<and> storage_get_touched_time (\<lambda>_. 0) m' True = Inr 42"
proof -
  have "load64 (\<lambda>_. 0) OFF_last_touched_rev = 0"
    by (simp add: load_def mread_def map_replicate_const)
  then show ?thesis
    using storage_touch_get_touched_time [of "\<lparr>stg_mapped = True, stg_first = 1416, stg_limit = 1440,
      stg_file = [], stg_mmap_size = 4096, stg_fd = 3, stg_read_only = False, stg_persistent = True\<rparr>"
      42 "\<lambda>_. 0" "\<lambda>_. 0" "\<lambda>_. 0"]
    by (auto simp: is_long_def LONG_MAX_def LONG_MIN_def)
qed

end
