(* ===== verification/Records.thy ===== *)
theory Records
  imports Storage
begin

text \<open>
  Storages, second half of \<open>storage.c\<close>: the change queue, the records and the operations that walk
  over them, resetting, growing, clearing and copying.  Out-parameters are results; a flag says
  whether the caller passed a pointer for one, where the code tests it.  Loops that step from
  record to record run over \<open>rec_addrs\<close>, with the record size of the header, which none of
  the writes of the loops touches (they stay inside the records).
\<close>

section \<open>The change queue\<close>

definition storage_get_queue_capacity :: "mem \<Rightarrow> u64" where
  "storage_get_queue_capacity m = load64 m OFF_q_mask + 1"

definition storage_get_queue_head :: "mem \<Rightarrow> u64" where
  "storage_get_queue_head m = load64 m OFF_q_head"

text \<open>The address of \<open>change_q[idx & q_mask]\<close>.\<close>

definition queue_slot :: "mem \<Rightarrow> u64 \<Rightarrow> nat" where
  "queue_slot m idx = OFF_change_q + 8 * unat (idx AND load64 m OFF_q_mask)"

definition storage_write_queue :: "storage \<Rightarrow> mem \<Rightarrow> ident \<Rightarrow> status \<times> mem" where
  "storage_write_queue st m ident_no =
     (if stg_read_only st then (STORAGE_READ_ONLY, m)
      else if load64 m OFF_q_mask = -1 then (NO_CHANGE_QUEUE, m)
      else let m = store64 m (queue_slot m (load64 m OFF_q_head)) (word_of_int ident_no)
      in (OK, store64 m OFF_q_head (load64 m OFF_q_head + 1)))"

definition storage_read_queue :: "mem \<Rightarrow> u64 \<Rightarrow> bool \<Rightarrow> ident result" where
  "storage_read_queue m idx pident_ok =
     (if \<not> pident_ok then Inl error_invalid_arg
      else if load64 m OFF_q_mask = -1 then Inl NO_CHANGE_QUEUE
      else Inr (sint (load64 m (queue_slot m idx))))"

section \<open>Records\<close>

definition record_get_value_ref :: "nat \<Rightarrow> nat" where
  "record_get_value_ref r = r + REC_val"

definition record_get_timestamp :: "mem \<Rightarrow> nat \<Rightarrow> microsec" where
  "record_get_timestamp m r = sint (load64 m (r + REC_ts))"

definition record_set_timestamp :: "mem \<Rightarrow> nat \<Rightarrow> microsec \<Rightarrow> mem" where
  "record_set_timestamp m r ts = store64 m (r + REC_ts) (word_of_int ts)"

definition record_get_revision :: "mem \<Rightarrow> nat \<Rightarrow> u64" where
  "record_get_revision m r = load64 m r"

definition record_set_revision :: "mem \<Rightarrow> nat \<Rightarrow> u64 \<Rightarrow> mem" where
  "record_set_revision m r rv = spin_unlock m r rv"

definition record_read_lock :: "(nat \<Rightarrow> status) \<Rightarrow> mem \<Rightarrow> nat \<Rightarrow> u64 result" where
  "record_read_lock slp m r = spin_read_lock_at slp m r"

definition record_write_lock :: "(nat \<Rightarrow> status) \<Rightarrow> mem \<Rightarrow> nat \<Rightarrow> (u64 \<times> mem) result" where
  "record_write_lock slp m r = spin_write_lock_at slp m r"

text \<open>
  What every writer does once it holds a record's lock (\<open>batch_write_records\<close>, \<open>update_record\<close> of the
  receiver): store the value, the timestamp and the next revision.
\<close>

definition commit_record :: "mem \<Rightarrow> nat \<Rightarrow> u64 \<Rightarrow> byte list \<Rightarrow> microsec \<Rightarrow> mem" where
  "commit_record m r rv val now =
     (let m = mwrite m (record_get_value_ref r) val;
          m = record_set_timestamp m r now
      in record_set_revision m r (NEXT_REV rv))"

definition storage_get_property_ref :: "mem \<Rightarrow> nat \<Rightarrow> nat option" where
  "storage_get_property_ref m r =
     (if storage_get_property_offset m \<noteq> 0 then Some (r + storage_get_property_offset m) else None)"

definition storage_get_id :: "storage \<Rightarrow> mem \<Rightarrow> nat \<Rightarrow> bool \<Rightarrow> ident result" where
  "storage_get_id st m r pident_ok =
     (if \<not> pident_ok then Inl error_invalid_arg
      else if r < stg_first st \<or> r \<ge> stg_limit st then Inl INVALID_RECORD
      else Inr (int ((r - stg_first st) div storage_get_record_size m)))"

definition storage_get_record :: "storage \<Rightarrow> mem \<Rightarrow> ident \<Rightarrow> bool \<Rightarrow> nat result" where
  "storage_get_record st m ident_no prec_ok =
     (if \<not> prec_ok then Inl error_invalid_arg
      else if ident_no < storage_get_base_id m \<or> ident_no \<ge> storage_get_max_id m then Inl INVALID_RECORD
      else Inr (STORAGE_RECORD m (stg_first st) (nat (ident_no - storage_get_base_id m))))"

section \<open>Walking over the records\<close>

text \<open>
  The body of \<open>storage_find_next_unused\<close>: \<open>lock\<close> says whether the caller wants the record
  locked (\<open>old_rev\<close> is not null).  The found record comes with its old revision.
\<close>

fun next_unused ::
  "(nat \<Rightarrow> status) \<Rightarrow> bool \<Rightarrow> mem \<Rightarrow> nat list \<Rightarrow> status \<times> (nat \<times> u64) option \<times> mem" where
  "next_unused slp lock m [] = (FALSE_ST, None, m)"
| "next_unused slp lock m (r # rs) =
     (if lock then
        (case spin_write_lock_at slp m r of
           Inl err \<Rightarrow> (err, None, m)
         | Inr (rv, m') \<Rightarrow>
             if rv = 0 then (TRUE_ST, Some (r, rv), m')
             else next_unused slp lock (spin_unlock m' r rv) rs)
      else if load64 m r = 0 then (TRUE_ST, Some (r, load64 m r), m)
      else next_unused slp lock m rs)"

definition storage_find_next_unused ::
  "(nat \<Rightarrow> status) \<Rightarrow> storage \<Rightarrow> mem \<Rightarrow> nat option \<Rightarrow> bool \<Rightarrow> bool \<Rightarrow>
     status \<times> (nat \<times> u64) option \<times> mem" where
  "storage_find_next_unused slp st m prior prec_ok lock =
     (if \<not> prec_ok then (error_invalid_arg, None, m)
      else if lock \<and> stg_read_only st then (STORAGE_READ_ONLY, None, m)
      else case prior of
        Some r \<Rightarrow>
          if r < stg_first st \<or> r \<ge> stg_limit st then (error_invalid_arg, None, m)
          else next_unused slp lock m
                 (rec_addrs (STORAGE_RECORD m r 1) (stg_limit st) (storage_get_record_size m))
      | None \<Rightarrow> next_unused slp lock m
                 (rec_addrs (stg_first st) (stg_limit st) (storage_get_record_size m)))"

text \<open>
  The addresses the descending loop visits: one record below \<open>r\<close>, and on while not below \<open>first\<close>.
\<close>

function rec_addrs_down :: "nat \<Rightarrow> nat \<Rightarrow> nat \<Rightarrow> nat list" where
  "rec_addrs_down r first sz =
     (if first + sz \<le> r \<and> 0 < sz then (r - sz) # rec_addrs_down (r - sz) first sz else [])"
  by pat_completeness auto
termination
  by (relation "measure (\<lambda>(r, first, sz). r)") auto

declare rec_addrs_down.simps [simp del]

fun prev_used ::
  "(nat \<Rightarrow> status) \<Rightarrow> bool \<Rightarrow> mem \<Rightarrow> nat list \<Rightarrow> status \<times> (nat \<times> u64) option \<times> mem" where
  "prev_used slp lock m [] = (FALSE_ST, None, m)"
| "prev_used slp lock m (r # rs) =
     (if lock then
        (case spin_write_lock_at slp m r of
           Inl err \<Rightarrow> (err, None, m)
         | Inr (rv, m') \<Rightarrow>
             if rv \<noteq> 0 then (TRUE_ST, Some (r, rv), m')
             else prev_used slp lock (spin_unlock m' r rv) rs)
      else if load64 m r \<noteq> 0 then (TRUE_ST, Some (r, load64 m r), m)
      else prev_used slp lock m rs)"

definition storage_find_prev_used ::
  "(nat \<Rightarrow> status) \<Rightarrow> storage \<Rightarrow> mem \<Rightarrow> nat option \<Rightarrow> bool \<Rightarrow> bool \<Rightarrow>
     status \<times> (nat \<times> u64) option \<times> mem" where
  "storage_find_prev_used slp st m prior prec_ok lock =
     (if \<not> prec_ok then (error_invalid_arg, None, m)
      else if lock \<and> stg_read_only st then (STORAGE_READ_ONLY, None, m)
      else case prior of
        Some r \<Rightarrow>
          if r < stg_first st \<or> r \<ge> stg_limit st then (error_invalid_arg, None, m)
          else prev_used slp lock m (rec_addrs_down r (stg_first st) (storage_get_record_size m))
      | None \<Rightarrow> prev_used slp lock m
                 (rec_addrs_down (stg_limit st) (stg_first st) (storage_get_record_size m)))"

text \<open>The callback works on a state of the caller's choice (its \<open>param\<close> and the memory).\<close>

fun iterate_records :: "(nat \<Rightarrow> 's \<Rightarrow> status \<times> 's) \<Rightarrow> nat list \<Rightarrow> status \<Rightarrow> 's \<Rightarrow> status \<times> 's" where
  "iterate_records iter_fn [] st s = (st, s)"
| "iterate_records iter_fn (r # rs) st s =
     (case iter_fn r s of
        (st', s') \<Rightarrow> if FAILED st' \<or> st' = 0 then (st', s') else iterate_records iter_fn rs st' s')"

definition storage_iterate ::
  "storage \<Rightarrow> mem \<Rightarrow> nat option \<Rightarrow> (nat \<Rightarrow> 's \<Rightarrow> status \<times> 's) option \<Rightarrow> 's \<Rightarrow> status \<times> 's" where
  "storage_iterate st m prior iter_fn s =
     (case iter_fn of
        None \<Rightarrow> (error_invalid_arg, s)
      | Some f \<Rightarrow>
          (case prior of
             None \<Rightarrow>
               iterate_records f
                 (rec_addrs (stg_first st) (stg_limit st) (storage_get_record_size m)) TRUE_ST s
           | Some r \<Rightarrow>
               if r < stg_first st \<or> r \<ge> stg_limit st then (error_invalid_arg, s)
               else iterate_records f
                 (rec_addrs (STORAGE_RECORD m r 1) (stg_limit st) (storage_get_record_size m))
                 TRUE_ST s))"

section \<open>Resetting, clearing and copying\<close>

definition storage_reset :: "storage \<Rightarrow> mem \<Rightarrow> status \<times> mem" where
  "storage_reset st m =
     (if stg_read_only st then (STORAGE_READ_ONLY, m)
      else let m = mzero m (stg_first st) (stg_limit st - stg_first st);
               m = store64 m OFF_q_head 0;
               m = (if load64 m OFF_q_mask \<noteq> -1
                    then mzero m OFF_change_q (unat ((load64 m OFF_q_mask + 1) * 8)) else m)
      in (OK, m))"

definition storage_clear_record :: "storage \<Rightarrow> mem \<Rightarrow> nat \<Rightarrow> status \<times> mem" where
  "storage_clear_record st m r =
     (if stg_read_only st then (STORAGE_READ_ONLY, m)
      else if r < stg_first st \<or> r \<ge> stg_limit st then (INVALID_RECORD, m)
      else let m = mzero m (r + REC_val) (storage_get_value_size m);
               m = (if storage_get_property_size m > 0
                    then mzero m (r + storage_get_property_offset m) (storage_get_property_size m)
                    else m);
               m = store64 m (r + REC_ts) 0
      in (OK, spin_unlock m r 0))"

definition storage_copy_record ::
  "storage \<Rightarrow> mem \<Rightarrow> nat \<Rightarrow> storage \<Rightarrow> mem \<Rightarrow> nat \<Rightarrow> microsec \<Rightarrow> bool \<Rightarrow> status \<times> mem" where
  "storage_copy_record from_st from_m from_rec to_st to_m to_rec to_ts with_prop =
     (if stg_read_only to_st then (STORAGE_READ_ONLY, to_m)
      else if from_rec < stg_first from_st \<or> from_rec \<ge> stg_limit from_st \<or>
              to_rec < stg_first to_st \<or> to_rec \<ge> stg_limit to_st then (INVALID_RECORD, to_m)
      else if storage_get_value_size from_m \<noteq> storage_get_value_size to_m \<or>
              with_prop \<and> storage_get_property_size from_m \<noteq> storage_get_property_size to_m
        then (STORAGE_UNEQUAL, to_m)
      else let m = mwrite to_m (to_rec + REC_val)
                     (mread from_m (from_rec + REC_val) (storage_get_value_size from_m));
               m = (if with_prop \<and> storage_get_property_size from_m > 0
                    then mwrite m (to_rec + storage_get_property_offset m)
                           (mread from_m (from_rec + storage_get_property_offset from_m)
                              (storage_get_property_size from_m))
                    else m)
      in (OK, store64 m (to_rec + REC_ts) (word_of_int to_ts)))"

section \<open>Growing\<close>

text \<open>
  One round of the copying loop for the pair \<open>(old_r, new_r)\<close>.  The old storage is not written by
  anybody else while it is copied, so the revision check that closes the inner loop succeeds.
\<close>

fun grow_copy ::
  "(nat \<Rightarrow> status) \<Rightarrow> mem \<Rightarrow> nat \<Rightarrow> nat \<Rightarrow> bool \<Rightarrow> (nat \<times> nat) list \<Rightarrow> mem \<Rightarrow> status \<times> mem" where
  "grow_copy slp old_m val_copy_sz prop_copy_sz props [] new_m = (OK, new_m)"
| "grow_copy slp old_m val_copy_sz prop_copy_sz props ((old_r, new_r) # rs) new_m =
     (case record_read_lock slp old_m old_r of
        Inl err \<Rightarrow> (err, new_m)
      | Inr rv \<Rightarrow>
          let m = mwrite new_m new_r (mread old_m old_r val_copy_sz);
              m = (if props
                   then mwrite m (new_r + storage_get_property_offset m)
                          (mread old_m (old_r + storage_get_property_offset old_m) prop_copy_sz)
                   else m)
          in grow_copy slp old_m val_copy_sz prop_copy_sz props rs m)"

definition storage_grow ::
  "(nat \<Rightarrow> status) \<Rightarrow> create_env \<Rightarrow> destroy_env \<Rightarrow> bool \<Rightarrow> status \<Rightarrow> microsec result \<Rightarrow>
     storage \<Rightarrow> mem \<Rightarrow> bool \<Rightarrow> string option \<Rightarrow> u32 \<Rightarrow> ident \<Rightarrow> ident \<Rightarrow> u64 \<Rightarrow> u64 \<Rightarrow> u64 \<Rightarrow>
     status \<times> storage option \<times> mem" where
  "storage_grow slp e de malloc_ok fstat clock st m pnewstore_ok new_file open_flags new_base_id
     new_max_id new_value_size new_property_size new_q_capacity =
     (if \<not> pnewstore_ok \<or> new_file = None \<or> new_file = Some (stg_file st)
        then (error_invalid_arg, None, ce_contents e)
      else if open_flags AND NOT (O_RDWR OR O_CREAT OR O_EXCL OR O_NOFOLLOW) \<noteq> 0
        then (INVALID_OPEN_FLAGS, None, ce_contents e)
      else if FAILED fstat then (fstat, None, ce_contents e)
      else case storage_create e de malloc_ok True new_file (O_RDWR OR open_flags) False new_base_id
                  new_max_id new_value_size new_property_size new_q_capacity
                  (Some (storage_get_description m)) of
        (res, None, new_m) \<Rightarrow> (res, None, new_m)
      | (res, Some new_st, new_m) \<Rightarrow>
          if FAILED res then (res, Some new_st, new_m)
          else
            let val_copy_sz = 8 + 8 + min (storage_get_value_size m) (storage_get_value_size new_m);
                prop_copy_sz = min (storage_get_property_size m) (storage_get_property_size new_m);
                pairs = zip (rec_addrs (stg_first st) (stg_limit st) (storage_get_record_size m))
                          (rec_addrs (stg_first new_st) (stg_limit new_st)
                             (storage_get_record_size new_m))
            in case grow_copy slp m val_copy_sz prop_copy_sz (new_property_size > 0) pairs new_m of
                 (res, new_m) \<Rightarrow>
                   if FAILED res then (res, Some new_st, new_m)
                   else let new_m = store 2 new_m OFF_data_version (storage_get_data_version m);
                       new_m = mwrite new_m OFF_description (storage_get_description m @ [0])
                   in case clock of
                        Inl err \<Rightarrow> (err, snd (storage_destroy de (Some new_st)), new_m)
                      | Inr now \<Rightarrow>
                          (OK, Some (new_st\<lparr>stg_persistent := stg_persistent st\<rparr>),
                           store64 new_m OFF_last_created (word_of_int now)))"

section \<open>The queue's contract\<close>

text \<open>Steps one after the other, each with the item it handles.\<close>

fun chain :: "('s \<Rightarrow> 'i \<Rightarrow> 's \<Rightarrow> bool) \<Rightarrow> 's \<Rightarrow> 'i list \<Rightarrow> 's \<Rightarrow> bool" where
  "chain R s [] s' \<longleftrightarrow> s' = s"
| "chain R s (i # is) s' \<longleftrightarrow> (\<exists>t. R s i t \<and> chain R t is s')"

lemma chain_snoc: "chain R s (is @ [i]) s' \<longleftrightarrow> (\<exists>t. chain R s is t \<and> R t i s')"
  by (induction "is" arbitrary: s) auto

text \<open>
  What a producer and a consumer of changes rely on: the queue keeps the last \<open>slots\<close> identifiers,
  addressed by the running index of the write, which may wrap around.  \<open>wrote s i s'\<close> says that
  \<open>s'\<close> comes from \<open>s\<close> by writing \<open>i\<close> to the queue.
\<close>

locale change_queue =
  fixes ok :: "'s \<Rightarrow> bool"
    and wrote :: "'s \<Rightarrow> ident \<Rightarrow> 's \<Rightarrow> bool"
    and rd :: "'s \<Rightarrow> u64 \<Rightarrow> ident"
    and head :: "'s \<Rightarrow> u64"
    and slots :: "'s \<Rightarrow> nat"
  assumes ok_wrote: "ok s \<Longrightarrow> wrote s i s' \<Longrightarrow> ok s'"
    and slots_pow2: "ok s \<Longrightarrow> \<exists>k<64. slots s = 2 ^ k"
    and slots_wrote: "ok s \<Longrightarrow> wrote s i s' \<Longrightarrow> slots s' = slots s"
    and head_wrote: "ok s \<Longrightarrow> wrote s i s' \<Longrightarrow> head s' = head s + 1"
    and rd_wrote: "ok s \<Longrightarrow> wrote s i s' \<Longrightarrow> is_long i \<Longrightarrow>
      rd s' x = (if unat x mod slots s = unat (head s) mod slots s then i else rd s x)"
begin

lemma chain_ok: "chain wrote s is s' \<Longrightarrow> ok s \<Longrightarrow> ok s' \<and> slots s' = slots s"
  by (induction "is" arbitrary: s) (auto simp: ok_wrote slots_wrote)

lemma chain_head: "chain wrote s is s' \<Longrightarrow> ok s \<Longrightarrow> head s' = head s + of_nat (length is)"
proof (induction "is" arbitrary: s)
  case Nil
  then show ?case by simp
next
  case (Cons i "is")
  then obtain t where t: "wrote s i t" "chain wrote t is s'" by auto
  with Cons ok_wrote [of s i t] head_wrote [of s i t] show ?case by simp
qed

lemma unat_add_mod_slots:
  assumes "ok s"
  shows "unat (h + of_nat n :: u64) mod slots s = (unat h + n) mod slots s"
proof -
  obtain k where k: "k < 64" "slots s = 2 ^ k" using slots_pow2 [OF assms] by auto
  then have "(2::nat) ^ k dvd 2 ^ 64" by (intro le_imp_power_dvd) simp
  moreover have "unat (h + of_nat n) = (unat h + n) mod 2 ^ 64"
    by (simp add: unat_word_ariths unat_of_nat mod_simps)
  ultimately show ?thesis using k(2) by (simp add: mod_mod_cancel)
qed

lemma mod_slots_neq:
  assumes "j < n" "n - j < slots s"
  shows "(h + j) mod slots s \<noteq> (h + n) mod slots s"
proof
  assume "(h + j) mod slots s = (h + n) mod slots s"
  then have "slots s dvd (h + n) - (h + j)"
    using assms(1) by (metis add_le_mono1 add.commute less_imp_le mod_eq_dvd_iff_nat)
  then have "slots s dvd n - j" by simp
  with assms show False using nat_dvd_not_less zero_less_diff by blast
qed

lemma chain_rd:
  assumes "ok s" "chain wrote s is s'" "\<forall>i\<in>set is. is_long i"
    and "j < length is" "length is - j \<le> slots s"
  shows "rd s' (head s + of_nat j) = is ! j"
  using assms(2-)
proof (induction "is" arbitrary: s' rule: rev_induct)
  case Nil
  then show ?case by simp
next
  case (snoc i xs)
  let ?n = "length xs"
  obtain t where t: "chain wrote s xs t" "wrote t i s'"
    using snoc.prems(1) by (auto simp: chain_snoc)
  note ok = chain_ok [OF t(1) assms(1)]
  have rd: "rd s' x = (if unat x mod slots s = (unat (head s) + ?n) mod slots s then i else rd t x)"
    for x
    using rd_wrote [OF _ t(2), of x] snoc.prems(2) ok chain_head [OF t(1) assms(1)]
    by (simp add: unat_add_mod_slots [OF assms(1)])
  show ?case
  proof (cases "j = ?n")
    case True
    then show ?thesis using assms(1) by (simp add: rd unat_add_mod_slots)
  next
    case False
    with snoc.prems have "j < ?n" "?n - j \<le> slots s" "?n - j < slots s" by auto
    with snoc.IH [OF t(1)] snoc.prems(2) mod_slots_neq [of j ?n s "unat (head s)"] assms(1)
    show ?thesis by (simp add: rd unat_add_mod_slots nth_append)
  qed
qed

end

lemma and_pow2_mask: "unat (x AND (2 ^ k - 1) :: u64) = unat x mod 2 ^ k"
proof -
  have "x AND (2 ^ k - 1) = take_bit k x"
    by (simp add: take_bit_eq_mask mask_eq_decr_exp)
  then show ?thesis by (simp add: unsigned_take_bit_eq take_bit_nat_def)
qed

lemma unat_pow2_u64:
  assumes "k < 64"
  shows "unat (2 ^ k :: u64) = 2 ^ k"
proof -
  have "(2::nat) ^ k < 2 ^ 64" using assms by (rule power_strict_increasing) simp
  then have "unat (of_nat (2 ^ k) :: u64) = 2 ^ k" by (simp only: unat_of_nat) simp
  then show ?thesis by simp
qed

definition has_queue :: "mem \<Rightarrow> bool" where
  "has_queue m \<longleftrightarrow> load64 m OFF_q_mask \<noteq> -1"

lemma queue_slots_pow2:
  assumes "layout_ok m" "has_queue m"
  shows "\<exists>k. 0 < k \<and> k < 64 \<and> queue_slots m = 2 ^ k \<and> load64 m OFF_q_mask = 2 ^ k - 1"
proof -
  from assms obtain k where k: "0 < k" "k < 64" "load64 m OFF_q_mask = 2 ^ k - 1"
    by (auto simp: layout_ok_def has_queue_def)
  moreover have "queue_slots m = 2 ^ k"
    using assms(2) k unat_mask_u64 [OF k(2)] by (simp add: queue_slots_def has_queue_def)
  ultimately show ?thesis by blast
qed

lemma queue_slot_eq:
  assumes "layout_ok m" "has_queue m"
  shows "queue_slot m x = OFF_change_q + 8 * (unat x mod queue_slots m)"
  using queue_slots_pow2 [OF assms] by (auto simp: queue_slot_def and_pow2_mask)

lemma queue_slots_pos [simp]: "0 < queue_slots m"
  by (simp add: queue_slots_def)

lemma queue_slot_bound:
  assumes "layout_ok m" "has_queue m"
  shows "OFF_change_q \<le> queue_slot m x \<and> queue_slot m x + 8 \<le> unat (load64 m OFF_hdr_size)"
proof -
  have "unat x mod queue_slots m < queue_slots m" by simp
  then have "8 + 8 * (unat x mod queue_slots m) \<le> 8 * queue_slots m" by linarith
  then show ?thesis
    using layout_okD(8) [OF assms(1)] by (simp add: queue_slot_eq [OF assms])
qed

lemma storage_write_queue_OK:
  assumes "stg_ok st m" "\<not> stg_read_only st" "has_queue m"
  obtains m' where "storage_write_queue st m i = (OK, m')" "same_layout m m'"
    "storage_get_queue_head m' = storage_get_queue_head m + 1"
    "\<And>x. load64 m' (queue_slot m x) = (if unat x mod queue_slots m =
        unat (storage_get_queue_head m) mod queue_slots m then word_of_int i
        else load64 m (queue_slot m x))"
    "\<And>a. stg_first st \<le> a \<Longrightarrow> m' a = m a" "\<And>a. a < OFF_q_head \<Longrightarrow> m' a = m a"
proof -
  let ?s = "queue_slot m (load64 m OFF_q_head)"
  let ?m = "store64 (store64 m ?s (word_of_int i)) OFF_q_head (load64 m OFF_q_head + 1)"
  note slot = queue_slot_bound [OF stg_okD(1) [OF assms(1)] assms(3)]
  have h: "load64 (store64 m ?s (word_of_int i)) OFF_q_head = load64 m OFF_q_head"
    using slot [of "load64 m OFF_q_head"] by (simp add: load_store_disjoint)
  show thesis
  proof (rule that)
    show "storage_write_queue st m i = (OK, ?m)"
      using assms(2,3) h by (simp add: storage_write_queue_def has_queue_def Let_def)
    show "same_layout m ?m"
      using slot [of "load64 m OFF_q_head"]
      by (intro same_layout_trans [OF same_layout_store same_layout_store]) (auto simp: off_layout_def)
    show "storage_get_queue_head ?m = storage_get_queue_head m + 1"
      by (simp add: storage_get_queue_head_def)
    show "load64 ?m (queue_slot m x) = (if unat x mod queue_slots m =
        unat (storage_get_queue_head m) mod queue_slots m then word_of_int i
        else load64 m (queue_slot m x))" for x
    proof -
      have "load64 ?m (queue_slot m x) = load64 (store64 m ?s (word_of_int i)) (queue_slot m x)"
        using slot [of x] by (simp add: load_store_disjoint)
      also have "\<dots> = (if queue_slot m x = ?s then word_of_int i else load64 m (queue_slot m x))"
      proof (cases "queue_slot m x = ?s")
        case False
        then have "queue_slot m x + 8 \<le> ?s \<or> ?s + 8 \<le> queue_slot m x"
          unfolding queue_slot_def by arith
        with False show ?thesis by (simp add: load_store_disjoint)
      qed simp
      finally show ?thesis
        by (simp add: queue_slot_eq [OF stg_okD(1) [OF assms(1)] assms(3)] storage_get_queue_head_def)
    qed
    show "?m a = m a" if "stg_first st \<le> a" for a
      using slot [of "load64 m OFF_q_head"] stg_okD(2,4) [OF assms(1)] that by (simp add: store_other)
    show "?m a = m a" if "a < OFF_q_head" for a
      using slot [of "load64 m OFF_q_head"] that by (simp add: store_other)
  qed
qed

text \<open>The model's queue meets the contract.\<close>

abbreviation queue_ok :: "storage \<times> mem \<Rightarrow> bool" where
  "queue_ok \<equiv> \<lambda>(st, m). stg_ok st m \<and> \<not> stg_read_only st \<and> has_queue m"

text \<open>
  The bytes before the records are those that \<open>storage_write_queue\<close> leaves; the records may have
  been written to as well, as a batch or a receiver does.
\<close>

abbreviation queue_wrote :: "storage \<times> mem \<Rightarrow> ident \<Rightarrow> storage \<times> mem \<Rightarrow> bool" where
  "queue_wrote \<equiv> \<lambda>(st, m) i (st', m').
     st' = st \<and> (\<forall>a < stg_first st. m' a = snd (storage_write_queue st m i) a)"

abbreviation queue_read :: "storage \<times> mem \<Rightarrow> u64 \<Rightarrow> ident" where
  "queue_read \<equiv> \<lambda>(st, m) x. projr (storage_read_queue m x True)"

lemma same_layout_queue:
  "same_layout m m' \<Longrightarrow> has_queue m' = has_queue m"
  "same_layout m m' \<Longrightarrow> queue_slot m' x = queue_slot m x"
  by (simp_all add: has_queue_def queue_slot_def same_layout_fields)

lemma same_prefix:
  assumes "stg_ok st m" "\<forall>a < stg_first st. m' a = m a"
  shows "same_layout m m'" "storage_get_queue_head m' = storage_get_queue_head m"
    "has_queue m \<Longrightarrow> load64 m' (queue_slot m x) = load64 m (queue_slot m x)"
proof -
  note f = stg_okD(2,4) [OF assms(1)]
  show "same_layout m m'" using assms(2) f by (simp add: same_layout_def)
  show "storage_get_queue_head m' = storage_get_queue_head m"
    unfolding storage_get_queue_head_def using assms(2) f by (intro load_cong) simp
  show "load64 m' (queue_slot m x) = load64 m (queue_slot m x)" if "has_queue m"
    using queue_slot_bound [OF stg_okD(1) [OF assms(1)] that, of x] assms(2) f
    by (intro load_cong) simp
qed

lemma queue_wrote_fields:
  assumes "queue_ok (st, m)" "queue_wrote (st, m) i (st', m')"
  shows "st' = st" "same_layout m m'" "storage_get_queue_head m' = storage_get_queue_head m + 1"
    "load64 m' (queue_slot m x) = (if unat x mod queue_slots m =
        unat (storage_get_queue_head m) mod queue_slots m then word_of_int i
        else load64 m (queue_slot m x))"
proof -
  have ok: "stg_ok st m" "\<not> stg_read_only st" "has_queue m" using assms(1) by simp_all
  from storage_write_queue_OK [OF ok] obtain m1 where w: "storage_write_queue st m i = (OK, m1)"
    and same: "same_layout m m1" and hd: "storage_get_queue_head m1 = storage_get_queue_head m + 1"
    and ld: "load64 m1 (queue_slot m x) = (if unat x mod queue_slots m =
        unat (storage_get_queue_head m) mod queue_slots m then word_of_int i
        else load64 m (queue_slot m x))"
    by metis
  have ok1: "stg_ok st m1" "has_queue m1" "queue_slot m1 x = queue_slot m x"
    using ok same by (simp_all add: same_layout_stg_ok same_layout_queue)
  have "\<forall>a < stg_first st. m' a = m1 a" using assms(2) w by simp
  note p = same_prefix [OF ok1(1) this]
  show "st' = st" using assms(2) by simp
  show "same_layout m m'" using same p(1) by (rule same_layout_trans)
  show "storage_get_queue_head m' = storage_get_queue_head m + 1" using p(2) hd by simp
  show "load64 m' (queue_slot m x) = (if unat x mod queue_slots m =
        unat (storage_get_queue_head m) mod queue_slots m then word_of_int i
        else load64 m (queue_slot m x))"
    using p(3) [OF ok1(2), of x] ld ok1(3) by simp
qed

interpretation cq: change_queue queue_ok queue_wrote queue_read
  "\<lambda>(st, m). storage_get_queue_head m" "\<lambda>(st, m). queue_slots m"
proof
  fix s s' :: "storage \<times> mem" and i x
  obtain st m st' m' where s: "s = (st, m)" "s' = (st', m')" by (cases s, cases s')
  assume ok: "queue_ok s"
  show "\<exists>k<64. (case s of (st, m) \<Rightarrow> queue_slots m) = 2 ^ k"
    using queue_slots_pow2 [of m] ok stg_okD(1) by (auto simp: s)
  assume w: "queue_wrote s i s'"
  note f = queue_wrote_fields [OF ok [unfolded s] w [unfolded s]]
  show "queue_ok s'"
    using ok f(2) by (simp add: s f(1) same_layout_stg_ok same_layout_queue)
  show "(case s' of (st, m) \<Rightarrow> queue_slots m) = (case s of (st, m) \<Rightarrow> queue_slots m)"
    by (simp add: s same_layout_fields [OF f(2)])
  show "(case s' of (st, m) \<Rightarrow> storage_get_queue_head m) =
      (case s of (st, m) \<Rightarrow> storage_get_queue_head m) + 1"
    by (simp add: s f(3))
  assume "is_long i"
  then show "queue_read s' x =
      (if unat x mod (case s of (st, m) \<Rightarrow> queue_slots m) =
          unat (case s of (st, m) \<Rightarrow> storage_get_queue_head m) mod (case s of (st, m) \<Rightarrow> queue_slots m)
       then i else queue_read s x)"
    using ok same_layout_queue [OF f(2)] f(4)
    by (simp add: s storage_read_queue_def has_queue_def)
qed

lemma queue_capacity_slots:
  assumes "stg_ok st m" "has_queue m"
  shows "unat (storage_get_queue_capacity m) = queue_slots m" "storage_get_queue_capacity m > 0"
proof -
  obtain k where k: "k < 64" "queue_slots m = 2 ^ k" "load64 m OFF_q_mask = 2 ^ k - 1"
    using queue_slots_pow2 [OF stg_okD(1) [OF assms(1)] assms(2)] by auto
  then show "unat (storage_get_queue_capacity m) = queue_slots m"
    using unat_pow2_u64 [OF k(1)] by (simp add: storage_get_queue_capacity_def)
  then show "storage_get_queue_capacity m > 0"
    by (simp add: word_less_nat_alt)
qed

lemma queue_chain_read:
  assumes "chain queue_wrote (st, m) ids (st, m')" "queue_ok (st, m)" "\<forall>i\<in>set ids. is_long i"
    and "j < length ids" "length ids - j \<le> queue_slots m"
  shows "storage_read_queue m' (storage_get_queue_head m + of_nat j) True = Inr (ids ! j)"
  using cq.chain_rd [OF assms(2,1,3,4)] assms(5) cq.chain_ok [OF assms(1,2)]
  by (simp add: storage_read_queue_def has_queue_def)

section \<open>Lemmas on records\<close>

text \<open>\<open>inside st m r\<close>: \<open>r\<close> is the address of a record; \<open>rec_end\<close> is where it ends.\<close>

definition is_record :: "storage \<Rightarrow> mem \<Rightarrow> nat \<Rightarrow> bool" where
  "is_record st m r \<longleftrightarrow> r \<in> set (storage_records st m)"

lemma is_recordE:
  assumes "is_record st m r"
  obtains i where "i < storage_count m" "r = record_at st m i"
  using assms by (auto simp: is_record_def storage_records_def)

lemma is_record_bounds:
  assumes "stg_ok st m" "is_record st m r"
  shows "stg_first st \<le> r" "r + storage_get_record_size m \<le> stg_limit st" "r < stg_limit st"
    "OFF_change_q < r"
proof -
  obtain i where i: "i < storage_count m" "r = record_at st m i"
    using assms(2) by (rule is_recordE)
  show lo: "stg_first st \<le> r" by (simp add: i(2) record_at_first)
  show hi: "r + storage_get_record_size m \<le> stg_limit st"
    using record_at_limit [OF assms(1) i(1)] by (simp add: i(2))
  show "r < stg_limit st"
    using hi layout_okD(4) [OF stg_okD(1) [OF assms(1)]] by linarith
  show "OFF_change_q < r"
    using lo stg_okD(4) [OF assms(1)] by linarith
qed

lemma records_apart:
  assumes "stg_ok st m" "is_record st m r" "is_record st m r'" "r \<noteq> r'"
  shows "r + storage_get_record_size m \<le> r' \<or> r' + storage_get_record_size m \<le> r"
proof -
  obtain i j where "r = record_at st m i" "r' = record_at st m j"
    using assms(2,3) by (metis is_recordE)
  then show ?thesis
    using record_at_apart [of i j st m] record_at_apart [of j i st m] assms(4)
    by (cases i j rule: linorder_cases) auto
qed

lemma same_layout_records:
  "same_layout m m' \<Longrightarrow> record_at st m' i = record_at st m i"
  "same_layout m m' \<Longrightarrow> storage_records st m' = storage_records st m"
  "same_layout m m' \<Longrightarrow> is_record st m' r = is_record st m r"
  by (simp_all add: record_at_def storage_records_def is_record_def same_layout_fields)

text \<open>
  A write inside one record: the header, the queue and the other records keep their bytes.
\<close>

definition only_record :: "storage \<Rightarrow> mem \<Rightarrow> nat \<Rightarrow> mem \<Rightarrow> bool" where
  "only_record st m r m' \<longleftrightarrow>
     (\<forall>a. a < r \<or> r + storage_get_record_size m \<le> a \<longrightarrow> m' a = m a)"

lemma only_record_layout:
  assumes "stg_ok st m" "is_record st m r" "only_record st m r m'"
  shows "same_layout m m'"
  using assms is_record_bounds(4) [OF assms(1,2)] by (simp add: only_record_def same_layout_def)

lemma only_record_other:
  assumes "stg_ok st m" "is_record st m r" "only_record st m r m'" "is_record st m r'" "r' \<noteq> r"
    and "k + n \<le> storage_get_record_size m"
  shows "mread m' (r' + k) n = mread m (r' + k) n"
  using assms records_apart [OF assms(1,4,2,5)]
  by (intro mread_cong) (auto simp: only_record_def)

lemma only_record_queue:
  assumes "stg_ok st m" "is_record st m r" "only_record st m r m'" "a < stg_first st"
  shows "m' a = m a"
  using assms is_record_bounds(1) [OF assms(1,2)] by (simp add: only_record_def)

lemma storage_get_record_iff:
  assumes "stg_ok st m"
  shows "storage_get_record st m i True = Inr r \<longleftrightarrow>
    storage_get_base_id m \<le> i \<and> i < storage_get_max_id m \<and>
    r = record_at st m (nat (i - storage_get_base_id m))"
  by (auto simp: storage_get_record_def STORAGE_RECORD_first)

lemma storage_get_record_is_record:
  assumes "stg_ok st m" "storage_get_record st m i True = Inr r"
  shows "is_record st m r"
  using assms(2) unfolding storage_get_record_iff [OF assms(1)]
  by (auto simp: is_record_def storage_records_def storage_count_def)

lemma STORAGE_RECORD_eq: "STORAGE_RECORD m r 1 = r + storage_get_record_size m"
  by (simp add: STORAGE_RECORD_def storage_get_record_size_def)

lemma rec_addrs_after:
  assumes "stg_ok st m" "i \<le> storage_count m"
  shows "rec_addrs (record_at st m i) (stg_limit st) (storage_get_record_size m) =
    drop i (storage_records st m)"
proof -
  let ?sz = "storage_get_record_size m" and ?n = "storage_count m"
  have "?sz * i + ?sz * (?n - i) = ?sz * ?n"
    using assms(2) by (simp flip: distrib_left)
  then have lim: "stg_limit st = record_at st m i + ?sz * (?n - i)"
    using stg_okD(3) [OF assms(1)] by (simp add: record_at_def)
  have sz: "0 < ?sz" using layout_okD(4) [OF stg_okD(1) [OF assms(1)]] by simp
  have "rec_addrs (record_at st m i) (stg_limit st) ?sz = map (\<lambda>j. record_at st m i + ?sz * j) [0..<?n - i]"
    unfolding lim by (rule rec_addrs_eq [OF sz])
  also have "\<dots> = drop i (storage_records st m)"
    by (rule nth_equalityI) (auto simp: storage_records_def record_at_def distrib_left)
  finally show ?thesis .
qed

lemma rec_addrs_down_eq:
  "0 < sz \<Longrightarrow> rec_addrs_down (first + sz * n) first sz = rev (map (\<lambda>i. first + sz * i) [0..<n])"
proof (induction n)
  case 0
  then show ?case by (subst rec_addrs_down.simps) simp
next
  case (Suc n)
  then show ?case by (subst rec_addrs_down.simps) (simp add: add.assoc [symmetric])
qed

lemma rec_addrs_down_record:
  assumes "stg_ok st m"
  shows "rec_addrs_down (record_at st m i) (stg_first st) (storage_get_record_size m) =
    rev (map (record_at st m) [0..<i])"
proof -
  have "0 < storage_get_record_size m" using layout_okD(4) [OF stg_okD(1) [OF assms]] by simp
  from rec_addrs_down_eq [OF this, of "stg_first st" i] show ?thesis
    by (simp add: record_at_def)
qed

lemma stg_limit_record: "stg_ok st m \<Longrightarrow> stg_limit st = record_at st m (storage_count m)"
  using stg_okD(3) by (simp add: record_at_def)

section \<open>Properties of the queue\<close>

text \<open>
  C11.  The change queue is a ring of the last identifiers: after any number of successful writes the
  head has advanced by that number (modulo two to the sixty-four), each of the last
  \<open>capacity\<close> identifiers is read back at the index it was written at, the layout is kept and
  no record is touched.
\<close>

theorem change_queue_window:
  assumes "stg_ok st m" "\<not> stg_read_only st" "has_queue m" "\<forall>i\<in>set ids. is_long i"
    and "m' = foldl (\<lambda>m i. snd (storage_write_queue st m i)) m ids"
  shows "storage_get_queue_head m' = storage_get_queue_head m + of_nat (length ids) \<and>
    stg_ok st m' \<and> storage_get_queue_capacity m' = storage_get_queue_capacity m \<and>
    (\<forall>j<length ids. length ids - j \<le> unat (storage_get_queue_capacity m) \<longrightarrow>
      storage_read_queue m' (storage_get_queue_head m + of_nat j) True = Inr (ids ! j)) \<and>
    (\<forall>a\<ge>stg_first st. m' a = m a)"
proof -
  have ok: "queue_ok (st, m)" using assms by simp
  have w: "chain queue_wrote (st, m) ids (st, m')"
    unfolding assms(5) by (induction ids arbitrary: m) auto
  have "(\<forall>a\<ge>stg_first st. m' a = m a) \<and> same_layout m m'"
    using assms(1-3) unfolding assms(5)
  proof (induction ids arbitrary: m)
    case Nil
    then show ?case by simp
  next
    case (Cons i ids)
    then obtain m1 where "storage_write_queue st m i = (OK, m1)" "same_layout m m1"
      "\<forall>a\<ge>stg_first st. m1 a = m a"
      using storage_write_queue_OK [OF Cons.prems] by metis
    with Cons.IH [of m1] Cons.prems show ?case
      by (auto simp: same_layout_stg_ok same_layout_queue intro: same_layout_trans)
  qed
  then show ?thesis
    using cq.chain_head [OF w ok] cq.chain_ok [OF w ok] queue_chain_read [OF w ok assms(4)]
      queue_capacity_slots(1) [OF assms(1,3)]
    by (auto simp: storage_get_queue_capacity_def same_layout_fields)
qed

lemma load64_zero [simp]: "load64 (\<lambda>_. 0) a = 0"
  by (simp add: load_def mread_def map_replicate_const)

lemma fresh_env_contents [simp]: "ce_contents (fresh_env c) = c"
  by (simp add: fresh_env_def)

text \<open>A created storage to apply the theorems to: four records, a queue of four.\<close>

lemma sample_store:
  "\<exists>st m. stg_ok st m \<and> \<not> stg_read_only st \<and> has_queue m \<and> storage_get_base_id m = 10 \<and>
    storage_get_max_id m = 14 \<and> storage_get_value_size m = 8 \<and> storage_get_property_size m = 4 \<and>
    storage_get_queue_capacity m = 4 \<and> storage_get_queue_head m = 0 \<and> stg_file st = ''f'' \<and>
    storage_get_description m = [] \<and>
    (\<forall>r\<in>set (storage_records st m). unlocked (load64 m r))"
proof -
  obtain st m where c: "storage_create (fresh_env (\<lambda>_. 0)) close_ok True True (Some ''f'')
      (O_RDWR OR O_CREAT) True 10 14 8 4 4 None = (OK, Some st, m)"
    using fresh_create [of 10 14 8 4 None "\<lambda>_. 0" "''f''" True 4] by auto
  have "create_fits 12 8 4 4 (14 - 10)"
    by (simp add: create_fits_def ref_hdr_size_def ref_rec_size_def align8_def)
  moreover have f: "(O_RDWR OR O_CREAT) AND O_CREAT \<noteq> 0" "(O_RDWR OR O_CREAT) AND O_EXCL = 0"
    by (simp_all add: O_RDWR_def O_CREAT_def O_EXCL_def)
  moreover have "is_long 10" "is_long 14" by (simp_all add: is_long_def LONG_MAX_def LONG_MIN_def)
  ultimately show ?thesis
    using storage_created [OF c, of 12] by (intro exI [of _ st] exI [of _ m])
      (auto simp: has_queue_def storage_get_queue_capacity_def storage_get_queue_head_def status_defs)
qed


theorem change_queue_window_witness:
  "\<exists>st m. stg_ok st m \<and>
    (let m' = foldl (\<lambda>m i. snd (storage_write_queue st m i)) m [10, 12, 11, 13, 10] in
      storage_read_queue m' (storage_get_queue_head m + 1) True = Inr 12 \<and>
      storage_read_queue m' (storage_get_queue_head m + 4) True = Inr 10)"
proof -
  obtain st m where s: "stg_ok st m" "\<not> stg_read_only st" "has_queue m"
    "storage_get_queue_capacity m = 4"
    using sample_store by blast
  have "\<forall>i\<in>set [10, 12, 11, 13, 10 :: ident]. is_long i"
    by (simp add: is_long_def LONG_MAX_def LONG_MIN_def)
  note w = change_queue_window [OF s(1-3) this refl]
  from w have "\<forall>j<5. 5 - j \<le> unat (storage_get_queue_capacity m) \<longrightarrow>
      storage_read_queue (foldl (\<lambda>m i. snd (storage_write_queue st m i)) m [10, 12, 11, 13, 10])
        (storage_get_queue_head m + of_nat j) True = Inr ([10, 12, 11, 13, 10] ! j)"
    by simp
  from this [rule_format, of 1] this [rule_format, of 4] s(1,4) show ?thesis
    by (intro exI [of _ st] exI [of _ m]) (simp add: Let_def)
qed

section \<open>Properties of the records\<close>

lemma storage_get_id_record_at:
  assumes "stg_ok st m" "i < storage_count m"
  shows "storage_get_id st m (record_at st m i) True = Inr (int i)"
proof -
  have r: "is_record st m (record_at st m i)"
    using assms(2) by (simp add: is_record_def storage_records_def)
  have "0 < storage_get_record_size m"
    using layout_okD(4) [OF stg_okD(1) [OF assms(1)]] by simp
  then show ?thesis
    using is_record_bounds [OF assms(1) r] by (simp add: storage_get_id_def record_at_def)
qed

text \<open>
  C37.  \<open>storage_get_record\<close> maps the identifiers of the range one to one onto the records of the
  array, in order and without overlap, and rejects every other identifier; but
  \<open>storage_get_id\<close> is its inverse only up to the base identifier, which it does not add back.
\<close>

theorem storage_get_record_get_id:
  assumes "stg_ok st m"
  shows "if storage_get_base_id m \<le> i \<and> i < storage_get_max_id m
    then \<exists>r. storage_get_record st m i True = Inr r \<and> is_record st m r \<and>
      r + storage_get_record_size m \<le> stg_limit st \<and>
      storage_get_id st m r True = Inr (i - storage_get_base_id m) \<and>
      (\<forall>j r'. j \<noteq> i \<longrightarrow> storage_get_record st m j True = Inr r' \<longrightarrow>
        (r + storage_get_record_size m \<le> r' \<longleftrightarrow> i < j) \<and> (r' + storage_get_record_size m \<le> r \<longleftrightarrow> j < i))
    else storage_get_record st m i True = Inl INVALID_RECORD"
proof (cases "storage_get_base_id m \<le> i \<and> i < storage_get_max_id m")
  case True
  let ?n = "nat (i - storage_get_base_id m)"
  have n: "?n < storage_count m" using True by (simp add: storage_count_def)
  have get: "storage_get_record st m i True = Inr (record_at st m ?n)"
    using True by (simp add: storage_get_record_iff [OF assms])
  have sz: "0 < storage_get_record_size m"
    using layout_okD(4) [OF stg_okD(1) [OF assms]] by simp
  have "(record_at st m ?n + storage_get_record_size m \<le> r' \<longleftrightarrow> i < j) \<and>
      (r' + storage_get_record_size m \<le> record_at st m ?n \<longleftrightarrow> j < i)"
    if "j \<noteq> i" "storage_get_record st m j True = Inr r'" for j r'
  proof -
    let ?k = "nat (j - storage_get_base_id m)"
    have j: "r' = record_at st m ?k" "storage_get_base_id m \<le> j"
      using that(2) by (simp_all add: storage_get_record_iff [OF assms])
    have "?n < ?k \<longleftrightarrow> i < j" "?k < ?n \<longleftrightarrow> j < i" using j(2) True by auto
    moreover from \<open>j \<noteq> i\<close> have "i < j \<or> j < i" by auto
    ultimately show ?thesis
      using record_at_apart [of ?n ?k st m] record_at_apart [of ?k ?n st m] sz
      by (auto simp: j(1))
  qed
  moreover have "storage_get_id st m (record_at st m ?n) True = Inr (i - storage_get_base_id m)"
    using storage_get_id_record_at [OF assms n] True by simp
  ultimately show ?thesis
    using True get storage_get_record_is_record [OF assms get]
      is_record_bounds(2) [OF assms storage_get_record_is_record [OF assms get]] by auto
next
  case False
  then show ?thesis by (auto simp: storage_get_record_def)
qed

theorem storage_get_record_get_id_witness:
  "\<exists>st m r. stg_ok st m \<and> storage_get_record st m 12 True = Inr r \<and>
    storage_get_id st m r True = Inr 2 \<and> storage_get_record st m 14 True = Inl INVALID_RECORD"
proof -
  obtain st m where s: "stg_ok st m" "storage_get_base_id m = 10" "storage_get_max_id m = 14"
    using sample_store by blast
  from storage_get_record_get_id [OF s(1), of 12] storage_get_record_get_id [OF s(1), of 14] s
  show ?thesis by auto
qed

lemma next_unused_locked:
  assumes "\<forall>r\<in>set rs. unlocked (load64 m r)"
  shows "next_unused slp lock m rs =
    (case find (\<lambda>r. load64 m r = 0) rs of
       None \<Rightarrow> (FALSE_ST, None, m)
     | Some r \<Rightarrow> (TRUE_ST, Some (r, 0), if lock then store64 m r SPIN_MASK else m))"
  using assms
proof (induction rs)
  case Nil
  then show ?case by simp
next
  case (Cons r rs)
  then show ?case by (auto simp: spin_unlock_def)
qed

lemma prev_used_locked:
  assumes "\<forall>r\<in>set rs. unlocked (load64 m r)"
  shows "prev_used slp lock m rs =
    (case find (\<lambda>r. load64 m r \<noteq> 0) rs of
       None \<Rightarrow> (FALSE_ST, None, m)
     | Some r \<Rightarrow> (TRUE_ST, Some (r, load64 m r),
         if lock then store64 m r (load64 m r OR SPIN_MASK) else m))"
  using assms
proof (induction rs)
  case Nil
  then show ?case by simp
next
  case (Cons r rs)
  moreover have "store64 (store64 m r w) r 0 = m" if "load64 m r = 0" for w
    using store64_restore [of m r w] that by simp
  ultimately show ?case by (auto simp: spin_unlock_def)
qed

lemma storage_find_eqs:
  assumes "stg_ok st m" "\<forall>r\<in>set (storage_records st m). unlocked (load64 m r)"
    and "i < storage_count m" "lock \<longrightarrow> \<not> stg_read_only st"
  shows "storage_find_next_unused slp st m (Some (record_at st m i)) True lock =
      (case find (\<lambda>r. load64 m r = 0) (drop (Suc i) (storage_records st m)) of
         None \<Rightarrow> (FALSE_ST, None, m)
       | Some r \<Rightarrow> (TRUE_ST, Some (r, 0), if lock then store64 m r SPIN_MASK else m)) \<and>
    storage_find_next_unused slp st m None True lock =
      (case find (\<lambda>r. load64 m r = 0) (storage_records st m) of
         None \<Rightarrow> (FALSE_ST, None, m)
       | Some r \<Rightarrow> (TRUE_ST, Some (r, 0), if lock then store64 m r SPIN_MASK else m)) \<and>
    storage_find_prev_used slp st m (Some (record_at st m i)) True lock =
      (case find (\<lambda>r. load64 m r \<noteq> 0) (rev (take i (storage_records st m))) of
         None \<Rightarrow> (FALSE_ST, None, m)
       | Some r \<Rightarrow> (TRUE_ST, Some (r, load64 m r),
           if lock then store64 m r (load64 m r OR SPIN_MASK) else m)) \<and>
    storage_find_prev_used slp st m None True lock =
      (case find (\<lambda>r. load64 m r \<noteq> 0) (rev (storage_records st m)) of
         None \<Rightarrow> (FALSE_ST, None, m)
       | Some r \<Rightarrow> (TRUE_ST, Some (r, load64 m r),
           if lock then store64 m r (load64 m r OR SPIN_MASK) else m))"
proof -
  have r: "is_record st m (record_at st m i)"
    using assms(3) by (simp add: is_record_def storage_records_def)
  note b = is_record_bounds [OF assms(1) r]
  have up: "rec_addrs (STORAGE_RECORD m (record_at st m i) 1) (stg_limit st) (storage_get_record_size m)
      = drop (Suc i) (storage_records st m)"
    using rec_addrs_after [OF assms(1), of "Suc i"] assms(3) by (simp only: STORAGE_RECORD_next Suc_le_eq)
  have down: "rec_addrs_down (record_at st m i) (stg_first st) (storage_get_record_size m) =
      rev (take i (storage_records st m))"
    using assms(3) by (simp add: rec_addrs_down_record [OF assms(1)] storage_records_def take_map)
  have all: "rec_addrs_down (stg_limit st) (stg_first st) (storage_get_record_size m) =
      rev (storage_records st m)"
    using rec_addrs_down_record [OF assms(1)]
    by (simp add: stg_limit_record [OF assms(1)] storage_records_def)
  have ok: "\<forall>r\<in>set (drop (Suc i) (storage_records st m)). unlocked (load64 m r)"
    "\<forall>r\<in>set (storage_records st m). unlocked (load64 m r)"
    "\<forall>r\<in>set (rev (take i (storage_records st m))). unlocked (load64 m r)"
    "\<forall>r\<in>set (rev (storage_records st m)). unlocked (load64 m r)"
    using assms(2) by (auto dest: in_set_dropD in_set_takeD)
  show ?thesis
    using assms(4) b
    by (auto simp: storage_find_next_unused_def storage_find_prev_used_def up down all
        rec_addrs_storage [OF assms(1)] next_unused_locked [OF ok(1)]
        next_unused_locked [OF ok(2)] prev_used_locked [OF ok(3)] prev_used_locked [OF ok(4)]
        simp del: One_nat_def)
qed

text \<open>
  The searches find what they are named for.  With no record locked,
  \<open>storage_find_next_unused\<close> after the record at index \<open>i\<close> (or from the start) returns the first
  later record of revision zero, and \<open>storage_find_prev_used\<close> the last earlier record of a revision
  other than zero, each with its revision.  When asked to, they leave exactly that record locked;
  the memory is otherwise unchanged, because every other record they locked on the way was given
  back with its old revision.
\<close>

theorem storage_find_unused_used:
  assumes "stg_ok st m" "\<forall>r\<in>set (storage_records st m). unlocked (load64 m r)"
    and "i < storage_count m" "lock \<longrightarrow> \<not> stg_read_only st"
  shows "storage_find_next_unused slp st m (Some (record_at st m i)) True lock =
      (case find (\<lambda>r. load64 m r = 0) (drop (Suc i) (storage_records st m)) of
         None \<Rightarrow> (FALSE_ST, None, m)
       | Some r \<Rightarrow> (TRUE_ST, Some (r, 0), if lock then store64 m r SPIN_MASK else m)) \<and>
    storage_find_next_unused slp st m None True lock =
      (case find (\<lambda>r. load64 m r = 0) (storage_records st m) of
         None \<Rightarrow> (FALSE_ST, None, m)
       | Some r \<Rightarrow> (TRUE_ST, Some (r, 0), if lock then store64 m r SPIN_MASK else m)) \<and>
    storage_find_prev_used slp st m (Some (record_at st m i)) True lock =
      (case find (\<lambda>r. load64 m r \<noteq> 0) (rev (take i (storage_records st m))) of
         None \<Rightarrow> (FALSE_ST, None, m)
       | Some r \<Rightarrow> (TRUE_ST, Some (r, load64 m r),
           if lock then store64 m r (load64 m r OR SPIN_MASK) else m)) \<and>
    storage_find_prev_used slp st m None True lock =
      (case find (\<lambda>r. load64 m r \<noteq> 0) (rev (storage_records st m)) of
         None \<Rightarrow> (FALSE_ST, None, m)
       | Some r \<Rightarrow> (TRUE_ST, Some (r, load64 m r),
           if lock then store64 m r (load64 m r OR SPIN_MASK) else m))"
  using storage_find_eqs [OF assms] .

theorem storage_find_unused_used_witness:
  "\<exists>st m. stg_ok st m \<and> 1 < storage_count m \<and>
    storage_find_next_unused (\<lambda>_. 0) st m (Some (record_at st m 1)) True True =
      (case find (\<lambda>r. load64 m r = 0) (drop (Suc 1) (storage_records st m)) of
         None \<Rightarrow> (FALSE_ST, None, m)
       | Some r \<Rightarrow> (TRUE_ST, Some (r, 0), if True then store64 m r SPIN_MASK else m))"
proof -
  obtain st m where s: "stg_ok st m" "\<not> stg_read_only st" "storage_get_base_id m = 10"
    "storage_get_max_id m = 14" "\<forall>r\<in>set (storage_records st m). unlocked (load64 m r)"
    using sample_store by blast
  have c: "1 < storage_count m" using s(3,4) by (simp add: storage_count_def)
  show ?thesis
    using storage_find_unused_used [OF s(1,5) c, of True "\<lambda>_. 0"] s(1,2) c by blast
qed

lemma iterate_records_continue:
  "(\<And>r s. 0 < fst (f r s)) \<Longrightarrow>
    snd (iterate_records f rs st s) = fold (\<lambda>r s. snd (f r s)) rs s \<and>
    (0 < st \<longrightarrow> 0 < fst (iterate_records f rs st s))"
proof (induction rs arbitrary: st s)
  case Nil
  then show ?case by simp
next
  case (Cons r rs)
  obtain st' s' where f: "f r s = (st', s')" by (cases "f r s")
  then have "0 < st'" using Cons.prems [of r s] by simp
  with Cons f show ?case by simp
qed

lemma iterate_records_append:
  "(\<forall>r\<in>set rs. \<forall>s. 0 < fst (f r s)) \<Longrightarrow> fst (f r (fold (\<lambda>r s. snd (f r s)) rs s)) \<le> 0 \<Longrightarrow>
    iterate_records f (rs @ r # rs') st s = f r (fold (\<lambda>r s. snd (f r s)) rs s)"
proof (induction rs arbitrary: st s)
  case Nil
  then show ?case by (auto split: prod.splits)
next
  case (Cons x rs)
  obtain st' s' where f: "f x s = (st', s')" by (cases "f x s")
  then have "0 < st'" using Cons.prems(1) by (metis fst_conv list.set_intros(1))
  with Cons f show ?case by auto
qed

text \<open>
  \<open>storage_iterate\<close> calls the function on every record of the storage once, in the order of
  their identifiers, and passes its state on; a result that is not positive stops the walk there
  and is returned.
\<close>

theorem storage_iterate_visits:
  assumes "stg_ok st m"
  shows "((\<forall>r s. 0 < fst (f r s)) \<longrightarrow>
      snd (storage_iterate st m None (Some f) s) = fold (\<lambda>r s. snd (f r s)) (storage_records st m) s \<and>
      0 < fst (storage_iterate st m None (Some f) s)) \<and>
    (k < storage_count m \<longrightarrow>
      (\<forall>j<k. \<forall>s. 0 < fst (f (record_at st m j) s)) \<longrightarrow>
      (let s' = fold (\<lambda>r s. snd (f r s)) (take k (storage_records st m)) s in
        fst (f (record_at st m k) s') \<le> 0 \<longrightarrow>
        storage_iterate st m None (Some f) s = f (record_at st m k) s'))"
proof -
  have iter: "storage_iterate st m None (Some f) s = iterate_records f (storage_records st m) TRUE_ST s"
    by (simp add: storage_iterate_def rec_addrs_storage [OF assms])
  have "iterate_records f (storage_records st m) TRUE_ST s = f (record_at st m k) s'"
    if "k < storage_count m" "\<forall>j<k. \<forall>s. 0 < fst (f (record_at st m j) s)"
      "s' = fold (\<lambda>r s. snd (f r s)) (take k (storage_records st m)) s"
      "fst (f (record_at st m k) s') \<le> 0" for s'
  proof -
    have "storage_records st m = take k (storage_records st m) @ record_at st m k #
        drop (Suc k) (storage_records st m)"
      using that(1) id_take_nth_drop [of k "storage_records st m"] by (simp add: storage_records_def)
    moreover have "\<forall>r\<in>set (take k (storage_records st m)). \<forall>s. 0 < fst (f r s)"
      using that(1,2) by (auto simp: storage_records_def take_map)
    ultimately show ?thesis
      using iterate_records_append [of "take k (storage_records st m)" f "record_at st m k" s]
        that(3,4) by metis
  qed
  then show ?thesis
    using iterate_records_continue [of f "storage_records st m" TRUE_ST s]
    by (auto simp: iter Let_def status_defs)
qed

theorem storage_iterate_visits_witness:
  "\<exists>st m. stg_ok st m \<and>
    snd (storage_iterate st m None (Some (\<lambda>r s. (1, s @ [r]))) []) = storage_records st m"
proof -
  obtain st m where s: "stg_ok st m" using sample_store by blast
  have "fold (\<lambda>r s. s @ [r]) xs ys = ys @ xs" for xs ys :: "nat list"
    by (induction xs arbitrary: ys) auto
  then show ?thesis
    using storage_iterate_visits [OF s, of "\<lambda>r s. (1, s @ [r])" "[]"] s by fastforce
qed

lemma storage_clear_record_OK:
  assumes "stg_ok st m" "\<not> stg_read_only st" "is_record st m r"
  obtains m' where "storage_clear_record st m r = (OK, m')" "only_record st m r m'"
    "load64 m' r = 0" "record_get_timestamp m' r = 0"
    "mread m' (record_get_value_ref r) (storage_get_value_size m) =
       replicate (storage_get_value_size m) 0"
    "mread m' (r + storage_get_property_offset m) (storage_get_property_size m) =
       replicate (storage_get_property_size m) 0"
proof -
  note l = layout_okD [OF stg_okD(1) [OF assms(1)]]
  note b = is_record_bounds [OF assms(1,3)]
  let ?v = "storage_get_value_size m" and ?p = "storage_get_property_size m"
    and ?o = "storage_get_property_offset m"
  let ?m1 = "mzero m (r + REC_val) ?v"
  let ?m2 = "if ?p > 0 then mzero ?m1 (r + ?o) ?p else ?m1"
  have same: "same_layout m ?m1" using b by (intro same_layout_mzero) (simp add: off_layout_def)
  have eq: "storage_clear_record st m r = (OK, store64 (store64 ?m2 (r + REC_ts) 0) r 0)"
    using assms(2) b by (simp add: storage_clear_record_def Let_def spin_unlock_def same_layout_fields [OF same])
  show thesis
  proof (rule that [OF eq])
    show "only_record st m r (store64 (store64 ?m2 (r + REC_ts) 0) r 0)"
      using l(3-6) by (auto simp: only_record_def mem_other)
    show "load64 (store64 (store64 ?m2 (r + REC_ts) 0) r 0) r = 0" by simp
    show "record_get_timestamp (store64 (store64 ?m2 (r + REC_ts) 0) r 0) r = 0"
      by (simp add: record_get_timestamp_def load_store_disjoint)
    show "mread (store64 (store64 ?m2 (r + REC_ts) 0) r 0) (record_get_value_ref r) ?v = replicate ?v 0"
      using l(3-6) by (auto simp: record_get_value_ref_def mem_simps)
    show "mread (store64 (store64 ?m2 (r + REC_ts) 0) r 0) (r + ?o) ?p = replicate ?p 0"
      using l(3-6) by (cases "?p = 0") (auto simp: mem_simps)
  qed
qed

lemma storage_copy_record_OK:
  assumes "stg_ok fs fm" "is_record fs fm fr" "stg_ok ts tm" "\<not> stg_read_only ts" "is_record ts tm tr"
    and "storage_get_value_size fm = storage_get_value_size tm"
    and "wp \<longrightarrow> storage_get_property_size fm = storage_get_property_size tm"
  obtains m' where "storage_copy_record fs fm fr ts tm tr to_ts wp = (OK, m')"
    "only_record ts tm tr m'" "load64 m' tr = load64 tm tr" "load64 m' (tr + REC_ts) = word_of_int to_ts"
    "mread m' (record_get_value_ref tr) (storage_get_value_size tm) =
       mread fm (record_get_value_ref fr) (storage_get_value_size fm)"
    "mread m' (tr + storage_get_property_offset tm) (storage_get_property_size tm) =
       (if wp then mread fm (fr + storage_get_property_offset fm) (storage_get_property_size fm)
        else mread tm (tr + storage_get_property_offset tm) (storage_get_property_size tm))"
proof -
  note l = layout_okD [OF stg_okD(1) [OF assms(3)]]
  note b = is_record_bounds [OF assms(1,2)] is_record_bounds [OF assms(3,5)]
  let ?v = "storage_get_value_size tm" and ?p = "storage_get_property_size tm"
    and ?o = "storage_get_property_offset tm"
  let ?val = "mread fm (fr + REC_val) ?v" and ?pr = "mread fm (fr + storage_get_property_offset fm) ?p"
  let ?m1 = "mwrite tm (tr + REC_val) ?val"
  let ?m2 = "if wp \<and> ?p > 0 then mwrite ?m1 (tr + ?o) ?pr else ?m1"
  have same: "same_layout tm ?m1" using b by (intro same_layout_mwrite) (simp add: off_layout_def)
  have eq: "storage_copy_record fs fm fr ts tm tr to_ts wp = (OK, store64 ?m2 (tr + REC_ts) (word_of_int to_ts))"
    using assms(4,6,7) b
    by (auto simp: storage_copy_record_def Let_def same_layout_fields [OF same])
  show thesis
  proof (rule that [OF eq])
    show "only_record ts tm tr (store64 ?m2 (tr + REC_ts) (word_of_int to_ts))"
      using l(3-6) by (auto simp: only_record_def mem_other)
    show "load64 (store64 ?m2 (tr + REC_ts) (word_of_int to_ts)) tr = load64 tm tr"
      using l(3-6) by (auto simp: mem_simps)
    show "load64 (store64 ?m2 (tr + REC_ts) (word_of_int to_ts)) (tr + REC_ts) = word_of_int to_ts"
      by simp
    show "mread (store64 ?m2 (tr + REC_ts) (word_of_int to_ts)) (record_get_value_ref tr) ?v =
        mread fm (record_get_value_ref fr) (storage_get_value_size fm)"
      using l(3-6) assms(6) by (auto simp: record_get_value_ref_def mem_simps)
    show "mread (store64 ?m2 (tr + REC_ts) (word_of_int to_ts)) (tr + ?o) ?p =
        (if wp then mread fm (fr + storage_get_property_offset fm) (storage_get_property_size fm)
         else mread tm (tr + ?o) ?p)"
      using l(3-6) assms(7) by (cases "?p = 0") (auto simp: mem_simps)
  qed
qed

text \<open>
  \<open>storage_copy_record\<close> copies the value, and the property when asked to, sets the timestamp,
  keeps the target's revision (and so its lock), and changes no byte outside the target record.
\<close>

theorem storage_copy_record_copies:
  assumes "stg_ok fs fm" "is_record fs fm fr" "stg_ok ts tm" "\<not> stg_read_only ts" "is_record ts tm tr"
    and "storage_get_value_size fm = storage_get_value_size tm"
    and "with_prop \<longrightarrow> storage_get_property_size fm = storage_get_property_size tm" "is_long to_ts"
  shows "\<exists>m'. storage_copy_record fs fm fr ts tm tr to_ts with_prop = (OK, m') \<and> stg_ok ts m' \<and>
    record_get_revision m' tr = record_get_revision tm tr \<and> record_get_timestamp m' tr = to_ts \<and>
    mread m' (record_get_value_ref tr) (storage_get_value_size tm) =
      mread fm (record_get_value_ref fr) (storage_get_value_size tm) \<and>
    (with_prop \<longrightarrow> mread m' (tr + storage_get_property_offset tm) (storage_get_property_size tm) =
      mread fm (fr + storage_get_property_offset fm) (storage_get_property_size tm)) \<and>
    only_record ts tm tr m'"
proof -
  obtain m' where "storage_copy_record fs fm fr ts tm tr to_ts with_prop = (OK, m')"
    and only: "only_record ts tm tr m'"
    and rest: "load64 m' tr = load64 tm tr" "load64 m' (tr + REC_ts) = word_of_int to_ts"
    "mread m' (record_get_value_ref tr) (storage_get_value_size tm) =
       mread fm (record_get_value_ref fr) (storage_get_value_size fm)"
    "mread m' (tr + storage_get_property_offset tm) (storage_get_property_size tm) =
       (if with_prop then mread fm (fr + storage_get_property_offset fm) (storage_get_property_size fm)
        else mread tm (tr + storage_get_property_offset tm) (storage_get_property_size tm))"
    using storage_copy_record_OK [OF assms(1-7)] by blast
  then show ?thesis
    using only_record_layout [OF assms(3,5) only] assms(3,6-8)
    by (auto simp: record_get_revision_def record_get_timestamp_def same_layout_stg_ok)
qed

theorem storage_copy_record_copies_witness:
  "\<exists>st m r r' m'. stg_ok st m \<and> is_record st m r \<and> is_record st m r' \<and> r \<noteq> r' \<and>
    storage_copy_record st m r st m r' 77 True = (OK, m') \<and> record_get_timestamp m' r' = 77"
proof -
  obtain st m where s: "stg_ok st m" "\<not> stg_read_only st" "storage_get_base_id m = 10"
    "storage_get_max_id m = 14"
    using sample_store by blast
  then have r: "is_record st m (record_at st m 0)" "is_record st m (record_at st m 1)"
    by (auto simp: is_record_def storage_records_def storage_count_def)
  moreover have "record_at st m 0 \<noteq> record_at st m 1" using record_at_inj [OF s(1)] by simp
  moreover have "is_long 77" by (simp add: is_long_def LONG_MAX_def LONG_MIN_def)
  ultimately show ?thesis
    using storage_copy_record_copies [OF s(1) r(1) s(1,2) r(2), of True 77] s(1) by blast
qed

text \<open>
  \<open>storage_clear_record\<close> zeroes the revision, the timestamp, the value and the property of the
  record and changes no byte outside it.
\<close>

theorem storage_clear_record_clears:
  assumes "stg_ok st m" "\<not> stg_read_only st" "is_record st m r"
  shows "\<exists>m'. storage_clear_record st m r = (OK, m') \<and> stg_ok st m' \<and>
    record_get_revision m' r = 0 \<and> record_get_timestamp m' r = 0 \<and>
    mread m' (record_get_value_ref r) (storage_get_value_size m) = replicate (storage_get_value_size m) 0 \<and>
    mread m' (r + storage_get_property_offset m) (storage_get_property_size m) =
      replicate (storage_get_property_size m) 0 \<and>
    only_record st m r m'"
proof -
  obtain m' where "storage_clear_record st m r = (OK, m')" and only: "only_record st m r m'"
    and "load64 m' r = 0" "record_get_timestamp m' r = 0"
    "mread m' (record_get_value_ref r) (storage_get_value_size m) =
       replicate (storage_get_value_size m) 0"
    "mread m' (r + storage_get_property_offset m) (storage_get_property_size m) =
       replicate (storage_get_property_size m) 0"
    using storage_clear_record_OK [OF assms] by blast
  then show ?thesis
    using only_record_layout [OF assms(1,3) only] assms(1)
    by (auto simp: record_get_revision_def same_layout_stg_ok)
qed

theorem storage_clear_record_clears_witness:
  "\<exists>st m r m'. stg_ok st m \<and> is_record st m r \<and> storage_clear_record st m r = (OK, m') \<and>
    record_get_revision m' r = 0 \<and> mread m' (record_get_value_ref r) 8 = replicate 8 0"
proof -
  obtain st m where s: "stg_ok st m" "\<not> stg_read_only st" "storage_get_base_id m = 10"
    "storage_get_max_id m = 14" "storage_get_value_size m = 8"
    using sample_store by blast
  then have r: "is_record st m (record_at st m 0)"
    by (auto simp: is_record_def storage_records_def storage_count_def)
  show ?thesis
    using storage_clear_record_clears [OF s(1,2) r] s(1,5) r by auto
qed

lemma unat_queue_bytes:
  assumes "layout_ok m" "has_queue m"
  shows "unat ((load64 m OFF_q_mask + 1) * 8) = 8 * queue_slots m"
proof -
  obtain k where k: "k < 64" "queue_slots m = 2 ^ k" "load64 m OFF_q_mask = 2 ^ k - 1"
    using queue_slots_pow2 [OF assms] by auto
  have "unat (load64 m OFF_hdr_size) < 2 ^ 64"
    using unsigned_less [of "load64 m OFF_hdr_size"] by simp
  then have "8 * queue_slots m < 2 ^ 64" using layout_okD(8) [OF assms(1)] by linarith
  then have "2 ^ k * 8 < (2::nat) ^ 64" by (simp add: k(2))
  then show ?thesis
    using unat_pow2_u64 [OF k(1)] by (simp add: k(3)) (subst unat_mult_u64, auto simp: k(2))
qed

text \<open>
  \<open>storage_reset\<close> zeroes every record (so that all of them are unused and unlocked) and the
  change queue, and keeps the header.
\<close>

theorem storage_reset_zeroes:
  assumes "stg_ok st m" "\<not> stg_read_only st"
  shows "\<exists>m'. storage_reset st m = (OK, m') \<and> stg_ok st m' \<and>
    (\<forall>a. stg_first st \<le> a \<and> a < stg_limit st \<longrightarrow> m' a = 0) \<and>
    (\<forall>r\<in>set (storage_records st m'). record_get_revision m' r = 0) \<and>
    storage_get_queue_head m' = 0 \<and>
    (\<forall>x i. storage_read_queue m' x True = Inr i \<longrightarrow> i = 0) \<and>
    (\<forall>a<OFF_q_head. m' a = m a)"
proof -
  note f = stg_okD(4) [OF assms(1)]
  let ?m1 = "mzero m (stg_first st) (stg_limit st - stg_first st)"
  let ?m2 = "store64 ?m1 OFF_q_head 0"
  let ?m3 = "if has_queue m then mzero ?m2 OFF_change_q (8 * queue_slots m) else ?m2"
  have q: "load64 ?m1 OFF_q_mask = load64 m OFF_q_mask" "load64 ?m2 OFF_q_mask = load64 m OFF_q_mask"
    using f by (simp_all add: mem_simps)
  have eq: "storage_reset st m = (OK, ?m3)"
    using assms(2) unat_queue_bytes [OF stg_okD(1) [OF assms(1)]]
    by (simp add: storage_reset_def Let_def q has_queue_def)
  have qb: "OFF_change_q + 8 * queue_slots m \<le> stg_first st"
    using layout_okD(8) [OF stg_okD(1) [OF assms(1)]] stg_okD(2) [OF assms(1)] by simp
  have same: "same_layout m ?m3"
    using f by (simp add: same_layout_def mem_other)
  have zero: "?m3 a = 0" if "stg_first st \<le> a" "a < stg_limit st" for a
    using that f qb by (auto simp: mzero_other store_other) (auto simp: mzero_def mwrite_def)
  have "load64 ?m3 r = 0" if "is_record st m r" for r
  proof -
    have "load64 ?m3 r = load64 (\<lambda>_. 0) r"
      using is_record_bounds [OF assms(1) that] layout_okD(4) [OF stg_okD(1) [OF assms(1)]]
      by (intro load_cong zero) auto
    then show ?thesis by simp
  qed
  moreover have "load64 ?m3 (queue_slot m x) = 0" if "has_queue m" for x
  proof -
    have "unat x mod queue_slots m < queue_slots m" by simp
    then have "queue_slot m x + 8 \<le> OFF_change_q + 8 * queue_slots m"
      using queue_slot_eq [OF stg_okD(1) [OF assms(1)] that, of x] by linarith
    then show ?thesis
      using that queue_slot_eq [OF stg_okD(1) [OF assms(1)] that, of x] by (simp add: load_mzero_inside)
  qed
  ultimately show ?thesis
    using eq same assms(1) zero f same_layout_queue [OF same]
    by (auto simp: same_layout_stg_ok same_layout_records record_get_revision_def storage_get_queue_head_def
        storage_read_queue_def has_queue_def is_record_def mem_simps mem_other split: if_splits)
qed

theorem storage_reset_zeroes_witness:
  "\<exists>st m m'. stg_ok st m \<and> storage_reset st m = (OK, m') \<and> storage_get_queue_head m' = 0"
proof -
  obtain st m where s: "stg_ok st m" "\<not> stg_read_only st" using sample_store by blast
  show ?thesis using storage_reset_zeroes [OF s] s(1) by blast
qed



section \<open>Growing keeps the records\<close>

text \<open>
  \<open>copied\<close>: the record at index \<open>i\<close> of the new storage starts with the revision, the timestamp
  and the common part of the value of the old record at index \<open>i\<close>, and has the common part of
  its property.
\<close>

definition copied :: "storage \<Rightarrow> mem \<Rightarrow> storage \<Rightarrow> mem \<Rightarrow> nat \<Rightarrow> bool" where
  "copied st m nst nm i \<longleftrightarrow>
     (let old_r = record_at st m i; new_r = record_at nst nm i;
          v = min (storage_get_value_size m) (storage_get_value_size nm);
          p = min (storage_get_property_size m) (storage_get_property_size nm)
      in mread nm new_r (16 + v) = mread m old_r (16 + v) \<and>
         mread nm (new_r + storage_get_property_offset nm) p =
           mread m (old_r + storage_get_property_offset m) p)"

lemma grow_copy_record:
  assumes "stg_ok nst nm" "is_record nst nm new_r"
    and "v \<le> storage_get_value_size nm" "p \<le> storage_get_property_size nm"
    and "props = (0 < storage_get_property_size nm)" "length vb = 16 + v" "length pb = p"
    and "nm' = (let m = mwrite nm new_r vb
      in if props then mwrite m (new_r + storage_get_property_offset m) pb else m)"
  shows "only_record nst nm new_r nm' \<and> mread nm' new_r (16 + v) = vb \<and>
    mread nm' (new_r + storage_get_property_offset nm) p = pb"
proof -
  note l = layout_okD [OF stg_okD(1) [OF assms(1)]]
  have "same_layout nm (mwrite nm new_r vb)"
    using is_record_bounds(4) [OF assms(1,2)] by (intro same_layout_mwrite) (simp add: off_layout_def)
  then have "nm' = (if props then mwrite (mwrite nm new_r vb) (new_r + storage_get_property_offset nm) pb
      else mwrite nm new_r vb)"
    by (simp add: assms(8) Let_def same_layout_fields)
  then show ?thesis
    using l(3-7) assms(3-7)
    by (cases props) (auto simp: only_record_def mem_other mem_simps)
qed

lemma copied_kept:
  assumes "stg_ok nst nm" "same_layout nm nm'" "v = min (storage_get_value_size m) (storage_get_value_size nm)"
    and "p = min (storage_get_property_size m) (storage_get_property_size nm)"
    and "mread nm' (record_at nst nm i) (storage_get_record_size nm) = mread nm1 (record_at nst nm i) (storage_get_record_size nm)"
    and "mread nm1 (record_at nst nm i) (16 + v) = mread m (record_at st m i) (16 + v)"
    and "mread nm1 (record_at nst nm i + storage_get_property_offset nm) p = mread m (record_at st m i + storage_get_property_offset m) p"
  shows "copied st m nst nm' i"
proof -
  note l = layout_okD [OF stg_okD(1) [OF assms(1)]]
  let ?r = "record_at nst nm i"
  have part: "mread nm' (?r + k) n = mread nm1 (?r + k) n" if "k + n \<le> storage_get_record_size nm" for k n
    using arg_cong [OF assms(5), of "\<lambda>xs. take n (drop k xs)"] that by simp
  have "mread nm' ?r (16 + v) = mread nm1 ?r (16 + v)"
    using part [of 0 "16 + v"] l(4) assms(3) by simp
  moreover have "mread nm' (?r + storage_get_property_offset nm) p = mread nm1 (?r + storage_get_property_offset nm) p"
    using part [of "storage_get_property_offset nm" p] l(6,7) assms(4)
    by (cases "storage_get_property_size nm = 0") auto
  ultimately show ?thesis
    using assms(3,4,6,7) by (simp add: copied_def Let_def same_layout_fields [OF assms(2)] same_layout_records [OF assms(2)])
qed

lemma grow_copy_OK:
  assumes "stg_ok st m" "stg_ok nst nm" "distinct ks"
    and "\<forall>i\<in>set ks. i < storage_count nm \<and> unlocked (load64 m (record_at st m i))"
    and "props = (0 < storage_get_property_size nm)"
    and "v = min (storage_get_value_size m) (storage_get_value_size nm)"
    and "p = min (storage_get_property_size m) (storage_get_property_size nm)"
  shows "\<exists>nm'. grow_copy slp m (16 + v) p props
        (map (\<lambda>i. (record_at st m i, record_at nst nm i)) ks) nm = (OK, nm') \<and>
      (\<forall>a < stg_first nst. nm' a = nm a) \<and>
      (\<forall>j < storage_count nm. j \<notin> set ks \<longrightarrow>
        mread nm' (record_at nst nm j) (storage_get_record_size nm) =
        mread nm (record_at nst nm j) (storage_get_record_size nm)) \<and>
      (\<forall>i\<in>set ks. copied st m nst nm' i)"
  using assms(2-)
proof (induction ks arbitrary: nm)
  case Nil
  then show ?case by simp
next
  case (Cons i js)
  let ?r = "record_at nst nm i"
  have rec: "is_record nst nm (record_at nst nm j)" if "j < storage_count nm" for j
    using that by (simp add: is_record_def storage_records_def)
  have r: "is_record nst nm ?r" using Cons.prems(3) rec by simp
  define nm1 where "nm1 = (let nm1 = mwrite nm ?r (mread m (record_at st m i) (16 + v))
    in if props then mwrite nm1 (?r + storage_get_property_offset nm1)
         (mread m (record_at st m i + storage_get_property_offset m) p) else nm1)"
  have "v \<le> storage_get_value_size nm" "p \<le> storage_get_property_size nm"
    using Cons.prems(5,6) by simp_all
  note w = grow_copy_record [OF Cons.prems(1) r this Cons.prems(4) _ _ nm1_def, simplified]
  note same = only_record_layout [OF Cons.prems(1) r conjunct1 [OF w]]
  note fields = same_layout_fields [OF same] same_layout_records [OF same]
  have "stg_ok nst nm1" using Cons.prems(1) same_layout_stg_ok [OF same] by simp
  from Cons.IH [OF this] Cons.prems obtain nm' where
    run: "grow_copy slp m (16 + v) p props (map (\<lambda>i. (record_at st m i, record_at nst nm i)) js) nm1
      = (OK, nm')"
    and hdr: "\<forall>a < stg_first nst. nm' a = nm1 a"
    and other: "\<forall>j < storage_count nm. j \<notin> set js \<longrightarrow>
        mread nm' (record_at nst nm j) (storage_get_record_size nm) =
        mread nm1 (record_at nst nm j) (storage_get_record_size nm)"
    and cop: "\<forall>i\<in>set js. copied st m nst nm' i"
    by (auto simp: fields)
  have "same_layout nm1 nm'"
    using hdr stg_okD(4) [OF Cons.prems(1)] by (auto simp: same_layout_def)
  note same' = same_layout_trans [OF same this]
  have ri: "mread nm' ?r (storage_get_record_size nm) = mread nm1 ?r (storage_get_record_size nm)"
    using other Cons.prems(2,3) by simp
  have "copied st m nst nm' i"
    using w by (intro copied_kept [OF Cons.prems(1) same' Cons.prems(5,6) ri]) simp_all
  moreover have "grow_copy slp m (16 + v) p props
      (map (\<lambda>i. (record_at st m i, record_at nst nm i)) (i # js)) nm = (OK, nm')"
    using run Cons.prems(3) by (simp add: record_read_lock_def nm1_def Let_def)
  moreover have "\<forall>a < stg_first nst. nm' a = nm a"
    using hdr only_record_queue [OF Cons.prems(1) r conjunct1 [OF w]] by simp
  moreover have "mread nm' (record_at nst nm j) (storage_get_record_size nm) =
      mread nm (record_at nst nm j) (storage_get_record_size nm)"
    if "j < storage_count nm" "j \<notin> set (i # js)" for j
  proof -
    have "record_at nst nm j \<noteq> ?r"
      using that(2) record_at_inj [OF Cons.prems(1)] by auto
    then have "mread nm1 (record_at nst nm j + 0) (storage_get_record_size nm) =
        mread nm (record_at nst nm j + 0) (storage_get_record_size nm)"
      by (intro only_record_other [OF Cons.prems(1) r conjunct1 [OF w] rec [OF that(1)]]) auto
    with other that show ?thesis by simp
  qed
  ultimately show ?case using cop by (intro exI [of _ nm']) simp
qed

lemma storage_grow_create:
  assumes "storage_grow slp e de mo fstat clock st m po file flags b x v p q = (res, Some nst, nm)"
    and "\<not> FAILED res"
    and "\<forall>err. clock = Inl err \<longrightarrow> FAILED err"
  obtains nst0 nm0 nm1 res0 r now where
    "storage_create e de mo True file (O_RDWR OR flags) False b x v p q
       (Some (storage_get_description m)) = (res0, Some nst0, nm0)" "\<not> FAILED res0"
    "grow_copy slp m (16 + min (storage_get_value_size m) (storage_get_value_size nm0))
       (min (storage_get_property_size m) (storage_get_property_size nm0)) (p > 0)
       (zip (rec_addrs (stg_first st) (stg_limit st) (storage_get_record_size m))
          (rec_addrs (stg_first nst0) (stg_limit nst0) (storage_get_record_size nm0))) nm0 = (r, nm1)"
    "nst = nst0\<lparr>stg_persistent := stg_persistent st\<rparr>"
    "nm = store64 (mwrite (store 2 nm1 OFF_data_version (storage_get_data_version m)) OFF_description
       (storage_get_description m @ [0])) OFF_last_created (word_of_int now)"
  using assms
  by (auto simp: storage_grow_def Let_def split: if_splits prod.splits option.splits sum.splits)

lemma c_string_takeWhile [simp]: "c_string (storage_get_description m)"
  by (auto simp: c_string_def storage_get_description_def dest: set_takeWhileD)

lemma zip_records:
  assumes "stg_ok st m" "stg_ok nst nm"
  shows "zip (rec_addrs (stg_first st) (stg_limit st) (storage_get_record_size m))
      (rec_addrs (stg_first nst) (stg_limit nst) (storage_get_record_size nm)) =
    map (\<lambda>i. (record_at st m i, record_at nst nm i)) [0..<min (storage_count m) (storage_count nm)]"
  by (rule nth_equalityI)
    (auto simp: rec_addrs_storage [OF assms(1)] rec_addrs_storage [OF assms(2)] storage_records_def)

lemma grow_copy_all:
  assumes "stg_ok st m" "\<forall>r\<in>set (storage_records st m). unlocked (load64 m r)" "stg_ok nst nm"
    and "props = (0 < storage_get_property_size nm)"
  shows "\<exists>nm'. grow_copy slp m (16 + min (storage_get_value_size m) (storage_get_value_size nm))
       (min (storage_get_property_size m) (storage_get_property_size nm)) props
       (zip (rec_addrs (stg_first st) (stg_limit st) (storage_get_record_size m))
          (rec_addrs (stg_first nst) (stg_limit nst) (storage_get_record_size nm))) nm = (OK, nm') \<and>
      (\<forall>a < stg_first nst. nm' a = nm a) \<and>
      (\<forall>i<min (storage_count m) (storage_count nm). copied st m nst nm' i)"
proof -
  let ?ks = "[0..<min (storage_count m) (storage_count nm)]"
  have "\<exists>nm'. grow_copy slp m (16 + min (storage_get_value_size m) (storage_get_value_size nm))
       (min (storage_get_property_size m) (storage_get_property_size nm)) props
       (map (\<lambda>i. (record_at st m i, record_at nst nm i)) ?ks) nm = (OK, nm') \<and>
      (\<forall>a < stg_first nst. nm' a = nm a) \<and>
      (\<forall>j < storage_count nm. j \<notin> set ?ks \<longrightarrow>
        mread nm' (record_at nst nm j) (storage_get_record_size nm) =
        mread nm (record_at nst nm j) (storage_get_record_size nm)) \<and>
      (\<forall>i\<in>set ?ks. copied st m nst nm' i)"
    using assms(2,4) by (intro grow_copy_OK [OF assms(1,3)]) (auto simp: storage_records_def)
  then show ?thesis by (elim exE) (rule exI, auto simp: zip_records [OF assms(1,3)])
qed

text \<open>The header fields \<open>storage_grow\<close> sets last.\<close>

lemma grow_header:
  assumes "nm = store64 (mwrite (store 2 nm1 OFF_data_version dv) OFF_description
       (storage_get_description m @ [0])) OFF_last_created (word_of_int now)"
    and "length (storage_get_description m) < 256"
  shows "same_layout nm1 nm" "storage_get_description nm = storage_get_description m"
    "OFF_change_q < a \<Longrightarrow> mread nm a n = mread nm1 a n"
proof -
  let ?d = "storage_get_description m" and ?m1 = "store 2 nm1 OFF_data_version dv"
  let ?st = "undefined\<lparr>stg_read_only := False\<rparr>"
  show "same_layout nm1 nm"
    unfolding assms(1) using assms(2) by (auto simp: same_layout_def mem_other)
  show "OFF_change_q < a \<Longrightarrow> mread nm a n = mread nm1 a n"
    using assms(2) by (simp add: assms(1) mem_simps)
  have "storage_set_description ?st ?m1 (Some ?d) = (OK, mwrite ?m1 OFF_description (?d @ [0]))"
    using assms(2) by (simp add: storage_set_description_def)
  from storage_set_description_get [OF this] c_string_takeWhile [of m]
  show "storage_get_description nm = storage_get_description m"
    by (simp add: assms(1) storage_get_description_def status_defs c_string_def mem_simps)
qed

lemma copied_header:
  assumes "copied st m nst nm1 i" "stg_ok nst nm1" "same_layout nm1 nm"
    and "\<And>a n. OFF_change_q < a \<Longrightarrow> mread nm a n = mread nm1 a n"
  shows "copied st m (nst\<lparr>stg_persistent := b\<rparr>) nm i"
proof -
  have "record_at (nst\<lparr>stg_persistent := b\<rparr>) nm i = record_at nst nm1 i"
    by (simp add: record_at_def same_layout_fields [OF assms(3)])
  moreover have "OFF_change_q < record_at nst nm1 i"
    using stg_okD(4) [OF assms(2)] record_at_first less_le_trans by blast
  ultimately show ?thesis
    using assms(1) by (simp add: copied_def Let_def assms(4) same_layout_fields [OF assms(3)])
qed

text \<open>
  C32.  Growing keeps the data: when \<open>storage_grow\<close> into a created file succeeds and no record of the
  old storage was locked, the new storage is well formed with the new identifier range, and at
  every index both storages have, its record has the revision, the timestamp, the
  common prefix of the value and the common prefix of the property of the old one; the
  description, the data version and the persistence are those of the old storage.
  Records correspond by position, so identifiers keep their records only if the base stays.
\<close>

theorem storage_grow_copies:
  assumes "storage_grow slp e de mo fstat clock st m po file flags b x v p q = (res, Some nst, nm)"
    and "\<not> FAILED res" "\<forall>err. clock = Inl err \<longrightarrow> FAILED err"
    and "stg_ok st m" "\<forall>r\<in>set (storage_records st m). unlocked (load64 m r)"
    and "create_env_ok e" "flags AND O_CREAT \<noteq> 0" "ce_pagesize e = 2 ^ k"
    and "create_fits k v p q (x - b)" "is_long b" "is_long x" "length (storage_get_description m) < 256"
  shows "stg_ok nst nm \<and> storage_get_base_id nm = b \<and> storage_get_max_id nm = x \<and>
    stg_persistent nst = stg_persistent st \<and>
    storage_get_description nm = storage_get_description m \<and>
    (\<forall>i<min (storage_count m) (storage_count nm). copied st m nst nm i)"
proof -
  obtain nst0 nm0 nm1 res0 now r where
    c: "storage_create e de mo True file (O_RDWR OR flags) False b x v p q
       (Some (storage_get_description m)) = (res0, Some nst0, nm0)" "\<not> FAILED res0"
    and g: "grow_copy slp m (16 + min (storage_get_value_size m) (storage_get_value_size nm0))
       (min (storage_get_property_size m) (storage_get_property_size nm0)) (p > 0)
       (zip (rec_addrs (stg_first st) (stg_limit st) (storage_get_record_size m))
          (rec_addrs (stg_first nst0) (stg_limit nst0) (storage_get_record_size nm0))) nm0 = (r, nm1)"
    and nst: "nst = nst0\<lparr>stg_persistent := stg_persistent st\<rparr>"
    and nm: "nm = store64 (mwrite (store 2 nm1 OFF_data_version (storage_get_data_version m)) OFF_description
       (storage_get_description m @ [0])) OFF_last_created (word_of_int now)"
    using storage_grow_create [OF assms(1-3)] by metis
  have "(O_RDWR OR flags) AND O_CREAT = flags AND O_CREAT"
    by (simp add: bit.conj_disj_distrib2 O_RDWR_def O_CREAT_def)
  then have "(O_RDWR OR flags) AND O_CREAT \<noteq> 0" using assms(7) by simp
  note new = storage_created [OF c assms(6) this assms(8-11), simplified]
  then have ok: "stg_ok nst0 nm0" by simp
  have p: "p > 0 \<longleftrightarrow> 0 < storage_get_property_size nm0"
    using new by (simp add: word_less_nat_alt)
  from grow_copy_all [OF assms(4,5) ok p, of slp]
  have hdr: "\<forall>a < stg_first nst0. nm1 a = nm0 a"
    and cop: "\<forall>i<min (storage_count m) (storage_count nm0). copied st m nst0 nm1 i"
    using g by auto
  have s1: "same_layout nm0 nm1" using hdr stg_okD(4) [OF ok] by (auto simp: same_layout_def)
  note h = grow_header [OF nm assms(12)]
  note s = same_layout_trans [OF s1 h(1)]
  have "stg_ok nst0 nm1" using ok same_layout_stg_ok [OF s1] by simp
  then have "copied st m nst nm i" if "i < min (storage_count m) (storage_count nm0)" for i
    unfolding nst using cop that h by (intro copied_header) auto
  moreover have "stg_ok nst nm"
    using ok same_layout_stg_ok [OF s, of nst0] by (simp add: stg_ok_def nst)
  ultimately show ?thesis
    using new h(2) by (simp add: nst same_layout_fields [OF s])
qed

theorem storage_grow_copies_witness:
  "\<exists>st m nst nm. stg_ok st m \<and>
    storage_grow (\<lambda>_. 0) (fresh_env (\<lambda>_. 0)) close_ok True OK (Inr 5) st m True (Some ''grown'') O_CREAT
      10 30 16 4 8 = (OK, Some nst, nm) \<and>
    stg_ok nst nm \<and> copied st m nst nm 3"
proof -
  obtain st m where s: "stg_ok st m" "storage_get_base_id m = 10" "storage_get_max_id m = 14"
    "\<forall>r\<in>set (storage_records st m). unlocked (load64 m r)" "storage_get_description m = []"
    "stg_file st = ''f''"
    using sample_store by blast
  obtain nst0 nm0 where c: "storage_create (fresh_env (\<lambda>_. 0)) close_ok True True (Some ''grown'')
      (O_RDWR OR O_CREAT) False 10 30 16 4 8 (Some []) = (OK, Some nst0, nm0)"
    using fresh_create [of 10 30 16 8 "Some []" "\<lambda>_. 0" "''grown''" False 4] by auto
  have fits: "create_fits 12 16 4 8 (30 - 10)"
    by (simp add: create_fits_def ref_hdr_size_def ref_rec_size_def align8_def)
  have longs: "is_long 10" "is_long 30" by (simp_all add: is_long_def LONG_MAX_def LONG_MIN_def)
  have "(O_RDWR OR O_CREAT) AND O_CREAT \<noteq> 0" by (simp add: O_RDWR_def O_CREAT_def)
  then have ok: "stg_ok nst0 nm0" "storage_get_property_size nm0 = 4"
    using storage_created [OF c, of 12] fits longs by (auto simp: status_defs c_string_def)
  note g = grow_copy_all [OF s(1,4) ok(1), of True "\<lambda>_. 0", simplified ok(2), simplified]
  have fl: "O_CREAT AND NOT (O_RDWR OR O_CREAT OR O_EXCL OR O_NOFOLLOW) = 0" "O_CREAT AND O_CREAT \<noteq> 0"
    by (simp_all add: O_RDWR_def O_CREAT_def O_EXCL_def O_NOFOLLOW_def)
  from g obtain nst nm where w: "storage_grow (\<lambda>_. 0) (fresh_env (\<lambda>_. 0)) close_ok True OK (Inr 5) st m True
      (Some ''grown'') O_CREAT 10 30 16 4 8 = (OK, Some nst, nm)"
    using s(5,6) c fl
    by (auto simp: storage_grow_def Let_def ok(2) status_defs)
  have "stg_ok nst nm" "storage_get_base_id nm = 10" "storage_get_max_id nm = 30"
    "\<forall>i<min (storage_count m) (storage_count nm). copied st m nst nm i"
    using storage_grow_copies [OF w _ _ s(1,4) _ fl(2) _ fits longs] s(5) by (auto simp: status_defs)
  moreover from this(4) have "copied st m nst nm 3"
    using s(2,3) calculation(2,3) by (simp add: storage_count_def)
  ultimately show ?thesis using s(1) w by blast
qed


section \<open>Writing one record\<close>

text \<open>The address of the record with identifier \<open>i\<close>.\<close>

definition rec_of :: "storage \<Rightarrow> mem \<Rightarrow> ident \<Rightarrow> nat" where
  "rec_of st m i = record_at st m (nat (i - storage_get_base_id m))"

definition valid_id :: "mem \<Rightarrow> ident \<Rightarrow> bool" where
  "valid_id m i \<longleftrightarrow> storage_get_base_id m \<le> i \<and> i < storage_get_max_id m"

lemma storage_get_record_rec_of [simp]:
  "valid_id m i \<Longrightarrow> storage_get_record st m i True = Inr (rec_of st m i)"
  by (simp add: storage_get_record_def valid_id_def rec_of_def STORAGE_RECORD_first)

lemma rec_of_is_record: "valid_id m i \<Longrightarrow> is_record st m (rec_of st m i)"
  by (auto simp: is_record_def storage_records_def rec_of_def valid_id_def storage_count_def)

lemma rec_of_inj:
  "stg_ok st m \<Longrightarrow> valid_id m i \<Longrightarrow> valid_id m j \<Longrightarrow> rec_of st m i = rec_of st m j \<longleftrightarrow> i = j"
  by (auto simp: rec_of_def record_at_inj valid_id_def)

lemma same_layout_ids:
  "same_layout m m' \<Longrightarrow> rec_of st m' i = rec_of st m i"
  "same_layout m m' \<Longrightarrow> valid_id m' i = valid_id m i"
  by (simp_all add: rec_of_def valid_id_def same_layout_fields same_layout_records)

lemma commit_record_fields:
  assumes "stg_ok st m" "is_record st m r" "length val \<le> storage_get_value_size m"
    and "m' = commit_record (store64 m r w) r rv val now"
  shows "only_record st m r m'" "load64 m' r = NEXT_REV rv"
    "record_get_timestamp m' r = wrap_long now"
    "mread m' (record_get_value_ref r) (length val) = val"
proof -
  note l = layout_okD(3,4) [OF stg_okD(1) [OF assms(1)]]
  have m': "m' = store64 (store64 (mwrite (store64 m r w) (r + REC_val) val) (r + REC_ts) (word_of_int now))
      r (NEXT_REV rv)"
    by (simp add: assms(4) commit_record_def record_get_value_ref_def record_set_timestamp_def
        record_set_revision_def spin_unlock_def)
  show "only_record st m r m'"
    using l assms(3) by (auto simp: m' only_record_def mem_other)
  show "load64 m' r = NEXT_REV rv" by (simp add: m')
  show "record_get_timestamp m' r = wrap_long now"
    by (simp add: m' record_get_timestamp_def wrap_long_def mem_simps)
  show "mread m' (record_get_value_ref r) (length val) = val"
    by (simp add: m' record_get_value_ref_def mem_simps)
qed

end
