(* ===== verification/Tables.thy ===== *)
theory Tables
  imports Records
begin

text \<open>
  Hash tables with chaining, \<open>table.c\<close>, and the symbol dictionary built from two of them,
  \<open>dict.c\<close>.  A chain is the list of its entries from the head.  A missing hash or equality
  function (a null pointer) is \<open>None\<close>; then the key itself, cast to a \<open>long\<close> by \<open>tab_cast\<close>, is
  hashed, and keys are compared directly.  The calls of the destructor are returned as the
  list of the entries it is called on.
\<close>

section \<open>Hash tables\<close>

record ('k, 'v) table =
  tab_array :: "('k \<times> 'v) list list"
  tab_mask :: u64
  tab_h_fn :: "('k \<Rightarrow> int) option"
  tab_eq_fn :: "('k \<Rightarrow> 'k \<Rightarrow> bool) option"
  tab_dtor_fn :: bool
  tab_cast :: "'k \<Rightarrow> u64"

definition table_destroy :: "('k, 'v) table option \<Rightarrow> status \<times> ('k \<times> 'v) list" where
  "table_destroy ptab =
     (case ptab of
        None \<Rightarrow> (OK, [])
      | Some tab \<Rightarrow> (OK, if tab_dtor_fn tab then concat (tab_array tab) else []))"

text \<open>
  \<open>None\<close> is the death of the process: when the array of chains cannot be allocated,
  \<open>table_create\<close> calls \<open>table_destroy\<close>, which walks the array that is not there.
\<close>

definition table_create ::
  "bool \<Rightarrow> bool \<Rightarrow> bool \<Rightarrow> u64 \<Rightarrow> ('k \<Rightarrow> int) option \<Rightarrow> ('k \<Rightarrow> 'k \<Rightarrow> bool) option \<Rightarrow> bool \<Rightarrow>
     ('k \<Rightarrow> u64) \<Rightarrow> ('k, 'v) table result option" where
  "table_create ptab_ok malloc_ok calloc_ok tab_capacity h_fn eq_fn dtor_fn cast =
     (if \<not> ptab_ok then Some (Inl error_invalid_arg)
      else if tab_capacity = 0 \<or> tab_capacity AND (tab_capacity - 1) \<noteq> 0
        then Some (Inl INVALID_CAPACITY)
      else if \<not> malloc_ok then Some (Inl NO_MEMORY)
      else if \<not> calloc_ok then None
      else Some (Inr \<lparr>tab_array = replicate (unat tab_capacity) [], tab_mask = tab_capacity - 1,
                tab_h_fn = h_fn, tab_eq_fn = eq_fn, tab_dtor_fn = dtor_fn, tab_cast = cast\<rparr>))"

definition hash_index :: "('k, 'v) table \<Rightarrow> 'k \<Rightarrow> nat" where
  "hash_index tab key =
     unat ((case tab_h_fn tab of Some f \<Rightarrow> word_of_int (f key) | None \<Rightarrow> tab_cast tab key)
           AND tab_mask tab)"

definition same_key :: "('k, 'v) table \<Rightarrow> 'k \<Rightarrow> 'k \<Rightarrow> bool" where
  "same_key tab k key = (case tab_eq_fn tab of Some f \<Rightarrow> f k key | None \<Rightarrow> k = key)"

fun chain_find :: "('k \<Rightarrow> bool) \<Rightarrow> ('k \<times> 'v) list \<Rightarrow> 'v option" where
  "chain_find p [] = None"
| "chain_find p ((k, v) # c) = (if p k then Some v else chain_find p c)"

fun chain_set :: "('k \<Rightarrow> bool) \<Rightarrow> 'v \<Rightarrow> ('k \<times> 'v) list \<Rightarrow> ('k \<times> 'v) list" where
  "chain_set p v [] = []"
| "chain_set p v ((k, w) # c) = (if p k then (k, v) # c else (k, w) # chain_set p v c)"

fun chain_remove :: "('k \<Rightarrow> bool) \<Rightarrow> ('k \<times> 'v) list \<Rightarrow> ('k \<times> 'v) option \<times> ('k \<times> 'v) list" where
  "chain_remove p [] = (None, [])"
| "chain_remove p ((k, v) # c) =
     (if p k then (Some (k, v), c)
      else case chain_remove p c of (e, c') \<Rightarrow> (e, (k, v) # c'))"

definition table_lookup :: "('k, 'v) table \<Rightarrow> 'k \<Rightarrow> bool \<Rightarrow> status \<times> 'v option" where
  "table_lookup tab key pval_ok =
     (if \<not> pval_ok then (error_invalid_arg, None)
      else case chain_find (\<lambda>k. same_key tab k key) (tab_array tab ! hash_index tab key) of
        Some v \<Rightarrow> (TRUE_ST, Some v)
      | None \<Rightarrow> (FALSE_ST, None))"

definition table_insert ::
  "bool \<Rightarrow> ('k, 'v) table \<Rightarrow> 'k \<Rightarrow> 'v \<Rightarrow> status \<times> ('k, 'v) table" where
  "table_insert malloc_ok tab key val =
     (let h = hash_index tab key;
          c = tab_array tab ! h
      in if c = [] then
           (if \<not> malloc_ok then (NO_MEMORY, tab)
            else (OK, tab\<lparr>tab_array := (tab_array tab)[h := [(key, val)]]\<rparr>))
         else case chain_find (\<lambda>k. same_key tab k key) c of
           Some _ \<Rightarrow>
             (OK, tab\<lparr>tab_array := (tab_array tab)[h := chain_set (\<lambda>k. same_key tab k key) val c]\<rparr>)
         | None \<Rightarrow>
             if \<not> malloc_ok then (NO_MEMORY, tab)
             else (OK, tab\<lparr>tab_array := (tab_array tab)[h := (key, val) # c]\<rparr>))"

definition table_remove ::
  "('k, 'v) table \<Rightarrow> 'k \<Rightarrow> status \<times> ('k, 'v) table \<times> ('k \<times> 'v) list" where
  "table_remove tab key =
     (let h = hash_index tab key
      in case chain_remove (\<lambda>k. same_key tab k key) (tab_array tab ! h) of
           (None, _) \<Rightarrow> (NOT_FOUND, tab, [])
         | (Some e, c) \<Rightarrow>
             (OK, tab\<lparr>tab_array := (tab_array tab)[h := c]\<rparr>, if tab_dtor_fn tab then [e] else []))"

fun iterate_entries ::
  "('k \<Rightarrow> 'v \<Rightarrow> 's \<Rightarrow> status \<times> 's) \<Rightarrow> ('k \<times> 'v) list \<Rightarrow> status \<Rightarrow> 's \<Rightarrow> status \<times> 's" where
  "iterate_entries iter_fn [] st s = (st, s)"
| "iterate_entries iter_fn ((k, v) # es) st s =
     (case iter_fn k v s of
        (st', s') \<Rightarrow> if FAILED st' \<or> st' = 0 then (st', s') else iterate_entries iter_fn es st' s')"

definition table_iterate ::
  "('k, 'v) table \<Rightarrow> ('k \<Rightarrow> 'v \<Rightarrow> 's \<Rightarrow> status \<times> 's) option \<Rightarrow> 's \<Rightarrow> status \<times> 's" where
  "table_iterate tab iter_fn s =
     (case iter_fn of
        None \<Rightarrow> (error_invalid_arg, s)
      | Some f \<Rightarrow> iterate_entries f (concat (tab_array tab)) TRUE_ST s)"

section \<open>The dictionary\<close>

text \<open>
  Symbols are C strings, byte lists without the terminating zero.  The hash is computed in 32-bit
  arithmetic on signed characters.
\<close>

definition s2id_hash_step :: "u32 \<Rightarrow> byte \<Rightarrow> u32" where
  "s2id_hash_step h c = (push_bit 5 h + h) XOR scast c"

definition s2id_hash_fn :: "byte list \<Rightarrow> int" where
  "s2id_hash_fn key = sint (foldl s2id_hash_step 5381 key)"

definition s2id_eq_fn :: "byte list \<Rightarrow> byte list \<Rightarrow> bool" where
  "s2id_eq_fn key1 key2 \<longleftrightarrow> key1 = key2"

record dict =
  s2id :: "(byte list, ident) table"
  id2s :: "(ident, byte list) table"

text \<open>
  \<open>alloc_ok\<close> tells which of the five allocations succeed: the dictionary, and the header and the
  array of each table.  The string table never casts its keys.
\<close>

definition dict_create :: "(nat \<Rightarrow> bool) \<Rightarrow> bool \<Rightarrow> u64 \<Rightarrow> dict result option" where
  "dict_create alloc_ok pdict_ok dict_capacity =
     (if \<not> pdict_ok then Some (Inl error_invalid_arg)
      else if \<not> alloc_ok 0 then Some (Inl NO_MEMORY)
      else case table_create True (alloc_ok 1) (alloc_ok 2) dict_capacity (Some s2id_hash_fn)
                  (Some s2id_eq_fn) True (\<lambda>_. 0) of
        None \<Rightarrow> None
      | Some (Inl err) \<Rightarrow> Some (Inl err)
      | Some (Inr t1) \<Rightarrow>
          (case table_create True (alloc_ok 3) (alloc_ok 4) dict_capacity None None False word_of_int of
             None \<Rightarrow> None
           | Some (Inl err) \<Rightarrow> Some (Inl err)
           | Some (Inr t2) \<Rightarrow> Some (Inr \<lparr>s2id = t1, id2s = t2\<rparr>)))"

definition dict_destroy :: "dict option \<Rightarrow> status \<times> (byte list \<times> ident) list" where
  "dict_destroy pdict =
     (case pdict of
        None \<Rightarrow> (OK, [])
      | Some d \<Rightarrow> (OK, snd (table_destroy (Some (s2id d)))))"

definition dict_assoc ::
  "bool \<Rightarrow> bool \<Rightarrow> bool \<Rightarrow> dict \<Rightarrow> byte list option \<Rightarrow> ident \<Rightarrow> status \<times> dict" where
  "dict_assoc strdup_ok malloc1_ok malloc2_ok d symbol ident_no =
     (case symbol of
        None \<Rightarrow> (error_invalid_arg, d)
      | Some p \<Rightarrow>
          if \<not> strdup_ok then (NO_MEMORY, d)
          else case table_insert malloc1_ok (s2id d) p ident_no of
            (st, t1) \<Rightarrow>
              if FAILED st then (st, d\<lparr>s2id := t1\<rparr>)
              else case table_insert malloc2_ok (id2s d) ident_no p of
                (st, t2) \<Rightarrow> (st, d\<lparr>s2id := t1, id2s := t2\<rparr>))"

definition dict_get_id :: "dict \<Rightarrow> byte list option \<Rightarrow> bool \<Rightarrow> status \<times> ident option" where
  "dict_get_id d symbol pident_ok =
     (case symbol of
        None \<Rightarrow> (error_invalid_arg, None)
      | Some s \<Rightarrow> if \<not> pident_ok then (error_invalid_arg, None) else table_lookup (s2id d) s True)"

definition dict_get_symbol :: "dict \<Rightarrow> ident \<Rightarrow> bool \<Rightarrow> status \<times> byte list option" where
  "dict_get_symbol d ident_no psymbol_ok =
     (if \<not> psymbol_ok then (error_invalid_arg, None) else table_lookup (id2s d) ident_no True)"

section \<open>The table is a finite map\<close>

text \<open>
  The keys' side of the contract: equality of keys is an equivalence and equal keys have
  equal hash values.  The table's side: as many chains as the mask has values, every entry in
  the chain of its hash value, and no two entries of a chain with equal keys.
\<close>

definition keys_ok :: "('k, 'v) table \<Rightarrow> bool" where
  "keys_ok tab \<longleftrightarrow>
     equivp (same_key tab) \<and> (\<forall>k k'. same_key tab k k' \<longrightarrow> hash_index tab k = hash_index tab k')"

definition chain_ok :: "('k, 'v) table \<Rightarrow> nat \<Rightarrow> ('k \<times> 'v) list \<Rightarrow> bool" where
  "chain_ok tab h c \<longleftrightarrow> (\<forall>(k, v)\<in>set c. hash_index tab k = h) \<and>
     sorted_wrt (\<lambda>k k'. \<not> same_key tab k k') (map fst c)"

definition table_ok :: "('k, 'v) table \<Rightarrow> bool" where
  "table_ok tab \<longleftrightarrow> keys_ok tab \<and> (\<exists>k<64. tab_mask tab = 2 ^ k - 1) \<and>
     length (tab_array tab) = unat (tab_mask tab) + 1 \<and>
     (\<forall>h<length (tab_array tab). chain_ok tab h (tab_array tab ! h))"

definition table_map :: "('k, 'v) table \<Rightarrow> 'k \<Rightarrow> 'v option" where
  "table_map tab key = snd (table_lookup tab key True)"


lemma chain_find_set_same:
  "chain_find p (chain_set p v c) = (case chain_find p c of None \<Rightarrow> None | Some _ \<Rightarrow> Some v)"
  by (induction p v c rule: chain_set.induct) auto

lemma chain_find_set_other:
  "\<forall>k. \<not> (p k \<and> q k) \<Longrightarrow> chain_find q (chain_set p v c) = chain_find q c"
  by (induction p v c rule: chain_set.induct) auto

lemma chain_set_keys: "map fst (chain_set p v c) = map fst c"
  by (induction p v c rule: chain_set.induct) auto

lemma chain_find_None: "chain_find p c = None \<longleftrightarrow> (\<forall>k\<in>set (map fst c). \<not> p k)"
  by (induction p c rule: chain_find.induct) auto

lemma chain_remove_None: "fst (chain_remove p c) = None \<longleftrightarrow> chain_find p c = None"
  by (induction p c rule: chain_find.induct) (auto split: prod.splits)

lemma chain_remove_other:
  "\<forall>k. \<not> (p k \<and> q k) \<Longrightarrow> chain_find q (snd (chain_remove p c)) = chain_find q c"
  by (induction p c rule: chain_remove.induct) (auto split: prod.splits)

lemma chain_remove_set: "set (snd (chain_remove p c)) \<subseteq> set c"
  by (induction p c rule: chain_remove.induct) (auto split: prod.splits)

lemma chain_remove_sorted:
  "sorted_wrt R (map fst c) \<Longrightarrow> sorted_wrt R (map fst (snd (chain_remove p c)))"
proof (induction p c rule: chain_remove.induct)
  case (2 p k v c)
  then show ?case using chain_remove_set [of p c] by (auto split: prod.splits)
qed simp

lemma chain_remove_same:
  assumes "sorted_wrt (\<lambda>k k'. \<not> R k k') (map fst c)" "\<And>k k'. p k \<Longrightarrow> p k' \<Longrightarrow> R k k'"
  shows "chain_find p (snd (chain_remove p c)) = None"
  using assms(1)
proof (induction c)
  case (Cons e c)
  obtain k v where e: "e = (k, v)" by (cases e)
  show ?case
  proof (cases "p k")
    case True
    have "\<not> p k'" if "k' \<in> set (map fst c)" for k'
      using that Cons.prems assms(2) [OF True, of k'] by (auto simp: e)
    with True show ?thesis by (simp add: e chain_find_None)
  next
    case False
    with Cons show ?thesis by (auto simp: e split: prod.splits)
  qed
qed simp

lemma array_update [simp]:
  "hash_index (tab\<lparr>tab_array := a\<rparr>) = hash_index tab" "same_key (tab\<lparr>tab_array := a\<rparr>) = same_key tab"
  "chain_ok (tab\<lparr>tab_array := a\<rparr>) = chain_ok tab" "keys_ok (tab\<lparr>tab_array := a\<rparr>) = keys_ok tab"
proof -
  show h: "hash_index (tab\<lparr>tab_array := a\<rparr>) = hash_index tab"
    and k: "same_key (tab\<lparr>tab_array := a\<rparr>) = same_key tab"
    by (auto simp: fun_eq_iff hash_index_def same_key_def split: option.splits)
  show "chain_ok (tab\<lparr>tab_array := a\<rparr>) = chain_ok tab" "keys_ok (tab\<lparr>tab_array := a\<rparr>) = keys_ok tab"
    by (auto simp: fun_eq_iff chain_ok_def keys_ok_def h k)
qed

lemma hash_index_less: "table_ok tab \<Longrightarrow> hash_index tab k < length (tab_array tab)"
  by (auto simp: table_ok_def hash_index_def and_pow2_mask unat_mask_u64)

lemma table_map_chain:
  "table_map tab key = chain_find (\<lambda>k. same_key tab k key) (tab_array tab ! hash_index tab key)"
  by (simp add: table_map_def table_lookup_def split: option.splits)

text \<open>Replacing the chain of one key: what is left to show is about that chain.\<close>

lemma table_update_chain:
  assumes "table_ok tab" "chain_ok tab (hash_index tab key) c"
    and "tab' = tab\<lparr>tab_array := (tab_array tab)[hash_index tab key := c]\<rparr>"
  shows "table_ok tab'"
    "table_map tab' key' =
       (if hash_index tab key' = hash_index tab key then chain_find (\<lambda>k. same_key tab k key') c
        else table_map tab key')"
  using assms(1,2) hash_index_less [OF assms(1), of key]
  by (auto simp: table_ok_def table_map_chain assms(3) nth_list_update)

lemma key_classes:
  assumes "keys_ok tab"
  shows "same_key tab key key' \<Longrightarrow> (\<lambda>k. same_key tab k key) = (\<lambda>k. same_key tab k key')"
    "\<not> same_key tab key key' \<Longrightarrow> \<forall>k. \<not> (same_key tab k key \<and> same_key tab k key')"
    "same_key tab key key' \<Longrightarrow> hash_index tab key' = hash_index tab key"
    "same_key tab key key"
    "same_key tab k key \<Longrightarrow> same_key tab k' key \<Longrightarrow> same_key tab k k'"
    "same_key tab key k \<Longrightarrow> same_key tab k key"
proof -
  have e: "equivp (same_key tab)" using assms by (simp add: keys_ok_def)
  note r = equivp_reflp [OF e] and s = equivp_symp [OF e] and t = equivp_transp [OF e]
  show "same_key tab key key' \<Longrightarrow> (\<lambda>k. same_key tab k key) = (\<lambda>k. same_key tab k key')"
    by (auto simp: fun_eq_iff intro: t s)
  show "\<not> same_key tab key key' \<Longrightarrow> \<forall>k. \<not> (same_key tab k key \<and> same_key tab k key')"
    using s t by blast
  show "same_key tab key key' \<Longrightarrow> hash_index tab key' = hash_index tab key"
    using assms by (simp add: keys_ok_def)
  show "same_key tab key key" by (rule r)
  show "same_key tab k key \<Longrightarrow> same_key tab k' key \<Longrightarrow> same_key tab k k'" using s t by blast
  show "same_key tab key k \<Longrightarrow> same_key tab k key" by (rule s)
qed

lemma table_chain_ok: "table_ok tab \<Longrightarrow> chain_ok tab (hash_index tab k) (tab_array tab ! hash_index tab k)"
  using hash_index_less [of tab k] by (simp add: table_ok_def)

lemma chain_ok_keys:
  "chain_ok tab h c \<longleftrightarrow> (\<forall>k\<in>set (map fst c). hash_index tab k = h) \<and>
     sorted_wrt (\<lambda>k k'. \<not> same_key tab k k') (map fst c)"
  by (auto simp: chain_ok_def)

lemma table_insert_OK:
  assumes "table_ok tab"
  obtains tab' where "table_insert True tab key val = (OK, tab')" "table_ok tab'"
    "\<forall>key'. table_map tab' key' = (if same_key tab key key' then Some val else table_map tab key')"
    "tab_eq_fn tab' = tab_eq_fn tab" "tab_mask tab' = tab_mask tab"
proof -
  have keys: "keys_ok tab" using assms by (simp add: table_ok_def)
  note kc = key_classes [OF keys]
  let ?h = "hash_index tab key" and ?p = "\<lambda>k. same_key tab k key"
  let ?c = "tab_array tab ! ?h"
  define c where "c = (case chain_find ?p ?c of None \<Rightarrow> (key, val) # ?c | Some _ \<Rightarrow> chain_set ?p val ?c)"
  define tab' where "tab' = tab\<lparr>tab_array := (tab_array tab)[?h := c]\<rparr>"
  have ins: "table_insert True tab key val = (OK, tab')"
    by (auto simp: table_insert_def Let_def tab'_def c_def split: option.splits)
  have old: "chain_ok tab ?h ?c" by (rule table_chain_ok [OF assms])
  have keys_c: "map fst c = (if chain_find ?p ?c = None then key # map fst ?c else map fst ?c)"
    by (cases "chain_find ?p ?c") (simp_all add: c_def chain_set_keys)
  have "\<forall>k'\<in>set (map fst ?c). \<not> same_key tab key k'" if "chain_find ?p ?c = None"
    using that kc(6) unfolding chain_find_None by blast
  then have "chain_ok tab ?h c"
    using old by (simp add: chain_ok_keys keys_c)
  note u = table_update_chain [OF assms this tab'_def]
  have "table_map tab' key' = (if same_key tab key key' then Some val else table_map tab key')" for key'
  proof (cases "same_key tab key key'")
    case True
    have "chain_find ?p c = Some val"
      using kc(4) [of key] by (auto simp: c_def chain_find_set_same split: option.splits)
    then show ?thesis using True u(2) [of key'] kc(3) [OF True] by (simp add: kc(1) [OF True])
  next
    case False
    with u(2) [of key'] chain_find_set_other [OF kc(2) [OF False], of val ?c] show ?thesis
      by (auto simp: c_def table_map_chain split: option.splits)
  qed
  then show thesis using that [OF ins u(1)] by (simp add: tab'_def)
qed

lemma table_remove_OK:
  assumes "table_ok tab"
  shows "if table_map tab key = None then table_remove tab key = (NOT_FOUND, tab, [])
    else \<exists>tab' ds. table_remove tab key = (OK, tab', ds) \<and> table_ok tab' \<and>
      (\<forall>key'. table_map tab' key' = (if same_key tab key key' then None else table_map tab key'))"
proof -
  have keys: "keys_ok tab" using assms by (simp add: table_ok_def)
  note kc = key_classes [OF keys]
  let ?h = "hash_index tab key" and ?p = "\<lambda>k. same_key tab k key"
  let ?c = "tab_array tab ! ?h"
  obtain e c where rem: "chain_remove ?p ?c = (e, c)" by (cases "chain_remove ?p ?c")
  have none: "e = None \<longleftrightarrow> table_map tab key = None"
    using chain_remove_None [of ?p ?c] rem by (simp add: table_map_chain)
  have old: "chain_ok tab ?h ?c" by (rule table_chain_ok [OF assms])
  have "chain_ok tab ?h c"
    using old chain_remove_set [of ?p ?c] chain_remove_sorted [of _ ?c ?p] rem
    by (auto simp: chain_ok_def)
  note u = table_update_chain [OF assms this refl]
  have "table_map (tab\<lparr>tab_array := (tab_array tab)[?h := c]\<rparr>) key' =
      (if same_key tab key key' then None else table_map tab key')" for key'
  proof (cases "same_key tab key key'")
    case True
    have "sorted_wrt (\<lambda>k k'. \<not> same_key tab k k') (map fst ?c)"
      using old by (simp add: chain_ok_def)
    then have "chain_find ?p (snd (chain_remove ?p ?c)) = None"
      by (rule chain_remove_same) (rule kc(5))
    then show ?thesis using True u(2) [of key'] kc(3) [OF True] rem by (simp add: kc(1) [OF True])
  next
    case False
    with u(2) [of key'] chain_remove_other [OF kc(2) [OF False], of ?c] rem show ?thesis
      by (auto simp: table_map_chain)
  qed
  with u(1) rem none show ?thesis
    by (cases e) (auto simp: table_remove_def Let_def)
qed

lemma table_create_ok:
  assumes "table_create True True True cap h eq dt cast = Some (Inr tab)"
    and "case eq of None \<Rightarrow> True | Some f \<Rightarrow> equivp f"
    and "case h of Some g \<Rightarrow> (\<forall>k k'. (case eq of None \<Rightarrow> k = k' | Some f \<Rightarrow> f k k') \<longrightarrow> g k = g k')
      | None \<Rightarrow> (\<forall>k k'. (case eq of None \<Rightarrow> k = k' | Some f \<Rightarrow> f k k') \<longrightarrow> cast k = cast k')"
  shows "table_ok tab" "table_map tab k = None" "tab_eq_fn tab = eq"
proof -
  have cap: "cap \<noteq> 0" "cap AND (cap - 1) = 0"
    and tab: "tab = \<lparr>tab_array = replicate (unat cap) [], tab_mask = cap - 1, tab_h_fn = h,
      tab_eq_fn = eq, tab_dtor_fn = dt, tab_cast = cast\<rparr>"
    using assms(1) by (auto simp: table_create_def split: if_splits)
  have mask: "\<exists>k<64. cap - 1 = 2 ^ k - 1"
  proof (cases "cap = 1")
    case True
    then show ?thesis by (intro exI [of _ 0]) simp
  qed (use capacity_mask [OF cap(2) _ cap(1)] in auto)
  have "keys_ok tab"
    using assms(2,3)
    by (auto simp: keys_ok_def tab same_key_def [abs_def] hash_index_def identity_equivp split: option.splits)
  moreover have "length (tab_array tab) = unat (tab_mask tab) + 1"
    using cap(1) by (simp add: tab unat_minus_one unat_gt_0)
  moreover have "chain_ok tab h' (tab_array tab ! h')" if "h' < length (tab_array tab)" for h'
    using that by (simp add: chain_ok_def tab)
  moreover have "\<exists>k<64. tab_mask tab = 2 ^ k - 1" using mask by (simp add: tab)
  ultimately show ok: "table_ok tab" unfolding table_ok_def by blast
  show "table_map tab k = None"
    using hash_index_less [OF ok, of k] by (simp add: table_map_chain tab)
  show "tab_eq_fn tab = eq" by (simp add: tab)
qed

text \<open>
  C25.  A hash table is a finite map up to the equality of its keys: inserting binds the key,
  removing unbinds it, both leave every other key alone, a missing key is reported as
  \<open>NOT_FOUND\<close>, and the table invariant is kept.
\<close>

theorem table_refines_map:
  assumes "table_ok tab"
  shows "(\<exists>tab'. table_insert True tab key val = (OK, tab') \<and> table_ok tab' \<and>
      (\<forall>k. table_lookup tab' k True =
        (if same_key tab key k then (TRUE_ST, Some val) else table_lookup tab k True))) \<and>
    (if table_lookup tab key True = (FALSE_ST, None) then table_remove tab key = (NOT_FOUND, tab, [])
     else \<exists>tab' ds. table_remove tab key = (OK, tab', ds) \<and> table_ok tab' \<and>
      (\<forall>k. table_lookup tab' k True =
        (if same_key tab key k then (FALSE_ST, None) else table_lookup tab k True)))"
proof -
  have look: "table_lookup t k True = (case table_map t k of None \<Rightarrow> (FALSE_ST, None) | Some v \<Rightarrow> (TRUE_ST, Some v))"
    for t :: "('a, 'b) table" and k
    by (simp add: table_map_def table_lookup_def split: option.splits)
  have none: "table_lookup tab key True = (FALSE_ST, None) \<longleftrightarrow> table_map tab key = None"
    by (simp add: look split: option.splits)
  obtain tab' where "table_insert True tab key val = (OK, tab')" "table_ok tab'"
    "\<forall>key'. table_map tab' key' = (if same_key tab key key' then Some val else table_map tab key')"
    by (rule table_insert_OK [OF assms, of key val]) (rule that)
  then have ins: "\<exists>tab'. table_insert True tab key val = (OK, tab') \<and> table_ok tab' \<and>
      (\<forall>k. table_lookup tab' k True =
        (if same_key tab key k then (TRUE_ST, Some val) else table_lookup tab k True))"
    by (simp add: look)
  show ?thesis
    using ins table_remove_OK [OF assms, of key] unfolding none
    by (auto simp: look split: if_splits)
qed

theorem table_refines_map_witness:
  "\<exists>tab. table_create True True True 4 None None False (word_of_int :: int \<Rightarrow> u64) = Some (Inr tab) \<and>
    (\<exists>tab'. table_insert True tab 7 (1::nat) = (OK, tab') \<and>
      table_lookup tab' 7 True = (TRUE_ST, Some 1) \<and> table_lookup tab' 11 True = (FALSE_ST, None))"
proof -
  obtain tab where c: "table_create True True True 4 None None False (word_of_int :: int \<Rightarrow> u64) =
      Some (Inr (tab :: (int, nat) table))"
    by (simp add: table_create_def)
  note t = table_create_ok [OF c, simplified]
  have "table_lookup tab 11 True = (FALSE_ST, None)"
    using t(2) [of 11] by (simp add: table_map_def table_lookup_def split: option.splits)
  moreover have "same_key tab = (=)" by (simp add: fun_eq_iff same_key_def t(3))
  ultimately show ?thesis
    using table_refines_map [OF t(1), of 7 1] c by auto
qed

text \<open>What the dictionary needs of its tables.\<close>

locale key_map =
  fixes ok :: "'t \<Rightarrow> bool"
    and look :: "'t \<Rightarrow> 'k \<Rightarrow> 'v option"
    and ins :: "'t \<Rightarrow> 'k \<Rightarrow> 'v \<Rightarrow> 't"
  assumes ok_ins: "ok t \<Longrightarrow> ok (ins t k v)"
    and look_ins: "ok t \<Longrightarrow> look (ins t k v) k' = (if k' = k then Some v else look t k')"
begin

lemma ok_inserts: "ok t \<Longrightarrow> ok (foldl (\<lambda>t (k, v). ins t k v) t kvs)"
  by (induction kvs arbitrary: t) (auto simp: ok_ins)

lemma look_inserts:
  "ok t \<Longrightarrow> look (foldl (\<lambda>t (k, v). ins t k v) t kvs) k =
    (case map_of (rev kvs) k of None \<Rightarrow> look t k | Some v \<Rightarrow> Some v)"
proof (induction kvs arbitrary: t)
  case Nil
  then show ?case by simp
next
  case (Cons kv kvs)
  obtain k0 v0 where "kv = (k0, v0)" by (cases kv)
  with Cons show ?case
    by (auto simp: ok_ins look_ins map_add_def split: option.splits)
qed

end

definition symbol_table_ok :: "(byte list, ident) table \<Rightarrow> bool" where
  "symbol_table_ok t \<longleftrightarrow> table_ok t \<and> tab_eq_fn t = Some s2id_eq_fn"

definition ident_table_ok :: "(ident, byte list) table \<Rightarrow> bool" where
  "ident_table_ok t \<longleftrightarrow> table_ok t \<and> tab_eq_fn t = None"

lemma table_ins:
  assumes "table_ok t" "same_key t = (=)"
  shows "table_ok (snd (table_insert True t k v)) \<and>
    tab_eq_fn (snd (table_insert True t k v)) = tab_eq_fn t \<and> fst (table_insert True t k v) = OK \<and>
    table_map (snd (table_insert True t k v)) k' = (if k' = k then Some v else table_map t k')"
proof -
  obtain t' where "table_insert True t k v = (OK, t')" "table_ok t'"
    "\<forall>k'. table_map t' k' = (if same_key t k k' then Some v else table_map t k')"
    "tab_eq_fn t' = tab_eq_fn t"
    by (rule table_insert_OK [OF assms(1), of k v]) (rule that)
  then show ?thesis using assms(2) by auto
qed

lemma symbol_table_eq: "symbol_table_ok t \<Longrightarrow> same_key t = (=)"
  by (auto simp: symbol_table_ok_def same_key_def fun_eq_iff s2id_eq_fn_def)

lemma ident_table_eq: "ident_table_ok t \<Longrightarrow> same_key t = (=)"
  by (auto simp: ident_table_ok_def same_key_def fun_eq_iff)

lemma symbol_table_ins:
  assumes "symbol_table_ok t"
  shows "symbol_table_ok (snd (table_insert True t k v))"
    "table_map (snd (table_insert True t k v)) k' = (if k' = k then Some v else table_map t k')"
    "fst (table_insert True t k v) = OK"
  using table_ins [OF _ symbol_table_eq [OF assms]] assms by (simp_all add: symbol_table_ok_def)

lemma ident_table_ins:
  assumes "ident_table_ok t"
  shows "ident_table_ok (snd (table_insert True t k v))"
    "table_map (snd (table_insert True t k v)) k' = (if k' = k then Some v else table_map t k')"
    "fst (table_insert True t k v) = OK"
  using table_ins [OF _ ident_table_eq [OF assms]] assms by (simp_all add: ident_table_ok_def)

interpretation sym: key_map symbol_table_ok table_map "\<lambda>t k v. snd (table_insert True t k v)"
  by unfold_locales (rule symbol_table_ins, assumption)+

interpretation idt: key_map ident_table_ok table_map "\<lambda>t k v. snd (table_insert True t k v)"
  by unfold_locales (rule ident_table_ins, assumption)+

definition dict_ok :: "dict \<Rightarrow> bool" where
  "dict_ok d \<longleftrightarrow> symbol_table_ok (s2id d) \<and> ident_table_ok (id2s d)"

lemma dict_assoc_OK:
  assumes "dict_ok d"
  shows "dict_assoc True True True d (Some s) i =
    (OK, d\<lparr>s2id := snd (table_insert True (s2id d) s i), id2s := snd (table_insert True (id2s d) i s)\<rparr>)"
proof -
  have ok: "symbol_table_ok (s2id d)" "ident_table_ok (id2s d)" using assms by (simp_all add: dict_ok_def)
  obtain t1 t2 where "table_insert True (s2id d) s i = (OK, t1)" "table_insert True (id2s d) i s = (OK, t2)"
    using symbol_table_ins(3) [OF ok(1), of s i] ident_table_ins(3) [OF ok(2), of i s]
    by (metis prod.collapse)
  then show ?thesis by (simp add: dict_assoc_def status_defs)
qed

definition dict_assocs :: "dict \<Rightarrow> (byte list \<times> ident) list \<Rightarrow> dict" where
  "dict_assocs d sis = foldl (\<lambda>d (s, i). snd (dict_assoc True True True d (Some s) i)) d sis"

lemma dict_assocs_tables:
  "dict_ok d \<Longrightarrow> dict_ok (dict_assocs d sis) \<and>
    s2id (dict_assocs d sis) = foldl (\<lambda>t (s, i). snd (table_insert True t s i)) (s2id d) sis \<and>
    id2s (dict_assocs d sis) = foldl (\<lambda>t (i, s). snd (table_insert True t i s)) (id2s d) (map prod.swap sis)"
proof (induction sis arbitrary: d)
  case Nil
  then show ?case by (simp add: dict_assocs_def)
next
  case (Cons si sis)
  obtain s i where si: "si = (s, i)" by (cases si)
  let ?d = "snd (dict_assoc True True True d (Some s) i)"
  have "dict_ok ?d"
    using Cons.prems by (simp add: dict_assoc_OK dict_ok_def sym.ok_ins idt.ok_ins)
  with Cons.IH [of ?d] Cons.prems si show ?case
    by (simp add: dict_assocs_def dict_assoc_OK)
qed

lemma dict_create_ok:
  assumes "dict_create (\<lambda>_. True) True cap = Some (Inr d)"
  shows "dict_ok d" "table_map (s2id d) s = None" "table_map (id2s d) i = None"
proof -
  obtain t1 t2 where
    t1: "table_create True True True cap (Some s2id_hash_fn) (Some s2id_eq_fn) True (\<lambda>_. 0) = Some (Inr t1)"
    and t2: "table_create True True True cap None None False word_of_int = Some (Inr t2)"
    and d: "d = \<lparr>s2id = t1, id2s = t2\<rparr>"
    using assms by (auto simp: dict_create_def split: option.splits sum.splits)
  have "s2id_eq_fn = (=)" by (simp add: fun_eq_iff s2id_eq_fn_def)
  then have e: "equivp s2id_eq_fn" by (simp add: identity_equivp)
  note t1 = table_create_ok [OF t1] and t2 = table_create_ok [OF t2]
  show "dict_ok d"
    using t1(1,3) t2(1,3) e by (simp add: d dict_ok_def symbol_table_ok_def ident_table_ok_def s2id_eq_fn_def)
  show "table_map (s2id d) s = None" "table_map (id2s d) i = None"
    using t1(2) t2(2) e by (simp_all add: d s2id_eq_fn_def)
qed

text \<open>
  The dictionary answers with the last association: after any sequence of \<open>dict_assoc\<close> on a new
  dictionary, \<open>dict_get_id\<close> of a symbol gives the identifier it was last associated with and
  \<open>dict_get_symbol\<close> of an identifier the symbol last associated with it, and both report that there
  is none otherwise.  Where no symbol and no identifier is used twice the two are inverse.
\<close>

theorem dict_last_assoc:
  assumes "dict_create (\<lambda>_. True) True cap = Some (Inr d)"
  shows "dict_get_id (dict_assocs d sis) (Some s) True =
      (case map_of (rev sis) s of None \<Rightarrow> (FALSE_ST, None) | Some i \<Rightarrow> (TRUE_ST, Some i)) \<and>
    dict_get_symbol (dict_assocs d sis) i True =
      (case map_of (rev (map prod.swap sis)) i of None \<Rightarrow> (FALSE_ST, None) | Some s \<Rightarrow> (TRUE_ST, Some s)) \<and>
    (distinct (map fst sis) \<and> distinct (map snd sis) \<longrightarrow>
      (snd (dict_get_id (dict_assocs d sis) (Some s) True) = Some i \<longleftrightarrow>
       snd (dict_get_symbol (dict_assocs d sis) i True) = Some s))"
proof -
  note c = dict_create_ok [OF assms]
  note t = dict_assocs_tables [OF c(1), of sis]
  have look: "table_lookup t k True = (case table_map t k of None \<Rightarrow> (FALSE_ST, None) | Some v \<Rightarrow> (TRUE_ST, Some v))"
    for t :: "('k, 'v) table" and k
    by (simp add: table_map_def table_lookup_def split: option.splits)
  have s: "table_map (s2id (dict_assocs d sis)) s = map_of (rev sis) s"
    using t c sym.look_inserts [of "s2id d" sis s] by (simp add: dict_ok_def split: option.splits)
  have i: "table_map (id2s (dict_assocs d sis)) i = map_of (rev (map prod.swap sis)) i"
    using t c idt.look_inserts [of "id2s d" "map prod.swap sis" i] by (simp add: dict_ok_def split: option.splits)
  have "map_of (rev sis) s = Some i \<longleftrightarrow> map_of (rev (map prod.swap sis)) i = Some s"
    if "distinct (map fst sis)" "distinct (map snd sis)"
  proof -
    have "fst \<circ> prod.swap = (snd :: byte list \<times> ident \<Rightarrow> ident)" by (simp add: fun_eq_iff)
    with that have "distinct (map fst (rev sis))" "distinct (map fst (rev (map prod.swap sis)))"
      by (simp_all add: rev_map [symmetric])
    then show ?thesis
      by (simp add: map_of_eq_Some_iff)
  qed
  then show ?thesis
    using s i by (auto simp: dict_get_id_def dict_get_symbol_def look split: option.splits)
qed

theorem dict_last_assoc_witness:
  "\<exists>d. dict_create (\<lambda>_. True) True 8 = Some (Inr d) \<and>
    dict_get_id (dict_assocs d [([65], 1), ([66], 2), ([65], 3)]) (Some [65]) True = (TRUE_ST, Some 3) \<and>
    dict_get_symbol (dict_assocs d [([65], 1), ([66], 2), ([65], 3)]) 2 True = (TRUE_ST, Some [66])"
proof -
  obtain d where c: "dict_create (\<lambda>_. True) True 8 = Some (Inr d)"
    by (simp add: dict_create_def table_create_def)
  then show ?thesis
    using dict_last_assoc [OF c, of "[([65], 1), ([66], 2), ([65], 3)]" "[65]" 2] by simp
qed

end
