(* ===== verification/Twist.thy ===== *)
theory Twist
  imports Prelude
begin

text \<open>
  The random number generator of \<open>twist.c\<close>.  The code keeps the last 624 values in a circular
  buffer and computes one new value per call; the reference is the recurrence of the Mersenne
  Twister MT19937 over the natural numbers.
\<close>

section \<open>The generator\<close>

record twist =
  tw_index :: nat
  tw_buffer :: "u32 list"

text \<open>\<open>twist_create\<close> allocates a state and leaves it uninitialised: \<open>garbage\<close> is what it holds.\<close>

definition twist_create :: "bool \<Rightarrow> bool \<Rightarrow> twist \<Rightarrow> twist result" where
  "twist_create ptwist_ok malloc_ok garbage =
     (if \<not> ptwist_ok then Inl error_invalid_arg
      else if \<not> malloc_ok then Inl NO_MEMORY
      else Inr garbage)"

definition twist_seed_next :: "u32 \<Rightarrow> nat \<Rightarrow> u32" where
  "twist_seed_next b i = 1812433253 * (b XOR drop_bit 30 b) + of_nat i"

text \<open>The loop writes entries \<open>i\<close> to \<open>623\<close>, each from the entry before.\<close>

function twist_seed_loop :: "nat \<Rightarrow> u32 list \<Rightarrow> u32 list" where
  "twist_seed_loop i buf =
     (if i < 624 then twist_seed_loop (i + 1) (buf[i := twist_seed_next (buf ! (i - 1)) i]) else buf)"
  by pat_completeness auto
termination
  by (relation "measure (\<lambda>(i, buf). 624 - i)") auto

declare twist_seed_loop.simps [simp del]

definition twist_seed :: "twist \<Rightarrow> u32 \<Rightarrow> twist" where
  "twist_seed tw seed = tw\<lparr>tw_index := 0, tw_buffer := twist_seed_loop 1 ((tw_buffer tw)[0 := seed])\<rparr>"

definition temper :: "u32 \<Rightarrow> u32" where
  "temper r =
     (let r = r XOR drop_bit 11 r;
          r = r XOR (push_bit 7 r AND 0x9D2C5680);
          r = r XOR (push_bit 15 r AND 0xEFC60000)
      in r XOR drop_bit 18 r)"

definition twist_rand :: "twist \<Rightarrow> u32 \<times> twist" where
  "twist_rand tw =
     (let i = tw_index tw;
          i2 = tw_index tw + 1;
          j = tw_index tw + 397;
          i2 = (if i2 \<ge> 624 then 0 else i2);
          j = (if j \<ge> 624 then j - 624 else j);
          s = (tw_buffer tw ! i AND 0x80000000) OR (tw_buffer tw ! i2 AND 0x7FFFFFFF);
          r = tw_buffer tw ! j XOR drop_bit 1 s XOR ((s AND 1) * 0x9908B0DF)
      in (temper r, tw\<lparr>tw_index := i2, tw_buffer := (tw_buffer tw)[tw_index tw := r]\<rparr>))"

text \<open>The state after \<open>k\<close> calls.\<close>

fun twist_after :: "nat \<Rightarrow> twist \<Rightarrow> twist" where
  "twist_after 0 tw = tw"
| "twist_after (Suc k) tw = snd (twist_rand (twist_after k tw))"

section \<open>The reference\<close>

text \<open>
  \<open>mt_twist\<close> is the multiplication by the matrix of the recurrence: a shift, and the constant
  when the bit shifted out was set.
\<close>

definition mt_twist :: "u32 \<Rightarrow> u32" where
  "mt_twist y = (if odd y then drop_bit 1 y XOR 0x9908B0DF else drop_bit 1 y)"

definition mt_join :: "u32 \<Rightarrow> u32 \<Rightarrow> u32" where
  "mt_join hi lo = push_bit 31 (drop_bit 31 hi) OR take_bit 31 lo"

fun mt_seq :: "u32 \<Rightarrow> nat \<Rightarrow> u32" where
  "mt_seq seed 0 = seed"
| "mt_seq seed (Suc n) =
     (if Suc n < 624 then twist_seed_next (mt_seq seed n) (Suc n)
      else mt_seq seed (Suc n - 227) XOR mt_twist (mt_join (mt_seq seed (Suc n - 624)) (mt_seq seed (Suc n - 623))))"

declare mt_seq.simps [simp del]

section \<open>Equivalence\<close>

lemma one_times_and: "(s AND 1) * c = (if odd s then c else 0 :: u32)"
  by (auto simp: and_one_eq odd_iff_mod_2_eq_one)

lemma mt_join_masks: "(a AND 0x80000000) OR (b AND 0x7FFFFFFF) = mt_join a b"
proof -
  have m: "(0x80000000 :: u32) = push_bit 31 1" "(0x7FFFFFFF :: u32) = mask 31"
    by (simp_all add: mask_eq_decr_exp)
  show ?thesis
    unfolding m mt_join_def
  proof (rule bit_word_eqI)
    fix n
    assume "n < LENGTH(32)"
    then show "bit (a AND push_bit 31 1 OR b AND mask 31) n \<longleftrightarrow>
        bit (push_bit 31 (drop_bit 31 a) OR take_bit 31 b) n"
      by (cases "n = 31") (auto simp: bit_simps simp del: push_bit_of_1)
  qed
qed

lemma twist_step_value:
  "x XOR drop_bit 1 (mt_join a b) XOR ((mt_join a b AND 1) * 0x9908B0DF) = x XOR mt_twist (mt_join a b)"
  by (simp add: one_times_and mt_twist_def xor.assoc)

text \<open>The buffer holds the window of 624 values from \<open>k\<close> on.\<close>

definition window :: "u32 \<Rightarrow> nat \<Rightarrow> twist \<Rightarrow> bool" where
  "window seed k tw \<longleftrightarrow> length (tw_buffer tw) = 624 \<and> tw_index tw = k mod 624 \<and>
     (\<forall>n. k \<le> n \<and> n < k + 624 \<longrightarrow> tw_buffer tw ! (n mod 624) = mt_seq seed n)"

lemma mt_seq_step: "mt_seq seed (k + 624) =
    mt_seq seed (k + 397) XOR mt_twist (mt_join (mt_seq seed k) (mt_seq seed (k + 1)))"
proof -
  have "k + 624 = Suc (k + 623)" by simp
  then show ?thesis by (simp only: mt_seq.simps) (simp add: eval_nat_numeral)
qed

lemma wrap_once: "a < 2 * n \<Longrightarrow> (if a \<ge> n then a - n else a) = a mod n" for a n :: nat
  by (auto simp: mod_if)

lemma mod_window_neq:
  fixes k n m :: nat
  assumes "k < n" "n < k + m"
  shows "n mod m \<noteq> k mod m"
proof
  assume "n mod m = k mod m"
  with assms(1) have "m dvd n - k" by (simp add: mod_eq_dvd_iff_nat)
  with assms show False using nat_dvd_not_less [of "n - k" m] by simp
qed

lemma window_step:
  assumes "window seed k tw"
  shows "fst (twist_rand tw) = temper (mt_seq seed (k + 624)) \<and> window seed (Suc k) (snd (twist_rand tw))"
proof -
  let ?b = "tw_buffer tw"
  have len: "length ?b = 624" and i: "tw_index tw = k mod 624"
    and w: "\<And>n. k \<le> n \<Longrightarrow> n < k + 624 \<Longrightarrow> ?b ! (n mod 624) = mt_seq seed n"
    using assms by (auto simp: window_def)
  have k: "k mod 624 < 624" by simp
  have i2: "(if k mod 624 + 1 \<ge> 624 then 0 else k mod 624 + 1) = (k + 1) mod 624"
    using k by (auto simp: mod_Suc)
  have "k mod 624 + 397 < 2 * 624" using k by linarith
  from wrap_once [OF this]
  have j: "(if k mod 624 + 397 \<ge> 624 then k mod 624 + 397 - 624 else k mod 624 + 397) = (k + 397) mod 624"
    by (simp only: mod_add_left_eq)
  have r: "?b ! ((k + 397) mod 624) XOR drop_bit 1 (mt_join (?b ! (k mod 624)) (?b ! ((k + 1) mod 624))) XOR
      ((mt_join (?b ! (k mod 624)) (?b ! ((k + 1) mod 624)) AND 1) * 0x9908B0DF) = mt_seq seed (k + 624)"
  proof -
    have "?b ! (k mod 624) = mt_seq seed k" "?b ! ((k + 1) mod 624) = mt_seq seed (k + 1)"
      "?b ! ((k + 397) mod 624) = mt_seq seed (k + 397)"
      by (rule w; simp)+
    then show ?thesis by (simp only: twist_step_value mt_seq_step)
  qed
  have rand: "twist_rand tw = (temper (mt_seq seed (k + 624)),
      tw\<lparr>tw_index := (k + 1) mod 624, tw_buffer := ?b[k mod 624 := mt_seq seed (k + 624)]\<rparr>)"
    unfolding twist_rand_def Let_def i i2 j mt_join_masks r ..
  have "?b[k mod 624 := mt_seq seed (k + 624)] ! (n mod 624) = mt_seq seed n"
    if "Suc k \<le> n" "n < Suc k + 624" for n
  proof (cases "n = k + 624")
    case True
    then show ?thesis using len by simp
  next
    case False
    with that have "k < n" "n < k + 624" by simp_all
    with mod_window_neq [OF this] w [of n] show ?thesis by simp
  qed
  then show ?thesis
    using len by (simp add: rand window_def)
qed

lemma twist_seed_loop_window:
  "length buf = 624 \<Longrightarrow> 1 \<le> i \<Longrightarrow> i \<le> 624 \<Longrightarrow> (\<forall>n<i. buf ! n = mt_seq seed n) \<Longrightarrow>
    length (twist_seed_loop i buf) = 624 \<and> (\<forall>n<624. twist_seed_loop i buf ! n = mt_seq seed n)"
proof (induction i buf rule: twist_seed_loop.induct)
  case (1 i buf)
  show ?case
  proof (cases "i < 624")
    case False
    with 1 show ?thesis by (subst (1 2) twist_seed_loop.simps) simp
  next
    case True
    obtain k where k: "i = Suc k" using 1 by (cases i) auto
    let ?buf = "buf[i := twist_seed_next (buf ! (i - 1)) i]"
    have "mt_seq seed i = twist_seed_next (mt_seq seed (i - 1)) i"
      using True k by (simp add: mt_seq.simps)
    with 1 True k have "\<forall>n<i + 1. ?buf ! n = mt_seq seed n"
      by (auto simp: nth_list_update less_Suc_eq)
    with 1 True show ?thesis by (subst (1 2) twist_seed_loop.simps) simp
  qed
qed



end
