(* ===== verification/Toucher.thy ===== *)
theory Toucher
  imports Records
begin

text \<open>
  The thread that keeps storages touched, \<open>toucher.c\<close>.  Storages are named by handles; the world
  \<open>stores\<close> gives each handle's storage and memory.  The chain of targets is a list from its head.
  The operations run while the thread does: each holds the lock from start to end, so they are
  steps on the toucher's state.
\<close>

section \<open>The toucher\<close>

type_synonym shandle = nat
type_synonym stores = "shandle \<Rightarrow> storage \<times> mem"

record toucher =
  tch_period :: microsec
  tch_targets :: "shandle list"
  tch_lock :: u64
  tch_thread :: bool

text \<open>\<open>thread_res\<close> is the status of \<open>thread_create\<close>; on its failure the handle is released.\<close>

definition toucher_create :: "bool \<Rightarrow> bool \<Rightarrow> status \<Rightarrow> microsec \<Rightarrow> toucher result" where
  "toucher_create ptouch_ok malloc_ok thread_res touch_period_usec =
     (if \<not> ptouch_ok \<or> touch_period_usec < 0 then Inl error_invalid_arg
      else if \<not> malloc_ok then Inl NO_MEMORY
      else if touch_period_usec > 0 \<and> FAILED thread_res then Inl thread_res
      else Inr \<lparr>tch_period = touch_period_usec, tch_targets = [], tch_lock = spin_create,
                tch_thread = (touch_period_usec > 0)\<rparr>)"

definition toucher_is_running :: "bool \<Rightarrow> toucher \<Rightarrow> bool" where
  "toucher_is_running thread_running tc = (tch_thread tc \<and> thread_running)"

text \<open>\<open>stopped\<close> is the outcome of \<open>thread_stop\<close>: a failure, or what the thread returned.\<close>

definition toucher_stop :: "status result \<Rightarrow> status" where
  "toucher_stop stopped = (case stopped of Inl err \<Rightarrow> err | Inr p \<Rightarrow> p)"

definition toucher_destroy :: "status \<Rightarrow> toucher option \<Rightarrow> status \<times> toucher option" where
  "toucher_destroy thread_res ptouch =
     (case ptouch of
        None \<Rightarrow> (OK, None)
      | Some tc \<Rightarrow> if FAILED thread_res then (thread_res, Some tc) else (thread_res, None))"

text \<open>A null storage is handle zero.\<close>

definition toucher_add_storage ::
  "(nat \<Rightarrow> status) \<Rightarrow> bool \<Rightarrow> toucher \<Rightarrow> shandle \<Rightarrow> status \<times> toucher" where
  "toucher_add_storage slp malloc_ok tc sh =
     (if sh = 0 then (error_invalid_arg, tc)
      else case spin_write_lock (\<lambda>_. tch_lock tc) slp of
        Inl err \<Rightarrow> (err, tc)
      | Inr _ \<Rightarrow>
          if sh \<in> set (tch_targets tc) then (OK, tc\<lparr>tch_lock := 0\<rparr>)
          else if \<not> malloc_ok then (NO_MEMORY, tc\<lparr>tch_lock := 0\<rparr>)
          else (OK, tc\<lparr>tch_targets := sh # tch_targets tc, tch_lock := 0\<rparr>))"

definition toucher_remove_storage ::
  "(nat \<Rightarrow> status) \<Rightarrow> toucher \<Rightarrow> shandle \<Rightarrow> status \<times> toucher" where
  "toucher_remove_storage slp tc sh =
     (if sh = 0 then (error_invalid_arg, tc)
      else case spin_write_lock (\<lambda>_. tch_lock tc) slp of
        Inl err \<Rightarrow> (err, tc)
      | Inr _ \<Rightarrow>
          (if sh \<in> set (tch_targets tc) then OK else NOT_FOUND,
           tc\<lparr>tch_targets := remove1 sh (tch_targets tc), tch_lock := 0\<rparr>))"

fun touch_targets ::
  "(nat \<Rightarrow> status) \<Rightarrow> microsec \<Rightarrow> shandle list \<Rightarrow> status \<Rightarrow> stores \<Rightarrow> status \<times> stores" where
  "touch_targets slp now [] st w = (st, w)"
| "touch_targets slp now (t # ts) st w =
     (case storage_touch slp (fst (w t)) (snd (w t)) now of
        (res, m) \<Rightarrow>
          let w = w(t := (fst (w t), m))
          in if FAILED res then (res, w) else touch_targets slp now ts res w)"

text \<open>
  One turn of the loop of \<open>touch_func\<close>.  The result tells, with the status, whether the loop goes on.
\<close>

definition touch_round ::
  "(nat \<Rightarrow> status) \<Rightarrow> microsec result \<Rightarrow> status \<Rightarrow> toucher \<Rightarrow> stores \<Rightarrow> status \<times> toucher \<times> stores" where
  "touch_round slp clock slept tc w =
     (case spin_write_lock (\<lambda>_. tch_lock tc) slp of
        Inl err \<Rightarrow> (err, tc, w)
      | Inr _ \<Rightarrow>
          (case (case clock of Inl err \<Rightarrow> (err, w) | Inr now \<Rightarrow> touch_targets slp now (tch_targets tc) OK w) of
             (res, w) \<Rightarrow>
               let tc = tc\<lparr>tch_lock := 0\<rparr>
               in if FAILED res then (res, tc, w) else (slept, tc, w)))"

text \<open>
  The thread: round \<open>k\<close> finds the clock and the sleep that \<open>clock k\<close> and \<open>slept k\<close> give; \<open>stop\<close> is the
  number of rounds after which it is asked to stop.
\<close>

fun touch_func ::
  "(nat \<Rightarrow> status) \<Rightarrow> (nat \<Rightarrow> microsec result) \<Rightarrow> (nat \<Rightarrow> status) \<Rightarrow> nat \<Rightarrow> nat \<Rightarrow> status \<Rightarrow> toucher \<Rightarrow>
     stores \<Rightarrow> status \<times> toucher \<times> stores" where
  "touch_func slp clock slept k 0 st tc w = (st, tc, w)"
| "touch_func slp clock slept k (Suc stop) st tc w =
     (case touch_round slp (clock k) (slept k) tc w of
        (res, tc, w) \<Rightarrow>
          if FAILED res then (res, tc, w) else touch_func slp clock slept (Suc k) stop res tc w)"

section \<open>Properties\<close>

definition toucher_ok :: "toucher \<Rightarrow> bool" where
  "toucher_ok tc \<longleftrightarrow> unlocked (tch_lock tc) \<and> distinct (tch_targets tc) \<and> 0 \<notin> set (tch_targets tc)"

lemma lock_free: "unlocked w \<Longrightarrow> spin_write_lock (\<lambda>_. w) slp = Inr (w, 0, w OR SPIN_MASK)"
  by (simp add: spin_write_lock_from spin_from_free [of _ 0, simplified])

text \<open>
  The targets are a set: adding a storage twice keeps one entry, removing it takes it out, a
  storage that is not there is \<open>NOT_FOUND\<close>, and each operation gives the lock back.
\<close>

theorem toucher_targets_set:
  assumes "toucher_ok tc" "sh \<noteq> 0"
  shows "(\<exists>tc'. toucher_add_storage slp True tc sh = (OK, tc') \<and> toucher_ok tc' \<and>
      set (tch_targets tc') = insert sh (set (tch_targets tc))) \<and>
    (\<exists>res tc'. toucher_remove_storage slp tc sh = (res, tc') \<and> toucher_ok tc' \<and>
      (res = OK \<longleftrightarrow> sh \<in> set (tch_targets tc)) \<and> (res \<noteq> OK \<longrightarrow> res = NOT_FOUND) \<and>
      set (tch_targets tc') = set (tch_targets tc) - {sh})"
  using assms
  by (auto simp: toucher_add_storage_def toucher_remove_storage_def toucher_ok_def lock_free status_defs
      dest: notin_set_remove1)

theorem toucher_targets_set_witness:
  "\<exists>tc tc'. toucher_create True True OK 1000 = Inr tc \<and>
    toucher_add_storage (\<lambda>_. 0) True tc 4 = (OK, tc') \<and> set (tch_targets tc') = {4}"
proof -
  let ?tc = "\<lparr>tch_period = 1000, tch_targets = [], tch_lock = 0, tch_thread = True\<rparr>"
  have "toucher_create True True OK 1000 = Inr ?tc"
    by (simp add: toucher_create_def spin_create_def status_defs)
  moreover have "toucher_ok ?tc" by (simp add: toucher_ok_def)
  ultimately show ?thesis using toucher_targets_set [of ?tc 4 "\<lambda>_. 0"] by auto
qed

text \<open>A storage that can be touched, and what touching it gives.\<close>

definition touchable :: "storage \<times> mem \<Rightarrow> bool" where
  "touchable s \<longleftrightarrow> \<not> stg_read_only (fst s) \<and> unlocked (load64 (snd s) OFF_last_touched_rev)"

definition touched_at :: "storage \<times> mem \<Rightarrow> storage \<times> mem \<Rightarrow> microsec \<Rightarrow> bool" where
  "touched_at s s' now \<longleftrightarrow> fst s' = fst s \<and> storage_get_touched_time (\<lambda>_. 0) (snd s') True = Inr now \<and>
     same_layout (snd s) (snd s') \<and> touchable s'"

lemma storage_touch_touched:
  assumes "touchable (st, m)" "is_long now"
  obtains m' where "storage_touch slp st m now = (OK, m')" "touched_at (st, m) (st, m') now"
proof -
  let ?rv = "load64 m OFF_last_touched_rev"
  let ?m = "spin_unlock (store64 (store64 m OFF_last_touched_rev (?rv OR SPIN_MASK)) OFF_last_touched
      (word_of_int now)) OFF_last_touched_rev (NEXT_REV ?rv)"
  have "storage_touch slp st m now = (OK, ?m)"
    using assms(1) by (simp add: storage_touch_def touchable_def)
  moreover have "load64 ?m OFF_last_touched_rev = NEXT_REV ?rv" "load64 ?m OFF_last_touched = word_of_int now"
    by (simp_all add: spin_unlock_def mem_simps)
  moreover have "same_layout m ?m"
    by (simp add: spin_unlock_def same_layout_def store_other)
  ultimately show thesis
    using that assms by (simp add: touched_at_def touchable_def storage_get_touched_time_def)
qed

lemma touch_targets_OK:
  assumes "is_long now" "distinct ts" "\<forall>t\<in>set ts. touchable (w t)"
  shows "\<exists>w'. touch_targets slp now ts OK w = (OK, w') \<and> (\<forall>t\<in>set ts. touched_at (w t) (w' t) now) \<and>
    (\<forall>t. t \<notin> set ts \<longrightarrow> w' t = w t)"
  using assms(2,3)
proof (induction ts arbitrary: w)
  case Nil
  then show ?case by simp
next
  case (Cons t ts)
  obtain st m where wt: "w t = (st, m)" by (cases "w t")
  obtain m' where tm: "storage_touch slp st m now = (OK, m')" "touched_at (st, m) (st, m') now"
    using storage_touch_touched [of st m now slp] Cons.prems(2) assms(1) wt by auto
  have "distinct ts" "\<forall>u\<in>set ts. touchable ((w(t := (st, m'))) u)" using Cons.prems by auto
  from Cons.IH [OF this] obtain w' where
    w': "touch_targets slp now ts OK (w(t := (st, m'))) = (OK, w')"
    "\<forall>u\<in>set ts. touched_at ((w(t := (st, m'))) u) (w' u) now"
    "\<forall>u. u \<notin> set ts \<longrightarrow> w' u = (w(t := (st, m'))) u" by blast
  have "touched_at (w t) (w' t) now" using w'(3) Cons.prems(1) tm(2) wt by simp
  moreover have "touched_at (w u) (w' u) now" if "u \<in> set ts" for u
    using that w'(2) Cons.prems(1) by (auto split: if_splits)
  ultimately show ?case
    using w' tm wt by (intro exI [of _ w']) (auto simp: status_defs)
qed

text \<open>
  Every round of the thread touches every target and nothing else: while the clock and the sleeps
  work and no target is read-only or stuck locked, the thread runs until it is stopped, after
  its last round every target shows that round's time, and no other storage has changed.
\<close>

theorem touch_func_touches:
  assumes "toucher_ok tc" "\<forall>t\<in>set (tch_targets tc). touchable (w t)"
    and "\<forall>j. clock j = Inr (now j) \<and> is_long (now j) \<and> \<not> FAILED (slept j)"
  shows "\<exists>st' tc' w'. touch_func slp clock slept k (Suc n) st tc w = (st', tc', w') \<and> \<not> FAILED st' \<and>
    toucher_ok tc' \<and> tch_targets tc' = tch_targets tc \<and>
    (\<forall>t\<in>set (tch_targets tc). touched_at (w t) (w' t) (now (k + n))) \<and>
    (\<forall>t. t \<notin> set (tch_targets tc) \<longrightarrow> w' t = w t)"
  using assms(1,2)
proof (induction n arbitrary: k st tc w)
  case (0 k st tc w)
  have "is_long (now k)" "distinct (tch_targets tc)" using assms(3) 0 by (simp_all add: toucher_ok_def)
  from touch_targets_OK [OF this 0(2), of slp] 0(1) assms(3) [rule_format, of k] show ?case
    by (auto simp: touch_round_def lock_free toucher_ok_def Let_def status_defs)
next
  case (Suc n k st tc w)
  let ?tc = "tc\<lparr>tch_lock := 0\<rparr>"
  have long: "is_long (now k)" "distinct (tch_targets tc)"
    using assms(3) Suc.prems by (simp_all add: toucher_ok_def)
  obtain w1 where w1: "touch_targets slp (now k) (tch_targets tc) OK w = (OK, w1)"
    "\<forall>t\<in>set (tch_targets tc). touched_at (w t) (w1 t) (now k)" "\<forall>t. t \<notin> set (tch_targets tc) \<longrightarrow> w1 t = w t"
    using touch_targets_OK [OF long Suc.prems(2), of slp] by blast
  have round: "touch_round slp (clock k) (slept k) tc w = (slept k, ?tc, w1)"
    using Suc.prems(1) assms(3) w1(1) by (simp add: touch_round_def lock_free toucher_ok_def Let_def status_defs)
  have "toucher_ok ?tc" "\<forall>t\<in>set (tch_targets ?tc). touchable (w1 t)"
    using Suc.prems(1) w1(2) by (auto simp: toucher_ok_def touched_at_def)
  from Suc.IH [OF this, of "Suc k" "slept k"] obtain st' tc' w' where
    r: "touch_func slp clock slept (Suc k) (Suc n) (slept k) ?tc w1 = (st', tc', w')" "\<not> FAILED st'"
    "toucher_ok tc'" "tch_targets tc' = tch_targets tc"
    "\<forall>t\<in>set (tch_targets tc). touched_at (w1 t) (w' t) (now (Suc k + n))"
    "\<forall>t. t \<notin> set (tch_targets tc) \<longrightarrow> w' t = w1 t"
    by auto
  have "touched_at (w t) (w' t) (now (k + Suc n))" if "t \<in> set (tch_targets tc)" for t
    using that w1(2) r(5) by (auto simp: touched_at_def intro: same_layout_trans)
  moreover have "touch_func slp clock slept k (Suc (Suc n)) st tc w = (st', tc', w')"
    using r(1) round assms(3) by simp
  ultimately show ?case
    using r w1(3) by (intro exI [of _ st'] exI [of _ tc'] exI [of _ w']) auto
qed

theorem touch_func_touches_witness:
  "\<exists>w st' tc' w'. touch_func (\<lambda>_. 0) (\<lambda>_. Inr 20) (\<lambda>_. 0) 0 3 OK
      \<lparr>tch_period = 1000, tch_targets = [4], tch_lock = 0, tch_thread = True\<rparr> w = (st', tc', w') \<and>
    storage_get_touched_time (\<lambda>_. 0) (snd (w' 4)) True = Inr 20"
proof -
  let ?st = "\<lparr>stg_mapped = True, stg_first = 1416, stg_limit = 1440, stg_file = [],
      stg_mmap_size = 4096, stg_fd = 3, stg_read_only = False, stg_persistent = True\<rparr>"
  let ?tc = "\<lparr>tch_period = 1000, tch_targets = [4], tch_lock = 0, tch_thread = True\<rparr>"
  have ok: "toucher_ok ?tc" by (simp add: toucher_ok_def)
  have t: "\<forall>t\<in>set (tch_targets ?tc). touchable ((\<lambda>_. (?st, \<lambda>_. 0)) t)" by (simp add: touchable_def)
  have c: "\<forall>j. (\<lambda>_. Inr 20) j = Inr ((\<lambda>_. 20) j) \<and> is_long ((\<lambda>_. 20) j) \<and> \<not> FAILED ((\<lambda>_. 0) j)"
    by (simp add: is_long_def LONG_MAX_def LONG_MIN_def)
  have "Suc 2 = 3" by simp
  then show ?thesis
    using touch_func_touches [OF ok t c, where slp = "\<lambda>_. 0" and k = 0 and n = 2 and st = OK]
    unfolding touched_at_def by fastforce
qed

end
