(* ===== verification/Batch.thy ===== *)
theory Batch
  imports Records
begin

text \<open>
  Reading and writing many records, \<open>batch.c\<close>.  The identifier array and the value array are
  lists; value arrays are flat byte lists with a stride of \<open>copy_size\<close>.  What a read returns per
  record is a record \<open>read_out\<close>, with a field for each of the output arrays.  The clock, the
  sleeps, the signal check and, while waiting for changes, the memory other processes write
  to are arguments.
\<close>

section \<open>Reading\<close>

record read_out =
  ro_id :: ident
  ro_rev :: u64
  ro_time :: "microsec option"
  ro_value :: "byte list option"

text \<open>
  One record read under its revision: the body of the loops of \<open>batch_read_records\<close> and
  \<open>batch_read_changed_records\<close>.  The memory is the one the copy is made from, so the closing
  check of the revision succeeds; the interleaved case is treated in theory \<open>Seqlock\<close>.
\<close>

definition read_record ::
  "(nat \<Rightarrow> status) \<Rightarrow> mem \<Rightarrow> nat \<Rightarrow> bool \<Rightarrow> bool \<Rightarrow> nat \<Rightarrow> ident \<Rightarrow> read_out result" where
  "read_record slp m r vals want_times val_sz i =
     (case record_read_lock slp m r of
        Inl err \<Rightarrow> Inl err
      | Inr rv \<Rightarrow> Inr \<lparr>ro_id = i, ro_rev = rv,
          ro_time = (if want_times then Some (record_get_timestamp m r) else None),
          ro_value = (if vals then Some (mread m (record_get_value_ref r) val_sz) else None)\<rparr>)"

fun read_records ::
  "(nat \<Rightarrow> status) \<Rightarrow> storage \<Rightarrow> mem \<Rightarrow> bool \<Rightarrow> bool \<Rightarrow> nat \<Rightarrow> ident list \<Rightarrow> status \<times> read_out list" where
  "read_records slp st m vals want_times val_sz [] = (OK, [])"
| "read_records slp st m vals want_times val_sz (i # ks) =
     (case storage_get_record st m i True of
        Inl err \<Rightarrow> (err, [])
      | Inr r \<Rightarrow>
          (case read_record slp m r vals want_times val_sz i of
             Inl err \<Rightarrow> (err, [])
           | Inr out \<Rightarrow> (case read_records slp st m vals want_times val_sz ks of
               (res, outs) \<Rightarrow> (res, out # outs))))"

definition batch_read_records ::
  "(nat \<Rightarrow> status) \<Rightarrow> storage \<Rightarrow> mem \<Rightarrow> nat \<Rightarrow> ident list option \<Rightarrow> bool \<Rightarrow> bool \<Rightarrow> bool \<Rightarrow>
     status \<times> read_out list" where
  "batch_read_records slp st m copy_size ids vals revs want_times =
     (case ids of
        None \<Rightarrow> (error_invalid_arg, [])
      | Some ks \<Rightarrow>
          if ks = [] \<or> \<not> vals \<and> \<not> revs \<and> \<not> want_times \<or> vals \<and> copy_size = 0
            then (error_invalid_arg, [])
          else read_records slp st m vals want_times (min copy_size (storage_get_value_size m)) ks)"

section \<open>Writing\<close>

text \<open>\<open>clk n\<close> is what the \<open>n\<close>-th call of \<open>clock_time\<close> gives.\<close>

fun write_records ::
  "(nat \<Rightarrow> status) \<Rightarrow> (nat \<Rightarrow> microsec result) \<Rightarrow> storage \<Rightarrow> bool \<Rightarrow> nat \<Rightarrow> nat \<Rightarrow> nat \<Rightarrow> ident list \<Rightarrow>
     byte list \<Rightarrow> mem \<Rightarrow> status \<times> mem" where
  "write_records slp clk st has_ch_q copy_size val_sz n [] vals m = (OK, m)"
| "write_records slp clk st has_ch_q copy_size val_sz n (i # ks) vals m =
     (case storage_get_record st m i True of
        Inl err \<Rightarrow> (err, m)
      | Inr r \<Rightarrow>
          (case clk n of
             Inl err \<Rightarrow> (err, m)
           | Inr now \<Rightarrow>
               (case record_write_lock slp m r of
                  Inl err \<Rightarrow> (err, m)
                | Inr (rv, m) \<Rightarrow>
                    let m = commit_record m r rv (take val_sz vals) now
                    in case (if has_ch_q then storage_write_queue st m i else (OK, m)) of
                         (res, m) \<Rightarrow>
                           if FAILED res then (res, m)
                           else write_records slp clk st has_ch_q copy_size val_sz (n + 1) ks
                                  (drop copy_size vals) m)))"

definition batch_write_records ::
  "(nat \<Rightarrow> status) \<Rightarrow> (nat \<Rightarrow> microsec result) \<Rightarrow> storage \<Rightarrow> mem \<Rightarrow> nat \<Rightarrow> ident list option \<Rightarrow>
     byte list option \<Rightarrow> status \<times> mem" where
  "batch_write_records slp clk st m copy_size ids vals =
     (case (ids, vals) of
        (Some ks, Some vs) \<Rightarrow>
          if ks = [] \<or> copy_size = 0 then (error_invalid_arg, m)
          else write_records slp clk st (storage_get_queue_capacity m > 0) copy_size
                 (min copy_size (storage_get_value_size m)) 0 ks vs m
      | _ \<Rightarrow> (error_invalid_arg, m))"

section \<open>Waiting for changes\<close>

definition check_done ::
  "status \<Rightarrow> status \<Rightarrow> microsec result \<Rightarrow> microsec \<Rightarrow> microsec \<Rightarrow> bool \<Rightarrow> status" where
  "check_done raised slept clk earlier timeout sleep =
     (if FAILED raised then raised
      else if timeout = 0 then TRUE_ST
      else if timeout < 0 then FALSE_ST
      else if sleep \<and> FAILED slept then slept
      else case clk of
        Inl err \<Rightarrow> err
      | Inr now \<Rightarrow> if now - earlier > timeout then TRUE_ST else FALSE_ST)"

text \<open>
  The world around one call of \<open>batch_read_changed_records\<close>: the memory as it is from the \<open>k\<close>-th look
  at the queue head to the next one, and the outcome of the calls made after that look.
\<close>

record changed_env =
  ch_mem :: "nat \<Rightarrow> mem"
  ch_raised :: "nat \<Rightarrow> status"
  ch_slept :: "nat \<Rightarrow> status"
  ch_clock :: "nat \<Rightarrow> microsec result"

text \<open>The indices of \<open>for (q = *head; q < new_head; ++q)\<close>, compared as \<open>long\<close>.\<close>

definition queue_range :: "u64 \<Rightarrow> u64 \<Rightarrow> u64 list" where
  "queue_range head new_head =
     (if sint head < sint new_head
      then map (\<lambda>i. head + of_nat i) [0..<unat (new_head - head)] else [])"

fun read_changes ::
  "(nat \<Rightarrow> status) \<Rightarrow> storage \<Rightarrow> mem \<Rightarrow> bool \<Rightarrow> bool \<Rightarrow> nat \<Rightarrow> u64 list \<Rightarrow> status \<times> read_out list" where
  "read_changes slp st m vals want_times val_sz [] = (OK, [])"
| "read_changes slp st m vals want_times val_sz (q # qs) =
     (case storage_read_queue m q True of
        Inl err \<Rightarrow> (err, [])
      | Inr i \<Rightarrow>
          (case storage_get_record st m i True of
             Inl err \<Rightarrow> (err, [])
           | Inr r \<Rightarrow>
               (case read_record slp m r vals want_times val_sz i of
                  Inl err \<Rightarrow> (err, [])
                | Inr out \<Rightarrow> (case read_changes slp st m vals want_times val_sz qs of
                    (res, outs) \<Rightarrow> (res, out # outs)))))"

text \<open>
  The two nested loops, one unit of fuel per look at the queue head; \<open>None\<close> means that the fuel
  ran out.  The result is the returned status, the caller's new head and what was read.
\<close>

fun changed_loop ::
  "nat \<Rightarrow> (nat \<Rightarrow> status) \<Rightarrow> changed_env \<Rightarrow> storage \<Rightarrow> bool \<Rightarrow> bool \<Rightarrow> nat \<Rightarrow> nat \<Rightarrow> u64 \<Rightarrow> microsec \<Rightarrow>
     microsec \<Rightarrow> nat \<Rightarrow> nat \<Rightarrow> u64 \<Rightarrow> read_out list \<Rightarrow> (status \<times> u64 \<times> read_out list) option" where
  "changed_loop 0 slp e st vals want_times val_sz count q_capacity earlier timeout k n head acc = None"
| "changed_loop (Suc fuel) slp e st vals want_times val_sz count q_capacity earlier timeout k n head acc =
     (if \<not> n < count then Some (int n, head, acc)
      else
        let m = ch_mem e k;
            new_head = storage_get_queue_head m
        in if new_head = head then
             (let res = check_done (ch_raised e k) (ch_slept e k) (ch_clock e k) earlier timeout True
              in if FAILED res then Some (res, head, acc)
                 else if res \<noteq> 0 then Some (int n, head, acc)
                 else changed_loop fuel slp e st vals want_times val_sz count q_capacity earlier timeout
                        (k + 1) n head acc)
           else
             let avail = new_head - head
             in if avail > q_capacity then Some (CHANGE_QUEUE_OVERRUN, head, acc)
                else
                  let want = count - n;
                      new_head = (if unat avail > want then head + of_nat want else new_head)
                  in case read_changes slp st m vals want_times val_sz (queue_range head new_head) of
                       (res, outs) \<Rightarrow>
                         if FAILED res then Some (res, head, acc @ outs)
                         else
                           let n = n + unat (new_head - head);
                               res = check_done (ch_raised e k) OK (ch_clock e k) earlier timeout False
                           in if FAILED res then Some (res, new_head, acc @ outs)
                              else if res \<noteq> 0 then Some (int n, new_head, acc @ outs)
                              else changed_loop fuel slp e st vals want_times val_sz count q_capacity earlier
                                     timeout (k + 1) n new_head (acc @ outs))"

definition batch_read_changed_records ::
  "nat \<Rightarrow> (nat \<Rightarrow> status) \<Rightarrow> changed_env \<Rightarrow> microsec result \<Rightarrow> storage \<Rightarrow> nat \<Rightarrow> bool \<Rightarrow> bool \<Rightarrow> bool \<Rightarrow>
     bool \<Rightarrow> nat \<Rightarrow> microsec \<Rightarrow> u64 option \<Rightarrow> (status \<times> u64 option \<times> read_out list) option" where
  "batch_read_changed_records fuel slp e clk st copy_size ids vals revs want_times count timeout head =
     (case head of
        None \<Rightarrow> Some (error_invalid_arg, None, [])
      | Some h \<Rightarrow>
          if count = 0 \<or> \<not> ids \<and> \<not> vals \<and> \<not> revs \<and> \<not> want_times \<or> vals \<and> copy_size = 0
            then Some (error_invalid_arg, Some h, [])
          else
            let m = ch_mem e 0;
                start = (if timeout \<ge> 0 then clk else Inr 0)
            in case start of
                 Inl err \<Rightarrow> Some (err, Some h, [])
               | Inr earlier \<Rightarrow>
                   let val_sz = min copy_size (storage_get_value_size m);
                       h = (if sint h < 0 then storage_get_queue_head m else h)
                   in map_option (\<lambda>(res, h, outs). (res, Some h, outs))
                        (changed_loop fuel slp e st vals want_times val_sz count
                           (storage_get_queue_capacity m) earlier timeout 0 0 h []))"


section \<open>What a batch write leaves\<close>

text \<open>
  The record of \<open>i\<close> has the value, the time and the next revision; \<open>untouched\<close>: a record has all
  its bytes.
\<close>

definition committed :: "storage \<Rightarrow> mem \<Rightarrow> mem \<Rightarrow> ident \<Rightarrow> byte list \<Rightarrow> microsec \<Rightarrow> bool" where
  "committed st m m' i val now \<longleftrightarrow>
     load64 m' (rec_of st m i) = NEXT_REV (load64 m (rec_of st m i)) \<and>
     record_get_timestamp m' (rec_of st m i) = wrap_long now \<and>
     mread m' (record_get_value_ref (rec_of st m i)) (length val) = val"

definition untouched :: "storage \<Rightarrow> mem \<Rightarrow> mem \<Rightarrow> ident \<Rightarrow> bool" where
  "untouched st m m' i \<longleftrightarrow>
     mread m' (rec_of st m i) (storage_get_record_size m) = mread m (rec_of st m i) (storage_get_record_size m)"

lemma untouched_part:
  assumes "untouched st m m' i" "k + n \<le> storage_get_record_size m"
  shows "mread m' (rec_of st m i + k) n = mread m (rec_of st m i + k) n"
  using arg_cong [OF assms(1) [unfolded untouched_def], of "\<lambda>xs. take n (drop k xs)"] assms(2) by simp

lemma untouched_committed:
  assumes "stg_ok st m" "committed st m0 m i val now" "untouched st m m' i" "same_layout m0 m"
    and "length val \<le> storage_get_value_size m"
  shows "committed st m0 m' i val now"
proof -
  note l = layout_okD(3,4) [OF stg_okD(1) [OF assms(1)]]
  have r: "rec_of st m i = rec_of st m0 i" using assms(4) by (rule same_layout_ids(1))
  have "mread m' (rec_of st m0 i + 0) 8 = mread m (rec_of st m0 i + 0) 8"
    "mread m' (rec_of st m0 i + 8) 8 = mread m (rec_of st m0 i + 8) 8"
    "mread m' (rec_of st m0 i + 16) (length val) = mread m (rec_of st m0 i + 16) (length val)"
    using untouched_part [OF assms(3), of 0 8] untouched_part [OF assms(3), of 8 8]
      untouched_part [OF assms(3), of 16 "length val"] l assms(5) by (simp_all add: r)
  with assms(2) show ?thesis
    by (simp add: committed_def load_def record_get_timestamp_def record_get_value_ref_def)
qed

lemma write_queue_prefix:
  assumes "stg_ok st m" "\<forall>a < stg_first st. m1 a = m a" "a < stg_first st"
  shows "snd (storage_write_queue st m1 i) a = snd (storage_write_queue st m i) a"
proof -
  note p = same_prefix [OF assms(1,2)]
  have q: "load64 m1 OFF_q_mask = load64 m OFF_q_mask" "load64 m1 OFF_q_head = load64 m OFF_q_head"
    using same_layout_fields(9) [OF p(1)] p(2) by (simp_all add: storage_get_queue_head_def)
  have s: "queue_slot m1 x = queue_slot m x" for x by (simp add: queue_slot_def q)
  have st: "store64 m1 b w a = store64 m b w a" for b w
    using assms(2,3) by (simp add: store_def mwrite_def)
  have st2: "store64 (store64 m1 b w) b' w' a = store64 (store64 m b w) b' w' a" for b w b' w'
    using st by (simp add: store_def mwrite_def)
  have hd: "load64 (store64 m1 (queue_slot m x) w) OFF_q_head = load64 m OFF_q_head"
    "load64 (store64 m (queue_slot m x) w) OFF_q_head = load64 m OFF_q_head" for x w
    by (simp_all add: load_store_disjoint queue_slot_def q)
  show ?thesis
    using assms(2,3) by (simp add: storage_write_queue_def Let_def q s hd st2)
qed

lemma write_step:
  assumes "stg_ok st m" "\<not> stg_read_only st" "valid_id m i" "length val \<le> storage_get_value_size m"
    and "m1 = commit_record (store64 m (rec_of st m i) w) (rec_of st m i) (load64 m (rec_of st m i)) val now"
  obtains m2 where "(if has_queue m then storage_write_queue st m1 i else (OK, m1)) = (OK, m2)"
    "same_layout m m2" "committed st m m2 i val now"
    "\<And>j. valid_id m j \<Longrightarrow> j \<noteq> i \<Longrightarrow> untouched st m m2 j"
    "has_queue m \<Longrightarrow> queue_wrote (st, m) i (st, m2)"
    "\<not> has_queue m \<Longrightarrow> \<forall>a < stg_first st. m2 a = m a"
proof -
  let ?r = "rec_of st m i"
  note r = rec_of_is_record [OF assms(3), of st]
  note c = commit_record_fields [OF assms(1) r assms(4,5)]
  note same = only_record_layout [OF assms(1) r c(1)]
  have pre: "\<forall>a < stg_first st. m1 a = m a"
    using only_record_queue [OF assms(1) r c(1)] by simp
  have com: "committed st m m1 i val now"
    using c(2-4) by (simp add: committed_def)
  have unt: "untouched st m m1 j" if "valid_id m j" "j \<noteq> i" for j
  proof -
    have "rec_of st m j \<noteq> ?r" using that rec_of_inj [OF assms(1) that(1) assms(3)] by simp
    from only_record_other [OF assms(1) r c(1) rec_of_is_record [OF that(1)] this, of 0]
    show ?thesis by (simp add: untouched_def)
  qed
  show thesis
  proof (cases "has_queue m")
    case False
    then show thesis using that [of m1] same com unt pre by simp
  next
    case True
    have ok1: "stg_ok st m1" "has_queue m1"
      using assms(1) True same by (simp_all add: same_layout_stg_ok same_layout_queue)
    from storage_write_queue_OK [OF ok1(1) assms(2) ok1(2), of i] obtain m2 where
      w: "storage_write_queue st m1 i = (OK, m2)" "same_layout m1 m2"
      and hi: "\<forall>a\<ge>stg_first st. m2 a = m1 a"
      by metis
    have rec: "mread m2 (rec_of st m j + k) n = mread m1 (rec_of st m j + k) n" if "valid_id m j" for j k n
      using hi is_record_bounds(1) [OF assms(1) rec_of_is_record [OF that]]
      by (intro mread_cong) auto
    have "untouched st m m2 j" if "valid_id m j" "j \<noteq> i" for j
      using unt [OF that] rec [OF that(1), of 0] by (simp add: untouched_def)
    moreover have "committed st m m2 i val now"
      using com rec [OF assms(3), of 0 8] rec [OF assms(3), of 8 8] rec [OF assms(3), of 16 "length val"]
      by (simp add: committed_def load_def record_get_timestamp_def record_get_value_ref_def)
    moreover have "queue_wrote (st, m) i (st, m2)"
      using write_queue_prefix [OF assms(1) pre, of _ i] w(1) by simp
    ultimately show thesis
      using that [of m2] True w same_layout_trans [OF same w(2)] by simp
  qed
qed

lemma untouched_trans:
  assumes "untouched st m m1 i" "untouched st m1 m2 i" "same_layout m m1"
  shows "untouched st m m2 i"
  using assms by (simp add: untouched_def same_layout_fields same_layout_ids)

lemma untouched_rev:
  assumes "stg_ok st m" "untouched st m m1 i"
  shows "load64 m1 (rec_of st m i) = load64 m (rec_of st m i)"
  using untouched_part [OF assms(2), of 0 8] layout_okD(4) [OF stg_okD(1) [OF assms(1)]]
  by (simp add: load_def)

text \<open>The value of the \<open>j\<close>-th record in the caller's array.\<close>

definition chunk :: "nat \<Rightarrow> nat \<Rightarrow> byte list \<Rightarrow> nat \<Rightarrow> byte list" where
  "chunk copy_size val_sz vals j = take val_sz (drop (j * copy_size) vals)"

text \<open>The first record of a batch stays as it was committed, and the others are committed as in the rest of the batch.\<close>

lemma committed_first_rest:
  assumes "stg_ok st m" "stg_ok st m2" "same_layout m m2" "length (take val_sz vals) \<le> storage_get_value_size m"
    and "committed st m m2 i (take val_sz vals) (now n)" "untouched st m2 m' i"
    and "\<forall>j\<in>set ks. valid_id m j \<and> untouched st m m2 j"
    and "\<forall>j<length ks. committed st m2 m' (ks ! j) (chunk copy_size val_sz (drop copy_size vals) j) (now (n + 1 + j))"
    and "j < length (i # ks)"
  shows "committed st m m' ((i # ks) ! j) (chunk copy_size val_sz vals j) (now (n + j))"
proof (cases j)
  case 0
  from untouched_committed [OF assms(2,5,6,3)] assms(4) 0 show ?thesis
    by (simp add: chunk_def same_layout_fields [OF assms(3)])
next
  case (Suc l)
  then have l: "l < length ks" using assms(9) by simp
  then have "load64 m2 (rec_of st m (ks ! l)) = load64 m (rec_of st m (ks ! l))"
    using untouched_rev [OF assms(1)] assms(7) nth_mem by blast
  moreover have "chunk copy_size val_sz (drop copy_size vals) l = chunk copy_size val_sz vals (Suc l)"
    by (simp add: chunk_def add.commute)
  ultimately show ?thesis
    using assms(8) [rule_format, OF l] Suc
    by (simp add: committed_def same_layout_fields [OF assms(3)] same_layout_ids [OF assms(3)])
qed

lemma write_records_OK:
  assumes "stg_ok st m" "\<not> stg_read_only st" "distinct ks" "val_sz \<le> storage_get_value_size m"
    and "\<forall>i\<in>set ks. valid_id m i \<and> unlocked (load64 m (rec_of st m i))"
    and "\<forall>k. clk k = Inr (now k)" "hq = has_queue m"
  shows "\<exists>m'. write_records slp clk st hq copy_size val_sz n ks vals m = (OK, m') \<and> same_layout m m' \<and>
    (\<forall>j<length ks. committed st m m' (ks ! j) (chunk copy_size val_sz vals j) (now (n + j))) \<and>
    (\<forall>i. valid_id m i \<and> i \<notin> set ks \<longrightarrow> untouched st m m' i) \<and>
    (has_queue m \<longrightarrow> chain queue_wrote (st, m) ks (st, m')) \<and>
    (\<not> has_queue m \<longrightarrow> (\<forall>a < stg_first st. m' a = m a))"
  using assms(1,3-5,7)
proof (induction ks arbitrary: m vals n)
  case Nil
  then show ?case by (auto simp: untouched_def)
next
  case (Cons i ks)
  let ?r = "rec_of st m i" and ?v = "take val_sz vals"
  have i: "valid_id m i" "unlocked (load64 m ?r)" "i \<notin> set ks" using Cons.prems(2,4) by auto
  have v: "length ?v \<le> storage_get_value_size m" using Cons.prems(3) by simp
  define m1 where "m1 = commit_record (store64 m ?r (load64 m ?r OR SPIN_MASK)) ?r (load64 m ?r) ?v (now n)"
  from write_step [OF Cons.prems(1) assms(2) i(1) v m1_def] obtain m2 where
    w: "(if has_queue m then storage_write_queue st m1 i else (OK, m1)) = (OK, m2)"
    and same: "same_layout m m2" and com: "committed st m m2 i ?v (now n)"
    and unt: "\<And>j. valid_id m j \<Longrightarrow> j \<noteq> i \<Longrightarrow> untouched st m m2 j"
    and q: "has_queue m \<Longrightarrow> queue_wrote (st, m) i (st, m2)"
    "\<not> has_queue m \<Longrightarrow> \<forall>a < stg_first st. m2 a = m a"
    by blast
  note f = same_layout_fields [OF same] same_layout_ids [OF same] same_layout_queue [OF same]
  have ok2: "stg_ok st m2" using Cons.prems(1) same_layout_stg_ok [OF same] by simp
  have "\<forall>j\<in>set ks. valid_id m2 j \<and> unlocked (load64 m2 (rec_of st m2 j))"
  proof
    fix j
    assume j: "j \<in> set ks"
    then have "valid_id m j" "j \<noteq> i" using Cons.prems(4) i(3) by auto
    with j Cons.prems(4) untouched_rev [OF Cons.prems(1) unt]
    show "valid_id m2 j \<and> unlocked (load64 m2 (rec_of st m2 j))" by (simp add: f)
  qed
  from Cons.IH [OF ok2 _ _ this, of "n + 1" "drop copy_size vals"] Cons.prems(2,3,5) obtain m' where
    run: "write_records slp clk st hq copy_size val_sz (n + 1) ks (drop copy_size vals) m2 = (OK, m')"
    and same': "same_layout m2 m'"
    and com': "\<forall>j<length ks. committed st m2 m' (ks ! j) (chunk copy_size val_sz (drop copy_size vals) j)
      (now (n + 1 + j))"
    and unt': "\<forall>j. valid_id m j \<and> j \<notin> set ks \<longrightarrow> untouched st m2 m' j"
    and q': "has_queue m \<longrightarrow> chain queue_wrote (st, m2) ks (st, m')"
    "\<not> has_queue m \<longrightarrow> (\<forall>a < stg_first st. m' a = m2 a)"
    by (auto simp: f)
  have "\<forall>j\<in>set ks. valid_id m j \<and> untouched st m m2 j" using Cons.prems(4) i(3) unt by auto
  moreover have "untouched st m2 m' i" using unt' i by simp
  ultimately have "committed st m m' ((i # ks) ! j) (chunk copy_size val_sz vals j) (now (n + j))"
    if "j < length (i # ks)" for j
    using that by (intro committed_first_rest [OF Cons.prems(1) ok2 same v com _ _ com'])
  moreover have "untouched st m m' j" if "valid_id m j" "j \<notin> set (i # ks)" for j
    using that unt [of j] unt' untouched_trans [OF _ _ same] by auto
  moreover have "write_records slp clk st hq copy_size val_sz n (i # ks) vals m = (OK, m')"
    using run w i(1,2) assms(6) Cons.prems(5)
    by (simp add: record_write_lock_def m1_def [symmetric] status_defs)
  moreover have "has_queue m \<Longrightarrow> chain queue_wrote (st, m) (i # ks) (st, m')"
    using q(1) q'(1) by (auto intro!: exI [of _ "(st, m2)"])
  ultimately show ?case
    using same_layout_trans [OF same same'] q(2) q'(2) by (intro exI [of _ m']) auto
qed

section \<open>Properties\<close>

definition out_of :: "storage \<Rightarrow> mem \<Rightarrow> nat \<Rightarrow> ident \<Rightarrow> read_out" where
  "out_of st m val_sz i = \<lparr>ro_id = i, ro_rev = load64 m (rec_of st m i),
     ro_time = Some (record_get_timestamp m (rec_of st m i)),
     ro_value = Some (mread m (record_get_value_ref (rec_of st m i)) val_sz)\<rparr>"

lemma read_record_OK:
  "unlocked (load64 m (rec_of st m i)) \<Longrightarrow>
    read_record slp m (rec_of st m i) True True val_sz i = Inr (out_of st m val_sz i)"
  by (simp add: read_record_def record_read_lock_def out_of_def)

lemma read_records_OK:
  assumes "\<forall>i\<in>set ks. valid_id m i \<and> unlocked (load64 m (rec_of st m i))"
  shows "read_records slp st m True True val_sz ks = (OK, map (out_of st m val_sz) ks)"
  using assms by (induction ks) (auto simp: read_record_OK)

lemma read_changes_OK:
  assumes "\<forall>q\<in>set qs. \<exists>i. storage_read_queue m q True = Inr i \<and> valid_id m i \<and>
      unlocked (load64 m (rec_of st m i))"
  shows "read_changes slp st m True True val_sz qs =
    (OK, map (\<lambda>q. out_of st m val_sz (projr (storage_read_queue m q True))) qs)"
  using assms by (induction qs) (auto simp: read_record_OK)

text \<open>
  What the caller of a batch write gives and finds: distinct valid identifiers, no record locked,
  enough bytes, a working clock.
\<close>

definition batch_ok ::
  "storage \<Rightarrow> mem \<Rightarrow> nat \<Rightarrow> ident list \<Rightarrow> byte list \<Rightarrow> (nat \<Rightarrow> microsec result) \<Rightarrow> (nat \<Rightarrow> microsec) \<Rightarrow> bool" where
  "batch_ok st m copy_size ids vals clk now \<longleftrightarrow>
     stg_ok st m \<and> \<not> stg_read_only st \<and> ids \<noteq> [] \<and> distinct ids \<and> 0 < copy_size \<and>
     length ids * copy_size \<le> length vals \<and> (\<forall>k. clk k = Inr (now k)) \<and>
     (\<forall>i\<in>set ids. valid_id m i \<and> unlocked (load64 m (rec_of st m i)))"

text \<open>What reading the \<open>j\<close>-th record gives after the batch.\<close>

definition batch_out ::
  "storage \<Rightarrow> mem \<Rightarrow> nat \<Rightarrow> ident list \<Rightarrow> byte list \<Rightarrow> (nat \<Rightarrow> microsec) \<Rightarrow> nat \<Rightarrow> read_out" where
  "batch_out st m copy_size ids vals now j =
     \<lparr>ro_id = ids ! j, ro_rev = NEXT_REV (load64 m (rec_of st m (ids ! j))),
      ro_time = Some (wrap_long (now j)),
      ro_value = Some (chunk copy_size (min copy_size (storage_get_value_size m)) vals j)\<rparr>"

lemma batch_write_OK:
  assumes "batch_ok st m copy_size ids vals clk now"
  obtains m' where "batch_write_records slp clk st m copy_size (Some ids) (Some vals) = (OK, m')"
    "stg_ok st m'" "same_layout m m'"
    "\<forall>j<length ids. out_of st m' (min copy_size (storage_get_value_size m)) (ids ! j) =
        batch_out st m copy_size ids vals now j"
    "\<forall>i\<in>set ids. valid_id m' i \<and> unlocked (load64 m' (rec_of st m' i))"
    "\<forall>i. valid_id m i \<and> i \<notin> set ids \<longrightarrow> untouched st m m' i"
    "has_queue m \<longrightarrow> chain queue_wrote (st, m) ids (st, m')"
proof -
  let ?v = "min copy_size (storage_get_value_size m)"
  note ok = assms [unfolded batch_ok_def]
  have hq: "(storage_get_queue_capacity m > 0) = has_queue m"
  proof (cases "has_queue m")
    case False
    then show ?thesis by (simp add: storage_get_queue_capacity_def has_queue_def)
  qed (use ok queue_capacity_slots in blast)
  have "\<exists>m'. write_records slp clk st (storage_get_queue_capacity m > 0) copy_size ?v 0 ids vals m = (OK, m') \<and>
    same_layout m m' \<and>
    (\<forall>j<length ids. committed st m m' (ids ! j) (chunk copy_size ?v vals j) (now (0 + j))) \<and>
    (\<forall>i. valid_id m i \<and> i \<notin> set ids \<longrightarrow> untouched st m m' i) \<and>
    (has_queue m \<longrightarrow> chain queue_wrote (st, m) ids (st, m')) \<and>
    (\<not> has_queue m \<longrightarrow> (\<forall>a < stg_first st. m' a = m a))"
    using ok hq by (intro write_records_OK) auto
  then obtain m' where run: "write_records slp clk st (storage_get_queue_capacity m > 0) copy_size ?v 0 ids
      vals m = (OK, m')" and same: "same_layout m m'"
    and com: "\<forall>j<length ids. committed st m m' (ids ! j) (chunk copy_size ?v vals j) (now j)"
    and rest: "\<forall>i. valid_id m i \<and> i \<notin> set ids \<longrightarrow> untouched st m m' i"
    "has_queue m \<longrightarrow> chain queue_wrote (st, m) ids (st, m')"
    by auto
  note f = same_layout_ids [OF same]
  have len: "length (chunk copy_size ?v vals j) = ?v" if "j < length ids" for j
  proof -
    have "Suc j * copy_size \<le> length ids * copy_size" using that by (intro mult_le_mono1) simp
    moreover have "length ids * copy_size \<le> length vals" using ok by simp
    ultimately have "copy_size \<le> length vals - j * copy_size" by simp
    then show ?thesis by (simp add: chunk_def min_def)
  qed
  show thesis
  proof (rule that)
    show "batch_write_records slp clk st m copy_size (Some ids) (Some vals) = (OK, m')"
      using ok run by (simp add: batch_write_records_def)
    show "stg_ok st m'" using ok same_layout_stg_ok [OF same] by simp
    show "\<forall>j<length ids. out_of st m' ?v (ids ! j) = batch_out st m copy_size ids vals now j"
      using com len by (simp add: out_of_def batch_out_def committed_def f)
    show "\<forall>i\<in>set ids. valid_id m' i \<and> unlocked (load64 m' (rec_of st m' i))"
      using com ok by (auto simp: f committed_def in_set_conv_nth)
  qed (use same rest in auto)
qed

text \<open>
  C12.  A batch that is written is read back: \<open>batch_write_records\<close> on distinct, unlocked records
  succeeds, and \<open>batch_read_records\<close> then returns for each identifier the value written, the
  time of the write and the next revision; every other record keeps all its bytes.
\<close>

theorem batch_write_read:
  assumes "batch_ok st m copy_size ids vals clk now"
  shows "\<exists>m'. batch_write_records slp clk st m copy_size (Some ids) (Some vals) = (OK, m') \<and> stg_ok st m' \<and>
    batch_read_records slp' st m' copy_size (Some ids) True True True =
      (OK, map (batch_out st m copy_size ids vals now) [0..<length ids]) \<and>
    (\<forall>i. valid_id m i \<and> i \<notin> set ids \<longrightarrow> untouched st m m' i)"
proof -
  obtain m' where
    w: "batch_write_records slp clk st m copy_size (Some ids) (Some vals) = (OK, m')" "stg_ok st m'"
    and same: "same_layout m m'"
    and out: "\<forall>j<length ids. out_of st m' (min copy_size (storage_get_value_size m)) (ids ! j) =
        batch_out st m copy_size ids vals now j"
    and free: "\<forall>i\<in>set ids. valid_id m' i \<and> unlocked (load64 m' (rec_of st m' i))"
    and rest: "\<forall>i. valid_id m i \<and> i \<notin> set ids \<longrightarrow> untouched st m m' i"
    by (rule batch_write_OK [OF assms, of slp]) (rule that)
  have "map (out_of st m' (min copy_size (storage_get_value_size m))) ids =
      map (batch_out st m copy_size ids vals now) [0..<length ids]"
    by (rule nth_equalityI) (auto simp: out)
  moreover have "ids \<noteq> []" "copy_size \<noteq> 0" using assms by (simp_all add: batch_ok_def)
  ultimately have "batch_read_records slp' st m' copy_size (Some ids) True True True =
      (OK, map (batch_out st m copy_size ids vals now) [0..<length ids])"
    using read_records_OK [of ids m' st slp'] free
    by (simp add: batch_read_records_def same_layout_fields [OF same])
  with w rest show ?thesis by blast
qed

lemma sample_batch:
  "\<exists>st m. batch_ok st m 8 [12, 10] (replicate 8 1 @ replicate 8 2) (\<lambda>k. Inr 55) (\<lambda>_. 55) \<and>
    has_queue m \<and> storage_get_value_size m = 8 \<and> storage_get_queue_capacity m = 4 \<and>
    storage_get_queue_head m = 0"
proof -
  obtain st m where s: "stg_ok st m" "\<not> stg_read_only st" "has_queue m" "storage_get_base_id m = 10"
    "storage_get_max_id m = 14" "storage_get_value_size m = 8" "storage_get_queue_capacity m = 4"
    "\<forall>r\<in>set (storage_records st m). unlocked (load64 m r)" "storage_get_queue_head m = 0"
    using sample_store by blast
  have "valid_id m i \<and> unlocked (load64 m (rec_of st m i))" if "i \<in> {10, 12}" for i
  proof -
    have "valid_id m i" using that s(4,5) by (auto simp: valid_id_def)
    with rec_of_is_record [OF this, of st] s(8) show ?thesis by (simp add: is_record_def)
  qed
  with s show ?thesis by (auto simp: batch_ok_def intro!: exI [of _ st] exI [of _ m])
qed

theorem batch_write_read_witness:
  "\<exists>st m m'. batch_write_records (\<lambda>_. 0) (\<lambda>_. Inr 55) st m 8 (Some [12, 10])
      (Some (replicate 8 1 @ replicate 8 2)) = (OK, m') \<and>
    map ro_value (snd (batch_read_records (\<lambda>_. 0) st m' 8 (Some [12, 10]) True True True)) =
      [Some (replicate 8 1), Some (replicate 8 2)]"
proof -
  obtain st m where "batch_ok st m 8 [12, 10] (replicate 8 1 @ replicate 8 2) (\<lambda>k. Inr 55) (\<lambda>_. 55)"
    "storage_get_value_size m = 8"
    using sample_batch by blast
  with batch_write_read [OF this(1), of "\<lambda>_. 0" "\<lambda>_. 0"] obtain m' where
    "batch_write_records (\<lambda>_. 0) (\<lambda>_. Inr 55) st m 8 (Some [12, 10])
      (Some (replicate 8 1 @ replicate 8 2)) = (OK, m')"
    "batch_read_records (\<lambda>_. 0) st m' 8 (Some [12, 10]) True True True =
      (OK, map (batch_out st m 8 [12, 10] (replicate 8 1 @ replicate 8 2) (\<lambda>_. 55)) [0, 1])"
    "storage_get_value_size m = 8"
    by (auto simp: upt_rec)
  then show ?thesis
    by (intro exI [of _ st] exI [of _ m] exI [of _ m']) (simp add: batch_out_def chunk_def)
qed

lemma unat_of_nat_small: "n < 2 ^ 64 \<Longrightarrow> unat (of_nat n :: u64) = n"
  by (simp add: unat_of_nat)

lemma queue_range_eq:
  assumes "0 < n" "int n + sint h < 2 ^ 63"
  shows "queue_range h (h + of_nat n) = map (\<lambda>i. h + of_nat i) [0..<n]" "n < 2 ^ 64"
proof -
  have lo: "- (2 ^ 63) \<le> sint h" using sint_ge [of h] by simp
  have n: "int n < 2 ^ 64" using assms(2) lo by simp
  then show n': "n < 2 ^ 64" by (metis of_nat_less_iff of_nat_numeral of_nat_power)
  have "h + of_nat n = word_of_int (sint h + int n)" by simp
  moreover have "is_long (sint h + int n)"
    using assms(2) lo by (simp add: is_long_def LONG_MAX_def LONG_MIN_def)
  ultimately have "sint (h + of_nat n) = sint h + int n" by (simp only: sint_word_of_int_long)
  then show "queue_range h (h + of_nat n) = map (\<lambda>i. h + of_nat i) [0..<n]"
    using assms(1) n' by (simp add: queue_range_def unat_of_nat_small)
qed

definition quiet_env :: "mem \<Rightarrow> changed_env" where
  "quiet_env m = \<lparr>ch_mem = (\<lambda>_. m), ch_raised = (\<lambda>_. OK), ch_slept = (\<lambda>_. OK), ch_clock = (\<lambda>_. Inr 0)\<rparr>"



lemma changed_loop_step:
  "(\<exists>r. changed_loop (Suc fuel) slp e st vals want_times val_sz count cap earlier timeout k n head acc
      = Some r) \<or>
    (\<exists>s b. check_done (ch_raised e k) s (ch_clock e k) earlier timeout b = 0) \<and> (\<exists>n' head' acc'.
      changed_loop (Suc fuel) slp e st vals want_times val_sz count cap earlier timeout k n head acc =
      changed_loop fuel slp e st vals want_times val_sz count cap earlier timeout (k + 1) n' head' acc')"
proof (cases "n < count")
  case False
  then show ?thesis by simp
next
  case True
  let ?m = "ch_mem e k"
  let ?new = "storage_get_queue_head ?m"
  show ?thesis
  proof (cases "?new = head")
    case new: True
    from True new show ?thesis by (simp add: Let_def) blast
  next
    case new: False
    define new_head where "new_head = (if unat (?new - head) > count - n then head + of_nat (count - n) else ?new)"
    obtain res outs where r: "read_changes slp st ?m vals want_times val_sz (queue_range head new_head) = (res, outs)"
      by (cases "read_changes slp st ?m vals want_times val_sz (queue_range head new_head)")
    from True new r show ?thesis
      by (simp add: Let_def new_head_def [symmetric]) blast
  qed
qed

lemma changed_loop_returns:
  assumes "timeout = 0 \<or> 0 < timeout \<and> ch_clock e K = Inr now \<and> timeout < now - earlier" "k \<le> K"
  shows "\<exists>r. changed_loop (Suc (K - k)) slp e st vals want_times val_sz count cap earlier timeout k n head acc
    = Some r"
  using assms(2)
proof (induction k arbitrary: n head acc rule: inc_induct)
  case base
  have "check_done (ch_raised e K) s (ch_clock e K) earlier timeout b \<noteq> 0" for s b
    using assms(1) by (auto simp: check_done_def status_defs)
  with changed_loop_step [where e = e and k = K and earlier = earlier and timeout = timeout and fuel = 0] show ?case by auto
next
  case (step k)
  then have "Suc (K - k) = Suc (Suc (K - Suc k))" by simp
  then show ?case
    using changed_loop_step [where e = e and k = k and earlier = earlier and timeout = timeout and
        fuel = "Suc (K - Suc k)"] step.IH by (metis Suc_eq_plus1)
qed



end
