(* ===== verification/Latency.thy ===== *)
theory Latency
  imports Complex_Main Spin
begin

text \<open>
  Running latency statistics, \<open>latency.c\<close>: two sets of statistics, one being filled and one being
  shown, exchanged by \<open>latency_roll\<close>.  A C \<open>double\<close> is modelled by a real number, so the theorems
  are about the algorithm and not about its rounding.
\<close>

section \<open>The statistics\<close>

record stats =
  st_count :: int
  st_min :: real
  st_max :: real
  st_mean :: real
  st_M2 :: real
  st_stddev :: real

definition zero_stats :: stats where
  "zero_stats = \<lparr>st_count = 0, st_min = 0, st_max = 0, st_mean = 0, st_M2 = 0, st_stddev = 0\<rparr>"

record latency =
  lat_curr :: stats
  lat_next :: stats
  lat_lock :: u64

text \<open>The three allocations are of the handle, the current and the next statistics.\<close>

definition latency_create :: "bool \<Rightarrow> bool \<Rightarrow> bool \<Rightarrow> bool \<Rightarrow> latency result" where
  "latency_create plat_ok malloc1 malloc2 malloc3 =
     (if \<not> plat_ok then Inl error_invalid_arg
      else if \<not> malloc1 \<or> \<not> malloc2 \<or> \<not> malloc3 then Inl NO_MEMORY
      else Inr \<lparr>lat_curr = zero_stats, lat_next = zero_stats, lat_lock = spin_create\<rparr>)"

definition add_sample :: "stats \<Rightarrow> real \<Rightarrow> stats" where
  "add_sample s new_val =
     (let delta = new_val - st_mean s;
          count = st_count s + 1;
          mean = st_mean s + delta / of_int count;
          M2 = st_M2 s + delta * (new_val - mean)
      in s\<lparr>st_count := count, st_mean := mean, st_M2 := M2,
           st_min := (if st_min s = 0 \<or> new_val < st_min s then new_val else st_min s),
           st_max := (if st_max s = 0 \<or> new_val > st_max s then new_val else st_max s)\<rparr>)"

definition latency_on_sample :: "(nat \<Rightarrow> status) \<Rightarrow> latency \<Rightarrow> real \<Rightarrow> status \<times> latency" where
  "latency_on_sample slp lat new_val =
     (case spin_write_lock (\<lambda>_. lat_lock lat) slp of
        Inl err \<Rightarrow> (err, lat)
      | Inr _ \<Rightarrow> (OK, lat\<lparr>lat_next := add_sample (lat_next lat) new_val, lat_lock := 0\<rparr>))"

definition latency_roll :: "(nat \<Rightarrow> status) \<Rightarrow> latency \<Rightarrow> status \<times> latency" where
  "latency_roll slp lat =
     (case spin_write_lock (\<lambda>_. lat_lock lat) slp of
        Inl err \<Rightarrow> (err, lat)
      | Inr _ \<Rightarrow>
          let curr = lat_next lat;
              stddev = (if st_count curr > 1 then sqrt (st_M2 curr / of_int (st_count curr - 1)) else 0)
          in (OK, lat\<lparr>lat_curr := curr\<lparr>st_stddev := stddev\<rparr>, lat_next := zero_stats, lat_lock := 0\<rparr>))"

definition latency_get_count :: "latency \<Rightarrow> int" where
  "latency_get_count lat = st_count (lat_curr lat)"

definition latency_get_min :: "latency \<Rightarrow> real" where
  "latency_get_min lat = st_min (lat_curr lat)"

definition latency_get_max :: "latency \<Rightarrow> real" where
  "latency_get_max lat = st_max (lat_curr lat)"

definition latency_get_mean :: "latency \<Rightarrow> real" where
  "latency_get_mean lat = st_mean (lat_curr lat)"

definition latency_get_stddev :: "latency \<Rightarrow> real" where
  "latency_get_stddev lat = st_stddev (lat_curr lat)"

section \<open>The running formulas are exact\<close>

definition sum_sq :: "real list \<Rightarrow> real" where
  "sum_sq xs = sum_list (map (\<lambda>x. x\<^sup>2) xs)"

definition average :: "real list \<Rightarrow> real" where
  "average xs = sum_list xs / of_nat (length xs)"

text \<open>The statistics of the samples \<open>xs\<close>, in the order they came.\<close>

definition stats_of :: "real list \<Rightarrow> stats \<Rightarrow> bool" where
  "stats_of xs s \<longleftrightarrow> st_count s = int (length xs) \<and>
     st_mean s * of_nat (length xs) = sum_list xs \<and>
     st_M2 s = sum_sq xs - of_nat (length xs) * (st_mean s)\<^sup>2 \<and>
     (xs = [] \<longrightarrow> st_mean s = 0 \<and> st_min s = 0 \<and> st_max s = 0) \<and>
     (xs \<noteq> [] \<and> (\<forall>x\<in>set xs. 0 < x) \<longrightarrow> st_min s = Min (set xs) \<and> st_max s = Max (set xs))"

lemma stats_of_zero: "stats_of [] zero_stats"
  by (simp add: stats_of_def zero_stats_def sum_sq_def)

lemma shifted_square:
  fixes N m d :: real
  assumes "N \<noteq> 0"
  shows "N * (m + d / N)\<^sup>2 = N * m\<^sup>2 + 2 * m * d + d\<^sup>2 / N"
  using assms by (simp add: power2_sum power_divide distrib_left) (simp add: power2_eq_square)

lemma shifted_product:
  fixes N m d x :: real
  assumes "N \<noteq> 0" "d = x - m"
  shows "d * (x - (m + d / N)) = d\<^sup>2 - d\<^sup>2 / N"
  using assms by (simp add: power2_eq_square right_diff_distrib diff_diff_eq [symmetric])

lemma stats_of_step:
  assumes "stats_of xs s"
  shows "stats_of (xs @ [x]) (add_sample s x)"
proof -
  let ?n = "real (length xs)" and ?m = "st_mean s"
  let ?m' = "?m + (x - ?m) / (?n + 1)"
  have s: "st_count s = int (length xs)" "?m * ?n = sum_list xs" "st_M2 s = sum_sq xs - ?n * ?m\<^sup>2"
    using assms by (simp_all add: stats_of_def)
  have n: "?n + 1 \<noteq> 0" by (simp add: add_nonneg_eq_0_iff)
  have mean: "?m' * (?n + 1) = sum_list xs + x"
    using n s(2) by (simp add: field_simps)
  have "st_M2 s + (x - ?m) * (x - ?m') = sum_sq xs + x\<^sup>2 - (?n + 1) * ?m'\<^sup>2"
  proof -
    have "(?n + 1) * ?m'\<^sup>2 = (?n + 1) * ?m\<^sup>2 + 2 * ?m * (x - ?m) + (x - ?m)\<^sup>2 / (?n + 1)"
      using n by (rule shifted_square)
    moreover have "(x - ?m) * (x - ?m') = (x - ?m)\<^sup>2 - (x - ?m)\<^sup>2 / (?n + 1)"
      using n by (rule shifted_product) simp
    moreover have "(x - ?m)\<^sup>2 + 2 * ?m * (x - ?m) + ?m\<^sup>2 = x\<^sup>2"
      by (simp add: power2_eq_square algebra_simps)
    ultimately show ?thesis by (simp add: s(3) distrib_right)
  qed
  moreover have "st_count s + 1 = int (length (xs @ [x]))" by (simp add: s(1))
  moreover have "st_min (add_sample s x) = Min (set (xs @ [x])) \<and> st_max (add_sample s x) = Max (set (xs @ [x]))"
    if pos: "\<forall>y\<in>set (xs @ [x]). 0 < y"
  proof (cases "xs = []")
    case True
    then show ?thesis using assms by (simp add: add_sample_def Let_def stats_of_def)
  next
    case False
    then have mm: "st_min s = Min (set xs)" "st_max s = Max (set xs)"
      using assms pos by (auto simp: stats_of_def)
    moreover have "Min (set xs) \<in> set xs" "Max (set xs) \<in> set xs" using False by simp_all
    ultimately have "st_min s \<noteq> 0" "st_max s \<noteq> 0" using pos by (metis UnI1 less_irrefl set_append)+
    moreover have "Min (set (xs @ [x])) = min x (st_min s)" "Max (set (xs @ [x])) = max x (st_max s)"
      using False mm by simp_all
    moreover have "(if st_min s = 0 \<or> x < st_min s then x else st_min s) = min x (st_min s)"
      "(if st_max s = 0 \<or> x > st_max s then x else st_max s) = max x (st_max s)"
      using calculation(1,2) by (simp_all add: min_def max_def)
    ultimately show ?thesis by (simp add: add_sample_def Let_def)
  qed
  ultimately show ?thesis
    using mean s(1) by (auto simp: stats_of_def add_sample_def Let_def sum_sq_def add.commute [of 1])
qed

lemma stats_of_samples: "stats_of xs s \<Longrightarrow> stats_of (xs @ ys) (foldl add_sample s ys)"
proof (induction ys arbitrary: xs s)
  case (Cons y ys)
  from Cons.IH [OF stats_of_step [OF Cons.prems]] show ?case by simp
qed simp

lemma sum_sq_deviation:
  assumes "m * of_nat (length xs) = sum_list xs"
  shows "sum_sq xs - of_nat (length xs) * m\<^sup>2 = sum_list (map (\<lambda>x. (x - m)\<^sup>2) xs)"
proof -
  have "sum_list (map (\<lambda>x. (x - m)\<^sup>2) xs) = sum_sq xs - 2 * m * sum_list xs + of_nat (length xs) * m\<^sup>2"
    unfolding sum_sq_def by (induction xs) (simp_all add: algebra_simps power2_eq_square)
  then show ?thesis using assms [symmetric] by (simp add: power2_eq_square)
qed

lemma latency_samples:
  assumes "unlocked (lat_lock lat)"
  shows "lat_next (foldl (\<lambda>l x. snd (latency_on_sample slp l x)) lat xs) = foldl add_sample (lat_next lat) xs \<and>
    unlocked (lat_lock (foldl (\<lambda>l x. snd (latency_on_sample slp l x)) lat xs))"
  using assms
proof (induction xs arbitrary: lat)
  case (Cons x xs)
  have "spin_write_lock (\<lambda>_. lat_lock lat) slp = Inr (lat_lock lat, 0, lat_lock lat OR SPIN_MASK)"
    using Cons.prems by (simp add: spin_write_lock_from spin_from_free [of _ 0, simplified])
  with Cons.IH [of "snd (latency_on_sample slp lat x)"] show ?case
    by (simp add: latency_on_sample_def)
qed simp

text \<open>
  The statistics are exact: after the samples \<open>xs\<close> since the last roll, \<open>latency_roll\<close> shows their
  number, their mean and their sample standard deviation; the smallest and the greatest of
  them too if all are positive; and it starts over with none.
\<close>

theorem latency_roll_exact:
  assumes "unlocked (lat_lock lat)" "lat_next lat = zero_stats" "xs \<noteq> []"
    and "lat' = foldl (\<lambda>l x. snd (latency_on_sample slp l x)) lat xs"
  shows "\<exists>shown. latency_roll slp lat' = (OK, shown) \<and> lat_next shown = zero_stats \<and>
    latency_get_count shown = int (length xs) \<and> latency_get_mean shown = average xs \<and>
    latency_get_stddev shown =
      (if length xs > 1
       then sqrt (sum_list (map (\<lambda>x. (x - average xs)\<^sup>2) xs) / of_nat (length xs - 1)) else 0) \<and>
    ((\<forall>x\<in>set xs. 0 < x) \<longrightarrow>
      latency_get_min shown = Min (set xs) \<and> latency_get_max shown = Max (set xs))"
proof -
  note l = latency_samples [OF assms(1), of slp xs]
  let ?s = "lat_next lat'"
  have lock: "spin_write_lock (\<lambda>_. lat_lock lat') slp = Inr (lat_lock lat', 0, lat_lock lat' OR SPIN_MASK)"
    using l assms(4) by (simp add: spin_write_lock_from spin_from_free [of _ 0, simplified])
  have s: "stats_of xs ?s"
    using stats_of_samples [OF stats_of_zero, of xs] l assms(2,4) by simp
  then have mean: "st_mean ?s = average xs"
    using assms(3) by (auto simp: stats_of_def average_def field_simps)
  have "st_M2 ?s = sum_list (map (\<lambda>x. (x - average xs)\<^sup>2) xs)"
    using s sum_sq_deviation [of "average xs" xs] assms(3) by (simp add: stats_of_def mean average_def)
  then show ?thesis
    using s mean assms(3)
    by (auto simp: latency_roll_def lock Let_def stats_of_def latency_get_count_def latency_get_mean_def
        latency_get_stddev_def latency_get_min_def latency_get_max_def of_nat_diff)
qed

text \<open>A new handle and three samples.\<close>

theorem latency_roll_exact_witness:
  "\<exists>lat shown. latency_create True True True True = Inr lat \<and>
    latency_roll (\<lambda>_. 0) (foldl (\<lambda>l x. snd (latency_on_sample (\<lambda>_. 0) l x)) lat [3, 1, 2]) = (OK, shown) \<and>
    latency_get_mean shown = 2 \<and> latency_get_min shown = 1 \<and> latency_get_max shown = 3"
proof -
  let ?lat = "\<lparr>lat_curr = zero_stats, lat_next = zero_stats, lat_lock = 0\<rparr>"
  have "latency_create True True True True = Inr ?lat"
    by (simp add: latency_create_def spin_create_def)
  moreover have "average [3, 1, 2] = 2" by (simp add: average_def)
  ultimately show ?thesis
    using latency_roll_exact [of ?lat "[3, 1, 2]" _ "\<lambda>_. 0", OF _ _ _ refl] by auto
qed

text \<open>
  Zero stands for "no sample yet" in the extremes: after the samples 0 and 5 the smallest shown
  is 5.
\<close>

theorem latency_min_of_zero:
  "\<exists>shown. latency_roll (\<lambda>_. 0) (foldl (\<lambda>l x. snd (latency_on_sample (\<lambda>_. 0) l x))
      \<lparr>lat_curr = zero_stats, lat_next = zero_stats, lat_lock = 0\<rparr> [0, 5]) = (OK, shown) \<and>
    latency_get_min shown = 5"
proof -
  have "spin_write_lock (\<lambda>_. 0) (\<lambda>_. 0) = Inr (0, 0, 0 OR SPIN_MASK)"
    by (simp add: spin_write_lock_from spin_from_free [of _ 0, simplified])
  then show ?thesis
    by (simp add: latency_roll_def latency_on_sample_def Let_def add_sample_def zero_stats_def
        latency_get_min_def)
qed

end
