(* ===== verification/Runtime.thy ===== *)
theory Runtime
  imports Spin
begin

text \<open>
  Small services: sleeping and reading the clock (\<open>clock.c\<close>), signals (\<open>signals.c\<close>), the
  status of an interrupted call (\<open>error_eintr\<close> of \<open>error.c\<close>), allocation (\<open>xalloc.c\<close>) and number
  parsing (\<open>a2i.c\<close>).  Calls into the system are arguments: what they
  return, or the \<open>errno\<close> value they set.
\<close>

section \<open>Clock\<close>

definition EINTR :: int where "EINTR = 4"

text \<open>
  \<open>clock_sleep\<close> where \<open>nanosleep\<close> exists: the requested seconds and nanoseconds, and the status.
  \<open>nanosleep_res\<close> is \<open>None\<close> for success and the failure status otherwise.
\<close>

definition clock_sleep_request :: "microsec \<Rightarrow> int \<times> int" where
  "clock_sleep_request usec =
     (let (tv_sec, tv_nsec) = (if usec < 1000000 then (0, usec) else (usec div 1000000, usec mod 1000000))
      in (tv_sec, tv_nsec * 1000))"

definition clock_sleep :: "(int \<times> int \<Rightarrow> status option) \<Rightarrow> microsec \<Rightarrow> status" where
  "clock_sleep nanosleep_res usec =
     (if usec < 0 then error_invalid_arg
      else case nanosleep_res (clock_sleep_request usec) of None \<Rightarrow> OK | Some err \<Rightarrow> err)"

text \<open>
  \<open>clock_sleep\<close> without it: the arguments of the calls of \<open>usleep\<close> it makes, up to the first
  that fails, and the status.
\<close>

fun usleep_loop :: "(int \<Rightarrow> status option) \<Rightarrow> nat \<Rightarrow> int \<Rightarrow> int list \<times> status" where
  "usleep_loop usleep_res 0 final =
     ([final], case usleep_res final of None \<Rightarrow> OK | Some err \<Rightarrow> err)"
| "usleep_loop usleep_res (Suc s) final =
     (case usleep_res 999999 of
        Some err \<Rightarrow> if FAILED err then ([999999], err)
          else (case usleep_loop usleep_res s final of (calls, st) \<Rightarrow> (999999 # calls, st))
      | None \<Rightarrow> (case usleep_loop usleep_res s final of (calls, st) \<Rightarrow> (999999 # calls, st)))"

definition clock_sleep_usleep :: "(int \<Rightarrow> status option) \<Rightarrow> microsec \<Rightarrow> int list \<times> status" where
  "clock_sleep_usleep usleep_res usec =
     (if usec < 0 then ([], error_invalid_arg)
      else usleep_loop usleep_res (nat (usec div 1000000)) (usec div 1000000 + usec mod 1000000))"

definition clock_time :: "bool \<Rightarrow> (int \<times> int) result \<Rightarrow> microsec result" where
  "clock_time pusec_ok gettime =
     (if \<not> pusec_ok then Inl error_invalid_arg
      else case gettime of Inl err \<Rightarrow> Inl err | Inr (sec, nsec) \<Rightarrow> Inr (sec * 1000000 + nsec div 1000))"

text \<open>\<open>clock_time\<close> where only \<open>gettimeofday\<close> exists, which counts in microseconds.\<close>

definition clock_time_of_day :: "bool \<Rightarrow> (int \<times> int) result \<Rightarrow> microsec result" where
  "clock_time_of_day pusec_ok gettimeofday =
     (if \<not> pusec_ok then Inl error_invalid_arg
      else case gettimeofday of Inl err \<Rightarrow> Inl err | Inr (sec, usec) \<Rightarrow> Inr (sec * 1000000 + usec))"

section \<open>Signals\<close>

definition NSIG :: int where "NSIG = 65"

type_synonym raised = "int \<Rightarrow> bool"

definition on_signal :: "raised \<Rightarrow> int \<Rightarrow> raised" where
  "on_signal is_raised sig = is_raised(sig := True)"

text \<open>\<open>None\<close> for success of the system call, its \<open>errno\<close> otherwise.\<close>

definition set_action :: "int option \<Rightarrow> int option \<Rightarrow> status" where
  "set_action sigemptyset_res sigaction_res =
     (case sigemptyset_res of
        Some e \<Rightarrow> error_errno e
      | None \<Rightarrow> (case sigaction_res of Some e \<Rightarrow> error_errno e | None \<Rightarrow> OK))"

definition signal_add_handler :: "int option \<Rightarrow> int option \<Rightarrow> int \<Rightarrow> status" where
  "signal_add_handler sigemptyset_res sigaction_res sig =
     (if sig < 1 \<or> sig \<ge> NSIG then error_invalid_arg else set_action sigemptyset_res sigaction_res)"

definition signal_remove_handler :: "int option \<Rightarrow> int option \<Rightarrow> int \<Rightarrow> status" where
  "signal_remove_handler sigemptyset_res sigaction_res sig =
     (if sig < 1 \<or> sig \<ge> NSIG then error_invalid_arg else set_action sigemptyset_res sigaction_res)"

definition signal_is_raised :: "raised \<Rightarrow> int \<Rightarrow> status" where
  "signal_is_raised is_raised sig =
     (if sig < 1 \<or> sig \<ge> NSIG then error_invalid_arg
      else if is_raised sig then SIG_ERROR_BASE - sig else OK)"

definition first_raised :: "raised \<Rightarrow> int option" where
  "first_raised is_raised = find is_raised [1..NSIG - 1]"

definition signal_any_raised :: "raised \<Rightarrow> status" where
  "signal_any_raised is_raised =
     (case first_raised is_raised of Some i \<Rightarrow> SIG_ERROR_BASE - i | None \<Rightarrow> OK)"

definition signal_clear :: "raised \<Rightarrow> int \<Rightarrow> status \<times> raised" where
  "signal_clear is_raised sig =
     (if sig < 1 \<or> sig \<ge> NSIG then (error_invalid_arg, is_raised)
      else (OK, is_raised(sig := False)))"

definition signal_on_eintr :: "raised \<Rightarrow> int \<Rightarrow> status" where
  "signal_on_eintr is_raised errno =
     (case first_raised is_raised of Some i \<Rightarrow> SIG_ERROR_BASE - i | None \<Rightarrow> error_errno errno)"

definition error_eintr :: "raised \<Rightarrow> int \<Rightarrow> status" where
  "error_eintr is_raised errno =
     (if errno = EINTR then signal_on_eintr is_raised errno else error_errno errno)"

section \<open>Memory\<close>

text \<open>
  \<open>xalloc.c\<close>: \<open>p\<close> is what the allocator of the C library returns, \<open>None\<close> for a null pointer.  The second
  component is the error that is recorded, \<open>OK\<close> for none.
\<close>

definition ENOMEM :: int where "ENOMEM = 12"

definition xmalloc :: "nat option \<Rightarrow> u64 \<Rightarrow> nat option \<times> status" where
  "xmalloc p sz = (if sz = 0 then (None, OK) else (p, if p = None then error_errno ENOMEM else OK))"

definition xcalloc :: "nat option \<Rightarrow> u64 \<Rightarrow> u64 \<Rightarrow> nat option \<times> status" where
  "xcalloc p n sz = (if sz = 0 then (None, OK) else (p, if p = None then error_errno ENOMEM else OK))"

definition xrealloc :: "nat option \<Rightarrow> nat option \<Rightarrow> u64 \<Rightarrow> nat option \<times> status" where
  "xrealloc p old sz =
     (if old = None \<and> sz > 0 then xmalloc p sz
      else (p, if p = None \<and> sz > 0 then error_errno ENOMEM else OK))"

definition xstrdup :: "bool \<Rightarrow> 'a list option \<Rightarrow> 'a list option \<times> status" where
  "xstrdup malloc_ok text =
     (case text of
        None \<Rightarrow> (None, OK)
      | Some s \<Rightarrow> if malloc_ok then (Some s, OK) else (None, error_errno ENOMEM))"

section \<open>Numbers\<close>

text \<open>
  \<open>sscanf_ret\<close> is what \<open>sscanf\<close> returns (the number of conversions, or -1 for the end of the
  input) and \<open>errno\<close> what it leaves in \<open>errno\<close>.
\<close>

definition a2i :: "bool \<Rightarrow> int \<Rightarrow> int \<Rightarrow> status" where
  "a2i args_ok sscanf_ret errno =
     (if \<not> args_ok then error_invalid_arg
      else if sscanf_ret \<noteq> -1 then OK
      else if errno \<noteq> 0 then error_errno errno else INVALID_NUMBER)"

section \<open>Properties\<close>

lemma clock_time_variants:
  "clock_time ok (map_sum id (\<lambda>(sec, usec). (sec, usec * 1000)) t) = clock_time_of_day ok t"
  by (simp add: clock_time_def clock_time_of_day_def split: sum.split)

lemma usleep_loop_ok:
  "\<forall>a. usleep_res a = None \<Longrightarrow> usleep_loop usleep_res s final = (replicate s 999999 @ [final], OK)"
  by (induction s) simp_all

text \<open>
  Both versions of \<open>clock_sleep\<close> ask for exactly the time they are given: the \<open>nanosleep\<close> request
  is normalised and its seconds and nanoseconds add up to the microseconds, and so do the
  \<open>usleep\<close> calls of the other version, when none fails; a negative time is an error.
\<close>

theorem clock_sleep_exact:
  assumes "\<forall>a. usleep_res a = None"
  shows "if 0 \<le> usec
    then (case clock_sleep_request usec of (sec, nsec) \<Rightarrow>
        0 \<le> sec \<and> 0 \<le> nsec \<and> nsec < 1000000000 \<and> sec * 1000000000 + nsec = usec * 1000) \<and>
      snd (clock_sleep_usleep usleep_res usec) = OK \<and>
      sum_list (fst (clock_sleep_usleep usleep_res usec)) = usec
    else clock_sleep nanosleep_res usec = error_invalid_arg \<and>
      clock_sleep_usleep usleep_res usec = ([], error_invalid_arg)"
proof (cases "0 \<le> usec")
  case True
  have dm: "usec div 1000000 * 1000000 + usec mod 1000000 = usec" by (rule div_mult_mod_eq)
  then have e: "usec div 1000000 * 1000000000 + usec mod 1000000 * 1000 = usec * 1000" by linarith
  have "sum_list (replicate n (999999 :: int)) = 999999 * int n" for n
    by (induction n) simp_all
  then show ?thesis
    using True dm pos_mod_bound [of 1000000 usec]
    by (auto simp: clock_sleep_request_def clock_sleep_usleep_def usleep_loop_ok [OF assms]
        pos_imp_zdiv_nonneg_iff) (rule e)
next
  case False
  then show ?thesis by (simp add: clock_sleep_def clock_sleep_usleep_def)
qed

theorem clock_sleep_exact_witness:
  "clock_sleep_request 2500000 = (2, 500000000) \<and>
    sum_list (fst (clock_sleep_usleep (\<lambda>_. None) 2500000)) = 2500000"
  using clock_sleep_exact [of "\<lambda>_. None" 2500000 "\<lambda>_. None"] by (simp add: clock_sleep_request_def)

text \<open>
  The statuses of different origin do not collide: those of \<open>errno\<close> values up to 133, the greatest
  Linux uses, those of signals, and the library's own are all negative, different from one
  another, and different within each group.
\<close>

theorem status_codes_disjoint:
  assumes "1 \<le> e" "e \<le> 133" "1 \<le> e'" "e' \<le> 133" "is_raised sig" "1 \<le> sig" "sig < NSIG" "1 \<le> k"
  shows "error_errno e < 0 \<and> signal_is_raised is_raised sig < 0 \<and>
    (error_errno e = error_errno e' \<longleftrightarrow> e = e') \<and>
    error_errno e \<noteq> signal_is_raised is_raised sig \<and>
    error_errno e \<noteq> LANCASTER_ERROR_BASE - k \<and>
    signal_is_raised is_raised sig \<noteq> LANCASTER_ERROR_BASE - k"
  using assms by (simp add: error_errno_def signal_is_raised_def NSIG_def status_defs)

theorem status_codes_disjoint_witness:
  "error_errno 2 \<noteq> signal_is_raised (\<lambda>s. s = 15) 15 \<and> error_errno 133 \<noteq> LANCASTER_ERROR_BASE - 1"
  using status_codes_disjoint [of 2 133 "\<lambda>s. s = 15" 15 1] status_codes_disjoint [of 133 2 "\<lambda>s. s = 15" 15 1]
  by (simp add: NSIG_def)

lemma first_raised_None: "first_raised r = None \<longleftrightarrow> (\<forall>i. 1 \<le> i \<and> i < NSIG \<longrightarrow> \<not> r i)"
  by (auto simp: first_raised_def find_None_iff NSIG_def)

lemma first_raised_Some:
  assumes "first_raised r = Some i"
  shows "r i \<and> 1 \<le> i \<and> i < NSIG \<and> (\<forall>j. 1 \<le> j \<and> j < i \<longrightarrow> \<not> r j)"
proof -
  let ?xs = "[1..NSIG - 1]"
  obtain n where n: "n < length ?xs" "r (?xs ! n)" "i = ?xs ! n" "\<forall>j<n. \<not> r (?xs ! j)"
    using assms by (auto simp: first_raised_def find_Some_iff)
  have nth: "?xs ! j = 1 + int j" if "j < length ?xs" for j
    using that by (simp add: NSIG_def nth_upto)
  have "\<not> r j" if "1 \<le> j" "j < i" for j
  proof -
    have "nat (j - 1) < n" using that n(1,3) nth [OF n(1)] by simp
    with n(4) nth [of "nat (j - 1)"] n(1) that(1) show ?thesis by auto
  qed
  with n nth [OF n(1)] show ?thesis by (auto simp: NSIG_def)
qed

text \<open>
  A raised signal is seen until it is cleared: \<open>signal_any_raised\<close> fails exactly while some
  signal is raised, and then with the status of the lowest; raising and clearing a signal
  change the answer for that signal only.
\<close>

theorem signals_seen_until_cleared:
  assumes "1 \<le> sig" "sig < NSIG"
  shows "(signal_any_raised r = OK \<longleftrightarrow> (\<forall>i. 1 \<le> i \<and> i < NSIG \<longrightarrow> \<not> r i)) \<and>
    (r sig \<and> (\<forall>i. 1 \<le> i \<and> i < sig \<longrightarrow> \<not> r i) \<longrightarrow>
      signal_any_raised r = SIG_ERROR_BASE - sig \<and> error_eintr r EINTR = SIG_ERROR_BASE - sig) \<and>
    signal_is_raised (on_signal r sig) sig = SIG_ERROR_BASE - sig \<and>
    (\<exists>r'. signal_clear r sig = (OK, r') \<and> signal_is_raised r' sig = OK \<and>
      (\<forall>i. i \<noteq> sig \<longrightarrow> signal_is_raised r' i = signal_is_raised r i \<and>
        signal_is_raised (on_signal r sig) i = signal_is_raised r i))"
proof -
  have "first_raised r = Some sig" if "r sig" "\<forall>i. 1 \<le> i \<and> i < sig \<longrightarrow> \<not> r i"
  proof (cases "first_raised r")
    case None
    with that(1) assms show ?thesis by (auto simp: first_raised_None)
  next
    case (Some i)
    with first_raised_Some [OF Some] that assms show ?thesis
      by (metis linorder_neqE)
  qed
  moreover have "signal_any_raised r = OK \<longleftrightarrow> first_raised r = None"
    by (auto simp: signal_any_raised_def status_defs dest: first_raised_Some split: option.splits)
  ultimately show ?thesis
    using assms by (auto simp: first_raised_None signal_any_raised_def error_eintr_def signal_on_eintr_def
        signal_is_raised_def on_signal_def signal_clear_def)
qed

theorem signals_seen_until_cleared_witness:
  "signal_any_raised (\<lambda>s. s = 15) = SIG_ERROR_BASE - 15 \<and>
    signal_is_raised (snd (signal_clear (\<lambda>s. s = 15) 15)) 15 = OK"
  using signals_seen_until_cleared [of 15 "\<lambda>s. s = 15"] by (auto simp: NSIG_def)

end
