(* ===== verification/Poller.thy ===== *)
theory Poller
  imports Runtime "HOL-Library.Multiset"
begin

text \<open>
  The set of polled sockets, \<open>poller.c\<close>.  Sockets are handles (numbers, zero for a null pointer);
  \<open>desc\<close> stands for \<open>sock_get_descriptor\<close>.  The two arrays are lists of the length that is
  allocated, of which the first \<open>free_idx\<close> entries are in use.
\<close>

section \<open>The poller\<close>

type_synonym sock = nat

record pollfd =
  pfd_fd :: int
  pfd_events :: int
  pfd_revents :: int

record poller =
  pol_count :: nat
  pol_free_idx :: nat
  pol_fds :: "pollfd list"
  pol_socks :: "sock list"

definition no_pollfd :: pollfd where
  "no_pollfd = \<lparr>pfd_fd = 0, pfd_events = 0, pfd_revents = 0\<rparr>"

definition poller_create :: "bool \<Rightarrow> bool \<Rightarrow> bool \<Rightarrow> bool \<Rightarrow> int \<Rightarrow> poller result" where
  "poller_create ppoller_ok malloc_ok calloc1_ok calloc2_ok nsock =
     (if \<not> ppoller_ok \<or> nsock \<le> 0 then Inl error_invalid_arg
      else if \<not> malloc_ok \<or> \<not> calloc1_ok \<or> \<not> calloc2_ok then Inl NO_MEMORY
      else Inr \<lparr>pol_count = nat nsock, pol_free_idx = 0, pol_fds = replicate (nat nsock) no_pollfd,
                pol_socks = replicate (nat nsock) 0\<rparr>)"

definition poller_get_count :: "poller \<Rightarrow> nat" where
  "poller_get_count pol = pol_free_idx pol"

text \<open>A reallocation keeps the entries; what it appends is unspecified, here \<open>pad\<close>.\<close>

definition poller_add ::
  "(sock \<Rightarrow> int) \<Rightarrow> bool \<Rightarrow> bool \<Rightarrow> pollfd \<Rightarrow> poller \<Rightarrow> sock \<Rightarrow> int \<Rightarrow> status \<times> poller" where
  "poller_add desc realloc1_ok realloc2_ok pad pol sk events =
     (if sk = 0 then (error_invalid_arg, pol)
      else
        let grow = (pol_free_idx pol = pol_count pol);
            n = 2 * pol_count pol;
            fds = (if grow \<and> realloc1_ok then pol_fds pol @ replicate (n - length (pol_fds pol)) pad
                   else pol_fds pol)
        in if grow \<and> \<not> realloc1_ok then (NO_MEMORY, pol)
           else if grow \<and> \<not> realloc2_ok then (NO_MEMORY, pol\<lparr>pol_fds := fds\<rparr>)
           else
             let socks = (if grow then pol_socks pol @ replicate (n - length (pol_socks pol)) 0
                          else pol_socks pol);
                 i = pol_free_idx pol
             in (OK, pol\<lparr>pol_count := (if grow then n else pol_count pol),
                   pol_fds := fds[i := \<lparr>pfd_fd = desc sk, pfd_events = events, pfd_revents = 0\<rparr>],
                   pol_socks := socks[i := sk], pol_free_idx := i + 1\<rparr>))"

text \<open>The index the searching loops stop at.\<close>

definition sock_index :: "poller \<Rightarrow> sock \<Rightarrow> nat option" where
  "sock_index pol sk = find (\<lambda>i. pol_socks pol ! i = sk) [0..<pol_free_idx pol]"

definition poller_remove :: "poller \<Rightarrow> sock \<Rightarrow> status \<times> poller" where
  "poller_remove pol sk =
     (if sk = 0 then (error_invalid_arg, pol)
      else case sock_index pol sk of
        None \<Rightarrow> (NOT_FOUND, pol)
      | Some i \<Rightarrow>
          let j = pol_free_idx pol - 1;
              pol = (if i \<noteq> j
                     then pol\<lparr>pol_fds := (pol_fds pol)[i := pol_fds pol ! j],
                              pol_socks := (pol_socks pol)[i := pol_socks pol ! j]\<rparr>
                     else pol)
          in (OK, pol\<lparr>pol_free_idx := pol_free_idx pol - 1\<rparr>))"

definition poller_set_event :: "poller \<Rightarrow> sock \<Rightarrow> int \<Rightarrow> status \<times> poller" where
  "poller_set_event pol sk new_events =
     (if sk = 0 then (error_invalid_arg, pol)
      else case sock_index pol sk of
        None \<Rightarrow> (NOT_FOUND, pol)
      | Some i \<Rightarrow> (OK, pol\<lparr>pol_fds := (pol_fds pol)[i := (pol_fds pol ! i)\<lparr>pfd_events := new_events\<rparr>]\<rparr>))"

text \<open>
  \<open>poll_ret\<close> is what \<open>poll\<close> returns and \<open>revents\<close> the events it stores; -1 is a failure.
\<close>

definition poller_events :: "raised \<Rightarrow> int \<Rightarrow> int \<Rightarrow> int list \<Rightarrow> poller \<Rightarrow> status \<times> poller" where
  "poller_events is_raised errno poll_ret revents pol =
     (if poll_ret = -1 then (error_eintr is_raised errno, pol)
      else (poll_ret,
        pol\<lparr>pol_fds := map2 (\<lambda>fd r. fd\<lparr>pfd_revents := r\<rparr>) (take (pol_free_idx pol) (pol_fds pol)) revents @
              drop (pol_free_idx pol) (pol_fds pol)\<rparr>))"

text \<open>
  The callbacks get the poller, which they may change, the socket, its events and a state of
  the caller's.  The loop runs downwards from the last entry, over the arrays as they are then.
\<close>

type_synonym 's poller_func = "poller \<Rightarrow> sock \<Rightarrow> int \<Rightarrow> 's \<Rightarrow> status \<times> poller \<times> 's"

fun process_loop :: "'s poller_func \<Rightarrow> nat \<Rightarrow> status \<Rightarrow> poller \<Rightarrow> 's \<Rightarrow> status \<times> poller \<times> 's" where
  "process_loop fn 0 st pol s = (st, pol, s)"
| "process_loop fn (Suc i) st pol s =
     (case fn pol (pol_socks pol ! i) (pfd_events (pol_fds pol ! i)) s of
        (st', pol', s') \<Rightarrow> if FAILED st' then (st', pol', s') else process_loop fn i st' pol' s')"

definition poller_process :: "poller \<Rightarrow> 's poller_func option \<Rightarrow> 's \<Rightarrow> status \<times> poller \<times> 's" where
  "poller_process pol fn s =
     (case fn of
        None \<Rightarrow> (error_invalid_arg, pol, s)
      | Some f \<Rightarrow> process_loop f (pol_free_idx pol) OK pol s)"

fun process_events_loop :: "'s poller_func \<Rightarrow> nat \<Rightarrow> status \<Rightarrow> poller \<Rightarrow> 's \<Rightarrow> status \<times> poller \<times> 's" where
  "process_events_loop fn 0 st pol s = (st, pol, s)"
| "process_events_loop fn (Suc i) st pol s =
     (if pfd_revents (pol_fds pol ! i) \<noteq> 0 then
        (case fn pol (pol_socks pol ! i) (pfd_revents (pol_fds pol ! i)) s of
           (st', pol', s') \<Rightarrow> if FAILED st' then (st', pol', s') else process_events_loop fn i st' pol' s')
      else process_events_loop fn i st pol s)"

definition poller_process_events :: "poller \<Rightarrow> 's poller_func option \<Rightarrow> 's \<Rightarrow> status \<times> poller \<times> 's" where
  "poller_process_events pol event_fn s =
     (case event_fn of
        None \<Rightarrow> (error_invalid_arg, pol, s)
      | Some f \<Rightarrow> process_events_loop f (pol_free_idx pol) OK pol s)"

section \<open>The poller is a collection of sockets\<close>

definition poller_ok :: "poller \<Rightarrow> bool" where
  "poller_ok pol \<longleftrightarrow> 0 < pol_count pol \<and> pol_free_idx pol \<le> pol_count pol \<and>
     pol_count pol \<le> length (pol_fds pol) \<and> pol_count pol \<le> length (pol_socks pol)"

definition entries :: "poller \<Rightarrow> (sock \<times> pollfd) list" where
  "entries pol = take (pol_free_idx pol) (zip (pol_socks pol) (pol_fds pol))"

lemma entries_length: "poller_ok pol \<Longrightarrow> length (entries pol) = pol_free_idx pol"
  by (simp add: entries_def poller_ok_def)

lemma entries_nth:
  "poller_ok pol \<Longrightarrow> i < pol_free_idx pol \<Longrightarrow> entries pol ! i = (pol_socks pol ! i, pol_fds pol ! i)"
  by (simp add: entries_def poller_ok_def)

lemma poller_add_OK:
  assumes "poller_ok pol" "sk \<noteq> 0"
  shows "\<exists>pol'. poller_add desc True True pad pol sk events = (OK, pol') \<and> poller_ok pol' \<and>
    entries pol' = entries pol @ [(sk, \<lparr>pfd_fd = desc sk, pfd_events = events, pfd_revents = 0\<rparr>)]"
proof -
  let ?pol = "snd (poller_add desc True True pad pol sk events)"
  let ?e = "(sk, \<lparr>pfd_fd = desc sk, pfd_events = events, pfd_revents = 0\<rparr>)"
  have res: "poller_add desc True True pad pol sk events = (OK, ?pol)"
    using assms(2) by (simp add: poller_add_def Let_def)
  have ok: "poller_ok ?pol" and idx: "pol_free_idx ?pol = Suc (pol_free_idx pol)"
    using assms by (auto simp: poller_add_def Let_def poller_ok_def)
  have nth: "entries ?pol ! i = (if i < pol_free_idx pol then entries pol ! i else ?e)"
    if "i \<le> pol_free_idx pol" for i
  proof -
    have i: "i < pol_free_idx ?pol" using that idx by simp
    have "(pol_socks ?pol ! i, pol_fds ?pol ! i) =
        (if i < pol_free_idx pol then (pol_socks pol ! i, pol_fds pol ! i) else ?e)"
      using that assms by (auto simp: poller_add_def Let_def poller_ok_def nth_list_update nth_append)
    then show ?thesis
      using entries_nth [OF ok i] entries_nth [OF assms(1), of i] by simp
  qed
  have "entries ?pol = entries pol @ [?e]"
    using entries_length [OF ok] entries_length [OF assms(1)] idx
    by (intro nth_equalityI) (auto simp: nth nth_append)
  with res ok show ?thesis by blast
qed

lemma sock_index_None:
  "poller_ok pol \<Longrightarrow> sock_index pol sk = None \<longleftrightarrow> sk \<notin> fst ` set (entries pol)"
  by (auto simp: sock_index_def find_None_iff in_set_conv_nth entries_length entries_nth image_iff)
    (metis entries_length entries_nth fst_conv nth_mem surj_pair)+

lemma sock_index_Some:
  assumes "sock_index pol sk = Some i"
  shows "i < pol_free_idx pol" "pol_socks pol ! i = sk" "\<forall>j<i. pol_socks pol ! j \<noteq> sk"
  using assms by (auto simp: sock_index_def find_Some_iff)

text \<open>Overwriting an entry by the last one and dropping the last removes that entry.\<close>

lemma mset_swap_last:
  assumes "i < length xs"
  shows "mset (butlast (xs[i := last xs])) = mset xs - {#xs ! i#}"
proof -
  obtain b l where xs: "xs = b @ [l]"
    using assms by (cases xs rule: rev_cases) auto
  show ?thesis
  proof (cases "i = length b")
    case True
    then show ?thesis by (simp add: xs list_update_append)
  next
    case False
    then have i: "i < length b" using assms xs by simp
    then have "b ! i \<in># mset b" by simp
    with i show ?thesis by (simp add: xs list_update_append mset_update nth_append)
  qed
qed

lemma poller_remove_OK:
  assumes "poller_ok pol" "sock_index pol sk = Some i" "sk \<noteq> 0"
  shows "\<exists>pol'. poller_remove pol sk = (OK, pol') \<and> poller_ok pol' \<and>
    entries pol' = butlast ((entries pol)[i := last (entries pol)]) \<and>
    mset (entries pol') = mset (entries pol) - {#entries pol ! i#}"
proof -
  let ?pol = "snd (poller_remove pol sk)" and ?j = "pol_free_idx pol - 1"
  note i = sock_index_Some [OF assms(2)]
  have res: "poller_remove pol sk = (OK, ?pol)"
    using assms(2,3) by (simp add: poller_remove_def Let_def)
  have ok: "poller_ok ?pol" and idx: "pol_free_idx ?pol = ?j"
    using assms by (auto simp: poller_remove_def Let_def poller_ok_def)
  have len: "length (entries pol) = pol_free_idx pol" by (rule entries_length [OF assms(1)])
  have last: "last (entries pol) = entries pol ! ?j"
    using i(1) len by (subst last_conv_nth) auto
  have "entries ?pol ! k = butlast ((entries pol)[i := last (entries pol)]) ! k" if k: "k < ?j" for k
  proof -
    have "entries ?pol ! k = (pol_socks ?pol ! k, pol_fds ?pol ! k)"
      using entries_nth [OF ok] k idx by simp
    also have "\<dots> = (if k = i then entries pol ! ?j else entries pol ! k)"
      using assms k i(1) by (auto simp: poller_remove_def Let_def entries_nth poller_ok_def nth_list_update)
    finally show ?thesis using k len last by (simp add: nth_butlast nth_list_update)
  qed
  then have eq: "entries ?pol = butlast ((entries pol)[i := last (entries pol)])"
    using entries_length [OF ok] idx len by (intro nth_equalityI) auto
  have "mset (entries ?pol) = mset (entries pol) - {#entries pol ! i#}"
    using mset_swap_last [of i "entries pol"] i(1) len by (simp add: eq)
  with res ok eq show ?thesis by blast
qed

section \<open>Properties\<close>

text \<open>
  The poller is the collection of the sockets added and not removed: \<open>poller_add\<close> adds one entry
  with the events asked for, growing the arrays when they are full; \<open>poller_remove\<close> removes one
  entry of the socket and no other, though it reorders them; \<open>poller_set_event\<close> changes the
  events of that socket's entry alone; and both report \<open>NOT_FOUND\<close> exactly for a socket that is not there.
\<close>

theorem poller_is_collection:
  assumes "poller_ok pol" "sk \<noteq> 0"
  shows "(\<exists>pol'. poller_add desc True True pad pol sk events = (OK, pol') \<and> poller_ok pol' \<and>
      entries pol' = entries pol @ [(sk, \<lparr>pfd_fd = desc sk, pfd_events = events, pfd_revents = 0\<rparr>)]) \<and>
    (if sk \<in> fst ` set (entries pol)
     then \<exists>i fd pol1 pol2. i < poller_get_count pol \<and> entries pol ! i = (sk, fd) \<and>
        poller_remove pol sk = (OK, pol1) \<and> poller_ok pol1 \<and>
        mset (entries pol1) = mset (entries pol) - {#(sk, fd)#} \<and>
        poller_set_event pol sk events = (OK, pol2) \<and> poller_ok pol2 \<and>
        entries pol2 = (entries pol)[i := (sk, fd\<lparr>pfd_events := events\<rparr>)]
     else poller_remove pol sk = (NOT_FOUND, pol) \<and> poller_set_event pol sk events = (NOT_FOUND, pol))"
proof (cases "sock_index pol sk")
  case None
  with sock_index_None [OF assms(1)] have "sk \<notin> fst ` set (entries pol)" by blast
  with None show ?thesis
    using poller_add_OK [OF assms] assms(2) by (simp add: poller_remove_def poller_set_event_def)
next
  case (Some i)
  note i = sock_index_Some [OF Some]
  have mem: "sk \<in> fst ` set (entries pol)"
    using sock_index_None [OF assms(1), of sk] Some by simp
  let ?fd = "pol_fds pol ! i"
  let ?pol2 = "pol\<lparr>pol_fds := (pol_fds pol)[i := ?fd\<lparr>pfd_events := events\<rparr>]\<rparr>"
  have ent: "entries pol ! i = (sk, ?fd)" using entries_nth [OF assms(1) i(1)] i(2) by simp
  have ok2: "poller_ok ?pol2" using assms(1) by (simp add: poller_ok_def)
  have set2: "entries ?pol2 = (entries pol)[i := (sk, ?fd\<lparr>pfd_events := events\<rparr>)]"
    using i(1,2) entries_length [OF ok2] entries_length [OF assms(1)] assms(1)
    by (intro nth_equalityI)
      (auto simp: entries_nth [OF ok2] entries_nth [OF assms(1)] nth_list_update poller_ok_def)
  obtain pol1 where "poller_remove pol sk = (OK, pol1)" "poller_ok pol1"
    "mset (entries pol1) = mset (entries pol) - {#(sk, ?fd)#}"
    using poller_remove_OK [OF assms(1) Some assms(2)] ent by auto
  moreover have "poller_set_event pol sk events = (OK, ?pol2)"
    using Some assms(2) by (simp add: poller_set_event_def)
  ultimately show ?thesis
    using poller_add_OK [OF assms] mem ent ok2 set2 i(1) unfolding poller_get_count_def by auto
qed

text \<open>A poller created for one socket, with two added.\<close>

definition fd_for :: "sock \<Rightarrow> pollfd" where
  "fd_for sk = \<lparr>pfd_fd = int sk, pfd_events = 1, pfd_revents = 0\<rparr>"

lemma sample_poller: "\<exists>p. poller_ok p \<and> entries p = [(5, fd_for 5), (6, fd_for 6)]"
proof -
  obtain p0 where 0: "poller_create True True True True 1 = Inr p0" "poller_ok p0" "entries p0 = []"
    by (simp add: poller_create_def poller_ok_def entries_def)
  obtain p1 where 1: "poller_ok p1" "entries p1 = [(5, fd_for 5)]"
    using poller_add_OK [OF 0(2), of 5 int no_pollfd 1] 0(3) by (auto simp: fd_for_def)
  from poller_add_OK [OF 1(1), of 6 int no_pollfd 1] 1(2) show ?thesis by (auto simp: fd_for_def)
qed

theorem poller_is_collection_witness:
  "\<exists>p p'. poller_ok p \<and> entries p = [(5, fd_for 5), (6, fd_for 6)] \<and>
    poller_add int True True no_pollfd p 7 1 = (OK, p') \<and>
    entries p' = [(5, fd_for 5), (6, fd_for 6), (7, fd_for 7)] \<and>
    poller_remove p 7 = (NOT_FOUND, p) \<and> fst (poller_remove p 6) = OK"
proof -
  obtain p where p: "poller_ok p" "entries p = [(5, fd_for 5), (6, fd_for 6)]"
    using sample_poller by blast
  have "\<exists>p'. poller_add int True True no_pollfd p 7 1 = (OK, p') \<and>
      entries p' = [(5, fd_for 5), (6, fd_for 6), (7, fd_for 7)]" "poller_remove p 7 = (NOT_FOUND, p)"
    using poller_is_collection [OF p(1), of 7 int no_pollfd 1] p(2) by (auto simp: fd_for_def)
  moreover have "fst (poller_remove p 6) = OK"
    using poller_is_collection [OF p(1), of 6 int no_pollfd 1] p(2) by auto
  ultimately show ?thesis using p by blast
qed

text \<open>
  What a callback may do to the poller while it handles the entry at index \<open>i\<close>: anything that
  keeps the sockets below \<open>i\<close> in place, such as removing its own socket or adding new ones.
\<close>

definition keeps_below :: "'s poller_func \<Rightarrow> bool" where
  "keeps_below fn \<longleftrightarrow>
     (\<forall>pol i ev s st' pol' s'. poller_ok pol \<and> distinct (map fst (entries pol)) \<and> i < pol_free_idx pol \<and>
        fn pol (pol_socks pol ! i) ev s = (st', pol', s') \<longrightarrow>
        poller_ok pol' \<and> distinct (map fst (entries pol')) \<and> i \<le> pol_free_idx pol' \<and>
        take i (map fst (entries pol')) = take i (map fst (entries pol)))"

text \<open>The callback with a record of the sockets it was called on.\<close>

definition traced :: "'s poller_func \<Rightarrow> ('s \<times> sock list) poller_func" where
  "traced fn pol sk ev sv =
     (case sv of (s, vs) \<Rightarrow> case fn pol sk ev s of (st, pol', s') \<Rightarrow> (st, pol', s', vs @ [sk]))"

lemma process_loop_visits:
  assumes "keeps_below fn" "\<And>pol sk ev s. \<not> FAILED (fst (fn pol sk ev s))"
    and "poller_ok pol" "distinct (map fst (entries pol))" "i \<le> pol_free_idx pol"
  shows "snd (snd (snd (process_loop (traced fn) i st pol (s, vs)))) = vs @ rev (take i (map fst (entries pol)))"
  using assms(3-5)
proof (induction i arbitrary: st pol s vs)
  case 0
  then show ?case by simp
next
  case (Suc i)
  let ?sk = "pol_socks pol ! i" and ?ev = "pfd_events (pol_fds pol ! i)"
  obtain st' pol' s' where f: "fn pol ?sk ?ev s = (st', pol', s')" by (cases "fn pol ?sk ?ev s") auto
  have k: "poller_ok pol'" "distinct (map fst (entries pol'))" "i \<le> pol_free_idx pol'"
    "take i (map fst (entries pol')) = take i (map fst (entries pol))"
    using assms(1) [unfolded keeps_below_def, rule_format, OF _, of pol i ?ev s st' pol' s'] f Suc.prems by auto
  have "\<not> FAILED st'" using assms(2) [of pol ?sk ?ev s] f by simp
  moreover have "take (Suc i) (map fst (entries pol)) = take i (map fst (entries pol)) @ [?sk]"
    using Suc.prems entries_length [of pol] by (subst take_Suc_conv_app_nth) (auto simp: entries_nth)
  ultimately show ?case
    using Suc.IH [OF k(1-3)] k(4) by (simp add: traced_def f)
qed

text \<open>
  C38.  Every socket gets its turn: \<open>poller_process\<close> calls the function on each socket registered when
  it starts, once, from the last to the first, even though the function may remove the socket
  it is called on (which moves the last entry into its place) or add sockets while the loop is running.
\<close>

theorem poller_process_visits_each:
  assumes "keeps_below fn" "\<forall>pol sk ev s. \<not> FAILED (fst (fn pol sk ev s))"
    and "poller_ok pol" "distinct (map fst (entries pol))"
  shows "snd (snd (snd (poller_process pol (Some (traced fn)) (s, [])))) = rev (map fst (entries pol))"
proof -
  have "take (pol_free_idx pol) (map fst (entries pol)) = map fst (entries pol)"
    using entries_length [OF assms(3)] by simp
  with process_loop_visits [OF assms(1) _ assms(3,4) order_refl, of OK s "[]"] assms(2) show ?thesis
    by (simp add: poller_process_def)
qed

definition remove_odd :: "unit poller_func" where
  "remove_odd pol sk ev s = (if odd sk then (OK, snd (poller_remove pol sk), s) else (OK, pol, s))"

lemma sock_index_self:
  assumes "poller_ok pol" "distinct (map fst (entries pol))" "i < pol_free_idx pol"
  shows "sock_index pol (pol_socks pol ! i) = Some i"
proof -
  let ?sk = "pol_socks pol ! i"
  have socks: "map fst (entries pol) ! j = pol_socks pol ! j" if "j < pol_free_idx pol" for j
    using that entries_length [OF assms(1)] by (simp add: entries_nth [OF assms(1)])
  have "sock_index pol ?sk \<noteq> None"
    using assms(3) by (auto simp: sock_index_def find_None_iff)
  then obtain j where j: "sock_index pol ?sk = Some j" by blast
  note s = sock_index_Some [OF j]
  have "map fst (entries pol) ! j = map fst (entries pol) ! i"
    using socks [OF s(1)] socks [OF assms(3)] s(2) by simp
  with assms(2,3) s(1) entries_length [OF assms(1)] have "j = i"
    by (simp add: distinct_conv_nth) blast
  with j show ?thesis by simp
qed

lemma remove_odd_keeps: "keeps_below remove_odd"
  unfolding keeps_below_def
proof (intro allI impI, elim conjE)
  fix pol i ev s st' pol' s'
  assume ok: "poller_ok pol" and d: "distinct (map fst (entries pol))" and i: "i < pol_free_idx pol"
    and f: "remove_odd pol (pol_socks pol ! i) ev s = (st', pol', s')"
  show "poller_ok pol' \<and> distinct (map fst (entries pol')) \<and> i \<le> pol_free_idx pol' \<and>
      take i (map fst (entries pol')) = take i (map fst (entries pol))"
  proof (cases "odd (pol_socks pol ! i)")
    case False
    with f ok d i show ?thesis by (simp add: remove_odd_def)
  next
    case True
    then have "pol_socks pol ! i \<noteq> 0" by (metis even_zero)
    from poller_remove_OK [OF ok sock_index_self [OF ok d i] this] f True obtain
      ok': "poller_ok pol'" and e: "entries pol' = butlast ((entries pol)[i := last (entries pol)])"
      and ms: "mset (entries pol') = mset (entries pol) - {#entries pol ! i#}"
      by (auto simp: remove_odd_def)
    have len: "length (entries pol) = pol_free_idx pol" by (rule entries_length [OF ok])
    have "entries pol ! i \<in># mset (entries pol)" using i len by simp
    with ms have "mset (entries pol) = mset (entries pol ! i # entries pol')" by simp
    then have "mset (map fst (entries pol)) = mset (map fst (entries pol ! i # entries pol'))"
      by (simp only: mset_map)
    with d have "distinct (map fst (entries pol'))"
      using mset_eq_imp_distinct_iff by fastforce
    moreover have "pol_free_idx pol' = pol_free_idx pol - 1"
      using entries_length [OF ok'] e len by simp
    moreover have "take i (entries pol') = take i (entries pol)"
      using i len by (simp add: e butlast_conv_take take_take)
    ultimately show ?thesis using ok' i by (simp add: take_map)
  qed
qed

theorem poller_process_visits_each_witness:
  "\<exists>p. poller_ok p \<and> map fst (entries p) = [5, 6] \<and>
    snd (snd (snd (poller_process p (Some (traced remove_odd)) ((), [])))) = [6, 5]"
proof -
  obtain p where p: "poller_ok p" "entries p = [(5, fd_for 5), (6, fd_for 6)]"
    using sample_poller by blast
  have ok: "\<forall>pol sk ev s. \<not> FAILED (fst (remove_odd pol sk ev s))"
    by (simp add: remove_odd_def status_defs)
  have "snd (snd (snd (poller_process p (Some (traced remove_odd)) ((), [])))) = [6, 5]"
    using poller_process_visits_each [OF remove_odd_keeps ok p(1), of "()"] p(2) by simp
  with p show ?thesis by (intro exI [of _ p]) simp
qed

end
