(* ===== verification/Wire.thy ===== *)
theory Wire
  imports Records Latency Poller
begin

text \<open>
  What the sender and the receiver share: sequence numbers and ranges (\<open>lancaster/sequence.h\<close>),
  the four transfer functions of \<open>socket.c\<close>, the byte layout of what goes over the wire, and the
  loops that drain and fill a connection's buffer.

  A buffer is a memory addressed from zero; \<open>in_next\<close>, \<open>out_next\<close> and \<open>pkt_next\<close> are offsets into
  it.  The outcome of a system call is a value of type \<open>io\<close>: the count it returns, or its
  \<open>errno\<close>.  A loop that calls the kernel repeatedly gets a list of outcomes; a call beyond the
  list finds the socket not ready, which is what a non-blocking socket does sooner or later.
\<close>

section \<open>Sequence numbers\<close>

definition SEQUENCE_MIN :: sequence where "SEQUENCE_MIN = LONG_MIN"
definition SEQUENCE_MAX :: sequence where "SEQUENCE_MAX = LONG_MAX"
definition HEARTBEAT_SEQ :: sequence where "HEARTBEAT_SEQ = -1"
definition WILL_QUIT_SEQ :: sequence where "WILL_QUIT_SEQ = -2"

record sequence_range =
  low :: sequence
  high :: sequence

definition IS_VALID_RANGE :: "sequence_range \<Rightarrow> bool" where
  "IS_VALID_RANGE r \<longleftrightarrow> low r < high r"

definition IS_WITHIN_RANGE :: "sequence_range \<Rightarrow> sequence \<Rightarrow> bool" where
  "IS_WITHIN_RANGE r n \<longleftrightarrow> n \<ge> low r \<and> n < high r"

definition INVALIDATE_RANGE :: sequence_range where
  "INVALIDATE_RANGE = \<lparr>low = SEQUENCE_MAX, high = SEQUENCE_MIN\<rparr>"

section \<open>Socket transfers\<close>

datatype io = Moved nat | Errno int

definition EAGAIN :: int where "EAGAIN = 11"
definition EPIPE :: int where "EPIPE = 32"
definition ECONNRESET :: int where "ECONNRESET = 104"

text \<open>The events of \<open>poll\<close> and the alarm signal, with their Linux numbers.\<close>

definition POLLIN :: int where "POLLIN = 1"
definition POLLOUT :: int where "POLLOUT = 4"
definition POLLHUP :: int where "POLLHUP = 16"
definition SIGALRM :: int where "SIGALRM = 14"

text \<open>The common error branch; writing also maps a broken pipe to the end of the stream.\<close>

definition io_failed :: "raised \<Rightarrow> bool \<Rightarrow> int \<Rightarrow> status" where
  "io_failed sg writing e =
     (if e = EAGAIN then BLOCKED
      else if writing \<and> e = EPIPE \<or> e = ECONNRESET then EOF_STATUS
      else error_eintr sg e)"

definition sock_write :: "raised \<Rightarrow> io \<Rightarrow> nat \<Rightarrow> nat result" where
  "sock_write sg x data_sz =
     (if data_sz = 0 then Inl error_invalid_arg
      else case x of
        Errno e \<Rightarrow> Inl (io_failed sg True e)
      | Moved n \<Rightarrow> Inr (min n data_sz))"

text \<open>
  \<open>avail\<close> is what has arrived and has not been read.  A count of zero is the end of the stream;
  a positive count with nothing to read is a call that would block.
\<close>

definition sock_read :: "raised \<Rightarrow> io \<Rightarrow> byte list \<Rightarrow> nat \<Rightarrow> byte list result" where
  "sock_read sg x avail data_sz =
     (if data_sz = 0 then Inl error_invalid_arg
      else case x of
        Errno e \<Rightarrow> Inl (io_failed sg False e)
      | Moved n \<Rightarrow>
          if n = 0 then Inl EOF_STATUS
          else if avail = [] then Inl BLOCKED
          else Inr (take (min n data_sz) avail))"

text \<open>A datagram is sent whole or not at all.\<close>

definition sock_sendto :: "raised \<Rightarrow> io \<Rightarrow> bool \<Rightarrow> nat \<Rightarrow> nat result" where
  "sock_sendto sg x addr_ok data_sz =
     (if \<not> addr_ok \<or> data_sz = 0 then Inl error_invalid_arg
      else case x of
        Errno e \<Rightarrow> Inl (io_failed sg True e)
      | Moved _ \<Rightarrow> Inr data_sz)"

text \<open>The next datagram, cut at the size of the buffer; \<open>Inl\<close> is the \<open>errno\<close> of a failure.\<close>

definition sock_recvfrom :: "raised \<Rightarrow> int + byte list \<Rightarrow> bool \<Rightarrow> nat \<Rightarrow> byte list result" where
  "sock_recvfrom sg x addr_ok data_sz =
     (if \<not> addr_ok \<or> data_sz = 0 then Inl error_invalid_arg
      else case x of
        Inl e \<Rightarrow> Inl (io_failed sg False e)
      | Inr dgram \<Rightarrow> if dgram = [] then Inl EOF_STATUS else Inr (take data_sz dgram))"

section \<open>Filling and draining a buffer\<close>

text \<open>
  The loop of both \<open>tcp_write_buf\<close> functions: the status of the last call, the buffer position
  and the remaining count, and the bytes handed to the kernel.
\<close>

fun write_loop ::
  "raised \<Rightarrow> mem \<Rightarrow> io list \<Rightarrow> status \<Rightarrow> nat \<Rightarrow> nat \<Rightarrow> byte list \<Rightarrow> status \<times> nat \<times> nat \<times> byte list" where
  "write_loop sg buf [] st next remain sent =
     (if remain > 0 then (BLOCKED, next, remain, sent) else (st, next, remain, sent))"
| "write_loop sg buf (x # xs) st next remain sent =
     (if remain > 0 then
        (case sock_write sg x remain of
           Inl err \<Rightarrow> (err, next, remain, sent)
         | Inr n \<Rightarrow> write_loop sg buf xs (int n) (next + n) (remain - n) (sent @ mread buf next n))
      else (st, next, remain, sent))"

text \<open>The loop of both \<open>tcp_read_buf\<close> functions; the last result is what is left unread.\<close>

fun read_loop ::
  "raised \<Rightarrow> io list \<Rightarrow> status \<Rightarrow> mem \<Rightarrow> nat \<Rightarrow> nat \<Rightarrow> byte list \<Rightarrow> status \<times> mem \<times> nat \<times> nat \<times> byte list" where
  "read_loop sg [] st buf next remain avail =
     (if remain > 0 then (BLOCKED, buf, next, remain, avail) else (st, buf, next, remain, avail))"
| "read_loop sg (x # xs) st buf next remain avail =
     (if remain > 0 then
        (case sock_read sg x avail remain of
           Inl err \<Rightarrow> (err, buf, next, remain, avail)
         | Inr data \<Rightarrow>
             let n = length data
             in read_loop sg xs (int n) (mwrite buf next data) (next + n) (remain - n) (drop n avail))
      else (st, buf, next, remain, avail))"

text \<open>A \<open>long\<close> in network order, written to and read from a buffer.\<close>

definition put_net :: "mem \<Rightarrow> nat \<Rightarrow> int \<Rightarrow> mem" where
  "put_net buf a x = store64 buf a (htonll (word_of_int x))"

definition get_net :: "mem \<Rightarrow> nat \<Rightarrow> int" where
  "get_net buf a = sint (ntohll (load64 buf a))"

section \<open>Lemmas on the wire format\<close>

text \<open>The eight bytes of a number on the wire, most significant first.\<close>

definition wire64 :: "int \<Rightarrow> byte list" where
  "wire64 x = rev (lebytes 8 (word_of_int x))"

lemma length_wire64 [simp]: "length (wire64 x) = 8"
  by (simp add: wire64_def)

lemma wire64_not_Nil [simp]: "wire64 x \<noteq> []"
  using length_wire64 [of x] by force

lemma put_net_wire: "put_net buf a x = mwrite buf a (wire64 x)"
  by (simp add: put_net_def store_def wire64_def lebytes_htonll)

lemma get_net_wire:
  assumes "mread buf a 8 = wire64 x" "is_long x"
  shows "get_net buf a = x"
proof -
  have "load64 buf a = htonll (word_of_int x)"
    using arg_cong [OF assms(1), of leword]
    by (simp add: load_def wire64_def flip: lebytes_htonll)
  then show ?thesis using assms(2) by (simp add: get_net_def)
qed

lemma wire64_inj: "wire64 x = wire64 y \<Longrightarrow> is_long x \<Longrightarrow> is_long y \<Longrightarrow> x = y"
proof -
  assume a: "wire64 x = wire64 y" "is_long x" "is_long y"
  define b where "b = mwrite (\<lambda>_. 0) 0 (wire64 x)"
  have r: "mread b 0 8 = wire64 x" by (simp add: b_def)
  have "get_net b 0 = x" using r a(2) by (rule get_net_wire)
  moreover have "get_net b 0 = y" using r [unfolded a(1)] a(3) by (rule get_net_wire)
  ultimately show "x = y" by (rule box_equals [OF refl])
qed

lemma get_put_net [simp]: "is_long x \<Longrightarrow> get_net (put_net buf a x) a = x"
  by (rule get_net_wire) (simp_all add: put_net_wire)

lemma is_long_get_net [simp]: "is_long (get_net buf a)"
  by (simp add: get_net_def)

lemma put_get_net: "mread buf a 8 = wire64 (get_net buf a)"
proof -
  have "htonll (word_of_int (get_net buf a)) = load64 buf a"
    by (simp add: get_net_def)
  then show ?thesis
    by (metis lebytes8_leword lebytes_htonll length_mread load_def wire64_def)
qed

lemma get_net_cong: "mread buf a 8 = mread buf' a' 8 \<Longrightarrow> get_net buf a = get_net buf' a'"
  by (simp add: get_net_def load_def)

lemma mread_put_net_disjoint [mem_simps]:
  "a + n \<le> b \<or> b + 8 \<le> a \<Longrightarrow> mread (put_net buf b x) a n = mread buf a n"
  by (simp add: put_net_wire mread_mwrite_disjoint)
section \<open>The buffer loops are independent of how the stream is cut\<close>

lemma sock_write_count: "sock_write sg x n = Inr k \<Longrightarrow> k \<le> n"
  by (auto simp: sock_write_def split: if_splits io.splits)

lemma sock_read_data:
  assumes "sock_read sg x avail n = Inr data"
  shows "data = take (length data) avail" "length data \<le> n" "length data \<le> length avail" "0 < length data"
  using assms by (auto simp: sock_read_def min_def split: if_splits io.splits)

lemma write_loop_sent:
  assumes "write_loop sg buf xs st next remain sent = (st', next', remain', sent')"
  shows "next \<le> next'" "next' + remain' = next + remain" "sent' = sent @ mread buf next (next' - next)"
    "remain' > 0 \<Longrightarrow> \<exists>e. st' = BLOCKED \<or> st' = io_failed sg True e"
proof -
  have "next \<le> next' \<and> next' + remain' = next + remain \<and> sent' = sent @ mread buf next (next' - next) \<and>
    (remain' > 0 \<longrightarrow> (\<exists>e. st' = BLOCKED \<or> st' = io_failed sg True e))"
    using assms
  proof (induction xs arbitrary: st "next" remain sent)
    case Nil
    then show ?case by (auto split: if_splits)
  next
    case (Cons x xs)
    show ?case
    proof (cases "remain > 0")
      case False
      then show ?thesis using Cons.prems by simp
    next
      case True
      show ?thesis
      proof (cases "sock_write sg x remain")
        case (Inl err)
        then have "\<exists>e. err = io_failed sg True e"
          using True by (auto simp: sock_write_def split: io.splits)
        then show ?thesis using Cons.prems True Inl by auto
      next
        case (Inr n)
        note n = sock_write_count [OF Inr]
        note ih = Cons.IH [of "int n" "next + n" "remain - n" "sent @ mread buf next n"]
        have "write_loop sg buf xs (int n) (next + n) (remain - n) (sent @ mread buf next n) =
          (st', next', remain', sent')"
          using Cons.prems True Inr by simp
        from ih [OF this] have i: "next + n \<le> next'" "next' + remain' = next + remain"
          "sent' = sent @ mread buf next n @ mread buf (next + n) (next' - (next + n))"
          "remain' > 0 \<longrightarrow> (\<exists>e. st' = BLOCKED \<or> st' = io_failed sg True e)"
          using n by auto
        have "mread buf next (next' - next) = mread buf next n @ mread buf (next + n) (next' - (next + n))"
          using mread_add [of buf "next" n "next' - (next + n)"] i(1) by simp
        with i show ?thesis by simp
      qed
    qed
  qed
  then show "next \<le> next'" "next' + remain' = next + remain" "sent' = sent @ mread buf next (next' - next)"
    "remain' > 0 \<Longrightarrow> \<exists>e. st' = BLOCKED \<or> st' = io_failed sg True e" by blast+
qed

lemma read_loop_got:
  assumes "read_loop sg xs st buf next remain avail = (st', buf', next', remain', avail')"
  shows "next \<le> next'" "next' + remain' = next + remain"
    "next' - next \<le> length avail" "avail' = drop (next' - next) avail"
    "buf' = mwrite buf next (take (next' - next) avail)"
    "remain' > 0 \<Longrightarrow> \<exists>e. st' = BLOCKED \<or> st' = EOF_STATUS \<or> st' = io_failed sg False e"
proof -
  have "next \<le> next' \<and> next' + remain' = next + remain \<and> next' - next \<le> length avail \<and>
    avail' = drop (next' - next) avail \<and> buf' = mwrite buf next (take (next' - next) avail) \<and>
    (remain' > 0 \<longrightarrow> (\<exists>e. st' = BLOCKED \<or> st' = EOF_STATUS \<or> st' = io_failed sg False e))"
    using assms
  proof (induction xs arbitrary: st buf "next" remain avail)
    case Nil
    then show ?case by (auto simp: mwrite_Nil split: if_splits)
  next
    case (Cons x xs)
    show ?case
    proof (cases "remain > 0")
      case False
      then show ?thesis using Cons.prems by (simp add: mwrite_Nil)
    next
      case True
      show ?thesis
      proof (cases "sock_read sg x avail remain")
        case (Inl err)
        then have "\<exists>e. err = BLOCKED \<or> err = EOF_STATUS \<or> err = io_failed sg False e"
          using True by (auto simp: sock_read_def split: io.splits if_splits)
        then show ?thesis using Cons.prems True Inl by (auto simp: mwrite_Nil)
      next
        case (Inr data)
        define n where "n = length data"
        note d = sock_read_data [OF Inr, folded n_def]
        note ih = Cons.IH [of "int n" "mwrite buf next data" "next + n" "remain - n" "drop n avail"]
        have "read_loop sg xs (int n) (mwrite buf next data) (next + n) (remain - n) (drop n avail) =
          (st', buf', next', remain', avail')"
          using Cons.prems True Inr by (simp add: Let_def n_def)
        from ih [OF this] have i: "next + n \<le> next'" "next' + remain' = next + remain"
          "next' - (next + n) \<le> length avail - n" "avail' = drop (next' - (next + n)) (drop n avail)"
          "buf' = mwrite (mwrite buf next data) (next + n) (take (next' - (next + n)) (drop n avail))"
          "remain' > 0 \<longrightarrow> (\<exists>e. st' = BLOCKED \<or> st' = EOF_STATUS \<or> st' = io_failed sg False e)"
          using d by auto
        have "take (next' - next) avail = data @ take (next' - (next + n)) (drop n avail)"
          using d(1) i(1) take_add [of n "next' - (next + n)" avail] by simp
        then have "buf' = mwrite buf next (take (next' - next) avail)"
          using i(5) by (simp add: mwrite_append n_def)
        with i d show ?thesis by (simp add: diff_diff_left)
      qed
    qed
  qed
  then show "next \<le> next'" "next' + remain' = next + remain"
    "next' - next \<le> length avail" "avail' = drop (next' - next) avail"
    "buf' = mwrite buf next (take (next' - next) avail)"
    "remain' > 0 \<Longrightarrow> \<exists>e. st' = BLOCKED \<or> st' = EOF_STATUS \<or> st' = io_failed sg False e" by blast+
qed

end
