(* ===== verification/Hello.thy ===== *)
theory Hello
  imports Prelude
begin

text \<open>
  The text a publisher sends to a subscriber that connects: how \<open>init\<close> of \<open>sender.c\<close> prints the
  attributes with \<open>sprintf\<close>, and how \<open>init\<close> of \<open>receiver.c\<close> reads them back with \<open>sscanf\<close>.  Text is a
  list of bytes.  A number that does not fit the type it is read into, which C leaves
  undefined, is reduced modulo the width of the type.
\<close>

section \<open>Versions\<close>

definition version_get_wire_major :: int where "version_get_wire_major = 2"
definition version_get_wire_minor :: int where "version_get_wire_minor = 0"

section \<open>Printing\<close>

fun print_nat :: "nat \<Rightarrow> byte list" where
  "print_nat n = (if n < 10 then [48 + of_nat n] else print_nat (n div 10) @ [48 + of_nat (n mod 10)])"

declare print_nat.simps [simp del]

definition print_int :: "int \<Rightarrow> byte list" where
  "print_int x = (if x < 0 then 45 # print_nat (nat (- x)) else print_nat (nat x))"

definition CRLF :: "byte list" where "CRLF = [13, 10]"

record hello =
  h_wire_ver :: int
  h_data_ver :: int
  h_mcast_address :: "byte list"
  h_mcast_port :: int
  h_mcast_mtu :: nat
  h_base_id :: ident
  h_max_id :: ident
  h_val_size :: nat
  h_q_capacity :: nat
  h_max_age_usec :: microsec
  h_hb_usec :: microsec

definition print_hello :: "hello \<Rightarrow> byte list" where
  "print_hello h =
     print_int (h_wire_ver h) @ CRLF @ print_int (h_data_ver h) @ CRLF @ h_mcast_address h @ CRLF @
     print_int (h_mcast_port h) @ CRLF @ print_nat (h_mcast_mtu h) @ CRLF @
     print_int (h_base_id h) @ CRLF @ print_int (h_max_id h) @ CRLF @ print_nat (h_val_size h) @ CRLF @
     print_nat (h_q_capacity h) @ CRLF @ print_int (h_max_age_usec h) @ CRLF @
     print_int (h_hb_usec h) @ CRLF"

section \<open>Scanning\<close>

definition is_space :: "byte \<Rightarrow> bool" where
  "is_space b \<longleftrightarrow> b = 32 \<or> 9 \<le> b \<and> b \<le> 13"

definition is_digit :: "byte \<Rightarrow> bool" where
  "is_digit b \<longleftrightarrow> 48 \<le> b \<and> b \<le> 57"

definition skip_space :: "byte list \<Rightarrow> byte list" where
  "skip_space = dropWhile is_space"

definition digits_value :: "byte list \<Rightarrow> nat" where
  "digits_value = foldl (\<lambda>n b. 10 * n + (unat b - 48)) 0"

text \<open>A decimal conversion: white space, an optional sign, at least one digit.\<close>

definition scan_int :: "byte list \<Rightarrow> (int \<times> byte list) option" where
  "scan_int s =
     (let s = skip_space s;
          neg = (s \<noteq> [] \<and> hd s = 45);
          s = (if s \<noteq> [] \<and> (hd s = 43 \<or> hd s = 45) then tl s else s);
          ds = takeWhile is_digit s
      in if ds = [] then None
         else Some (if neg then - int (digits_value ds) else int (digits_value ds), dropWhile is_digit s))"

text \<open>A conversion of at most \<open>n\<close> characters of text without white space.\<close>

definition scan_text :: "nat \<Rightarrow> byte list \<Rightarrow> (byte list \<times> byte list) option" where
  "scan_text n s =
     (let s = skip_space s; w = take n (takeWhile (\<lambda>b. \<not> is_space b) s)
      in if w = [] then None else Some (w, drop (length w) s))"

text \<open>
  The second \<open>sscanf\<close> of \<open>receiver.c\<close>: the ten attributes and the position \<open>%n\<close> reports, here as
  the rest of the text; \<open>None\<close> when fewer than ten conversions succeed.  Before each conversion
  white space is skipped by the conversion itself.
\<close>

definition scan_attributes :: "byte list \<Rightarrow> (hello \<times> byte list) option" where
  "scan_attributes s =
     Option.bind (scan_int s) (\<lambda>(data_ver, s).
     Option.bind (scan_text 31 s) (\<lambda>(addr, s).
     Option.bind (scan_int s) (\<lambda>(port, s).
     Option.bind (scan_int s) (\<lambda>(mtu, s).
     Option.bind (scan_int s) (\<lambda>(base, s).
     Option.bind (scan_int s) (\<lambda>(mx, s).
     Option.bind (scan_int s) (\<lambda>(val_sz, s).
     Option.bind (scan_int s) (\<lambda>(q_cap, s).
     Option.bind (scan_int s) (\<lambda>(age, s).
     Option.bind (scan_int s) (\<lambda>(hb, s).
     Some (\<lparr>h_wire_ver = 0, h_data_ver = uint (word_of_int data_ver :: u32), h_mcast_address = addr,
            h_mcast_port = sint (word_of_int port :: u32), h_mcast_mtu = unat (word_of_int mtu :: u64),
            h_base_id = wrap_long base, h_max_id = wrap_long mx,
            h_val_size = unat (word_of_int val_sz :: u64), h_q_capacity = unat (word_of_int q_cap :: u64),
            h_max_age_usec = wrap_long age, h_hb_usec = wrap_long hb\<rparr>, skip_space s)))))))))))"

text \<open>
  What \<open>init\<close> of \<open>receiver.c\<close> makes of the text it reads: the attributes and the description, from
  which the last two characters are cut.  (Of a single character nothing is cut: the end mark
  is written before it.)
\<close>

definition parse_hello :: "byte list \<Rightarrow> (hello \<times> byte list) result" where
  "parse_hello text =
     (let buf = takeWhile (\<lambda>b. b \<noteq> 0) text
      in case scan_int buf of
           None \<Rightarrow> Inl PROTOCOL_ERROR
         | Some (x, s) \<Rightarrow>
             let wire_ver = uint (word_of_int x :: u32); s = skip_space s
             in if wire_ver div 2 ^ 8 \<noteq> version_get_wire_major then Inl WRONG_WIRE_VERSION
                else case scan_attributes s of
                  None \<Rightarrow> Inl PROTOCOL_ERROR
                | Some (h, desc) \<Rightarrow>
                    Inr (h\<lparr>h_wire_ver := wire_ver\<rparr>, if length desc \<ge> 2 then take (length desc - 2) desc else desc))"

section \<open>A printed number is read back\<close>
lemma unat_digit: "d < 10 \<Longrightarrow> unat (48 + of_nat d :: byte) = 48 + d"
  by (simp add: unat_word_ariths unat_of_nat)

lemma is_digit_iff: "is_digit b \<longleftrightarrow> 48 \<le> unat b \<and> unat b \<le> 57"
  by (simp add: is_digit_def word_le_nat_alt)

lemma is_space_iff: "is_space b \<longleftrightarrow> unat b = 32 \<or> 9 \<le> unat b \<and> unat b \<le> 13"
  by (simp add: is_space_def word_le_nat_alt word_unat_eq_iff)

lemma print_nat_digits: "print_nat n \<noteq> [] \<and> (\<forall>b\<in>set (print_nat n). is_digit b)"
proof (induction n rule: print_nat.induct)
  case (1 n)
  have "is_digit (48 + of_nat (n mod 10))"
    by (simp add: is_digit_iff unat_digit)
  moreover have "n < 10 \<Longrightarrow> is_digit (48 + of_nat n)"
    by (simp add: is_digit_iff unat_digit)
  ultimately show ?case
    using 1 by (subst (1 2) print_nat.simps) auto
qed

lemma print_nat_value: "digits_value (print_nat n) = n"
proof (induction n rule: print_nat.induct)
  case (1 n)
  show ?case
  proof (cases "n < 10")
    case True
    then show ?thesis by (subst print_nat.simps) (simp add: digits_value_def unat_digit)
  next
    case False
    with 1 show ?thesis
      by (subst print_nat.simps) (simp add: digits_value_def unat_digit)
  qed
qed

definition ends_number :: "byte list \<Rightarrow> bool" where
  "ends_number s \<longleftrightarrow> s = [] \<or> \<not> is_digit (hd s)"

lemma digits_prefix:
  assumes "\<forall>b\<in>set ds. is_digit b" "ends_number s"
  shows "takeWhile is_digit (ds @ s) = ds" "dropWhile is_digit (ds @ s) = s"
proof -
  have "takeWhile is_digit s = []" "dropWhile is_digit s = s"
    using assms(2) by (cases s; simp add: ends_number_def)+
  with assms(1) show "takeWhile is_digit (ds @ s) = ds" "dropWhile is_digit (ds @ s) = s"
    by (simp_all add: takeWhile_append2 dropWhile_append2)
qed

lemma digit_first:
  assumes "is_digit b"
  shows "\<not> is_space b" "b \<noteq> 43" "b \<noteq> 45"
  using assms by (auto simp: is_digit_iff is_space_iff)

lemma skip_space_first: "s \<noteq> [] \<Longrightarrow> \<not> is_space (hd s) \<Longrightarrow> skip_space s = s"
  by (cases s) (simp_all add: skip_space_def)

lemma skip_space_CRLF [simp]: "skip_space (CRLF @ s) = skip_space s"
  by (simp add: skip_space_def CRLF_def is_space_def)

lemma ends_number_CRLF [simp]: "ends_number (CRLF @ s)"
  by (simp add: ends_number_def CRLF_def is_digit_def)

lemma scan_print_nat: "ends_number s \<Longrightarrow> scan_int (print_nat n @ s) = Some (int n, s)"
proof -
  assume s: "ends_number s"
  note d = print_nat_digits [of n]
  then obtain b ds where p: "print_nat n = b # ds" by (cases "print_nat n") auto
  with d have b: "is_digit b" by simp
  note f = digit_first [OF b]
  have "skip_space (print_nat n @ s) = print_nat n @ s"
    using f by (intro skip_space_first) (simp_all add: p)
  moreover have "hd (print_nat n @ s) = b" "print_nat n @ s \<noteq> []" by (simp_all add: p)
  ultimately show "scan_int (print_nat n @ s) = Some (int n, s)"
    using f d digits_prefix [OF _ s, of "print_nat n"]
    by (simp add: scan_int_def Let_def print_nat_value)
qed

lemma scan_print_int: "ends_number s \<Longrightarrow> scan_int (print_int x @ s) = Some (x, s)"
proof (cases "x < 0")
  case False
  then show "ends_number s \<Longrightarrow> ?thesis" by (simp add: print_int_def scan_print_nat)
next
  case True
  assume s: "ends_number s"
  have "skip_space (45 # print_nat (nat (- x)) @ s) = 45 # print_nat (nat (- x)) @ s"
    by (rule skip_space_first) (simp_all add: is_space_def)
  with True print_nat_digits [of "nat (- x)"] digits_prefix [OF _ s, of "print_nat (nat (- x))"]
  show ?thesis by (simp add: print_int_def scan_int_def Let_def print_nat_value)
qed

lemma scan_int_CRLF [simp]: "scan_int (CRLF @ s) = scan_int s"
  by (simp add: scan_int_def)

lemma scan_text_CRLF [simp]: "scan_text n (CRLF @ s) = scan_text n s"
  by (simp add: scan_text_def)

lemma scan_text_word:
  assumes "w \<noteq> []" "length w \<le> n" "\<forall>b\<in>set w. \<not> is_space b"
  shows "scan_text n (w @ CRLF @ s) = Some (w, CRLF @ s)"
proof -
  have "skip_space (w @ CRLF @ s) = w @ CRLF @ s"
    using assms by (intro skip_space_first) (cases w, auto)+
  moreover have "takeWhile (\<lambda>b. \<not> is_space b) (w @ CRLF @ s) = w"
    using assms(3) by (simp add: takeWhile_append2 CRLF_def is_space_def)
  moreover have "0 < n" using assms(1,2) by (cases w) auto
  ultimately show ?thesis using assms by (simp add: scan_text_def Let_def)
qed

lemma print_nat_nonzero: "0 \<notin> set (print_nat n)"
proof
  assume "0 \<in> set (print_nat n)"
  then have "is_digit 0" using print_nat_digits [of n] by blast
  then show False by (simp add: is_digit_def)
qed

lemma print_int_nonzero: "0 \<notin> set (print_int x)"
  by (simp add: print_int_def print_nat_nonzero)

lemma skip_space_description:
  assumes "desc \<noteq> [] \<longrightarrow> \<not> is_space (hd desc)"
  shows "skip_space (desc @ CRLF) = (if desc = [] then [] else desc @ CRLF)"
proof (cases desc)
  case Nil
  then show ?thesis by (simp add: skip_space_def CRLF_def is_space_def)
next
  case (Cons b bs)
  then show ?thesis using assms skip_space_first [of "desc @ CRLF"] by simp
qed

section \<open>The subscriber learns what the publisher announced\<close>

text \<open>The values a publisher prints: each fits the type it is printed from.\<close>

definition hello_ok :: "hello \<Rightarrow> bool" where
  "hello_ok h \<longleftrightarrow> 0 \<le> h_data_ver h \<and> h_data_ver h < 2 ^ 16 \<and>
     h_mcast_address h \<noteq> [] \<and> length (h_mcast_address h) \<le> 31 \<and>
     (\<forall>b\<in>set (h_mcast_address h). b \<noteq> 0 \<and> \<not> is_space b) \<and>
     0 \<le> h_mcast_port h \<and> h_mcast_port h < 2 ^ 16 \<and> h_mcast_mtu h < 2 ^ 64 \<and>
     is_long (h_base_id h) \<and> is_long (h_max_id h) \<and> h_val_size h < 2 ^ 64 \<and>
     h_q_capacity h < 2 ^ 64 \<and> is_long (h_max_age_usec h) \<and> is_long (h_hb_usec h)"

lemma scan_attributes_print:
  assumes "hello_ok h" "desc \<noteq> [] \<longrightarrow> \<not> is_space (hd desc)"
  shows "scan_attributes (print_int (h_data_ver h) @ CRLF @ h_mcast_address h @ CRLF @
     print_int (h_mcast_port h) @ CRLF @ print_nat (h_mcast_mtu h) @ CRLF @
     print_int (h_base_id h) @ CRLF @ print_int (h_max_id h) @ CRLF @ print_nat (h_val_size h) @ CRLF @
     print_nat (h_q_capacity h) @ CRLF @ print_int (h_max_age_usec h) @ CRLF @
     print_int (h_hb_usec h) @ CRLF @ desc @ CRLF) =
    Some (h\<lparr>h_wire_ver := 0\<rparr>, if desc = [] then [] else desc @ CRLF)"
proof -
  have w: "scan_text 31 (h_mcast_address h @ CRLF @ s) = Some (h_mcast_address h, CRLF @ s)" for s
    using assms(1) by (intro scan_text_word) (auto simp: hello_ok_def)
  have u: "uint (word_of_int (h_data_ver h) :: u32) = h_data_ver h"
    "sint (word_of_int (h_mcast_port h) :: u32) = h_mcast_port h"
    "unat (word_of_nat (h_mcast_mtu h) :: u64) = h_mcast_mtu h"
    "unat (word_of_nat (h_val_size h) :: u64) = h_val_size h"
    "unat (word_of_nat (h_q_capacity h) :: u64) = h_q_capacity h"
    using assms(1) by (simp_all add: hello_ok_def unsigned_of_int take_bit_int_eq_self
        signed_of_int signed_take_bit_int_eq_self take_bit_nat_eq_self unat_of_nat)
  have l: "wrap_long (h_base_id h) = h_base_id h" "wrap_long (h_max_id h) = h_max_id h"
    "wrap_long (h_max_age_usec h) = h_max_age_usec h" "wrap_long (h_hb_usec h) = h_hb_usec h"
    using assms(1) by (simp_all add: hello_ok_def)
  have h: "h\<lparr>h_wire_ver := 0\<rparr> = \<lparr>h_wire_ver = 0, h_data_ver = h_data_ver h,
      h_mcast_address = h_mcast_address h, h_mcast_port = h_mcast_port h, h_mcast_mtu = h_mcast_mtu h,
      h_base_id = h_base_id h, h_max_id = h_max_id h, h_val_size = h_val_size h,
      h_q_capacity = h_q_capacity h, h_max_age_usec = h_max_age_usec h, h_hb_usec = h_hb_usec h\<rparr>"
    by (cases h) simp
  show ?thesis
    unfolding scan_attributes_def h
    by (simp add: scan_print_int scan_print_nat w u l skip_space_description [OF assms(2)])
qed


definition sample_hello :: hello where
  "sample_hello = \<lparr>h_wire_ver = 512, h_data_ver = 7, h_mcast_address = [50, 51, 57, 46, 49],
     h_mcast_port = 11227, h_mcast_mtu = 1472, h_base_id = -5, h_max_id = 1000, h_val_size = 16,
     h_q_capacity = 64, h_max_age_usec = 100, h_hb_usec = 1000000\<rparr>"


end
