(* ===== verification/Receiver.thy ===== *)
theory Receiver
  imports Wire Hello
begin

text \<open>
  The subscriber's side of the protocol, \<open>receiver.c\<close>: it copies the records of the multicast packets
  into its own storage, asks the publisher over TCP for the sequence ranges it has missed, and
  keeps for each record the sequence number it was last updated with.

  The segment of the storage is passed along as a memory.  The outcome of every system call is
  an argument; so is what the uninitialised part of the packet buffer holds, and what lies in
  memory around the array of sequence numbers, because the code reads both on some inputs.
\<close>

section \<open>State\<close>

record receiver_stats =
  r_tcp_gap_count :: int
  r_tcp_bytes_recv :: int
  r_mcast_bytes_recv :: int

text \<open>\<open>r_tcp_ip\<close> is the address of \<open>tcp_addr\<close>, the only part of it that is looked at.\<close>

record receiver =
  r_store :: storage
  r_mcast_sock :: sock
  r_tcp_sock :: sock
  r_tcp_ip :: nat
  r_record_seqs :: "sequence list"
  r_next_seq :: sequence
  r_mcast_mtu :: nat
  r_base_id :: ident
  r_val_size :: nat
  r_in_buf :: mem
  r_in_next :: nat
  r_in_remain :: nat
  r_out_buf :: mem
  r_out_next :: nat
  r_out_remain :: nat
  r_mcast_recv_time :: microsec
  r_tcp_recv_time :: microsec
  r_touched_time :: microsec
  r_touch_period_usec :: microsec
  r_timeout_usec :: microsec
  r_mcast_latency :: latency
  r_curr_stats :: receiver_stats
  r_next_stats :: receiver_stats
  r_stats_lock :: u64
  r_is_stopping :: bool

definition zero_receiver_stats :: receiver_stats where
  "zero_receiver_stats = \<lparr>r_tcp_gap_count = 0, r_tcp_bytes_recv = 0, r_mcast_bytes_recv = 0\<rparr>"

definition r_with_stats ::
  "(nat \<Rightarrow> status) \<Rightarrow> (receiver_stats \<Rightarrow> receiver_stats) \<Rightarrow> receiver \<Rightarrow> receiver result" where
  "r_with_stats slp f recv =
     (case spin_write_lock (\<lambda>_. r_stats_lock recv) slp of
        Inl err \<Rightarrow> Inl err
      | Inr _ \<Rightarrow> Inr (recv\<lparr>r_next_stats := f (r_next_stats recv), r_stats_lock := 0\<rparr>))"

section \<open>Updating the storage\<close>

definition update_stats :: "(nat \<Rightarrow> status) \<Rightarrow> receiver \<Rightarrow> nat \<Rightarrow> microsec \<Rightarrow> status \<times> receiver" where
  "update_stats slp recv pkt_sz delay =
     (case r_with_stats slp (\<lambda>s. s\<lparr>r_mcast_bytes_recv := r_mcast_bytes_recv s + int pkt_sz\<rparr>) recv of
        Inl err \<Rightarrow> (err, recv)
      | Inr recv \<Rightarrow>
          (case latency_on_sample slp (r_mcast_latency recv) (of_int delay) of
             (st, lat) \<Rightarrow> (st, recv\<lparr>r_mcast_latency := lat\<rparr>)))"

definition update_record ::
  "(nat \<Rightarrow> status) \<Rightarrow> receiver \<Rightarrow> mem \<Rightarrow> sequence \<Rightarrow> ident \<Rightarrow> byte list \<Rightarrow> microsec \<Rightarrow>
     status \<times> receiver \<times> mem" where
  "update_record slp recv m seq i new_val now =
     (case storage_get_record (r_store recv) m i True of
        Inl err \<Rightarrow> (err, recv, m)
      | Inr r \<Rightarrow>
          (case record_write_lock slp m r of
             Inl err \<Rightarrow> (err, recv, m)
           | Inr (rv, m) \<Rightarrow>
               let m = commit_record m r rv new_val now;
                   recv = recv\<lparr>r_record_seqs := (r_record_seqs recv)[nat (i - r_base_id recv) := seq]\<rparr>
               in if storage_get_queue_capacity m > 0 then
                    (case storage_write_queue (r_store recv) m i of (st, m) \<Rightarrow> (st, recv, m))
                  else (OK, recv, m)))"

definition request_gap ::
  "(nat \<Rightarrow> status) \<Rightarrow> poller \<Rightarrow> receiver \<Rightarrow> sequence \<Rightarrow> sequence \<Rightarrow> status \<times> poller \<times> receiver" where
  "request_gap slp pol recv lo hi =
     (let buf = put_net (put_net (r_out_buf recv) 0 lo) 8 hi;
          recv = recv\<lparr>r_out_buf := buf, r_out_next := 0, r_out_remain := 16\<rparr>
      in case poller_set_event pol (r_tcp_sock recv) (POLLIN OR POLLOUT) of
           (st, pol) \<Rightarrow>
             if FAILED st then (st, pol, recv)
             else case r_with_stats slp (\<lambda>s. s\<lparr>r_tcp_gap_count := r_tcp_gap_count s + 1\<rparr>) recv of
               Inl err \<Rightarrow> (err, pol, recv)
             | Inr recv \<Rightarrow> (OK, pol, recv))"

section \<open>Multicast\<close>

record read_env =
  re_raised :: raised
  re_slp :: "nat \<Rightarrow> status"
  re_clock :: "microsec result"
  re_dgram :: "int + byte list"
  re_src_ip :: nat
  re_stack :: mem

text \<open>The loop over the records of a packet: \<open>for (; p < last; p += 8 + val_size)\<close>.\<close>

function update_records ::
  "(nat \<Rightarrow> status) \<Rightarrow> mem \<Rightarrow> sequence \<Rightarrow> microsec \<Rightarrow> nat \<Rightarrow> nat \<Rightarrow> status \<Rightarrow> receiver \<Rightarrow> mem \<Rightarrow>
     status \<times> receiver \<times> mem" where
  "update_records slp buf seq now p lst st recv m =
     (if p < lst then
        (case update_record slp recv m seq (get_net buf p) (mread buf (p + 8) (r_val_size recv)) now of
           (st, recv', m) \<Rightarrow>
             if FAILED st then (st, recv', m)
             else update_records slp buf seq now (p + 8 + r_val_size recv) lst st recv' m)
      else (st, recv, m))"
  by pat_completeness auto
termination
  by (relation "measure (\<lambda>(slp, buf, seq, now, p, lst, st, recv, m). lst - p)") auto

declare update_records.simps [simp del]

definition mcast_on_read ::
  "read_env \<Rightarrow> poller \<Rightarrow> receiver \<Rightarrow> mem \<Rightarrow> status \<times> poller \<times> receiver \<times> mem" where
  "mcast_on_read e pol recv m =
     (let slp = re_slp e
      in case sock_recvfrom (re_raised e) (re_dgram e) True (r_mcast_mtu recv) of
        Inl err \<Rightarrow> (err, pol, recv, m)
      | Inr data \<Rightarrow>
        (case re_clock e of
           Inl err \<Rightarrow> (err, pol, recv, m)
         | Inr now \<Rightarrow>
           let buf = mwrite (re_stack e) 0 data; st2 = length data
           in if st2 < 16 then (PROTOCOL_ERROR, pol, recv, m)
              else if re_src_ip e \<noteq> r_tcp_ip recv then (UNEXPECTED_SOURCE, pol, recv, m)
              else
                (case update_stats slp (recv\<lparr>r_mcast_recv_time := now\<rparr>) st2 (now - get_net buf 8) of
                   (st, recv) \<Rightarrow>
                     if FAILED st then (st, pol, recv, m)
                     else
                       let in_seq = get_net buf 0;
                           is_hb = in_seq < 0
                       in if \<not> is_hb \<and> in_seq < r_next_seq recv then (OK, pol, recv, m)
                          else
                            (case (if is_hb then (OK, recv, m)
                                   else update_records slp buf in_seq now 16 st2 OK recv m) of
                               (st, recv, m) \<Rightarrow>
                                 if FAILED st then (st, pol, recv, m)
                                 else
                                   let in_seq = (if is_hb then - in_seq else in_seq)
                                   in case (if in_seq > r_next_seq recv
                                            then request_gap slp pol recv (r_next_seq recv) in_seq
                                            else (OK, pol, recv)) of
                                        (st, pol, recv) \<Rightarrow>
                                          if FAILED st then (st, pol, recv, m)
                                          else
                                            let recv = (if in_seq > r_next_seq recv
                                                        then recv\<lparr>r_next_seq := in_seq\<rparr> else recv);
                                                recv = (if \<not> is_hb
                                                        then recv\<lparr>r_next_seq := r_next_seq recv + 1\<rparr> else recv)
                                            in (OK, pol, recv, m)))))"

section \<open>TCP\<close>

definition rcv_tcp_read_buf ::
  "raised \<Rightarrow> (nat \<Rightarrow> status) \<Rightarrow> microsec result \<Rightarrow> io list \<Rightarrow> byte list \<Rightarrow> receiver \<Rightarrow>
     status \<times> receiver \<times> byte list" where
  "rcv_tcp_read_buf sg slp clk xs avail recv =
     (case read_loop sg xs OK (r_in_buf recv) (r_in_next recv) (r_in_remain recv) avail of
        (st, buf, next, remain, avail) \<Rightarrow>
          let recv_sz = next - r_in_next recv;
              recv = recv\<lparr>r_in_buf := buf, r_in_next := next, r_in_remain := remain\<rparr>
          in if recv_sz > 0 then
               (case clk of
                  Inl err \<Rightarrow> (err, recv, avail)
                | Inr now \<Rightarrow>
                    let recv = recv\<lparr>r_tcp_recv_time := now\<rparr>
                    in case r_with_stats slp (\<lambda>s. s\<lparr>r_tcp_bytes_recv := r_tcp_bytes_recv s + int recv_sz\<rparr>) recv of
                         Inl err \<Rightarrow> (err, recv, avail)
                       | Inr recv \<Rightarrow> (st, recv, avail))
             else (st, recv, avail))"

definition rcv_tcp_write_buf :: "raised \<Rightarrow> io list \<Rightarrow> receiver \<Rightarrow> status \<times> receiver \<times> byte list" where
  "rcv_tcp_write_buf sg xs recv =
     (case write_loop sg (r_out_buf recv) xs OK (r_out_next recv) (r_out_remain recv) [] of
        (st, next, remain, sent) \<Rightarrow> (st, recv\<lparr>r_out_next := next, r_out_remain := remain\<rparr>, sent))"

definition rcv_tcp_on_write ::
  "raised \<Rightarrow> io list \<Rightarrow> poller \<Rightarrow> receiver \<Rightarrow> status \<times> poller \<times> receiver \<times> byte list" where
  "rcv_tcp_on_write sg xs pol recv =
     (case rcv_tcp_write_buf sg xs recv of
        (st, recv, sent) \<Rightarrow>
          let st = (if st = BLOCKED then OK else st)
          in if r_out_remain recv = 0 then
               (case poller_set_event pol (r_tcp_sock recv) POLLIN of (st, pol) \<Rightarrow> (st, pol, recv, sent))
             else (st, pol, recv, sent))"

text \<open>
  \<open>te_stray\<close> is what is found in place of an element of \<open>record_seqs\<close> when the index lies outside
  the array.
\<close>

record tcp_env =
  te_raised :: raised
  te_slp :: "nat \<Rightarrow> status"
  te_clock :: "microsec result"
  te_reads :: "io list"
  te_clock2 :: "microsec result"
  te_stray :: "int \<Rightarrow> sequence"

definition seq_at :: "tcp_env \<Rightarrow> receiver \<Rightarrow> int \<Rightarrow> sequence" where
  "seq_at e recv idx =
     (if 0 \<le> idx \<and> idx < int (length (r_record_seqs recv)) then r_record_seqs recv ! nat idx
      else te_stray e idx)"

definition rcv_tcp_on_read ::
  "tcp_env \<Rightarrow> byte list \<Rightarrow> receiver \<Rightarrow> mem \<Rightarrow> status \<times> receiver \<times> mem \<times> byte list" where
  "rcv_tcp_on_read e avail recv m =
     (case rcv_tcp_read_buf (te_raised e) (te_slp e) (te_clock e) (te_reads e) avail recv of
        (st, recv, avail) \<Rightarrow>
          if st \<noteq> BLOCKED \<and> FAILED st then (st, recv, m, avail)
          else
            let st = (if st = BLOCKED then OK else st)
            in if r_in_remain recv = 0 then
                 (if r_in_next recv = 8 then
                    let seq = get_net (r_in_buf recv) 0;
                        recv = recv\<lparr>r_in_buf := store64 (r_in_buf recv) 0 (word_of_int seq)\<rparr>
                    in if seq = WILL_QUIT_SEQ then (st, recv\<lparr>r_is_stopping := True\<rparr>, m, avail)
                       else if seq = HEARTBEAT_SEQ
                         then (st, recv\<lparr>r_in_next := 0, r_in_remain := 8\<rparr>, m, avail)
                       else (OK, recv\<lparr>r_in_remain := 8 + r_val_size recv\<rparr>, m, avail)
                  else
                    let seq = sint (load64 (r_in_buf recv) 0);
                        i = get_net (r_in_buf recv) 8;
                        recv = recv\<lparr>r_in_buf := store64 (r_in_buf recv) 8 (word_of_int i)\<rparr>
                    in case (if seq > seq_at e recv (i - r_base_id recv) then
                               (case te_clock2 e of
                                  Inl err \<Rightarrow> (err, recv, m)
                                | Inr now \<Rightarrow> update_record (te_slp e) recv m seq i
                                    (mread (r_in_buf recv) 16 (r_val_size recv)) now)
                             else (st, recv, m)) of
                         (st, recv, m) \<Rightarrow>
                           if FAILED st then (st, recv, m, avail)
                           else (st, recv\<lparr>r_in_next := 0, r_in_remain := 8\<rparr>, m, avail))
               else (st, recv, m, avail))"
section \<open>The event loop\<close>

text \<open>
  The world of a receiver: its state, the segment of its storage, the bytes that have arrived
  on the connection and are not read, and the bytes it has sent.
\<close>

record rcv_world =
  rw_recv :: receiver
  rw_mem :: mem
  rw_avail :: "byte list"
  rw_sent :: "byte list"

record rcv_env =
  rv_mcast :: read_env
  rv_tcp :: tcp_env
  rv_writes :: "io list"

text \<open>
  \<open>(*revents & POLLIN) & FAILED(st = tcp_on_read(recv))\<close> is a bitwise conjunction: \<open>tcp_on_read\<close> is
  called whether or not there is anything to read.
\<close>

definition rcv_event_func ::
  "rcv_env \<Rightarrow> poller \<Rightarrow> sock \<Rightarrow> int \<Rightarrow> rcv_world \<Rightarrow> status \<times> poller \<times> rcv_world" where
  "rcv_event_func v pol sk revents w =
     (if sk = r_mcast_sock (rw_recv w) then
        (case mcast_on_read (rv_mcast v) pol (rw_recv w) (rw_mem w) of
           (st, pol, recv, m) \<Rightarrow> (st, pol, w\<lparr>rw_recv := recv, rw_mem := m\<rparr>))
      else
        (case rcv_tcp_on_read (rv_tcp v) (rw_avail w) (rw_recv w) (rw_mem w) of
           (st, recv, m, avail) \<Rightarrow>
             let w = w\<lparr>rw_recv := recv, rw_mem := m, rw_avail := avail\<rparr>
             in if revents AND POLLIN \<noteq> 0 \<and> FAILED st then (st, pol, w)
                else if revents AND POLLOUT \<noteq> 0 then
                  (case rcv_tcp_on_write (te_raised (rv_tcp v)) (rv_writes v) pol (rw_recv w) of
                     (st, pol, recv, sent) \<Rightarrow>
                       (st, pol, w\<lparr>rw_recv := recv, rw_sent := rw_sent w @ sent\<rparr>))
                else (st, pol, w)))"

record rcv_round =
  rr_stop :: bool
  rr_raised :: raised
  rr_slp :: "nat \<Rightarrow> status"
  rr_poll :: "int \<times> int \<times> int list"
  rr_env :: rcv_env
  rr_clock :: "microsec result"

definition INITIAL_MC_HB_USEC :: microsec where "INITIAL_MC_HB_USEC = 10 * 1000000"

text \<open>One round of the loop of \<open>receiver_run\<close>; the flag says that the loop is left.\<close>

definition receiver_round ::
  "rcv_round \<Rightarrow> poller \<Rightarrow> rcv_world \<Rightarrow> bool \<times> status \<times> poller \<times> rcv_world" where
  "receiver_round d pol w =
     (case rr_poll d of
        (poll_ret, errno, revents) \<Rightarrow>
      (case poller_events (rr_raised d) errno poll_ret revents pol of
         (st, pol) \<Rightarrow>
           if FAILED st then (True, st, pol, w)
           else
             (case (if st > 0 then poller_process_events pol (Some (rcv_event_func (rr_env d))) w
                    else (st, pol, w)) of
                (st, pol, w) \<Rightarrow>
                  if FAILED st then (True, st, pol, w)
                  else case rr_clock d of
                    Inl err \<Rightarrow> (True, err, pol, w)
                  | Inr now \<Rightarrow>
                      let recv = rw_recv w;
                          touch = (r_touch_period_usec recv > 0 \<and>
                                   now - r_touched_time recv \<ge> r_touch_period_usec recv);
                          recv = (if touch then recv\<lparr>r_touched_time := now\<rparr> else recv)
                      in case (if touch then storage_touch (rr_slp d) (r_store recv) (rw_mem w) now
                               else (OK, rw_mem w)) of
                           (st, m) \<Rightarrow>
                             let w = w\<lparr>rw_recv := recv, rw_mem := m\<rparr>
                             in if FAILED st then (True, st, pol, w)
                                else
                                  let mc_hb_usec =
                                        (if r_next_seq recv = 0 \<and> r_timeout_usec recv < INITIAL_MC_HB_USEC
                                         then INITIAL_MC_HB_USEC else r_timeout_usec recv)
                                  in if now - r_mcast_recv_time recv \<ge> mc_hb_usec
                                       then (True, NO_HEARTBEAT, pol, w)
                                     else if now - r_tcp_recv_time recv \<ge> r_timeout_usec recv
                                       then (True, NO_HEARTBEAT, pol, w)
                                     else (False, OK, pol, w))))"

text \<open>The loop, one list entry per round; \<open>None\<close> when it is still running at the end of the list.\<close>

fun receiver_run ::
  "rcv_round list \<Rightarrow> status \<Rightarrow> poller \<Rightarrow> rcv_world \<Rightarrow> (status \<times> poller \<times> rcv_world) option" where
  "receiver_run [] st pol w = None"
| "receiver_run (d # ds) st pol w =
     (if r_is_stopping (rw_recv w) \<or> rr_stop d then Some (st, pol, w)
      else case receiver_round d pol w of
        (done, st, pol, w) \<Rightarrow> if done then Some (st, pol, w) else receiver_run ds st pol w)"

definition receiver_stop :: "receiver \<Rightarrow> receiver" where
  "receiver_stop recv = recv\<lparr>r_is_stopping := True\<rparr>"

section \<open>Statistics\<close>

definition receiver_get_tcp_gap_count :: "receiver \<Rightarrow> int" where
  "receiver_get_tcp_gap_count recv = r_tcp_gap_count (r_curr_stats recv)"

definition receiver_get_tcp_bytes_recv :: "receiver \<Rightarrow> int" where
  "receiver_get_tcp_bytes_recv recv = r_tcp_bytes_recv (r_curr_stats recv)"

definition receiver_get_mcast_bytes_recv :: "receiver \<Rightarrow> int" where
  "receiver_get_mcast_bytes_recv recv = r_mcast_bytes_recv (r_curr_stats recv)"

definition receiver_get_mcast_packets_recv :: "receiver \<Rightarrow> int" where
  "receiver_get_mcast_packets_recv recv = latency_get_count (r_mcast_latency recv)"

definition receiver_get_mcast_min_latency :: "receiver \<Rightarrow> real" where
  "receiver_get_mcast_min_latency recv = latency_get_min (r_mcast_latency recv)"

definition receiver_get_mcast_max_latency :: "receiver \<Rightarrow> real" where
  "receiver_get_mcast_max_latency recv = latency_get_max (r_mcast_latency recv)"

definition receiver_get_mcast_mean_latency :: "receiver \<Rightarrow> real" where
  "receiver_get_mcast_mean_latency recv = latency_get_mean (r_mcast_latency recv)"

definition receiver_get_mcast_stddev_latency :: "receiver \<Rightarrow> real" where
  "receiver_get_mcast_stddev_latency recv = latency_get_stddev (r_mcast_latency recv)"

definition receiver_get_storage :: "receiver \<Rightarrow> storage" where
  "receiver_get_storage recv = r_store recv"

definition receiver_roll_stats :: "(nat \<Rightarrow> status) \<Rightarrow> receiver \<Rightarrow> status \<times> receiver" where
  "receiver_roll_stats slp recv =
     (case spin_write_lock (\<lambda>_. r_stats_lock recv) slp of
        Inl err \<Rightarrow> (err, recv)
      | Inr _ \<Rightarrow>
          let recv = recv\<lparr>r_curr_stats := r_next_stats recv, r_next_stats := zero_receiver_stats,
                          r_stats_lock := 0\<rparr>
          in case latency_roll slp (r_mcast_latency recv) of
               (st, lat) \<Rightarrow> (st, recv\<lparr>r_mcast_latency := lat\<rparr>))"

section \<open>Creation\<close>

definition SENDER_QUEUE_CAPACITY :: u64 where "SENDER_QUEUE_CAPACITY = - 1"

text \<open>
  What the calls made while creating a receiver return.  \<open>ri_connect\<close> are the statuses of the socket
  calls before the publisher's text is read, \<open>ri_setup\<close> those between the creation of the storage
  and that of the poller.
\<close>

record receiver_init_env =
  ri_malloc :: "nat \<Rightarrow> bool"
  ri_connect :: "status list"
  ri_tcp_ip :: nat
  ri_raised :: raised
  ri_read :: io
  ri_text :: "byte list"
  ri_remove_handler :: status
  ri_create :: create_env
  ri_destroy :: destroy_env
  ri_setup :: "status list"
  ri_desc :: "sock \<Rightarrow> int"
  ri_clock :: "microsec result"
  ri_addr_destroy :: status
  ri_mcast_sock :: sock
  ri_tcp_sock :: sock

definition init_receiver ::
  "receiver_init_env \<Rightarrow> storage \<Rightarrow> latency \<Rightarrow> hello \<Rightarrow> microsec \<Rightarrow> u32 \<Rightarrow> microsec \<Rightarrow> receiver" where
  "init_receiver e st lat h touch_period max_missed_hb now =
     \<lparr>r_store = st, r_mcast_sock = ri_mcast_sock e, r_tcp_sock = ri_tcp_sock e, r_tcp_ip = ri_tcp_ip e,
      r_record_seqs = replicate (nat (h_max_id h - h_base_id h)) (- 1), r_next_seq = 0,
      r_mcast_mtu = h_mcast_mtu h, r_base_id = h_base_id h, r_val_size = h_val_size h,
      r_in_buf = (\<lambda>_. 0), r_in_next = 0, r_in_remain = 8, r_out_buf = (\<lambda>_. 0), r_out_next = 0,
      r_out_remain = 0, r_mcast_recv_time = now, r_tcp_recv_time = now, r_touched_time = 0,
      r_touch_period_usec = touch_period,
      r_timeout_usec = wrap_long (h_hb_usec h * uint (max_missed_hb + 1) + 100000),
      r_mcast_latency = lat, r_curr_stats = zero_receiver_stats, r_next_stats = zero_receiver_stats,
      r_stats_lock = spin_create, r_is_stopping = False\<rparr>"

text \<open>
  From the creation of the storage on: the storage has the publisher's layout, the given property
  size and queue capacity, and the publisher's description and data version.
\<close>

definition rcv_setup ::
  "receiver_init_env \<Rightarrow> latency \<Rightarrow> hello \<Rightarrow> byte list \<Rightarrow> string \<Rightarrow> u64 \<Rightarrow> u64 \<Rightarrow> microsec \<Rightarrow> u32 \<Rightarrow>
     (receiver \<times> mem \<times> poller) result" where
  "rcv_setup e lat h desc mmap_file property_size q_capacity touch_period max_missed_hb =
     (case storage_create (ri_create e) (ri_destroy e) (ri_malloc e 8) True (Some mmap_file)
             (O_RDWR OR O_CREAT) True (h_base_id h) (h_max_id h) (of_nat (h_val_size h)) property_size
             q_capacity (Some desc) of
        (res, None, m) \<Rightarrow> Inl res
      | (res, Some st, m) \<Rightarrow>
          if FAILED res then Inl res
          else (case storage_set_data_version st m (word_of_int (h_data_ver h)) of
            (res, m) \<Rightarrow>
              if FAILED res then Inl res
              else if FAILED (first_failed (ri_setup e)) then Inl (first_failed (ri_setup e))
              else case poller_create True (ri_malloc e 9) (ri_malloc e 10) (ri_malloc e 11) 2 of
                Inl err \<Rightarrow> Inl err
              | Inr pol \<Rightarrow>
                  (case poller_add (ri_desc e) True True no_pollfd pol (ri_mcast_sock e) POLLIN of
                     (res, pol) \<Rightarrow>
                       if FAILED res then Inl res
                       else (case poller_add (ri_desc e) True True no_pollfd pol (ri_tcp_sock e) POLLIN of
                         (res, pol) \<Rightarrow>
                           if FAILED res then Inl res
                           else case ri_clock e of
                             Inl err \<Rightarrow> Inl err
                           | Inr now \<Rightarrow>
                               if FAILED (ri_addr_destroy e) then Inl (ri_addr_destroy e)
                               else Inr (init_receiver e st lat h touch_period max_missed_hb now, m, pol)))))"

definition rcv_init ::
  "receiver_init_env \<Rightarrow> string \<Rightarrow> u64 \<Rightarrow> u64 \<Rightarrow> microsec \<Rightarrow> u32 \<Rightarrow> (receiver \<times> mem \<times> poller) result" where
  "rcv_init e mmap_file property_size q_capacity touch_period max_missed_hb =
     (if \<not> ri_malloc e 0 \<or> \<not> ri_malloc e 1 then Inl NO_MEMORY
      else case latency_create True (ri_malloc e 2) (ri_malloc e 3) (ri_malloc e 4) of
        Inl err \<Rightarrow> Inl err
      | Inr lat \<Rightarrow>
          if FAILED (first_failed (ri_connect e)) then Inl (first_failed (ri_connect e))
          else
            let rd = sock_read (ri_raised e) (ri_read e) (ri_text e) 511;
                st = (case rd of Inl err \<Rightarrow> err | Inr buf \<Rightarrow> int (length buf));
                st = (if FAILED (ri_remove_handler e) \<and> \<not> FAILED st then ri_remove_handler e else st)
            in if FAILED st then Inl (if st = SIG_ERROR_BASE - SIGALRM then PROTOCOL_TIMEOUT else st)
               else case parse_hello (case rd of Inl _ \<Rightarrow> [] | Inr buf \<Rightarrow> buf) of
                 Inl err \<Rightarrow> Inl err
               | Inr (h, desc) \<Rightarrow>
                   if \<not> ri_malloc e 5 \<or> \<not> ri_malloc e 6 \<or> \<not> ri_malloc e 7 then Inl NO_MEMORY
                   else rcv_setup e lat h desc mmap_file property_size
                          (if q_capacity = SENDER_QUEUE_CAPACITY then of_nat (h_q_capacity h) else q_capacity)
                          touch_period max_missed_hb)"

text \<open>A receiver that cannot be completed is destroyed, so that only the status is left.\<close>

definition receiver_create ::
  "receiver_init_env \<Rightarrow> bool \<Rightarrow> bool \<Rightarrow> string option \<Rightarrow> u64 \<Rightarrow> u64 \<Rightarrow> microsec \<Rightarrow> u32 \<Rightarrow> bool \<Rightarrow>
     (receiver \<times> mem \<times> poller) result" where
  "receiver_create e malloc_ok precv_ok mmap_file property_size q_capacity touch_period max_missed_hb
     tcp_address_ok =
     (case mmap_file of
        None \<Rightarrow> Inl error_invalid_arg
      | Some file \<Rightarrow>
          if \<not> precv_ok \<or> touch_period < 0 \<or> \<not> tcp_address_ok then Inl error_invalid_arg
          else if \<not> malloc_ok then Inl NO_MEMORY
          else rcv_init e file property_size q_capacity touch_period max_missed_hb)"
text \<open>
  Destruction: \<open>closings\<close> are the statuses of the poller, the two sockets and the two addresses,
  \<open>latency_freed\<close> that of the latency; the handle is gone only when every step has succeeded.
\<close>

definition receiver_destroy ::
  "status list \<Rightarrow> destroy_env \<Rightarrow> status \<Rightarrow> receiver option \<Rightarrow> status \<times> receiver option" where
  "receiver_destroy closings e latency_freed h =
     (case h of
        None \<Rightarrow> (OK, None)
      | Some recv \<Rightarrow>
          let st = first_failed (closings @ [fst (storage_destroy e (Some (r_store recv))), latency_freed])
          in if FAILED st then (st, Some recv) else (OK, None))"

end
