(* ===== verification/Sender.thy ===== *)
theory Sender
  imports Wire Hello
begin

text \<open>
  The publisher's side of the protocol, \<open>sender.c\<close>: it follows the change queue of a storage,
  multicasts changed records in numbered packets, and answers requests for missed sequence
  ranges over TCP from the current contents of the storage.

  The storage is written by other processes while the sender reads it.  A handler gets the
  memory it finds as an argument; where it copies a record and checks the revision again it
  gets the list of memories it looks at, one entry for each round of the loop.  The handlers
  return what they hand to the kernel.  The outcome of every system call is an argument.
\<close>

section \<open>State\<close>

record sender_stats =
  tcp_gap_count :: int
  tcp_bytes_sent :: int
  mcast_bytes_sent :: int
  mcast_packets_sent :: int

record tcp_client =
  pkt_size :: nat
  in_buf :: mem
  in_next :: nat
  in_remain :: nat
  out_buf :: mem
  out_next :: nat
  out_remain :: nat
  tcp_send_time :: microsec
  union_range :: sequence_range
  reply_range :: sequence_range
  reply_id :: ident
  min_seq_found :: sequence

text \<open>
  \<open>clients\<close> is the property the sockets carry (\<open>sock_set_property_ref\<close>).  The poller is passed
  along separately, as its callbacks get it.
\<close>

record sender =
  listen_sock :: sock
  mcast_sock :: sock
  snd_store :: storage
  base_id :: ident
  max_id :: ident
  val_size :: nat
  client_count :: u64
  record_revs :: "u64 list"
  record_seqs :: "sequence list"
  next_seq :: sequence
  min_seq :: sequence
  ignore_recreate :: bool
  ignore_overrun :: bool
  store_created_time :: microsec
  mcast_insert_time :: microsec
  mcast_send_time :: microsec
  last_active_time :: microsec
  heartbeat_usec :: microsec
  orphan_timeout_usec :: microsec
  max_pkt_age_usec :: microsec
  mcast_mtu :: nat
  pkt_buf :: mem
  pkt_next :: nat
  last_q_idx :: u64
  stg_latency :: latency
  curr_stats :: sender_stats
  next_stats :: sender_stats
  stats_lock :: u64
  is_stopping :: bool
  hello_str :: "byte list"
  clients :: "sock \<Rightarrow> tcp_client option"

definition zero_sender_stats :: sender_stats where
  "zero_sender_stats =
     \<lparr>tcp_gap_count = 0, tcp_bytes_sent = 0, mcast_bytes_sent = 0, mcast_packets_sent = 0\<rparr>"

text \<open>The statistics are changed under their lock, which is left free.\<close>

definition with_stats ::
  "(nat \<Rightarrow> status) \<Rightarrow> (sender_stats \<Rightarrow> sender_stats) \<Rightarrow> sender \<Rightarrow> sender result" where
  "with_stats slp f sndr =
     (case spin_write_lock (\<lambda>_. stats_lock sndr) slp of
        Inl err \<Rightarrow> Inl err
      | Inr _ \<Rightarrow> Inr (sndr\<lparr>next_stats := f (next_stats sndr), stats_lock := 0\<rparr>))"

section \<open>Multicast\<close>

text \<open>What the calls made while sending one packet return.\<close>

record send_env =
  se_raised :: raised
  se_slp :: "nat \<Rightarrow> status"
  se_clock :: "microsec result"
  se_sendto :: io

definition mcast_send_pkt :: "send_env \<Rightarrow> sender \<Rightarrow> status \<times> sender \<times> byte list list" where
  "mcast_send_pkt e sndr =
     (case se_clock e of
        Inl err \<Rightarrow> (err, sndr, [])
      | Inr now \<Rightarrow>
          let sndr = sndr\<lparr>pkt_buf := put_net (pkt_buf sndr) 8 now\<rparr>
          in case sock_sendto (se_raised e) (se_sendto e) True (pkt_next sndr) of
               Inl err \<Rightarrow> (err, sndr, [])
             | Inr st2 \<Rightarrow>
                 let dgram = mread (pkt_buf sndr) 0 (pkt_next sndr);
                     sndr = sndr\<lparr>last_active_time := now, mcast_send_time := now\<rparr>;
                     seq = get_net (pkt_buf sndr) 0;
                     sndr = (if seq \<ge> 0 then sndr\<lparr>next_seq := next_seq sndr + 1\<rparr> else sndr)
                 in if seq \<ge> 0 \<and> next_seq sndr = SEQUENCE_MAX then (SEQUENCE_OVERFLOW, sndr, [dgram])
                    else
                      let sndr = sndr\<lparr>pkt_next := 0, mcast_insert_time := 0\<rparr>
                      in case with_stats (se_slp e) (\<lambda>s. s\<lparr>mcast_bytes_sent := mcast_bytes_sent s + int st2,
                                  mcast_packets_sent := mcast_packets_sent s + 1\<rparr>) sndr of
                           Inl err \<Rightarrow> (err, sndr, [dgram])
                         | Inr sndr \<Rightarrow> (OK, sndr, [dgram]))"

text \<open>
  The copying loop of \<open>mcast_accum_record\<close>.  Each look is the memory that is copied, the one whose
  revision is compared, and the one the lock is read again in; after the listed looks the
  record stays as it is in \<open>m\<close>.
\<close>

fun accum_copy ::
  "(nat \<Rightarrow> status) \<Rightarrow> mem \<Rightarrow> nat \<Rightarrow> nat \<Rightarrow> (mem \<times> mem \<times> mem) list \<Rightarrow> u64 \<Rightarrow>
     (byte list \<times> microsec \<times> u64) result" where
  "accum_copy slp m r sz [] rv =
     (if rv = record_get_revision m r
      then Inr (mread m (record_get_value_ref r) sz, record_get_timestamp m r, rv)
      else case record_read_lock slp m r of
        Inl err \<Rightarrow> Inl err
      | Inr rv \<Rightarrow> Inr (mread m (record_get_value_ref r) sz, record_get_timestamp m r, rv))"
| "accum_copy slp m r sz ((m1, m2, m3) # looks) rv =
     (if rv = record_get_revision m2 r
      then Inr (mread m1 (record_get_value_ref r) sz, record_get_timestamp m1 r, rv)
      else case record_read_lock slp m3 r of
        Inl err \<Rightarrow> Inl err
      | Inr rv \<Rightarrow> accum_copy slp m r sz looks rv)"

record accum_env =
  ac_mem :: mem
  ac_looks :: "(mem \<times> mem \<times> mem) list"
  ac_last :: mem
  ac_send :: send_env
  ac_clock :: "microsec result"

text \<open>The part of \<open>mcast_accum_record\<close> that follows once there is room in the packet.\<close>

definition accum_stage ::
  "accum_env \<Rightarrow> ident \<Rightarrow> nat \<Rightarrow> u64 \<Rightarrow> nat \<Rightarrow> sender \<Rightarrow> status \<times> sender" where
  "accum_stage e i r rv used_sz sndr =
     (let slp = se_slp (ac_send e);
          idx = nat (i - base_id sndr);
          sndr = (if used_sz = 0
                  then sndr\<lparr>pkt_buf := put_net (pkt_buf sndr) 0 (next_seq sndr),
                            pkt_next := pkt_next sndr + 16\<rparr>
                  else sndr);
          sndr = sndr\<lparr>pkt_buf := put_net (pkt_buf sndr) (pkt_next sndr) i, pkt_next := pkt_next sndr + 8\<rparr>
      in case accum_copy slp (ac_last e) r (val_size sndr) (ac_looks e) rv of
           Inl err \<Rightarrow> (err, sndr)
         | Inr (val, ts, rv) \<Rightarrow>
             let sndr = sndr\<lparr>pkt_buf := mwrite (pkt_buf sndr) (pkt_next sndr) val,
                             pkt_next := pkt_next sndr + val_size sndr,
                             record_revs := (record_revs sndr)[idx := rv],
                             record_seqs := (record_seqs sndr)[idx := next_seq sndr]\<rparr>
             in case ac_clock e of
                  Inl err \<Rightarrow> (err, sndr)
                | Inr now \<Rightarrow>
                    (case latency_on_sample slp (stg_latency sndr) (of_int (now - ts)) of
                       (st, lat) \<Rightarrow> (st, sndr\<lparr>mcast_insert_time := now, stg_latency := lat\<rparr>)))"

definition mcast_accum_record ::
  "accum_env \<Rightarrow> sender \<Rightarrow> ident \<Rightarrow> status \<times> sender \<times> byte list list" where
  "mcast_accum_record e sndr i =
     (case storage_get_record (snd_store sndr) (ac_mem e) i True of
        Inl err \<Rightarrow> (err, sndr, [])
      | Inr r \<Rightarrow>
        (case record_read_lock (se_slp (ac_send e)) (ac_mem e) r of
           Inl err \<Rightarrow> (err, sndr, [])
         | Inr rv \<Rightarrow>
           if rv = record_revs sndr ! nat (i - base_id sndr) then (OK, sndr, [])
           else
             let used_sz = pkt_next sndr;
                 avail_sz = mcast_mtu sndr - used_sz;
                 sent_pkt = avail_sz < 8 + val_size sndr
             in case (if sent_pkt then mcast_send_pkt (ac_send e) sndr else (OK, sndr, [])) of
                  (st, sndr, out) \<Rightarrow>
                    if FAILED st then (st, sndr, out)
                    else case accum_stage e i r rv (if sent_pkt then 0 else used_sz) sndr of
                      (st, sndr) \<Rightarrow>
                        (if FAILED st then st else if sent_pkt then TRUE_ST else FALSE_ST, sndr, out)))"

definition mcast_on_empty_queue ::
  "microsec result \<Rightarrow> send_env \<Rightarrow> sender \<Rightarrow> status \<times> sender \<times> byte list list" where
  "mcast_on_empty_queue clk e sndr =
     (case clk of
        Inl err \<Rightarrow> (err, sndr, [])
      | Inr now \<Rightarrow>
          if mcast_insert_time sndr \<noteq> 0 \<and> now - mcast_insert_time sndr \<ge> max_pkt_age_usec sndr
            then mcast_send_pkt e sndr
          else if now - mcast_send_time sndr \<ge> heartbeat_usec sndr
            then mcast_send_pkt e
              (if pkt_next sndr = 0
               then sndr\<lparr>pkt_buf := put_net (pkt_buf sndr) 0 (- next_seq sndr),
                         pkt_next := pkt_next sndr + 16\<rparr>
               else sndr)
          else (OK, sndr, []))"

text \<open>
  \<open>for (qi = last_q_idx; qi != new_q_idx; ++qi)\<close>: the number of entries left counts down.  The
  result holds the index the loop stopped at.
\<close>

fun accum_queue ::
  "(nat \<Rightarrow> accum_env) \<Rightarrow> nat \<Rightarrow> u64 \<Rightarrow> nat \<Rightarrow> status \<Rightarrow> sender \<Rightarrow> byte list list \<Rightarrow>
     status \<times> u64 \<times> sender \<times> byte list list" where
  "accum_queue es k qi 0 st sndr out = (st, qi, sndr, out)"
| "accum_queue es k qi (Suc n) st sndr out =
     (case storage_read_queue (ac_mem (es k)) qi True of
        Inl err \<Rightarrow> (err, qi, sndr, out)
      | Inr i \<Rightarrow>
          (case mcast_accum_record (es k) sndr i of
             (st, sndr, out') \<Rightarrow>
               if FAILED st \<or> st \<noteq> 0 then (st, qi, sndr, out @ out')
               else accum_queue es (k + 1) (qi + 1) n st sndr (out @ out')))"

definition mcast_on_write ::
  "mem \<Rightarrow> (nat \<Rightarrow> accum_env) \<Rightarrow> microsec result \<Rightarrow> send_env \<Rightarrow> sender \<Rightarrow> status \<times> sender \<times> byte list list" where
  "mcast_on_write m es clk e sndr =
     (let new_q_idx = storage_get_queue_head m;
          qi = new_q_idx - last_q_idx sndr;
          behind = sint qi < 0;
          sndr = (if behind then sndr\<lparr>last_q_idx := new_q_idx\<rparr> else sndr);
          qi = (if behind then 0 else qi)
      in if qi = 0 then mcast_on_empty_queue clk e sndr
         else
           let q_cap = storage_get_queue_capacity m;
               overrun = qi > q_cap
           in if overrun \<and> \<not> ignore_overrun sndr then (CHANGE_QUEUE_OVERRUN, sndr, [])
              else
                let sndr = (if overrun then sndr\<lparr>last_q_idx := qi - q_cap\<rparr> else sndr)
                in case accum_queue es 0 (last_q_idx sndr) (unat (new_q_idx - last_q_idx sndr)) OK sndr [] of
                     (st, qi, sndr, out) \<Rightarrow>
                       (if st = BLOCKED then OK else st, sndr\<lparr>last_q_idx := qi\<rparr>, out))"
section \<open>TCP\<close>

definition snd_tcp_read_buf ::
  "raised \<Rightarrow> io list \<Rightarrow> byte list \<Rightarrow> tcp_client \<Rightarrow> status \<times> tcp_client \<times> byte list" where
  "snd_tcp_read_buf sg xs avail clnt =
     (case read_loop sg xs OK (in_buf clnt) (in_next clnt) (in_remain clnt) avail of
        (st, buf, next, remain, avail) \<Rightarrow>
          (st, clnt\<lparr>in_buf := buf, in_next := next, in_remain := remain\<rparr>, avail))"

definition snd_tcp_write_buf ::
  "raised \<Rightarrow> (nat \<Rightarrow> status) \<Rightarrow> microsec result \<Rightarrow> io list \<Rightarrow> sender \<Rightarrow> tcp_client \<Rightarrow>
     status \<times> sender \<times> tcp_client \<times> byte list" where
  "snd_tcp_write_buf sg slp clk xs sndr clnt =
     (case write_loop sg (out_buf clnt) xs OK (out_next clnt) (out_remain clnt) [] of
        (st, next, remain, sent) \<Rightarrow>
          let clnt = clnt\<lparr>out_next := next, out_remain := remain\<rparr>
          in if sent \<noteq> [] then
               (case clk of
                  Inl err \<Rightarrow> (err, sndr, clnt, sent)
                | Inr now \<Rightarrow>
                    let clnt = clnt\<lparr>tcp_send_time := now\<rparr>
                    in case with_stats slp (\<lambda>s. s\<lparr>tcp_bytes_sent := tcp_bytes_sent s + int (length sent)\<rparr>)
                              sndr of
                         Inl err \<Rightarrow> (err, sndr, clnt, sent)
                       | Inr sndr \<Rightarrow> (st, sndr\<lparr>last_active_time := now\<rparr>, clnt, sent))
             else (st, sndr, clnt, sent))"

text \<open>What the calls made while accepting a connection return.\<close>

record accept_env =
  acc_raised :: raised
  acc_accept :: "sock result"
  acc_nodelay :: status
  acc_add_handler :: status
  acc_write :: io
  acc_remove_handler :: status
  acc_malloc :: "bool \<times> bool \<times> bool"
  acc_clock :: "microsec result"
  acc_nonblock :: status
  acc_desc :: "sock \<Rightarrow> int"
  acc_realloc :: "nat \<Rightarrow> bool \<times> bool"
  acc_pad :: pollfd
  acc_clock2 :: "microsec result"

definition acc_poller_add :: "accept_env \<Rightarrow> nat \<Rightarrow> poller \<Rightarrow> sock \<Rightarrow> int \<Rightarrow> status \<times> poller" where
  "acc_poller_add e k = poller_add (acc_desc e) (fst (acc_realloc e k)) (snd (acc_realloc e k)) (acc_pad e)"


definition new_client :: "sender \<Rightarrow> tcp_client" where
  "new_client sndr =
     \<lparr>pkt_size = 8 + 8 + val_size sndr, in_buf = (\<lambda>_. 0), in_next = 0, in_remain = 16,
      out_buf = (\<lambda>_. 0), out_next = 0, out_remain = 0, tcp_send_time = 0,
      union_range = INVALIDATE_RANGE, reply_range = \<lparr>low = 0, high = 0\<rparr>, reply_id = 0,
      min_seq_found = 0\<rparr>"

definition tcp_on_accept ::
  "accept_env \<Rightarrow> mem \<Rightarrow> poller \<Rightarrow> sender \<Rightarrow> status \<times> poller \<times> sender \<times> byte list" where
  "tcp_on_accept e m pol sndr =
     (let buf = hello_str sndr @ storage_get_description m @ [13, 10]
      in case acc_accept e of
        Inl err \<Rightarrow> (err, pol, sndr, [])
      | Inr accepted \<Rightarrow>
        if FAILED (acc_nodelay e) then (acc_nodelay e, pol, sndr, [])
        else if FAILED (acc_add_handler e) then (acc_add_handler e, pol, sndr, [])
        else
          let wr = sock_write (acc_raised e) (acc_write e) (length buf);
              sent = (case wr of Inl _ \<Rightarrow> [] | Inr n \<Rightarrow> take n buf);
              st = (case wr of Inl err \<Rightarrow> err | Inr n \<Rightarrow> int n);
              st = (if FAILED (acc_remove_handler e) \<and> \<not> FAILED st then acc_remove_handler e else st)
          in if FAILED st then
               (if st = SIG_ERROR_BASE - SIGALRM then PROTOCOL_TIMEOUT else st, pol, sndr, sent)
             else if \<not> fst (acc_malloc e) \<or> \<not> fst (snd (acc_malloc e)) \<or> \<not> snd (snd (acc_malloc e))
               then (NO_MEMORY, pol, sndr, sent)
             else
               let clnt = new_client sndr;
                   sndr = sndr\<lparr>clients := (clients sndr)(accepted := Some clnt)\<rparr>
               in case acc_clock e of
                    Inl err \<Rightarrow> (err, pol, sndr, sent)
                  | Inr now \<Rightarrow>
                      let clnt = clnt\<lparr>tcp_send_time := now\<rparr>;
                          sndr = sndr\<lparr>clients := (clients sndr)(accepted := Some clnt)\<rparr>
                      in if FAILED (acc_nonblock e) then (acc_nonblock e, pol, sndr, sent)
                         else case acc_poller_add e 0 pol accepted (POLLIN OR POLLOUT) of
                           (st, pol) \<Rightarrow>
                             if FAILED st then (st, pol, sndr, sent)
                             else
                               let sndr = sndr\<lparr>last_active_time := now,
                                               client_count := client_count sndr + 1\<rparr>
                               in if client_count sndr = 1 then
                                    (case acc_poller_add e 1 pol (mcast_sock sndr) POLLOUT of
                                       (st, pol) \<Rightarrow>
                                         if FAILED st then (st, pol, sndr, sent)
                                         else case acc_clock2 e of
                                           Inl err \<Rightarrow> (err, pol, sndr, sent)
                                         | Inr now \<Rightarrow>
                                             (OK, pol, sndr\<lparr>mcast_send_time := now,
                                                last_q_idx := storage_get_queue_head m\<rparr>, sent))
                                  else (st, pol, sndr, sent))"

text \<open>\<open>destroyed\<close> is what \<open>sock_destroy\<close> returns.\<close>

definition close_sock_func :: "status \<Rightarrow> poller \<Rightarrow> sock \<Rightarrow> sender \<Rightarrow> status \<times> poller \<times> sender" where
  "close_sock_func destroyed pol sk sndr =
     (let sndr = sndr\<lparr>clients := (clients sndr)(sk := None)\<rparr>
      in case poller_remove pol sk of
           (st, pol) \<Rightarrow> if FAILED st then (st, pol, sndr) else (destroyed, pol, sndr))"

definition tcp_on_hup :: "status \<Rightarrow> poller \<Rightarrow> sock \<Rightarrow> sender \<Rightarrow> status \<times> poller \<times> sender" where
  "tcp_on_hup destroyed pol sk sndr =
     (case close_sock_func destroyed pol sk sndr of
        (st, pol, sndr) \<Rightarrow>
          if FAILED st then (st, pol, sndr)
          else
            let sndr = sndr\<lparr>client_count := client_count sndr - 1\<rparr>
            in if client_count sndr = 0 then
                 (case poller_remove pol (mcast_sock sndr) of (st, pol) \<Rightarrow> (st, pol, sndr))
               else (st, pol, sndr))"

text \<open>
  The waiting loop of \<open>tcp_will_quit_func\<close>, one list entry (the clock and the outcomes of the
  writes) per round; \<open>None\<close> when it is still waiting at the end of the list.
\<close>

fun will_quit_loop ::
  "raised \<Rightarrow> (nat \<Rightarrow> status) \<Rightarrow> (microsec result \<times> io list) list \<Rightarrow> sender \<Rightarrow> tcp_client \<Rightarrow> byte list \<Rightarrow>
     (status \<times> sender \<times> tcp_client \<times> byte list) option" where
  "will_quit_loop sg slp [] sndr clnt sent = None"
| "will_quit_loop sg slp ((clk, xs) # rounds) sndr clnt sent =
     (case snd_tcp_write_buf sg slp clk xs sndr clnt of
        (st, sndr, clnt, sent') \<Rightarrow>
          if st \<noteq> BLOCKED \<and> FAILED st \<or> \<not> out_remain clnt > 0 then Some (st, sndr, clnt, sent @ sent')
          else will_quit_loop sg slp rounds sndr clnt (sent @ sent'))"

definition tcp_will_quit_func ::
  "raised \<Rightarrow> (nat \<Rightarrow> status) \<Rightarrow> (microsec result \<times> io list) list \<Rightarrow> sock \<Rightarrow> sender \<Rightarrow>
     (status \<times> sender \<times> byte list) option" where
  "tcp_will_quit_func sg slp rounds sk sndr =
     (case clients sndr sk of
        None \<Rightarrow> Some (OK, sndr, [])
      | Some clnt \<Rightarrow>
          let clnt = clnt\<lparr>out_buf := put_net (out_buf clnt) 0 WILL_QUIT_SEQ, out_next := 0, out_remain := 8\<rparr>
          in map_option (\<lambda>(st, sndr, clnt, sent).
                (st, sndr\<lparr>clients := (clients sndr)(sk := Some clnt)\<rparr>, sent))
               (will_quit_loop sg slp rounds sndr clnt []))"
text \<open>
  The copying loop of \<open>tcp_on_write\<close>: each look is the memory the lock is read in, the one that is
  copied and the one whose revision is compared; \<open>None\<close> when the record is unused.
\<close>

fun reply_copy ::
  "(nat \<Rightarrow> status) \<Rightarrow> mem \<Rightarrow> nat \<Rightarrow> nat \<Rightarrow> (mem \<times> mem \<times> mem) list \<Rightarrow> byte list option result" where
  "reply_copy slp m r sz [] =
     (case record_read_lock slp m r of
        Inl err \<Rightarrow> Inl err
      | Inr rv \<Rightarrow> if rv = 0 then Inr None else Inr (Some (mread m (record_get_value_ref r) sz)))"
| "reply_copy slp m r sz ((m1, m2, m3) # looks) =
     (case record_read_lock slp m1 r of
        Inl err \<Rightarrow> Inl err
      | Inr rv \<Rightarrow>
          if rv = 0 then Inr None
          else if rv \<noteq> record_get_revision m3 r then reply_copy slp m r sz looks
          else Inr (Some (mread m2 (record_get_value_ref r) sz)))"

record write_env =
  we_raised :: raised
  we_slp :: "nat \<Rightarrow> status"
  we_clock :: "microsec result"
  we_writes :: "io list"
  we_mem :: mem
  we_looks :: "ident \<Rightarrow> (mem \<times> mem \<times> mem) list"
  we_last :: mem
  we_clock2 :: "microsec result"

text \<open>
  The loop over the identifiers.  The flag of the result says that a reply has been composed,
  which is where the source returns from inside the loop.
\<close>

fun reply_scan ::
  "write_env \<Rightarrow> sender \<Rightarrow> nat \<Rightarrow> status \<Rightarrow> tcp_client \<Rightarrow> status \<times> bool \<times> tcp_client" where
  "reply_scan e sndr 0 st clnt = (st, False, clnt)"
| "reply_scan e sndr (Suc n) st clnt =
     (let seq = record_seqs sndr ! nat (reply_id clnt - base_id sndr);
          clnt = (if seq < min_seq_found clnt then clnt\<lparr>min_seq_found := seq\<rparr> else clnt)
      in if IS_WITHIN_RANGE (reply_range clnt) seq then
           (case storage_get_record (snd_store sndr) (we_mem e) (reply_id clnt) True of
              Inl err \<Rightarrow> (err, False, clnt)
            | Inr r \<Rightarrow>
                (case reply_copy (we_slp e) (we_last e) r (val_size sndr) (we_looks e (reply_id clnt)) of
                   Inl err \<Rightarrow> (err, False, clnt)
                 | Inr None \<Rightarrow> reply_scan e sndr n OK (clnt\<lparr>reply_id := reply_id clnt + 1\<rparr>)
                 | Inr (Some val) \<Rightarrow>
                     let buf = mwrite (out_buf clnt) 16 val;
                         buf = put_net buf 0 seq;
                         buf = put_net buf 8 (reply_id clnt)
                     in (OK, True, clnt\<lparr>out_buf := buf, out_next := 0, out_remain := pkt_size clnt,
                                       reply_id := reply_id clnt + 1\<rparr>)))
         else reply_scan e sndr n st (clnt\<lparr>reply_id := reply_id clnt + 1\<rparr>))"

text \<open>The part of \<open>tcp_on_write\<close> that fills the output buffer once it is empty.\<close>

definition tcp_compose :: "write_env \<Rightarrow> status \<Rightarrow> sender \<Rightarrow> tcp_client \<Rightarrow> status \<times> sender \<times> tcp_client" where
  "tcp_compose e st sndr clnt =
     (if IS_VALID_RANGE (reply_range clnt) then
        (case reply_scan e sndr (nat (max_id sndr - reply_id clnt)) st clnt of
           (st, replied, clnt) \<Rightarrow>
             if replied \<or> FAILED st then (st, sndr, clnt)
             else (st, sndr\<lparr>min_seq := min_seq_found clnt\<rparr>, clnt\<lparr>reply_range := INVALIDATE_RANGE\<rparr>))
      else
        (case we_clock2 e of
           Inl err \<Rightarrow> (err, sndr, clnt)
         | Inr now \<Rightarrow>
             if now - tcp_send_time clnt \<ge> heartbeat_usec sndr
             then (OK, sndr, clnt\<lparr>out_buf := put_net (out_buf clnt) 0 HEARTBEAT_SEQ,
                                  out_next := 0, out_remain := 8\<rparr>)
             else (OK, sndr, clnt)))"

definition snd_tcp_on_write ::
  "write_env \<Rightarrow> sender \<Rightarrow> tcp_client \<Rightarrow> status \<times> sender \<times> tcp_client \<times> byte list" where
  "snd_tcp_on_write e sndr clnt =
     (case snd_tcp_write_buf (we_raised e) (we_slp e) (we_clock e) (we_writes e) sndr clnt of
        (st, sndr, clnt, sent) \<Rightarrow>
          if st \<noteq> BLOCKED \<and> FAILED st then (st, sndr, clnt, sent)
          else
            let st = (if st = BLOCKED then OK else st)
            in if out_remain clnt = 0 then
                 (case tcp_compose e st sndr clnt of (st, sndr, clnt) \<Rightarrow> (st, sndr, clnt, sent))
               else (st, sndr, clnt, sent))"

definition tcp_on_read_blocked :: "sender \<Rightarrow> tcp_client \<Rightarrow> status \<times> tcp_client" where
  "tcp_on_read_blocked sndr clnt =
     (OK, if in_next clnt = 0 then
            (if high (union_range clnt) \<le> min_seq sndr then clnt\<lparr>union_range := INVALIDATE_RANGE\<rparr>
             else if \<not> IS_VALID_RANGE (reply_range clnt) then
               clnt\<lparr>reply_range := union_range clnt, union_range := INVALIDATE_RANGE,
                    reply_id := base_id sndr, min_seq_found := SEQUENCE_MAX\<rparr>
             else clnt)
          else clnt)"

definition snd_tcp_on_read ::
  "raised \<Rightarrow> (nat \<Rightarrow> status) \<Rightarrow> io list \<Rightarrow> byte list \<Rightarrow> sender \<Rightarrow> tcp_client \<Rightarrow>
     status \<times> sender \<times> tcp_client \<times> byte list" where
  "snd_tcp_on_read sg slp xs avail sndr clnt =
     (case snd_tcp_read_buf sg xs avail clnt of
        (st, clnt, avail) \<Rightarrow>
          if st \<noteq> BLOCKED \<and> FAILED st then (st, sndr, clnt, avail)
          else
            let st = (if st = BLOCKED then OK else st)
            in if in_remain clnt = 0 then
                 let r = \<lparr>low = get_net (in_buf clnt) 0, high = get_net (in_buf clnt) 8\<rparr>;
                     buf = store64 (in_buf clnt) 0 (word_of_int (low r));
                     clnt = clnt\<lparr>in_buf := store64 buf 8 (word_of_int (high r))\<rparr>
                 in if \<not> IS_VALID_RANGE r then (PROTOCOL_ERROR, sndr, clnt, avail)
                    else
                      let u = union_range clnt;
                          u = (if low r < low u then u\<lparr>low := low r\<rparr> else u);
                          u = (if high r > high u then u\<lparr>high := high r\<rparr> else u);
                          clnt = clnt\<lparr>union_range := u, in_next := 0, in_remain := 16\<rparr>
                      in case with_stats slp (\<lambda>s. s\<lparr>tcp_gap_count := tcp_gap_count s + 1\<rparr>) sndr of
                           Inl err \<Rightarrow> (err, sndr, clnt, avail)
                         | Inr sndr \<Rightarrow> (OK, sndr, clnt, avail)
               else (st, sndr, clnt, avail))"

section \<open>The event loop\<close>

text \<open>
  The world of a sender: its state, the datagrams it has sent, and for each connection the bytes
  it has sent and the bytes that have arrived and are not read.
\<close>

record snd_world =
  sw_sender :: sender
  sw_dgrams :: "byte list list"
  sw_sent :: "sock \<Rightarrow> byte list"
  sw_avail :: "sock \<Rightarrow> byte list"

record snd_env =
  sv_accept :: accept_env
  sv_mem :: mem
  sv_accum :: "nat \<Rightarrow> accum_env"
  sv_clock :: "microsec result"
  sv_send :: send_env
  sv_reads :: "sock \<Rightarrow> io list"
  sv_write :: "sock \<Rightarrow> write_env"
  sv_destroy :: "sock \<Rightarrow> status"

definition set_client :: "sock \<Rightarrow> tcp_client \<Rightarrow> sender \<Rightarrow> sender" where
  "set_client sk clnt sndr = sndr\<lparr>clients := (clients sndr)(sk := Some clnt)\<rparr>"

text \<open>
  The last part of \<open>event_func\<close>, for a socket that carries a client: reading or not, then
  writing, then hanging up on failure.  Every polled socket but the two of the sender itself
  carries one.
\<close>

definition client_event ::
  "snd_env \<Rightarrow> poller \<Rightarrow> sock \<Rightarrow> int \<Rightarrow> tcp_client \<Rightarrow> snd_world \<Rightarrow> status \<times> poller \<times> snd_world" where
  "client_event v pol sk revents clnt w =
     (let sndr = sw_sender w; e = sv_write v sk
      in case (if revents AND POLLIN \<noteq> 0
               then snd_tcp_on_read (we_raised e) (we_slp e) (sv_reads v sk) (sw_avail w sk) sndr clnt
               else (case tcp_on_read_blocked sndr clnt of (st, clnt) \<Rightarrow> (st, sndr, clnt, sw_avail w sk))) of
           (st, sndr, clnt, avail) \<Rightarrow>
             (case (if \<not> FAILED st \<and> revents AND POLLOUT \<noteq> 0 then snd_tcp_on_write e sndr clnt
                    else (st, sndr, clnt, [])) of
                (st, sndr, clnt, sent) \<Rightarrow>
                  let w = w\<lparr>sw_sender := set_client sk clnt sndr,
                            sw_sent := (sw_sent w)(sk := sw_sent w sk @ sent),
                            sw_avail := (sw_avail w)(sk := avail)\<rparr>
                  in if FAILED st then
                       (case tcp_on_hup (sv_destroy v sk) pol sk (sw_sender w) of
                          (st, pol, sndr) \<Rightarrow> (st, pol, w\<lparr>sw_sender := sndr\<rparr>))
                     else (st, pol, w)))"

definition snd_event_func ::
  "snd_env \<Rightarrow> poller \<Rightarrow> sock \<Rightarrow> int \<Rightarrow> snd_world \<Rightarrow> status \<times> poller \<times> snd_world" where
  "snd_event_func v pol sk revents w =
     (let sndr = sw_sender w
      in if sk = listen_sock sndr then
           (case tcp_on_accept (sv_accept v) (sv_mem v) pol sndr of
              (st, pol, sndr, sent) \<Rightarrow>
                (st, pol, w\<lparr>sw_sender := sndr,
                   sw_sent := (case acc_accept (sv_accept v) of
                                 Inl _ \<Rightarrow> sw_sent w | Inr a \<Rightarrow> (sw_sent w)(a := sent))\<rparr>))
         else if sk = mcast_sock sndr then
           (case mcast_on_write (sv_mem v) (sv_accum v) (sv_clock v) (sv_send v) sndr of
              (st, sndr, out) \<Rightarrow> (st, pol, w\<lparr>sw_sender := sndr, sw_dgrams := sw_dgrams w @ out\<rparr>))
         else if revents AND POLLHUP \<noteq> 0 then
           (case tcp_on_hup (sv_destroy v sk) pol sk sndr of
              (st, pol, sndr) \<Rightarrow> (st, pol, w\<lparr>sw_sender := sndr\<rparr>))
         else case clients sndr sk of
           None \<Rightarrow> (OK, pol, w)
         | Some clnt \<Rightarrow> client_event v pol sk revents clnt w)"
text \<open>
  One round of the loop of \<open>sender_run\<close>: what \<open>poll\<close> and the other calls return, the memory the
  touched and created times are read from, and whether the sender was told to stop before it.
\<close>

record snd_round =
  sr_stop :: bool
  sr_raised :: raised
  sr_slp :: "nat \<Rightarrow> status"
  sr_poll :: "int \<times> int \<times> int list"
  sr_env :: snd_env
  sr_mem :: mem
  sr_clock :: "microsec result"
  sr_sleep :: status

definition IDLE_TIMEOUT_USEC :: microsec where "IDLE_TIMEOUT_USEC = 100"

text \<open>The flag says that the loop is left.\<close>

definition sender_round ::
  "snd_round \<Rightarrow> poller \<Rightarrow> snd_world \<Rightarrow> bool \<times> status \<times> poller \<times> snd_world" where
  "sender_round d pol w =
     (case sr_poll d of
        (poll_ret, errno, revents) \<Rightarrow>
      (case poller_events (sr_raised d) errno poll_ret revents pol of
         (st, pol) \<Rightarrow>
           if FAILED st then (True, st, pol, w)
           else
             (case (if st > 0 then poller_process_events pol (Some (snd_event_func (sr_env d))) w
                    else (st, pol, w)) of
                (st, pol, w) \<Rightarrow>
                  if FAILED st then (True, st, pol, w)
                  else
                    let sndr = sw_sender w
                    in case storage_get_touched_time (sr_slp d) (sr_mem d) True of
                         Inl err \<Rightarrow> (True, err, pol, w)
                       | Inr when \<Rightarrow>
                         (case sr_clock d of
                            Inl err \<Rightarrow> (True, err, pol, w)
                          | Inr now \<Rightarrow>
                            if orphan_timeout_usec sndr > 0 \<and> now - when \<ge> orphan_timeout_usec sndr
                              then (True, STORAGE_ORPHANED, pol, w)
                            else if \<not> ignore_recreate sndr \<and>
                              storage_get_created_time (sr_mem d) True \<noteq> Inr (store_created_time sndr)
                              then (True, STORAGE_RECREATED, pol, w)
                            else if now - last_active_time sndr \<ge> IDLE_TIMEOUT_USEC \<and> FAILED (sr_sleep d)
                              then (True, sr_sleep d, pol, w)
                            else (False, OK, pol, w)))))"

text \<open>The callbacks of the closing phase; a state \<open>None\<close> is a \<open>tcp_will_quit_func\<close> that keeps waiting.\<close>

definition will_quit_callback ::
  "raised \<Rightarrow> (nat \<Rightarrow> status) \<Rightarrow> (sock \<Rightarrow> (microsec result \<times> io list) list) \<Rightarrow> snd_world option poller_func" where
  "will_quit_callback sg slp rounds pol sk events s =
     (case s of
        None \<Rightarrow> (BLOCKED, pol, None)
      | Some w \<Rightarrow>
          (case tcp_will_quit_func sg slp (rounds sk) sk (sw_sender w) of
             None \<Rightarrow> (BLOCKED, pol, None)
           | Some (st, sndr, sent) \<Rightarrow>
               (st, pol, Some (w\<lparr>sw_sender := sndr, sw_sent := (sw_sent w)(sk := sw_sent w sk @ sent)\<rparr>))))"

definition close_callback :: "(sock \<Rightarrow> status) \<Rightarrow> snd_world poller_func" where
  "close_callback destroyed pol sk events w =
     (case close_sock_func (destroyed sk) pol sk (sw_sender w) of
        (st, pol, sndr) \<Rightarrow> (st, pol, w\<lparr>sw_sender := sndr\<rparr>))"

text \<open>What the calls made after the loop return.\<close>

record quit_env =
  qe_raised :: raised
  qe_slp :: "nat \<Rightarrow> status"
  qe_rounds :: "sock \<Rightarrow> (microsec result \<times> io list) list"
  qe_sleep :: status
  qe_destroy :: "sock \<Rightarrow> status"

definition sender_quit ::
  "quit_env \<Rightarrow> status \<Rightarrow> poller \<Rightarrow> snd_world \<Rightarrow> (status \<times> poller \<times> snd_world) option" where
  "sender_quit q st pol w =
     (if client_count (sw_sender w) > 0 then
        (case poller_process pol (Some (will_quit_callback (qe_raised q) (qe_slp q) (qe_rounds q))) (Some w) of
           (st2, pol, None) \<Rightarrow> None
         | (st2, pol, Some w) \<Rightarrow>
             let st = (if \<not> FAILED st then st2 else st);
                 st = (if \<not> FAILED st then qe_sleep q else st)
             in case poller_process pol (Some (close_callback (qe_destroy q))) w of
                  (st2, pol, w) \<Rightarrow> Some (if \<not> FAILED st then st2 else st, pol, w))
      else Some (st, pol, w))"

text \<open>The loop, one list entry per round; \<open>None\<close> when it is still running at the end of the list.\<close>

fun sender_run ::
  "quit_env \<Rightarrow> snd_round list \<Rightarrow> status \<Rightarrow> poller \<Rightarrow> snd_world \<Rightarrow> (status \<times> poller \<times> snd_world) option" where
  "sender_run q [] st pol w = None"
| "sender_run q (d # ds) st pol w =
     (if is_stopping (sw_sender w) \<or> sr_stop d then sender_quit q st pol w
      else case sender_round d pol w of
        (done, st, pol, w) \<Rightarrow> if done then sender_quit q st pol w else sender_run q ds st pol w)"

definition sender_stop :: "sender \<Rightarrow> sender" where
  "sender_stop sndr = sndr\<lparr>is_stopping := True\<rparr>"

section \<open>Statistics\<close>

definition sender_get_tcp_gap_count :: "sender \<Rightarrow> int" where
  "sender_get_tcp_gap_count sndr = tcp_gap_count (curr_stats sndr)"

definition sender_get_tcp_bytes_sent :: "sender \<Rightarrow> int" where
  "sender_get_tcp_bytes_sent sndr = tcp_bytes_sent (curr_stats sndr)"

definition sender_get_mcast_bytes_sent :: "sender \<Rightarrow> int" where
  "sender_get_mcast_bytes_sent sndr = mcast_bytes_sent (curr_stats sndr)"

definition sender_get_mcast_packets_sent :: "sender \<Rightarrow> int" where
  "sender_get_mcast_packets_sent sndr = mcast_packets_sent (curr_stats sndr)"

definition sender_get_receiver_count :: "sender \<Rightarrow> int" where
  "sender_get_receiver_count sndr = sint (client_count sndr)"

definition sender_get_storage_record_count :: "sender \<Rightarrow> int" where
  "sender_get_storage_record_count sndr = latency_get_count (stg_latency sndr)"

definition sender_get_storage_min_latency :: "sender \<Rightarrow> real" where
  "sender_get_storage_min_latency sndr = latency_get_min (stg_latency sndr)"

definition sender_get_storage_max_latency :: "sender \<Rightarrow> real" where
  "sender_get_storage_max_latency sndr = latency_get_max (stg_latency sndr)"

definition sender_get_storage_mean_latency :: "sender \<Rightarrow> real" where
  "sender_get_storage_mean_latency sndr = latency_get_mean (stg_latency sndr)"

definition sender_get_storage_stddev_latency :: "sender \<Rightarrow> real" where
  "sender_get_storage_stddev_latency sndr = latency_get_stddev (stg_latency sndr)"

definition sender_get_storage :: "sender \<Rightarrow> storage" where
  "sender_get_storage sndr = snd_store sndr"

definition sender_roll_stats :: "(nat \<Rightarrow> status) \<Rightarrow> sender \<Rightarrow> status \<times> sender" where
  "sender_roll_stats slp sndr =
     (case spin_write_lock (\<lambda>_. stats_lock sndr) slp of
        Inl err \<Rightarrow> (err, sndr)
      | Inr _ \<Rightarrow>
          let sndr = sndr\<lparr>curr_stats := next_stats sndr, next_stats := zero_sender_stats, stats_lock := 0\<rparr>
          in case latency_roll slp (stg_latency sndr) of
               (st, lat) \<Rightarrow> (st, sndr\<lparr>stg_latency := lat\<rparr>))"

section \<open>Creation\<close>

text \<open>
  What the calls made while creating a sender return.
\<close>

record sender_init_env =
  si_open :: open_env
  si_destroy :: destroy_env
  si_malloc :: "nat \<Rightarrow> bool"
  si_listen :: "status list"
  si_listen_port :: int
  si_mcast :: "status list"
  si_mtu :: "u64 result"
  si_interface :: "status list"
  si_setup :: "status list"
  si_desc :: "sock \<Rightarrow> int"
  si_clock :: "microsec result"
  si_listen_sock :: sock
  si_mcast_sock :: sock

definition DEFAULT_MTU :: u64 where "DEFAULT_MTU = 1500"
definition IP_OVERHEAD :: u64 where "IP_OVERHEAD = 20"
definition UDP_OVERHEAD :: u64 where "UDP_OVERHEAD = 8"

definition sender_hello :: "mem \<Rightarrow> byte list \<Rightarrow> int \<Rightarrow> nat \<Rightarrow> microsec \<Rightarrow> microsec \<Rightarrow> hello" where
  "sender_hello m mcast_address mcast_port mtu max_pkt_age hb =
     \<lparr>h_wire_ver = version_get_wire_major * 2 ^ 8 + version_get_wire_minor,
      h_data_ver = uint (storage_get_data_version m), h_mcast_address = mcast_address,
      h_mcast_port = mcast_port, h_mcast_mtu = mtu, h_base_id = storage_get_base_id m,
      h_max_id = storage_get_max_id m, h_val_size = storage_get_value_size m,
      h_q_capacity = unat (storage_get_queue_capacity m), h_max_age_usec = max_pkt_age, h_hb_usec = hb\<rparr>"

definition init_sender ::
  "sender_init_env \<Rightarrow> storage \<Rightarrow> latency \<Rightarrow> byte list \<Rightarrow> int \<Rightarrow> nat \<Rightarrow> bool \<Rightarrow> bool \<Rightarrow> microsec \<Rightarrow> microsec \<Rightarrow>
     microsec \<Rightarrow> sender" where
  "init_sender e st lat mcast_address mcast_port mtu recreate overrun hb orphan_timeout max_pkt_age =
     (let m = oe_contents (si_open e);
          dim = nat (storage_get_max_id m - storage_get_base_id m)
      in \<lparr>listen_sock = si_listen_sock e, mcast_sock = si_mcast_sock e, snd_store = st,
          base_id = storage_get_base_id m, max_id = storage_get_max_id m,
          val_size = storage_get_value_size m, client_count = 0,
          record_revs = replicate dim (- 1), record_seqs = replicate dim 0,
          next_seq = 1, min_seq = 0, ignore_recreate = recreate, ignore_overrun = overrun,
          store_created_time = (if recreate then 0 else sint (load64 m OFF_last_created)),
          mcast_insert_time = 0, mcast_send_time = 0, last_active_time = 0, heartbeat_usec = hb,
          orphan_timeout_usec = orphan_timeout, max_pkt_age_usec = max_pkt_age, mcast_mtu = mtu,
          pkt_buf = (\<lambda>_. 0), pkt_next = 0, last_q_idx = 0, stg_latency = lat,
          curr_stats = zero_sender_stats, next_stats = zero_sender_stats, stats_lock = spin_create,
          is_stopping = False,
          hello_str = print_hello (sender_hello m mcast_address mcast_port mtu max_pkt_age hb),
          clients = (\<lambda>_. None)\<rparr>)"

definition snd_init ::
  "sender_init_env \<Rightarrow> string \<Rightarrow> byte list \<Rightarrow> int \<Rightarrow> bool \<Rightarrow> bool \<Rightarrow> bool \<Rightarrow> microsec \<Rightarrow> microsec \<Rightarrow> microsec \<Rightarrow>
     (sender \<times> poller) result" where
  "snd_init e mmap_file mcast_address mcast_port has_interface recreate overrun hb orphan_timeout max_pkt_age =
     (case storage_open (si_open e) (si_destroy e) (si_malloc e 0) True (Some mmap_file) O_RDONLY of
        (res, None) \<Rightarrow> Inl res
      | (res, Some st) \<Rightarrow>
      if FAILED res then Inl res
      else case latency_create True (si_malloc e 1) (si_malloc e 2) (si_malloc e 3) of
        Inl err \<Rightarrow> Inl err
      | Inr lat \<Rightarrow>
      if \<not> si_malloc e 4 \<or> \<not> si_malloc e 5 \<or> \<not> si_malloc e 6 \<or> \<not> si_malloc e 7 then Inl NO_MEMORY
      else if FAILED (first_failed (si_listen e)) then Inl (first_failed (si_listen e))
      else
        let mcast_port = (if mcast_port = 0 then si_listen_port e else mcast_port)
        in if FAILED (first_failed (si_mcast e)) then Inl (first_failed (si_mcast e))
           else case (if has_interface
                      then (case si_mtu e of
                              Inl err \<Rightarrow> Inl err
                            | Inr mtu \<Rightarrow> if FAILED (first_failed (si_interface e))
                                then Inl (first_failed (si_interface e)) else Inr mtu)
                      else Inr DEFAULT_MTU) of
                  Inl err \<Rightarrow> Inl err
                | Inr mtu \<Rightarrow>
                    let mtu = mtu - (IP_OVERHEAD + UDP_OVERHEAD)
                    in if mtu < 8 + 8 + 8 + load64 (oe_contents (si_open e)) OFF_val_size then Inl MTU_TOO_SMALL
                       else if \<not> si_malloc e 8 then Inl NO_MEMORY
                       else if FAILED (first_failed (si_setup e)) then Inl (first_failed (si_setup e))
                       else case poller_create True (si_malloc e 9) (si_malloc e 10) (si_malloc e 11) 10 of
                              Inl err \<Rightarrow> Inl err
                            | Inr pol \<Rightarrow>
                                let sndr = init_sender e st lat mcast_address mcast_port (unat mtu)
                                             recreate overrun hb orphan_timeout max_pkt_age
                                in case poller_add (si_desc e) True True no_pollfd pol (listen_sock sndr) POLLIN of
                                     (st, pol) \<Rightarrow>
                                       if FAILED st then Inl st
                                       else case si_clock e of
                                         Inl err \<Rightarrow> Inl err
                                       | Inr now \<Rightarrow> Inr (sndr\<lparr>last_active_time := now\<rparr>, pol))"

text \<open>A sender that cannot be completed is destroyed, so that only the status is left.\<close>

definition sender_create ::
  "sender_init_env \<Rightarrow> bool \<Rightarrow> bool \<Rightarrow> string option \<Rightarrow> bool \<Rightarrow> byte list option \<Rightarrow> int \<Rightarrow> bool \<Rightarrow> bool \<Rightarrow> bool \<Rightarrow>
     microsec \<Rightarrow> microsec \<Rightarrow> microsec \<Rightarrow> (sender \<times> poller) result" where
  "sender_create e malloc_ok psndr_ok mmap_file tcp_address_ok mcast_address mcast_port has_interface recreate
     overrun hb orphan_timeout max_pkt_age =
     (case (mmap_file, mcast_address) of
        (Some file, Some addr) \<Rightarrow>
          if \<not> psndr_ok \<or> \<not> tcp_address_ok \<or> hb \<le> 0 \<or> orphan_timeout < 0 \<or> max_pkt_age < 0
            then Inl error_invalid_arg
          else if \<not> malloc_ok then Inl NO_MEMORY
          else snd_init e file addr mcast_port has_interface recreate overrun hb orphan_timeout max_pkt_age
      | _ \<Rightarrow> Inl error_invalid_arg)"
text \<open>
  Destruction.  \<open>closings\<close> is what \<open>sock_destroy\<close> returns for each polled socket, \<open>released\<close> the statuses of
  the two addresses and the latency; the handle is gone only when every step has succeeded.
\<close>

definition sender_destroy ::
  "(sock \<Rightarrow> status) \<Rightarrow> status \<Rightarrow> destroy_env \<Rightarrow> status list \<Rightarrow> (poller \<times> snd_world) option \<Rightarrow>
     status \<times> (poller \<times> snd_world) option" where
  "sender_destroy closings poller_freed e released h =
     (case h of
        None \<Rightarrow> (OK, None)
      | Some (pol, w) \<Rightarrow>
          (case poller_process pol (Some (close_callback closings)) w of
             (st, pol, w) \<Rightarrow>
               let st = (if FAILED st then st
                         else first_failed ([poller_freed, fst (storage_destroy e (Some (snd_store (sw_sender w))))] @ released))
               in if FAILED st then (st, Some (pol, w)) else (OK, None)))"

end
