(* ===== verification/Multicast.thy ===== *)
theory Multicast
  imports Sender
begin

text \<open>
  What the multicasting half of \<open>sender.c\<close> guarantees: the invariant of the packet being filled, the
  datagrams a call of \<open>mcast_on_write\<close> sends, and that the sender catches up with the change queue.
\<close>

section \<open>The packet being filled\<close>

text \<open>
  The records of a packet as they are laid out, and a packet: a sequence number, a time and records.
\<close>

definition entry_bytes :: "ident \<times> byte list \<Rightarrow> byte list" where
  "entry_bytes r = wire64 (fst r) @ snd r"

definition packet :: "sequence \<Rightarrow> microsec \<Rightarrow> (ident \<times> byte list) list \<Rightarrow> byte list" where
  "packet seq stamp rs = wire64 seq @ wire64 stamp @ concat (map entry_bytes rs)"

text \<open>The packet buffer holds exactly the records \<open>rs\<close>, under the next sequence number.\<close>

definition staged :: "sender \<Rightarrow> (ident \<times> byte list) list \<Rightarrow> bool" where
  "staged sndr rs \<longleftrightarrow>
     (if rs = [] then pkt_next sndr = 0
      else mread (pkt_buf sndr) 0 8 = wire64 (next_seq sndr) \<and>
           pkt_next sndr = 16 + length rs * (8 + val_size sndr) \<and>
           mread (pkt_buf sndr) 16 (length rs * (8 + val_size sndr)) = concat (map entry_bytes rs))"

definition snd_inv :: "sender \<Rightarrow> (ident \<times> byte list) list \<Rightarrow> bool" where
  "snd_inv sndr rs \<longleftrightarrow> staged sndr rs \<and> pkt_next sndr \<le> mcast_mtu sndr \<and>
     24 + val_size sndr \<le> mcast_mtu sndr \<and>
     length (record_revs sndr) = nat (max_id sndr - base_id sndr) \<and>
     length (record_seqs sndr) = nat (max_id sndr - base_id sndr) \<and>
     1 \<le> next_seq sndr \<and> next_seq sndr < SEQUENCE_MAX \<and>
     (\<forall>s\<in>set (record_seqs sndr). 0 \<le> s \<and> s \<le> next_seq sndr) \<and>
     (\<forall>(i, v)\<in>set rs. base_id sndr \<le> i \<and> i < max_id sndr \<and> length v = val_size sndr \<and>
        record_seqs sndr ! nat (i - base_id sndr) = next_seq sndr)"

text \<open>What publishing does not change.\<close>

definition same_config :: "sender \<Rightarrow> sender \<Rightarrow> bool" where
  "same_config sndr sndr' \<longleftrightarrow> base_id sndr' = base_id sndr \<and> max_id sndr' = max_id sndr \<and>
     val_size sndr' = val_size sndr \<and> mcast_mtu sndr' = mcast_mtu sndr \<and> snd_store sndr' = snd_store sndr \<and>
     min_seq sndr' = min_seq sndr \<and> clients sndr' = clients sndr \<and> listen_sock sndr' = listen_sock sndr \<and>
     mcast_sock sndr' = mcast_sock sndr \<and> client_count sndr' = client_count sndr \<and>
     hello_str sndr' = hello_str sndr \<and> ignore_overrun sndr' = ignore_overrun sndr"

lemma same_config_refl [simp]: "same_config s s"
  by (simp add: same_config_def)

lemma same_config_trans: "same_config a b \<Longrightarrow> same_config b c \<Longrightarrow> same_config a c"
  by (simp add: same_config_def)

text \<open>
  What is documented of the calls: a failure has a negative status, other than the one of a full
  socket buffer, the clock gives a \<open>long\<close>, and \<open>errno\<close> is positive.
\<close>

definition clock_ok :: "microsec result \<Rightarrow> bool" where
  "clock_ok clk \<longleftrightarrow> (case clk of Inl err \<Rightarrow> err < 0 \<and> err \<noteq> BLOCKED | Inr now \<Rightarrow> is_long now)"

definition io_ok :: "io \<Rightarrow> bool" where
  "io_ok x \<longleftrightarrow> (case x of Moved _ \<Rightarrow> True | Errno e \<Rightarrow> 0 < e)"

definition send_env_ok :: "send_env \<Rightarrow> bool" where
  "send_env_ok e \<longleftrightarrow> clock_ok (se_clock e) \<and> (\<forall>k. se_slp e k \<noteq> BLOCKED) \<and> io_ok (se_sendto e)"

lemma spin_loop_not_blocked:
  "\<forall>k. slp k \<noteq> BLOCKED \<Longrightarrow> spin_loop obs slp k spins sleeps \<noteq> Inl BLOCKED"
proof (induction obs slp k spins sleeps rule: spin_loop.induct)
  case (1 obs slp k spins sleeps)
  then show ?case
    by (subst spin_loop.simps) (auto simp: status_defs split: if_splits)
qed

lemma spin_loop_fails: "spin_loop obs slp k spins sleeps = Inl err \<Longrightarrow> err < 0"
proof (induction obs slp k spins sleeps rule: spin_loop.induct)
  case (1 obs slp k spins sleeps)
  then show ?case
    by (subst (asm) (3) spin_loop.simps) (auto simp: status_defs split: if_splits)
qed

lemma read_lock_fails:
  assumes "record_read_lock slp m r = Inl err" "\<forall>k. slp k \<noteq> BLOCKED"
  shows "err < 0" "err \<noteq> BLOCKED"
  using assms spin_loop_not_blocked [of slp "\<lambda>_. load64 m r" 0 0 0] spin_loop_fails [of "\<lambda>_. load64 m r" slp 0 0 0]
  by (auto simp: record_read_lock_def spin_read_lock_at_def spin_read_lock_def map_sum_def split: sum.splits)

lemma write_lock_fails:
  assumes "spin_write_lock obs slp = Inl err" "\<forall>k. slp k \<noteq> BLOCKED"
  shows "err < 0" "err \<noteq> BLOCKED"
  using assms spin_loop_not_blocked [of slp obs 0 0 0] spin_loop_fails [of obs slp 0 0 0]
  by (auto simp: spin_write_lock_def split: sum.splits)

lemma with_stats_fails:
  assumes "with_stats slp f sndr = Inl err" "\<forall>k. slp k \<noteq> BLOCKED"
  shows "err < 0" "err \<noteq> BLOCKED"
  using assms write_lock_fails [of "\<lambda>_. stats_lock sndr" slp err] by (auto simp: with_stats_def split: sum.splits)

lemma latency_fails:
  assumes "latency_on_sample slp lat x = (st, lat')" "\<forall>k. slp k \<noteq> BLOCKED"
  shows "st = OK \<or> st < 0 \<and> st \<noteq> BLOCKED"
  using assms write_lock_fails [of "\<lambda>_. lat_lock lat" slp] by (auto simp: latency_on_sample_def split: sum.splits)

lemma with_stats_Inr:
  assumes "with_stats slp f sndr = Inr sndr'"
  shows "sndr' = sndr\<lparr>next_stats := f (next_stats sndr), stats_lock := 0\<rparr>"
  using assms by (auto simp: with_stats_def split: sum.splits)

lemma error_eintr_neg: "0 < e \<Longrightarrow> error_eintr sg e < 0"
  by (auto simp: error_eintr_def signal_on_eintr_def error_errno_neg status_defs
      dest: first_raised_Some split: option.splits)

lemma io_failed_neg: "0 < e \<Longrightarrow> io_failed sg w e < 0"
  using error_eintr_neg by (simp add: io_failed_def status_defs)

lemma sock_sendto_fails:
  assumes "sock_sendto sg x True n = Inl err" "io_ok x" "0 < n"
  shows "err < 0"
  using assms io_failed_neg by (auto simp: sock_sendto_def io_ok_def split: io.splits)

text \<open>
  A send that is blocked changes nothing but the time in the packet; one that succeeds empties
  the packet and counts the sequence number unless the packet is a heartbeat.
\<close>

lemma mcast_send_pkt_cases:
  assumes "mcast_send_pkt e sndr = (st, sndr', out)" "send_env_ok e" "pkt_next sndr > 0"
    and "st \<ge> 0 \<or> st = BLOCKED"
  obtains (sent) now where "st = OK" "is_long now"
      "out = [mread (put_net (pkt_buf sndr) 8 now) 0 (pkt_next sndr)]" "pkt_next sndr' = 0"
      "next_seq sndr' = next_seq sndr + (if get_net (pkt_buf sndr) 0 \<ge> 0 then 1 else 0)"
      "get_net (pkt_buf sndr) 0 \<ge> 0 \<longrightarrow> next_seq sndr' \<noteq> SEQUENCE_MAX"
      "record_revs sndr' = record_revs sndr" "record_seqs sndr' = record_seqs sndr" "same_config sndr sndr'"
      "last_q_idx sndr' = last_q_idx sndr"
  | (blocked) now where "st = BLOCKED" "is_long now" "out = []"
      "sndr' = sndr\<lparr>pkt_buf := put_net (pkt_buf sndr) 8 now\<rparr>"
proof (cases "se_clock e")
  case (Inl err)
  then show ?thesis using assms by (simp add: mcast_send_pkt_def send_env_ok_def clock_ok_def)
next
  case now: (Inr now)
  let ?b = "put_net (pkt_buf sndr) 8 now"
  have long: "is_long now" using assms(2) now by (simp add: send_env_ok_def clock_ok_def)
  have seq: "get_net ?b 0 = get_net (pkt_buf sndr) 0"
    by (rule get_net_cong) (simp add: mread_put_net_disjoint)
  show ?thesis
  proof (cases "sock_sendto (se_raised e) (se_sendto e) True (pkt_next sndr)")
    case (Inl err)
    have "st = err" "out = []" "sndr' = sndr\<lparr>pkt_buf := ?b\<rparr>"
      using assms(1) now Inl by (simp_all add: mcast_send_pkt_def Let_def)
    moreover have "err < 0"
      using sock_sendto_fails [OF Inl _ assms(3)] assms(2) by (simp add: send_env_ok_def)
    ultimately show ?thesis using assms(4) long by (intro that(2) [of now]) auto
  next
    case (Inr st2)
    let ?s = "if get_net (pkt_buf sndr) 0 \<ge> 0 then next_seq sndr + 1 else next_seq sndr"
    define s1 where "s1 = sndr\<lparr>pkt_buf := ?b, last_active_time := now, mcast_send_time := now, next_seq := ?s,
      pkt_next := 0, mcast_insert_time := 0\<rparr>"
    define f where "f = (\<lambda>s :: sender_stats. s\<lparr>mcast_bytes_sent := mcast_bytes_sent s + int st2,
      mcast_packets_sent := mcast_packets_sent s + 1\<rparr>)"
    have noov: "\<not> (get_net (pkt_buf sndr) 0 \<ge> 0 \<and> ?s = SEQUENCE_MAX)"
    proof
      assume "get_net (pkt_buf sndr) 0 \<ge> 0 \<and> ?s = SEQUENCE_MAX"
      then have ov: "get_net (pkt_buf sndr) 0 \<ge> 0" "next_seq sndr + 1 = SEQUENCE_MAX" by (simp_all split: if_splits)
      have "st = SEQUENCE_OVERFLOW"
        using assms(1) unfolding mcast_send_pkt_def now Inr by (simp add: Let_def seq ov Inr)
      then show False using assms(4) by (simp add: status_defs)
    qed
    have r: "mcast_send_pkt e sndr = (case with_stats (se_slp e) f s1 of
        Inl err \<Rightarrow> (err, s1, [mread ?b 0 (pkt_next sndr)]) | Inr s \<Rightarrow> (OK, s, [mread ?b 0 (pkt_next sndr)]))"
      using now Inr noov by (auto simp: mcast_send_pkt_def Let_def seq s1_def f_def split: sum.splits)
    show ?thesis
    proof (cases "with_stats (se_slp e) f s1")
      case (Inl err)
      then show ?thesis
        using with_stats_fails [OF Inl] assms(1,2,4) r by (simp add: send_env_ok_def)
    next
      case (Inr s2)
      then show ?thesis
        using that(1) [of now] assms(1) r long noov with_stats_Inr [OF Inr]
        by (auto simp: s1_def same_config_def)
    qed
  qed
qed
text \<open>What \<open>mcast_accum_record\<close> does to the packet when it adds a record.\<close>

definition add_entry :: "sender \<Rightarrow> ident \<Rightarrow> byte list \<Rightarrow> sender" where
  "add_entry sndr i v =
     (let s = (if pkt_next sndr = 0
               then sndr\<lparr>pkt_buf := put_net (pkt_buf sndr) 0 (next_seq sndr), pkt_next := 16\<rparr> else sndr)
      in s\<lparr>pkt_buf := mwrite (put_net (pkt_buf s) (pkt_next s) i) (pkt_next s + 8) v,
           pkt_next := pkt_next s + 8 + val_size s\<rparr>)"

lemma mread_entry:
  "n = 8 + length v \<Longrightarrow> mread (mwrite (put_net b p i) (p + 8) v) p n = entry_bytes (i, v)"
  by (simp add: mread_add mread_mwrite_disjoint put_net_wire entry_bytes_def)

lemma mread_before_entry:
  "a + n \<le> p \<Longrightarrow> mread (mwrite (put_net b p i) (p + 8) v) a n = mread b a n"
  by (simp add: mread_mwrite_disjoint mread_put_net_disjoint)

lemma staged_add_entry:
  assumes "staged sndr rs" "length v = val_size sndr"
  shows "staged (add_entry sndr i v) (rs @ [(i, v)])"
proof -
  let ?n = "length rs * (8 + val_size sndr)"
  show ?thesis
  proof (cases "rs = []")
    case True
    then have "pkt_next sndr = 0" using assms(1) by (simp add: staged_def)
    then show ?thesis
      using True assms(2) mread_entry [of "8 + val_size sndr" v "put_net (pkt_buf sndr) 0 (next_seq sndr)" 16 i]
        mread_before_entry [of 0 8 16 "put_net (pkt_buf sndr) 0 (next_seq sndr)" i v]
      by (simp add: staged_def add_entry_def Let_def put_net_wire)
  next
    case False
    then have p: "pkt_next sndr = 16 + ?n" "mread (pkt_buf sndr) 0 8 = wire64 (next_seq sndr)"
      "mread (pkt_buf sndr) 16 ?n = concat (map entry_bytes rs)"
      using assms(1) by (simp_all add: staged_def)
    let ?b = "mwrite (put_net (pkt_buf sndr) (16 + ?n) i) (16 + ?n + 8) v"
    have "mread ?b 16 (?n + (8 + val_size sndr)) = concat (map entry_bytes rs) @ entry_bytes (i, v)"
      unfolding mread_add [of ?b 16 ?n]
      using mread_entry [of "8 + val_size sndr" v "pkt_buf sndr" "16 + ?n" i] assms(2) p(3)
        mread_before_entry [of 16 ?n "16 + ?n" "pkt_buf sndr" i v] by simp
    moreover have "mread ?b 0 8 = wire64 (next_seq sndr)"
      using mread_before_entry [of 0 8 "16 + ?n" "pkt_buf sndr" i v] p(2) by simp
    ultimately show ?thesis
      using False p(1) by (simp add: staged_def add_entry_def Let_def add.commute add.left_commute)
  qed
qed

lemma add_entry_fields [simp]:
  "record_revs (add_entry sndr i v) = record_revs sndr" "record_seqs (add_entry sndr i v) = record_seqs sndr"
  "next_seq (add_entry sndr i v) = next_seq sndr" "same_config sndr (add_entry sndr i v)"
  "last_q_idx (add_entry sndr i v) = last_q_idx sndr" "val_size (add_entry sndr i v) = val_size sndr"
  "pkt_next (add_entry sndr i v) = (if pkt_next sndr = 0 then 16 else pkt_next sndr) + 8 + val_size sndr"
  by (simp_all add: add_entry_def Let_def same_config_def)

text \<open>A full packet, once sent, is a well-formed packet of the staged records.\<close>

lemma staged_packet:
  assumes "staged sndr rs" "rs \<noteq> []"
  shows "mread (put_net (pkt_buf sndr) 8 now) 0 (pkt_next sndr) = packet (next_seq sndr) now rs"
proof -
  let ?n = "length rs * (8 + val_size sndr)"
  have p: "pkt_next sndr = 8 + (8 + ?n)" "mread (pkt_buf sndr) 0 8 = wire64 (next_seq sndr)"
    "mread (pkt_buf sndr) 16 ?n = concat (map entry_bytes rs)"
    using assms by (simp_all add: staged_def)
  show ?thesis
    unfolding p(1) mread_add
    using p(2,3) by (simp add: mread_put_net_disjoint put_net_wire mread_mwrite_disjoint packet_def)
qed
section \<open>Adding a record to the packet\<close>

definition accum_env_ok :: "accum_env \<Rightarrow> sender \<Rightarrow> bool" where
  "accum_env_ok e sndr \<longleftrightarrow> stg_ok (snd_store sndr) (ac_mem e) \<and>
     storage_get_base_id (ac_mem e) = base_id sndr \<and> storage_get_max_id (ac_mem e) = max_id sndr \<and>
     storage_get_value_size (ac_mem e) = val_size sndr \<and>
     send_env_ok (ac_send e) \<and> clock_ok (ac_clock e)"

lemma accum_env_ok_cong: "same_config sndr sndr' \<Longrightarrow> accum_env_ok e sndr' = accum_env_ok e sndr"
  by (simp add: accum_env_ok_def same_config_def)

lemma accum_copy_length: "accum_copy slp m r sz looks rv = Inr (v, when, rv') \<Longrightarrow> length v = sz"
  by (induction slp m r sz looks rv rule: accum_copy.induct) (auto split: if_splits sum.splits)

lemma accum_copy_fails:
  "accum_copy slp m r sz looks rv = Inl err \<Longrightarrow> \<forall>k. slp k \<noteq> BLOCKED \<Longrightarrow> err < 0 \<and> err \<noteq> BLOCKED"
  by (induction slp m r sz looks rv rule: accum_copy.induct)
    (auto split: if_splits sum.splits dest: read_lock_fails)

lemma storage_get_record_fails: "storage_get_record st m i True = Inl err \<Longrightarrow> err = INVALID_RECORD"
  by (auto simp: storage_get_record_def split: if_splits)

lemma snd_inv_seq:
  assumes "snd_inv sndr rs"
  shows "is_long (next_seq sndr)" "is_long (- next_seq sndr)" "0 < next_seq sndr"
  using assms by (simp_all add: snd_inv_def is_long_def SEQUENCE_MAX_def LONG_MAX_def LONG_MIN_def)

lemma staged_stamp: "staged sndr rs \<Longrightarrow> staged (sndr\<lparr>pkt_buf := put_net (pkt_buf sndr) 8 now\<rparr>) rs"
  by (simp add: staged_def mread_put_net_disjoint)

lemma snd_inv_stamp: "snd_inv sndr rs \<Longrightarrow> snd_inv (sndr\<lparr>pkt_buf := put_net (pkt_buf sndr) 8 now\<rparr>) rs"
  using staged_stamp by (simp add: snd_inv_def)

text \<open>The record is noted under the revision that was copied and the number of its packet.\<close>

definition note_record :: "sender \<Rightarrow> ident \<Rightarrow> byte list \<Rightarrow> u64 \<Rightarrow> sender" where
  "note_record sndr i v rv =
     (let s = add_entry sndr i v; idx = nat (i - base_id sndr)
      in s\<lparr>record_revs := (record_revs s)[idx := rv], record_seqs := (record_seqs s)[idx := next_seq s]\<rparr>)"

lemma set_update_le: "x \<in> set (xs[i := y]) \<Longrightarrow> x \<in> set xs \<or> x = y"
  by (meson set_update_subset_insert subsetD insertE)

lemma snd_inv_note_record:
  assumes "snd_inv sndr rs" "base_id sndr \<le> i" "i < max_id sndr" "length v = val_size sndr"
    and "8 + val_size sndr \<le> mcast_mtu sndr - pkt_next sndr"
  shows "snd_inv (note_record sndr i v rv) (rs @ [(i, v)])"
proof -
  let ?s = "note_record sndr i v rv" and ?idx = "nat (i - base_id sndr)"
  have len: "?idx < length (record_seqs sndr)" using assms(1-3) by (simp add: snd_inv_def)
  have st: "staged ?s (rs @ [(i, v)])"
    using staged_add_entry [of sndr rs v i] assms(1,4)
    by (simp add: note_record_def Let_def snd_inv_def staged_def)
  have pk: "pkt_next ?s \<le> mcast_mtu sndr"
    using assms(1,5) by (auto simp: note_record_def Let_def snd_inv_def)
  have seqs: "record_seqs ?s ! nat (j - base_id sndr) = next_seq sndr"
    if "j = i \<or> record_seqs sndr ! nat (j - base_id sndr) = next_seq sndr" for j
    using that len by (auto simp: note_record_def Let_def nth_list_update)
  have "same_config sndr ?s" "next_seq ?s = next_seq sndr"
    using add_entry_fields(4) [of sndr i v] by (simp_all add: note_record_def Let_def same_config_def)
  moreover have "\<forall>s\<in>set (record_seqs ?s). 0 \<le> s \<and> s \<le> next_seq sndr"
    using assms(1) by (auto simp: note_record_def Let_def snd_inv_def dest!: set_update_le)
  moreover have "length (record_revs ?s) = length (record_revs sndr)" "length (record_seqs ?s) = length (record_seqs sndr)"
    by (simp_all add: note_record_def Let_def)
  moreover have "\<forall>(j, w)\<in>set (rs @ [(i, v)]). base_id sndr \<le> j \<and> j < max_id sndr \<and> length w = val_size sndr \<and>
      record_seqs ?s ! nat (j - base_id sndr) = next_seq sndr"
    using assms(1-4) seqs by (fastforce simp: snd_inv_def)
  ultimately show ?thesis
    using assms(1) st pk by (simp add: snd_inv_def same_config_def)
qed
text \<open>After a packet has been sent the invariant holds of an empty packet.\<close>

lemma snd_inv_sent:
  assumes "snd_inv sndr rs" "pkt_next s = 0" "next_seq s = next_seq sndr + 1" "next_seq s \<noteq> SEQUENCE_MAX"
    and "record_revs s = record_revs sndr" "record_seqs s = record_seqs sndr" "same_config sndr s"
  shows "snd_inv s []"
  using assms by (auto simp: snd_inv_def staged_def same_config_def)

lemma snd_inv_fields:
  assumes "snd_inv s rs" "pkt_buf s' = pkt_buf s" "pkt_next s' = pkt_next s" "next_seq s' = next_seq s"
    and "record_revs s' = record_revs s" "record_seqs s' = record_seqs s" "same_config s s'"
  shows "snd_inv s' rs"
  using assms by (simp add: snd_inv_def staged_def same_config_def)

lemma accum_stage_OK:
  assumes "accum_stage e i r rv (pkt_next sndr) sndr = (st, s)" "st \<ge> 0 \<or> st = BLOCKED" "accum_env_ok e sndr"
    and "snd_inv sndr rs" "base_id sndr \<le> i" "i < max_id sndr"
    and "8 + val_size sndr \<le> mcast_mtu sndr - pkt_next sndr"
  obtains v ts rv' where "st = OK"
    "accum_copy (se_slp (ac_send e)) (ac_last e) r (val_size sndr) (ac_looks e) rv = Inr (v, ts, rv')"
    "snd_inv s (rs @ [(i, v)])" "same_config sndr s" "next_seq s = next_seq sndr"
    "record_revs s = (record_revs sndr)[nat (i - base_id sndr) := rv']"
    "record_seqs s = (record_seqs sndr)[nat (i - base_id sndr) := next_seq sndr]"
    "last_q_idx s = last_q_idx sndr"
proof -
  let ?slp = "se_slp (ac_send e)"
  have env: "clock_ok (ac_clock e)" and slp: "\<forall>k. ?slp k \<noteq> BLOCKED"
    using assms(3) by (simp_all add: accum_env_ok_def send_env_ok_def)
  obtain v ts rv' where cp: "accum_copy ?slp (ac_last e) r (val_size sndr) (ac_looks e) rv = Inr (v, ts, rv')"
    using assms(1,2) accum_copy_fails [OF _ slp, of "ac_last e" r "val_size sndr" "ac_looks e" rv]
    by (cases "accum_copy ?slp (ac_last e) r (val_size sndr) (ac_looks e) rv"; cases "pkt_next sndr = 0")
      (auto simp: accum_stage_def Let_def)
  have nt: "accum_stage e i r rv (pkt_next sndr) sndr =
    (case ac_clock e of Inl err \<Rightarrow> (err, note_record sndr i v rv')
     | Inr now \<Rightarrow> (case latency_on_sample ?slp (stg_latency sndr) (of_int (now - ts)) of
         (st, lat) \<Rightarrow> (st, (note_record sndr i v rv')\<lparr>mcast_insert_time := now, stg_latency := lat\<rparr>)))"
    using cp by (simp add: accum_stage_def note_record_def add_entry_def Let_def split: sum.splits)
  obtain now where now: "ac_clock e = Inr now"
    using assms(1,2) env nt by (cases "ac_clock e") (auto simp: clock_ok_def)
  obtain st1 lat where lat: "latency_on_sample ?slp (stg_latency sndr) (of_int (now - ts)) = (st1, lat)"
    by (cases "latency_on_sample ?slp (stg_latency sndr) (of_int (now - ts))")
  have st: "st = OK" "s = (note_record sndr i v rv')\<lparr>mcast_insert_time := now, stg_latency := lat\<rparr>"
    using assms(1,2) nt now lat latency_fails [OF lat slp] by auto
  have inv: "snd_inv s (rs @ [(i, v)])"
    using st(2) by (intro snd_inv_fields [OF snd_inv_note_record [OF assms(4-6) accum_copy_length [OF cp] assms(7)]])
      (simp_all add: same_config_def)
  have "same_config sndr s"
    using add_entry_fields(4) [of sndr i v] st(2) by (simp add: same_config_def note_record_def Let_def)
  with inv cp st show thesis by (intro that) (simp_all add: note_record_def Let_def)
qed

text \<open>Sending a packet that has been filled: it carries what was staged, under the next number.\<close>

lemma send_staged_cases:
  assumes "mcast_send_pkt e sndr = (st, sndr', out)" "send_env_ok e" "snd_inv sndr rs" "rs \<noteq> []" "st \<ge> 0 \<or> st = BLOCKED"
  obtains (sent) now where "st = OK" "is_long now" "out = [packet (next_seq sndr) now rs]" "pkt_next sndr' = 0" "snd_inv sndr' []"
      "next_seq sndr' = next_seq sndr + 1" "record_revs sndr' = record_revs sndr" "record_seqs sndr' = record_seqs sndr"
      "same_config sndr sndr'" "last_q_idx sndr' = last_q_idx sndr"
  | (blocked) now where "st = BLOCKED" "out = []" "sndr' = sndr\<lparr>pkt_buf := put_net (pkt_buf sndr) 8 now\<rparr>"
proof -
  have p: "pkt_next sndr > 0" using assms(3,4) by (auto simp: snd_inv_def staged_def)
  show thesis using assms(1,2) p assms(5)
  proof (cases rule: mcast_send_pkt_cases)
    case (blocked now)
    then show thesis by (intro that(2) [of now])
  next
    case (sent now)
    have seq: "get_net (pkt_buf sndr) 0 = next_seq sndr"
      using assms(3,4) snd_inv_seq [OF assms(3)] by (intro get_net_wire) (auto simp: snd_inv_def staged_def)
    have n: "next_seq sndr' = next_seq sndr + 1" "next_seq sndr' \<noteq> SEQUENCE_MAX"
      using sent(5,6) snd_inv_seq(3) [OF assms(3)] by (simp_all add: seq)
    have inv: "snd_inv sndr' []" using assms(3) sent(4) n sent(7-9) by (rule snd_inv_sent)
    have "out = [packet (next_seq sndr) now rs]"
      using sent(3) staged_packet [OF _ assms(4)] assms(3) by (simp add: snd_inv_def)
    then show thesis using sent inv n(1) by (intro that(1) [of now])
  qed
qed

text \<open>What \<open>mcast_accum_record\<close> does once it has the record and its revision.\<close>

lemma accum_record_lock:
  assumes "mcast_accum_record e sndr i = (st, sndr', out)" "accum_env_ok e sndr" "st \<ge> 0 \<or> st = BLOCKED"
  obtains r rv where "storage_get_record (snd_store sndr) (ac_mem e) i True = Inr r"
    "record_read_lock (se_slp (ac_send e)) (ac_mem e) r = Inr rv" "base_id sndr \<le> i" "i < max_id sndr"
proof -
  let ?slp = "se_slp (ac_send e)"
  have slp: "\<forall>k. ?slp k \<noteq> BLOCKED" using assms(2) by (simp add: accum_env_ok_def send_env_ok_def)
  obtain r where r: "storage_get_record (snd_store sndr) (ac_mem e) i True = Inr r"
    using assms(1,3) storage_get_record_fails [of "snd_store sndr" "ac_mem e" i]
    by (cases "storage_get_record (snd_store sndr) (ac_mem e) i True")
      (auto simp: mcast_accum_record_def status_defs)
  moreover obtain rv where "record_read_lock ?slp (ac_mem e) r = Inr rv"
    using assms(1,3) r read_lock_fails [OF _ slp, of "ac_mem e" r]
    by (cases "record_read_lock ?slp (ac_mem e) r") (auto simp: mcast_accum_record_def)
  moreover have "base_id sndr \<le> i" "i < max_id sndr"
    using r assms(2) by (auto simp: storage_get_record_def accum_env_ok_def split: if_splits)
  ultimately show thesis by (rule that)
qed

lemma mcast_accum_cases:
  assumes "mcast_accum_record e sndr i = (st, sndr', out)" "accum_env_ok e sndr" "snd_inv sndr rs"
    and "st \<ge> 0 \<or> st = BLOCKED"
  obtains (same) r where "st = OK" "out = []" "sndr' = sndr"
      "storage_get_record (snd_store sndr) (ac_mem e) i True = Inr r"
      "record_read_lock (se_slp (ac_send e)) (ac_mem e) r = Inr (record_revs sndr ! nat (i - base_id sndr))"
  | (blocked) now where "st = BLOCKED" "out = []" "rs \<noteq> []"
      "sndr' = sndr\<lparr>pkt_buf := put_net (pkt_buf sndr) 8 now\<rparr>"
  | (added) r rv v ts rv' sndr1 rs1 where
      "storage_get_record (snd_store sndr) (ac_mem e) i True = Inr r"
      "record_read_lock (se_slp (ac_send e)) (ac_mem e) r = Inr rv"
      "accum_copy (se_slp (ac_send e)) (ac_last e) r (val_size sndr) (ac_looks e) rv = Inr (v, ts, rv')"
      "st = OK \<and> out = [] \<and> sndr1 = sndr \<and> rs1 = rs \<or>
       st = TRUE_ST \<and> rs \<noteq> [] \<and> rs1 = [] \<and> snd_inv sndr1 [] \<and> same_config sndr sndr1 \<and>
         next_seq sndr1 = next_seq sndr + 1 \<and> record_revs sndr1 = record_revs sndr \<and>
         record_seqs sndr1 = record_seqs sndr \<and> last_q_idx sndr1 = last_q_idx sndr \<and>
         (\<exists>now. is_long now \<and> out = [packet (next_seq sndr) now rs])"
      "snd_inv sndr' (rs1 @ [(i, v)])" "same_config sndr1 sndr'" "next_seq sndr' = next_seq sndr1"
      "record_revs sndr' = (record_revs sndr1)[nat (i - base_id sndr) := rv']"
      "record_seqs sndr' = (record_seqs sndr1)[nat (i - base_id sndr) := next_seq sndr1]"
      "last_q_idx sndr' = last_q_idx sndr1"
proof -
  let ?idx = "nat (i - base_id sndr)"
  have env: "send_env_ok (ac_send e)" using assms(2) by (simp add: accum_env_ok_def)
  obtain r rv where r: "storage_get_record (snd_store sndr) (ac_mem e) i True = Inr r"
    and rv: "record_read_lock (se_slp (ac_send e)) (ac_mem e) r = Inr rv" and i: "base_id sndr \<le> i" "i < max_id sndr"
    using accum_record_lock [OF assms(1,2,4)] by blast
  let ?full = "mcast_mtu sndr - pkt_next sndr < 8 + val_size sndr"
  consider (eq) "rv = record_revs sndr ! ?idx" | (room) "rv \<noteq> record_revs sndr ! ?idx" "\<not> ?full"
    | (full) "rv \<noteq> record_revs sndr ! ?idx" "?full" by blast
  then show thesis
  proof cases
    case eq
    then show thesis using assms(1) r rv that(1) [of r] by (simp add: mcast_accum_record_def)
  next
    case room
    obtain st1 s1 where s: "accum_stage e i r rv (pkt_next sndr) sndr = (st1, s1)"
      by (cases "accum_stage e i r rv (pkt_next sndr) sndr")
    have res: "out = []" "sndr' = s1" "st = (if FAILED st1 then st1 else FALSE_ST)"
      using assms(1) r rv room s by (auto simp: mcast_accum_record_def Let_def OK_def split: if_splits)
    have st1: "st1 \<ge> 0 \<or> st1 = BLOCKED" using res(3) assms(4) by (auto split: if_splits)
    have rm: "8 + val_size sndr \<le> mcast_mtu sndr - pkt_next sndr" using room(2) by simp
    from accum_stage_OK [OF s st1 assms(2,3) i rm] show thesis
    proof cases
      case (1 v ts rv')
      show thesis
        using that(3) [OF r rv 1(2) _ _ _ 1(5) [folded res(2)]] 1 res by (simp add: status_defs)
    qed
  next
    case full
    have rs: "rs \<noteq> []" using full(2) assms(3) by (auto simp: snd_inv_def staged_def split: if_splits)
    obtain st1 sndr1 out1 where p: "mcast_send_pkt (ac_send e) sndr = (st1, sndr1, out1)"
      by (cases "mcast_send_pkt (ac_send e) sndr")
    have ok: "st1 \<ge> 0 \<or> st1 = BLOCKED"
      using assms(1,4) r rv full p by (auto simp: mcast_accum_record_def Let_def split: if_splits)
    show thesis using p env assms(3) rs ok
    proof (cases rule: send_staged_cases)
      case (blocked now)
      then show thesis
        using assms(1) r rv full p rs that(2) [of now] by (simp add: mcast_accum_record_def Let_def status_defs)
    next
      case (sent now)
      obtain st2 s2 where s: "accum_stage e i r rv (pkt_next sndr1) sndr1 = (st2, s2)"
        by (cases "accum_stage e i r rv (pkt_next sndr1) sndr1")
      have res: "out = out1" "sndr' = s2" "st = (if FAILED st2 then st2 else TRUE_ST)"
        using assms(1) r rv full p s sent(1,4)
        by (auto simp: mcast_accum_record_def Let_def OK_def split: if_splits)
      have same: "base_id sndr1 = base_id sndr" "max_id sndr1 = max_id sndr" "val_size sndr1 = val_size sndr"
        "mcast_mtu sndr1 = mcast_mtu sndr"
        using sent(9) by (simp_all add: same_config_def)
      have st2: "st2 \<ge> 0 \<or> st2 = BLOCKED" using res(3) assms(4) by (auto split: if_splits)
      have rm: "8 + val_size sndr1 \<le> mcast_mtu sndr1 - pkt_next sndr1"
        using assms(3) sent(4) by (simp add: same snd_inv_def)
      have env1: "accum_env_ok e sndr1" using assms(2) sent(9) by (simp add: accum_env_ok_cong)
      from accum_stage_OK [OF s st2 env1 sent(5) i [folded same(1,2)] rm] show thesis
      proof cases
        case (1 v ts rv')
        have "st = TRUE_ST" using res(3) 1(1) by (simp add: status_defs)
        then show thesis
          using that(3) [of r rv v ts rv' sndr1 "[]", OF r rv 1(2) [unfolded same] _ _ _ 1(5) [folded res(2)]] 1 res(1,2) sent rs
          by (simp add: same) blast
      qed
    qed
  qed
qed

section \<open>Following the change queue\<close>

text \<open>
  What one call sends and what it leaves in the packet: nothing, a heartbeat that names the next
  sequence number, or one full packet; \<open>added\<close> is what has been taken from the storage.
\<close>

definition published ::
  "sender \<Rightarrow> (ident \<times> byte list) list \<Rightarrow> byte list list \<Rightarrow> sender \<Rightarrow> (ident \<times> byte list) list \<Rightarrow>
     (ident \<times> byte list) list \<Rightarrow> bool" where
  "published sndr rs out sndr' rs' added \<longleftrightarrow>
     out = [] \<and> next_seq sndr' = next_seq sndr \<and> rs' = rs @ added \<or>
     (\<exists>now. is_long now \<and> out = [packet (- next_seq sndr) now []] \<and> next_seq sndr' = next_seq sndr \<and>
        rs = [] \<and> rs' = [] \<and> added = []) \<or>
     (\<exists>now full. is_long now \<and> full \<noteq> [] \<and> out = [packet (next_seq sndr) now full] \<and>
        length (packet (next_seq sndr) now full) \<le> mcast_mtu sndr \<and>
        next_seq sndr' = next_seq sndr + 1 \<and> full @ rs' = rs @ added)"

text \<open>The value \<open>v\<close> of record \<open>i\<close> was copied under an unchanged revision \<open>rv\<close>.\<close>

definition copied :: "accum_env \<Rightarrow> sender \<Rightarrow> ident \<Rightarrow> byte list \<Rightarrow> bool" where
  "copied e sndr i v \<longleftrightarrow> (\<exists>r rv ts rv'. storage_get_record (snd_store sndr) (ac_mem e) i True = Inr r \<and>
     record_read_lock (se_slp (ac_send e)) (ac_mem e) r = Inr rv \<and>
     accum_copy (se_slp (ac_send e)) (ac_last e) r (val_size sndr) (ac_looks e) rv = Inr (v, ts, rv'))"

lemma copied_cong: "same_config s s' \<Longrightarrow> copied e s' i v = copied e s i v"
  by (simp add: copied_def same_config_def)

lemma concat_entries_length:
  "\<forall>(i, v)\<in>set rs. length v = n \<Longrightarrow> length (concat (map entry_bytes rs)) = length rs * (8 + n)"
  by (induction rs) (auto simp: entry_bytes_def)

lemma packet_length:
  assumes "snd_inv sndr rs" "rs \<noteq> []"
  shows "length (packet s t rs) = pkt_next sndr" "length (packet s t rs) \<le> mcast_mtu sndr"
proof -
  have "length (concat (map entry_bytes rs)) = length rs * (8 + val_size sndr)"
    using assms(1) by (intro concat_entries_length) (auto simp: snd_inv_def)
  with assms show "length (packet s t rs) = pkt_next sndr" by (simp add: packet_def snd_inv_def staged_def)
  with assms(1) show "length (packet s t rs) \<le> mcast_mtu sndr" by (simp add: snd_inv_def)
qed

text \<open>A record that is noted under another revision than before has been published.\<close>

definition renoted :: "sender \<Rightarrow> sender \<Rightarrow> (ident \<times> byte list) list \<Rightarrow> bool" where
  "renoted sndr sndr' added \<longleftrightarrow>
     (\<forall>i\<ge>base_id sndr. record_revs sndr' ! nat (i - base_id sndr) \<noteq> record_revs sndr ! nat (i - base_id sndr) \<longrightarrow>
        i \<in> fst ` set added)"

lemma renoted_refl: "record_revs sndr' = record_revs sndr \<Longrightarrow> renoted sndr sndr' added"
  by (simp add: renoted_def)

lemma renoted_trans:
  assumes "renoted s s1 xs" "renoted s1 s2 ys" "same_config s s1"
  shows "renoted s s2 (xs @ ys)"
  using assms unfolding renoted_def same_config_def by (metis UnCI image_Un set_append)

lemma renoted_update:
  assumes "record_revs s' = (record_revs s)[nat (i - base_id s) := rv]" "base_id s \<le> i"
  shows "renoted s s' [(i, v)]"
proof -
  have "nat (j - base_id s) \<noteq> nat (i - base_id s)" if "base_id s \<le> j" "j \<noteq> i" for j
    using that assms(2) by simp
  with assms(1) show ?thesis unfolding renoted_def by (metis fst_conv image_eqI list.set_intros(1) nth_list_update_neq)
qed

text \<open>What the loop over the queue leaves, on every path on which the sender goes on.\<close>

lemma queue_added_later:
  assumes "storage_read_queue (ac_mem (es k)) qi True = Inr i" "same_config s s1"
    and "\<forall>(j, v)\<in>set added1. j = i \<and> copied (es k) s j v"
    and "\<forall>(i, v)\<in>set added. \<exists>t<n. storage_read_queue (ac_mem (es (k + 1 + t))) (qi + 1 + of_nat t) True = Inr i \<and>
       copied (es (k + 1 + t)) s1 i v"
  shows "\<forall>(i, v)\<in>set (added1 @ added). \<exists>t<Suc n. storage_read_queue (ac_mem (es (k + t))) (qi + of_nat t) True = Inr i \<and>
    copied (es (k + t)) s i v"
proof (intro ballI, clarify)
  fix j v
  assume a: "(j, v) \<in> set (added1 @ added)"
  show "\<exists>t<Suc n. storage_read_queue (ac_mem (es (k + t))) (qi + of_nat t) True = Inr j \<and> copied (es (k + t)) s j v"
  proof (cases "(j, v) \<in> set added1")
    case True
    then show ?thesis using assms(1,3) by (intro exI [of _ 0]) auto
  next
    case False
    with a assms(4) obtain t where "t < n" "storage_read_queue (ac_mem (es (k + 1 + t))) (qi + 1 + of_nat t) True = Inr j"
      "copied (es (k + 1 + t)) s1 j v" by fastforce
    then show ?thesis
      using assms(2) by (intro exI [of _ "Suc t"]) (simp add: copied_cong add.assoc [symmetric])
  qed
qed

text \<open>One record: unless a packet had to go first, it joins what is staged.\<close>

lemma accum_one_published:
  assumes "mcast_accum_record e sndr i = (st, sndr', out)" "accum_env_ok e sndr" "snd_inv sndr rs"
    and "st \<ge> 0 \<or> st = BLOCKED"
  shows "\<exists>rs' added. snd_inv sndr' rs' \<and> same_config sndr sndr' \<and> published sndr rs out sndr' rs' added \<and>
    renoted sndr sndr' added \<and> (\<forall>(j, v)\<in>set added. j = i \<and> copied e sndr j v) \<and>
    (st = 0 \<longrightarrow> out = [] \<and> rs' = rs @ added \<and> next_seq sndr' = next_seq sndr)"
  using assms
proof (cases rule: mcast_accum_cases)
  case (same r)
  then show ?thesis
    using assms(3) by (intro exI [of _ rs] exI [of _ "[]"]) (simp add: published_def renoted_refl)
next
  case (blocked now)
  then show ?thesis
    using assms(3) snd_inv_stamp
    by (intro exI [of _ rs] exI [of _ "[]"]) (auto simp: published_def same_config_def status_defs renoted_refl)
next
  case (added r rv v ts rv' s1 rs1)
  have "base_id sndr \<le> i"
    using added(1) assms(2) by (auto simp: storage_get_record_def accum_env_ok_def split: if_splits)
  then have ren: "renoted sndr sndr' [(i, v)]" using added(4,8) by (intro renoted_update) auto
  have "published sndr rs out sndr' (rs1 @ [(i, v)]) [(i, v)] \<and> same_config sndr sndr'"
    using added(4,6,7) assms(3) packet_length(2) [OF assms(3)] same_config_trans [of sndr s1 sndr']
    by (auto simp: published_def)
  with added(1-5,7) ren show ?thesis
    by (intro exI [of _ "rs1 @ [(i, v)]"] exI [of _ "[(i, v)]"]) (auto simp: copied_def status_defs)
qed

lemma accum_queue_published:
  assumes "accum_queue es k qi n st0 sndr out0 = (st, qi', sndr', out')"
    and "\<forall>j. accum_env_ok (es j) sndr" "snd_inv sndr rs" "st \<ge> 0 \<or> st = BLOCKED" "0 \<le> st0"
  shows "\<exists>out rs' added. out' = out0 @ out \<and> snd_inv sndr' rs' \<and> same_config sndr sndr' \<and>
    published sndr rs out sndr' rs' added \<and> renoted sndr sndr' added \<and>
    (\<forall>(i, v)\<in>set added. \<exists>t<n. storage_read_queue (ac_mem (es (k + t))) (qi + of_nat t) True = Inr i \<and>
       copied (es (k + t)) sndr i v)"
  using assms
proof (induction n arbitrary: k qi st0 sndr out0 rs)
  case 0
  then show ?case by (auto simp: published_def renoted_refl)
next
  case (Suc n)
  obtain i where i: "storage_read_queue (ac_mem (es k)) qi True = Inr i"
    using Suc.prems(1,4)
    by (cases "storage_read_queue (ac_mem (es k)) qi True")
      (auto simp: storage_read_queue_def status_defs split: if_splits)
  obtain st1 sndr1 out1 where a: "mcast_accum_record (es k) sndr i = (st1, sndr1, out1)"
    by (cases "mcast_accum_record (es k) sndr i")
  have st1: "st1 \<ge> 0 \<or> st1 = BLOCKED" using i a Suc.prems(1,4) by (cases "st1 = 0") auto
  obtain rs1 added1 where one: "snd_inv sndr1 rs1" "same_config sndr sndr1" "published sndr rs out1 sndr1 rs1 added1"
    "renoted sndr sndr1 added1" "\<forall>(j, v)\<in>set added1. j = i \<and> copied (es k) sndr j v"
    "st1 = 0 \<longrightarrow> out1 = [] \<and> rs1 = rs @ added1 \<and> next_seq sndr1 = next_seq sndr"
    using accum_one_published [OF a _ Suc.prems(3) st1] Suc.prems(2) by blast
  show ?case
  proof (cases "st1 = 0")
    case True
    then have go: "accum_queue es (k + 1) (qi + 1) n st1 sndr1 (out0 @ out1) = (st, qi', sndr', out')"
      using i a Suc.prems(1) by simp
    have "\<forall>j. accum_env_ok (es j) sndr1" using Suc.prems(2) one(2) by (simp add: accum_env_ok_cong)
    from Suc.IH [OF go this one(1) Suc.prems(4)] True
    obtain out rs' added where ih: "out' = (out0 @ out1) @ out" "snd_inv sndr' rs'" "same_config sndr1 sndr'"
      "published sndr1 rs1 out sndr' rs' added" "renoted sndr1 sndr' added"
      "\<forall>(i, v)\<in>set added. \<exists>t<n. storage_read_queue (ac_mem (es (k + 1 + t))) (qi + 1 + of_nat t) True = Inr i \<and>
         copied (es (k + 1 + t)) sndr1 i v"
      by auto
    have "published sndr rs out sndr' rs' (added1 @ added)"
      using ih(4) one(2,6) True by (auto simp: published_def same_config_def)
    with ih(1,2) True one(6) same_config_trans [OF one(2) ih(3)] renoted_trans [OF one(4) ih(5) one(2)]
      queue_added_later [OF i one(2,5) ih(6)]
    show ?thesis by (intro exI [of _ out] exI [of _ rs'] exI [of _ "added1 @ added"]) auto
  next
    case False
    then have "st = st1" "sndr' = sndr1" "out' = out0 @ out1" using i a Suc.prems(1) by auto
    moreover have "\<forall>(j, v)\<in>set added1. \<exists>t<Suc n. storage_read_queue (ac_mem (es (k + t))) (qi + of_nat t) True = Inr j \<and>
        copied (es (k + t)) sndr j v"
      using one(5) i by (intro ballI, clarify, intro exI [of _ 0]) auto
    ultimately show ?thesis using one(1-4) by blast
  qed
qed

text \<open>Sending what has been staged, or a heartbeat when nothing has.\<close>

lemma mcast_send_pkt_empty:
  assumes "mcast_send_pkt e sndr = (st, sndr', out)" "clock_ok (se_clock e)" "pkt_next sndr = 0"
  shows "st < 0"
  using assms
  by (auto simp: mcast_send_pkt_def clock_ok_def sock_sendto_def Let_def status_defs split: sum.splits)

lemma send_staged_published:
  assumes "mcast_send_pkt e sndr = (st, sndr', out)" "send_env_ok e" "snd_inv sndr rs" "st \<ge> 0"
  shows "snd_inv sndr' [] \<and> same_config sndr sndr' \<and> published sndr rs out sndr' [] [] \<and>
    record_revs sndr' = record_revs sndr \<and> record_seqs sndr' = record_seqs sndr \<and> last_q_idx sndr' = last_q_idx sndr"
proof -
  have p: "pkt_next sndr > 0"
    using mcast_send_pkt_empty [OF assms(1)] assms(2,4) by (cases "pkt_next sndr") (auto simp: send_env_ok_def)
  then have rs: "rs \<noteq> []" using assms(3) by (auto simp: snd_inv_def staged_def)
  have "st \<ge> 0 \<or> st = BLOCKED" using assms(4) by simp
  with assms(1-3) rs show ?thesis
  proof (cases rule: send_staged_cases)
    case (blocked now)
    then show ?thesis using assms(4) by (simp add: status_defs)
  next
    case (sent now)
    then show ?thesis using rs packet_length(2) [OF assms(3) rs] by (auto simp: published_def)
  qed
qed

lemma send_heartbeat_published:
  assumes "mcast_send_pkt e (sndr\<lparr>pkt_buf := put_net (pkt_buf sndr) 0 (- next_seq sndr), pkt_next := 16\<rparr>) =
      (st, sndr', out)" (is "mcast_send_pkt e ?s = _")
    and "send_env_ok e" "snd_inv sndr rs" "st \<ge> 0" "pkt_next sndr = 0"
  shows "snd_inv sndr' [] \<and> same_config sndr sndr' \<and> published sndr rs out sndr' [] [] \<and>
    record_revs sndr' = record_revs sndr \<and> record_seqs sndr' = record_seqs sndr \<and> last_q_idx sndr' = last_q_idx sndr"
proof -
  have rs: "rs = []" using assms(3,5) by (auto simp: snd_inv_def staged_def split: if_splits)
  have ok: "st \<ge> 0 \<or> st = BLOCKED" "pkt_next ?s > 0" using assms(4) by simp_all
  have seq: "get_net (pkt_buf ?s) 0 = - next_seq sndr" using snd_inv_seq [OF assms(3)] by simp
  show ?thesis using assms(1,2) ok(2,1)
  proof (cases rule: mcast_send_pkt_cases)
    case (blocked now)
    then show ?thesis using assms(4) by (simp add: status_defs)
  next
    case (sent now)
    have c: "same_config sndr sndr'" using sent(9) by (simp add: same_config_def)
    have n: "next_seq sndr' = next_seq sndr" using sent(5) seq snd_inv_seq(3) [OF assms(3)] by simp
    have "mread (put_net (put_net (pkt_buf sndr) 0 (- next_seq sndr)) 8 now) 0 (8 + 8) =
        packet (- next_seq sndr) now []"
      unfolding mread_add by (simp add: mread_put_net_disjoint put_net_wire mread_mwrite_disjoint packet_def)
    then have "out = [packet (- next_seq sndr) now []]" using sent(3) by simp
    moreover have "snd_inv sndr' []"
      using assms(3) rs sent(4,7,8) n c by (auto simp: snd_inv_def staged_def same_config_def)
    ultimately show ?thesis using c n rs sent(2,7,8,10) by (auto simp: published_def)
  qed
qed

lemma mcast_on_empty_queue_published:
  assumes "mcast_on_empty_queue clk e sndr = (st, sndr', out)" "send_env_ok e" "clock_ok clk"
    and "snd_inv sndr rs" "st \<ge> 0"
  shows "\<exists>rs'. snd_inv sndr' rs' \<and> same_config sndr sndr' \<and> published sndr rs out sndr' rs' [] \<and>
    record_revs sndr' = record_revs sndr \<and> record_seqs sndr' = record_seqs sndr \<and> last_q_idx sndr' = last_q_idx sndr"
proof (cases clk)
  case (Inl err)
  then show ?thesis using assms(1,3,5) by (simp add: mcast_on_empty_queue_def clock_ok_def)
next
  case (Inr now)
  let ?hb = "sndr\<lparr>pkt_buf := put_net (pkt_buf sndr) 0 (- next_seq sndr), pkt_next := 16\<rparr>"
  consider "mcast_send_pkt e sndr = (st, sndr', out)"
    | "mcast_send_pkt e ?hb = (st, sndr', out)" "pkt_next sndr = 0" | "sndr' = sndr" "out = []"
    using assms(1) Inr by (auto simp: mcast_on_empty_queue_def split: if_splits)
  then show ?thesis
  proof cases
    case 1
    from send_staged_published [OF 1 assms(2,4,5)] show ?thesis by blast
  next
    case 2
    from send_heartbeat_published [OF 2(1) assms(2,4,5) 2(2)] show ?thesis by blast
  next
    case 3
    then show ?thesis using assms(4) by (auto simp: published_def)
  qed
qed

lemma published_cong:
  assumes "published s rs out s' rs' added" "next_seq s = next_seq t" "mcast_mtu s = mcast_mtu t"
    and "next_seq s' = next_seq t'"
  shows "published t rs out t' rs' added"
  using assms by (simp add: published_def)

lemma mcast_on_write_cases:
  assumes "mcast_on_write m es clk e sndr = (st, sndr', out)" "st \<ge> 0"
  obtains (empty) q where "mcast_on_empty_queue clk e (sndr\<lparr>last_q_idx := q\<rparr>) = (st, sndr', out)"
      "q = storage_get_queue_head m" "sint (q - last_q_idx sndr) \<le> 0"
    | (queue) q st1 qi s1 where
      "accum_queue es 0 q (unat (storage_get_queue_head m - q)) OK (sndr\<lparr>last_q_idx := q\<rparr>) [] = (st1, qi, s1, out)"
      "st = (if st1 = BLOCKED then OK else st1)" "sndr' = s1\<lparr>last_q_idx := qi\<rparr>"
      "storage_get_queue_head m - last_q_idx sndr \<le> storage_get_queue_capacity m \<longrightarrow> q = last_q_idx sndr"
proof -
  let ?d = "storage_get_queue_head m - last_q_idx sndr" and ?cap = "storage_get_queue_capacity m"
  have self: "sndr\<lparr>last_q_idx := last_q_idx sndr\<rparr> = sndr" by simp
  show thesis
  proof (cases "sint ?d \<le> 0")
    case True
    then consider "sint ?d < 0" | "?d = 0" by (auto simp: le_less signed_eq_0_iff)
    then have "mcast_on_empty_queue clk e (sndr\<lparr>last_q_idx := storage_get_queue_head m\<rparr>) = (st, sndr', out)"
      using assms(1) self by cases (auto simp: mcast_on_write_def Let_def)
    with True show thesis using that(1) by blast
  next
    case False
    then have d: "\<not> sint ?d < 0" "?d \<noteq> 0" by auto
    let ?run = "\<lambda>q. accum_queue es 0 q (unat (storage_get_queue_head m - q)) OK (sndr\<lparr>last_q_idx := q\<rparr>) []"
    define q where "q = (if ?d > ?cap then ?d - ?cap else last_q_idx sndr)"
    have run: "(st, sndr', out) = (case ?run q of (st, qi, sndr, out) \<Rightarrow>
        (if st = BLOCKED then OK else st, sndr\<lparr>last_q_idx := qi\<rparr>, out))"
    proof (cases "?d > ?cap")
      case True
      then have "ignore_overrun sndr"
        using assms d by (cases "ignore_overrun sndr") (simp_all add: mcast_on_write_def Let_def status_defs)
      with True show ?thesis using assms(1) d by (simp add: mcast_on_write_def Let_def q_def)
    next
      case False
      then show ?thesis using assms(1) d by (simp add: mcast_on_write_def Let_def q_def)
    qed
    obtain st1 qi s1 out1 where a: "?run q = (st1, qi, s1, out1)" by (cases "?run q")
    have "?d \<le> ?cap \<longrightarrow> q = last_q_idx sndr" by (auto simp: q_def)
    with run [unfolded a] a show thesis by (intro that(2) [of q st1 qi s1]) simp_all
  qed
qed

lemma mcast_on_write_published:
  assumes "mcast_on_write m es clk e sndr = (st, sndr', out)" "st \<ge> 0"
    and "snd_inv sndr rs" "\<forall>k. accum_env_ok (es k) sndr" "send_env_ok e" "clock_ok clk"
  shows "\<exists>rs' added. snd_inv sndr' rs' \<and> same_config sndr sndr' \<and> published sndr rs out sndr' rs' added \<and>
    renoted sndr sndr' added \<and>
    (\<forall>(i, v)\<in>set added. \<exists>k q. storage_read_queue (ac_mem (es k)) q True = Inr i \<and> copied (es k) sndr i v)"
proof -
  have inv: "snd_inv (sndr\<lparr>last_q_idx := q\<rparr>) rs" for q
    using assms(3) by (rule snd_inv_fields) (simp_all add: same_config_def)
  show ?thesis using assms(1,2)
  proof (cases rule: mcast_on_write_cases)
    case (empty q)
    from mcast_on_empty_queue_published [OF empty(1) assms(5,6) inv assms(2)] obtain rs' where
      r: "snd_inv sndr' rs'" "same_config (sndr\<lparr>last_q_idx := q\<rparr>) sndr'"
      "published (sndr\<lparr>last_q_idx := q\<rparr>) rs out sndr' rs' []" "record_revs sndr' = record_revs sndr" by auto
    from r(2) have "same_config sndr sndr'" by (simp add: same_config_def)
    then show ?thesis using r published_cong [OF r(3), of sndr sndr'] renoted_refl [OF r(4)]
      by (intro exI [of _ rs'] exI [of _ "[]"]) auto
  next
    case (queue q st1 qi s1)
    have env: "\<forall>j. accum_env_ok (es j) (sndr\<lparr>last_q_idx := q\<rparr>)"
      using assms(4) by (simp add: accum_env_ok_def)
    have "st1 \<ge> 0 \<or> st1 = BLOCKED" using queue(2) assms(2) by (auto split: if_splits)
    from accum_queue_published [OF queue(1) env inv this] obtain rs' added where
      p: "snd_inv s1 rs'" "same_config (sndr\<lparr>last_q_idx := q\<rparr>) s1"
      "published (sndr\<lparr>last_q_idx := q\<rparr>) rs out s1 rs' added" "renoted (sndr\<lparr>last_q_idx := q\<rparr>) s1 added" and
      c: "\<forall>(i, v)\<in>set added. \<exists>t<unat (storage_get_queue_head m - q).
        storage_read_queue (ac_mem (es (0 + t))) (q + of_nat t) True = Inr i \<and>
        copied (es (0 + t)) (sndr\<lparr>last_q_idx := q\<rparr>) i v"
      by (auto simp: OK_def)
    have "snd_inv sndr' rs'"
      using p(1) by (rule snd_inv_fields) (simp_all add: queue(3) same_config_def)
    moreover have "same_config sndr sndr'" using p(2) by (simp add: queue(3) same_config_def)
    moreover have "published sndr rs out sndr' rs' added"
      using p(3) by (rule published_cong) (simp_all add: queue(3))
    moreover have "renoted sndr sndr' added" using p(4) by (simp add: renoted_def queue(3))
    moreover have "\<forall>(i, v)\<in>set added. \<exists>k q. storage_read_queue (ac_mem (es k)) q True = Inr i \<and> copied (es k) sndr i v"
      using c by (fastforce simp: copied_def)
    ultimately show ?thesis by blast
  qed
qed
section \<open>The sender catches up with the storage\<close>

text \<open>While nobody writes to the storage, every look at it finds the memory \<open>m\<close>.\<close>

definition accum_quiet :: "accum_env \<Rightarrow> mem \<Rightarrow> bool" where
  "accum_quiet e m \<longleftrightarrow> ac_mem e = m \<and> ac_last e = m \<and> ac_looks e = []"

definition synced :: "sender \<Rightarrow> mem \<Rightarrow> ident \<Rightarrow> bool" where
  "synced sndr m i \<longleftrightarrow> valid_id m i \<and>
     record_revs sndr ! nat (i - base_id sndr) = record_get_revision m (rec_of (snd_store sndr) m i)"

lemma get_record_valid:
  assumes "storage_get_record st m i True = Inr r"
  shows "valid_id m i" "r = rec_of st m i"
proof -
  show v: "valid_id m i" using assms by (auto simp: storage_get_record_def valid_id_def split: if_splits)
  show "r = rec_of st m i" using assms storage_get_record_rec_of [OF v, of st] by simp
qed

lemma read_lock_rev: "record_read_lock slp m r = Inr rv \<Longrightarrow> rv = record_get_revision m r"
  unfolding record_read_lock_def record_get_revision_def by (drule spin_read_lock_at_InrD) simp

lemma copied_quiet:
  assumes "copied e sndr i v" "accum_quiet e m"
  shows "v = mread m (record_get_value_ref (rec_of (snd_store sndr) m i)) (val_size sndr)"
proof -
  obtain r rv ts rv' where c: "storage_get_record (snd_store sndr) m i True = Inr r"
    "record_read_lock (se_slp (ac_send e)) m r = Inr rv"
    "accum_copy (se_slp (ac_send e)) m r (val_size sndr) [] rv = Inr (v, ts, rv')"
    using assms by (auto simp: copied_def accum_quiet_def)
  then show ?thesis using read_lock_rev [OF c(2)] get_record_valid(2) [OF c(1)] by simp
qed

text \<open>One step of the loop leaves the record it looked at in step with the storage, and every other.\<close>

lemma accum_synced:
  assumes "mcast_accum_record e sndr i = (st, sndr', out)" "accum_env_ok e sndr" "snd_inv sndr rs"
    and "st \<ge> 0" "accum_quiet e m"
  shows "synced sndr' m i" "\<And>j. synced sndr m j \<Longrightarrow> synced sndr' m j"
proof -
  have m: "ac_mem e = m" "ac_last e = m" "ac_looks e = []" using assms(5) by (simp_all add: accum_quiet_def)
  have lay: "storage_get_base_id m = base_id sndr" "storage_get_max_id m = max_id sndr"
    using assms(2) by (simp_all add: accum_env_ok_def m)
  have "st \<ge> 0 \<or> st = BLOCKED" using assms(4) by simp
  with assms(1-3) have "synced sndr' m i \<and> (\<forall>j. synced sndr m j \<longrightarrow> synced sndr' m j)"
  proof (cases rule: mcast_accum_cases)
    case (same r)
    then show ?thesis
      using get_record_valid [OF same(4) [unfolded m]] read_lock_rev [OF same(5) [unfolded m]]
      by (simp add: synced_def)
  next
    case (blocked now)
    then show ?thesis using assms(4) by (simp add: status_defs)
  next
    case (added r rv v ts rv' s1 rs1)
    note g = get_record_valid [OF added(1) [unfolded m]] and rv = read_lock_rev [OF added(2) [unfolded m]]
    have rv': "rv' = record_get_revision m r" using added(3) rv by (simp add: m)
    have s1: "record_revs s1 = record_revs sndr" "base_id s1 = base_id sndr" "snd_store s1 = snd_store sndr"
      using added(4) by (auto simp: same_config_def)
    have s': "base_id sndr' = base_id sndr" "snd_store sndr' = snd_store sndr"
      using added(6) s1 by (simp_all add: same_config_def)
    have len: "length (record_revs sndr) = nat (max_id sndr - base_id sndr)"
      using assms(3) by (simp add: snd_inv_def)
    have i: "nat (i - base_id sndr) < length (record_revs sndr)"
      using g(1) len by (simp add: valid_id_def lay)
    have "j = i" if "valid_id m j" "nat (i - base_id sndr) = nat (j - base_id sndr)" for j
      using that g(1) by (auto simp: valid_id_def lay)
    then show ?thesis
      using g added(8) rv' i s1 s' by (auto simp: synced_def nth_list_update)
  qed
  then show "synced sndr' m i" "\<And>j. synced sndr m j \<Longrightarrow> synced sndr' m j" by blast+
qed

lemma accum_blocked_synced:
  assumes "mcast_accum_record e sndr i = (BLOCKED, sndr', out)" "accum_env_ok e sndr" "snd_inv sndr rs"
  shows "synced sndr m j \<Longrightarrow> synced sndr' m j"
proof -
  have b: "BLOCKED \<ge> 0 \<or> BLOCKED = BLOCKED" by simp
  from assms b show "synced sndr m j \<Longrightarrow> synced sndr' m j"
    by (cases rule: mcast_accum_cases) (auto simp: synced_def status_defs)
qed

lemma accum_queue_synced:
  assumes "accum_queue es k qi n st0 sndr out0 = (st, qi', sndr', out')"
    and "\<forall>j. accum_env_ok (es j) sndr" "snd_inv sndr rs" "st \<ge> 0 \<or> st = BLOCKED" "0 \<le> st0"
    and "\<forall>j. accum_quiet (es j) m"
  shows "\<exists>j\<le>n. qi' = qi + of_nat j \<and> (st = OK \<longrightarrow> j = n) \<and> (\<forall>i. synced sndr m i \<longrightarrow> synced sndr' m i) \<and>
    (\<forall>t<j. \<exists>i. storage_read_queue m (qi + of_nat t) True = Inr i \<and> synced sndr' m i)"
  using assms
proof (induction n arbitrary: k qi st0 sndr out0 rs)
  case 0
  then show ?case by simp
next
  case (Suc n)
  have m: "ac_mem (es k) = m" using Suc.prems(6) by (simp add: accum_quiet_def)
  obtain i where i: "storage_read_queue m qi True = Inr i"
    using Suc.prems(1,4) m
    by (cases "storage_read_queue m qi True")
      (auto simp: storage_read_queue_def status_defs split: if_splits)
  obtain st1 sndr1 out1 where a: "mcast_accum_record (es k) sndr i = (st1, sndr1, out1)"
    by (cases "mcast_accum_record (es k) sndr i")
  have env: "accum_env_ok (es k) sndr" using Suc.prems(2) by simp
  show ?case
  proof (cases "st1 = 0")
    case False
    then have r: "st = st1" "qi' = qi" "sndr' = sndr1" using Suc.prems(1) i a m by auto
    have "synced sndr1 m j" if "synced sndr m j" for j
      using accum_synced(2) [OF a env Suc.prems(3) _ spec [OF Suc.prems(6)] that]
        accum_blocked_synced [OF _ env Suc.prems(3) that] Suc.prems(4) r(1) a by auto
    with r False show ?thesis by (intro exI [of _ 0]) (simp add: OK_def)
  next
    case True
    have go: "accum_queue es (k + 1) (qi + 1) n st1 sndr1 (out0 @ out1) = (st, qi', sndr', out')"
      using Suc.prems(1) i a m True by simp
    have "st1 \<ge> 0 \<or> st1 = BLOCKED" using True by simp
    with a env Suc.prems(3) have "\<exists>rs1. snd_inv sndr1 rs1 \<and> same_config sndr sndr1"
      by (cases rule: mcast_accum_cases) (use Suc.prems(3) True in \<open>auto simp: status_defs\<close>)
    then obtain rs1 where inv1: "snd_inv sndr1 rs1" "same_config sndr sndr1" by blast
    have e1: "\<forall>j. accum_env_ok (es j) sndr1" using Suc.prems(2) inv1(2) by (simp add: accum_env_ok_cong)
    from Suc.IH [OF go e1 inv1(1) Suc.prems(4) _ Suc.prems(6)] True obtain j where
      j: "j \<le> n" "qi' = qi + 1 + of_nat j" "st = OK \<longrightarrow> j = n" "\<forall>i. synced sndr1 m i \<longrightarrow> synced sndr' m i"
      "\<forall>t<j. \<exists>i. storage_read_queue m (qi + 1 + of_nat t) True = Inr i \<and> synced sndr' m i" by auto
    have "0 \<le> st1" "accum_quiet (es k) m" using True Suc.prems(6) by simp_all
    note s = accum_synced [OF a env Suc.prems(3) this]
    have "\<exists>i. storage_read_queue m (qi + of_nat t) True = Inr i \<and> synced sndr' m i" if "t < Suc j" for t
      using that i s(1) j(4,5) by (cases t) (auto simp: add.assoc)
    with j s(2) show ?thesis by (intro exI [of _ "Suc j"]) (auto simp: add.assoc)
  qed
qed
section \<open>Properties of multicasting\<close>

text \<open>
  C5.  Whatever the other processes do to the storage, a call of \<open>mcast_on_write\<close> that does not fail
  keeps the sender's state well formed (the packet being filled holds whole records, under the
  next sequence number, and fits the MTU) and sends at most one datagram: a heartbeat naming
  the next sequence number, or the next packet in sequence, no longer than the MTU.  Records
  are neither lost nor reordered: what was sent followed by what is still in the packet is what
  was in the packet before, followed by records named by the change queue and copied under an
  unchanged revision.
\<close>

theorem mcast_on_write_packets:
  assumes "mcast_on_write m es clk e sndr = (st, sndr', out)" "st \<ge> 0"
    and "snd_inv sndr rs" "\<forall>k. accum_env_ok (es k) sndr" "send_env_ok e" "clock_ok clk"
  shows "\<exists>rs' added. snd_inv sndr' rs' \<and> same_config sndr sndr' \<and> published sndr rs out sndr' rs' added \<and>
    (\<forall>(i, v)\<in>set added. \<exists>k q. storage_read_queue (ac_mem (es k)) q True = Inr i \<and> copied (es k) sndr i v)"
  using mcast_on_write_published [OF assms] by blast


text \<open>A sender on the storage of the witnesses of theory \<open>Records\<close>, with one entry in the queue.\<close>

definition sample_sender :: "storage \<Rightarrow> mem \<Rightarrow> sender" where
  "sample_sender st m =
     \<lparr>listen_sock = 1, mcast_sock = 2, snd_store = st, base_id = storage_get_base_id m,
      max_id = storage_get_max_id m, val_size = storage_get_value_size m, client_count = 1,
      record_revs = replicate (storage_count m) (- 1), record_seqs = replicate (storage_count m) 0,
      next_seq = 1, min_seq = 0, ignore_recreate = True, ignore_overrun = False,
      store_created_time = 0, mcast_insert_time = 0, mcast_send_time = 0, last_active_time = 0,
      heartbeat_usec = 1000000, orphan_timeout_usec = 0, max_pkt_age_usec = 10, mcast_mtu = 1472,
      pkt_buf = (\<lambda>_. 0), pkt_next = 0, last_q_idx = 0,
      stg_latency = \<lparr>lat_curr = zero_stats, lat_next = zero_stats, lat_lock = 0\<rparr>,
      curr_stats = zero_sender_stats, next_stats = zero_sender_stats, stats_lock = 0,
      is_stopping = False, hello_str = [], clients = (\<lambda>_. None)\<rparr>"

definition sample_send :: send_env where
  "sample_send = \<lparr>se_raised = (\<lambda>_. False), se_slp = (\<lambda>_. OK), se_clock = Inr 5000000, se_sendto = Moved 0\<rparr>"

definition sample_accum :: "mem \<Rightarrow> accum_env" where
  "sample_accum m = \<lparr>ac_mem = m, ac_looks = [], ac_last = m, ac_send = sample_send, ac_clock = Inr 5000000\<rparr>"

lemma sample_send_ok: "send_env_ok sample_send"
  by (simp add: send_env_ok_def sample_send_def clock_ok_def io_ok_def is_long_def LONG_MAX_def LONG_MIN_def
      status_defs)
lemma sample_inv:
  assumes "stg_ok st m" "storage_get_value_size m = 8"
  shows "snd_inv (sample_sender st m) []" "accum_env_ok (sample_accum m) (sample_sender st m)"
  using assms sample_send_ok
  by (simp_all add: snd_inv_def staged_def sample_sender_def storage_count_def SEQUENCE_MAX_def LONG_MAX_def
      accum_env_ok_def sample_accum_def clock_ok_def is_long_def LONG_MIN_def)

lemma sample_accum_stages:
  assumes "stg_ok st m" "storage_get_value_size m = 8" "valid_id m i" "unlocked (load64 m (rec_of st m i))"
  shows "\<exists>s. mcast_accum_record (sample_accum m) (sample_sender st m) i = (OK, s, [])"
proof -
  have i: "nat (i - storage_get_base_id m) < storage_count m"
    using assms(3) by (simp add: valid_id_def storage_count_def)
  have "\<not> unlocked (- 1)" by (simp add: unlocked_def)
  then have rv: "load64 m (rec_of st m i) \<noteq> - 1" using assms(4) by metis
  have lock: "record_read_lock slp m (rec_of st m i) = Inr (load64 m (rec_of st m i))" for slp
    using assms(4) by (simp add: record_read_lock_def)
  have lat: "latency_on_sample slp \<lparr>lat_curr = zero_stats, lat_next = zero_stats, lat_lock = 0\<rparr> x =
    (OK, \<lparr>lat_curr = zero_stats, lat_next = add_sample zero_stats x, lat_lock = 0\<rparr>)" for slp x
    by (simp add: latency_on_sample_def spin_write_lock_def spin_loop.simps)
  show ?thesis
    using assms i rv
    by (simp add: mcast_accum_record_def sample_sender_def sample_accum_def accum_stage_def Let_def lock
        record_get_revision_def lat status_defs)
qed

text \<open>The sample storage with identifier 11 in its queue.\<close>

lemma sample_queued:
  obtains st m where "stg_ok st m" "storage_get_value_size m = 8" "storage_get_queue_head m = 1"
    "storage_get_queue_capacity m = 4" "storage_read_queue m 0 True = Inr 11" "valid_id m 11"
    "unlocked (load64 m (rec_of st m 11))" "storage_get_base_id m = 10"
proof -
  obtain st m where s: "stg_ok st m" "\<not> stg_read_only st" "has_queue m" "storage_get_base_id m = 10"
    "storage_get_max_id m = 14" "storage_get_value_size m = 8" "storage_get_queue_capacity m = 4"
    "storage_get_queue_head m = 0" "\<forall>r\<in>set (storage_records st m). unlocked (load64 m r)"
    using sample_store by blast
  have v: "valid_id m 11" using s(4,5) by (simp add: valid_id_def)
  obtain m' where w: "storage_write_queue st m 11 = (OK, m')" "same_layout m m'"
    "storage_get_queue_head m' = storage_get_queue_head m + 1" "\<forall>a\<ge>stg_first st. m' a = m a"
    using storage_write_queue_OK [OF s(1-3), of 11] by metis
  have "storage_read_queue m' (storage_get_queue_head m + of_nat 0) True = Inr ([11] ! 0)"
    by (rule queue_chain_read [of st m "[11]" m']) (use s w(1) in \<open>simp_all add: is_long_def LONG_MAX_def LONG_MIN_def Suc_le_eq\<close>)
  moreover have r: "rec_of st m' 11 = rec_of st m 11" using w(2) by (rule same_layout_ids(1))
  moreover have "load64 m' (rec_of st m 11) = load64 m (rec_of st m 11)"
    using w(4) is_record_bounds(1) [OF s(1) rec_of_is_record [OF v]] by (intro load_cong) auto
  moreover have "unlocked (load64 m (rec_of st m 11))"
    using s(9) rec_of_is_record [OF v, of st] by (simp add: is_record_def)
  ultimately show thesis
    using that [of st m'] s w v by (simp add: same_layout_stg_ok same_layout_fields same_layout_ids
        storage_get_queue_capacity_def valid_id_def)
qed

lemma sample_write:
  assumes "stg_ok st m" "storage_get_value_size m = 8" "storage_get_queue_head m = 1"
    "storage_get_queue_capacity m = 4" "storage_read_queue m 0 True = Inr 11" "valid_id m 11"
    "unlocked (load64 m (rec_of st m 11))"
  obtains s out where
    "mcast_on_write m (\<lambda>_. sample_accum m) (Inr 5000000) sample_send (sample_sender st m) = (OK, s, out)"
proof -
  obtain s where a: "mcast_accum_record (sample_accum m) (sample_sender st m) 11 = (OK, s, [])"
    using sample_accum_stages [OF assms(1,2,6,7)] by blast
  have q: "accum_queue (\<lambda>_. sample_accum m) 0 0 (Suc 0) 0 (sample_sender st m) [] = (0, 1, s, [])"
    using assms(5) a by (simp add: sample_accum_def OK_def)
  have l: "last_q_idx (sample_sender st m) = 0" by (simp add: sample_sender_def)
  have "mcast_on_write m (\<lambda>_. sample_accum m) (Inr 5000000) sample_send (sample_sender st m) =
    (OK, s\<lparr>last_q_idx := 1\<rparr>, [])"
    using q l assms(3,4) by (simp add: mcast_on_write_def Let_def status_defs)
  then show thesis by (rule that)
qed

theorem mcast_on_write_packets_witness:
  "\<exists>st m s out rs' added. mcast_on_write m (\<lambda>_. sample_accum m) (Inr 5000000) sample_send (sample_sender st m) =
      (OK, s, out) \<and> snd_inv s rs' \<and> published (sample_sender st m) [] out s rs' added"
proof -
  obtain st m where s: "stg_ok st m" "storage_get_value_size m = 8" "storage_get_queue_head m = 1"
    "storage_get_queue_capacity m = 4" "storage_read_queue m 0 True = Inr 11" "valid_id m 11"
    "unlocked (load64 m (rec_of st m 11))" by (rule sample_queued)
  obtain s out where w:
    "mcast_on_write m (\<lambda>_. sample_accum m) (Inr 5000000) sample_send (sample_sender st m) = (OK, s, out)"
    using s by (rule sample_write)
  have "OK \<ge> 0" "clock_ok (Inr 5000000)"
    by (simp_all add: OK_def clock_ok_def is_long_def LONG_MAX_def LONG_MIN_def)
  with mcast_on_write_packets [OF w _ sample_inv(1) [OF s(1,2)] _ sample_send_ok] sample_inv(2) [OF s(1,2)] w
  show ?thesis by blast
qed


end
