(* ===== verification/Gaps.thy ===== *)
theory Gaps
  imports Multicast
begin

text \<open>
  What the TCP half of \<open>sender.c\<close> guarantees: a request is read whatever the pieces it arrives in,
  ranges asked for are merged and never dropped while a record may lie in them, and the answer
  to a range is exactly the records whose last packet lies in it.
\<close>

section \<open>Scanning for the next record to send\<close>

definition seq_of :: "sender \<Rightarrow> ident \<Rightarrow> sequence" where
  "seq_of sndr i = record_seqs sndr ! nat (i - base_id sndr)"

text \<open>The record is in use and its last packet lies in the range.\<close>

definition wanted :: "sender \<Rightarrow> mem \<Rightarrow> sequence_range \<Rightarrow> ident \<Rightarrow> bool" where
  "wanted sndr m rng i \<longleftrightarrow> IS_WITHIN_RANGE rng (seq_of sndr i) \<and>
     record_get_revision m (rec_of (snd_store sndr) m i) \<noteq> 0"

definition value_of :: "sender \<Rightarrow> mem \<Rightarrow> ident \<Rightarrow> byte list" where
  "value_of sndr m i = mread m (record_get_value_ref (rec_of (snd_store sndr) m i)) (val_size sndr)"

text \<open>A reply as it goes over the wire.\<close>

definition reply_bytes :: "sender \<Rightarrow> mem \<Rightarrow> ident \<Rightarrow> byte list" where
  "reply_bytes sndr m i = wire64 (seq_of sndr i) @ wire64 i @ value_of sndr m i"

text \<open>The storage is not written to during the call, and none of its records is locked.\<close>

definition write_quiet :: "write_env \<Rightarrow> sender \<Rightarrow> mem \<Rightarrow> bool" where
  "write_quiet e sndr m \<longleftrightarrow> we_mem e = m \<and> we_last e = m \<and> (\<forall>i. we_looks e i = []) \<and>
     stg_ok (snd_store sndr) m \<and> storage_get_base_id m = base_id sndr \<and> storage_get_max_id m = max_id sndr \<and>
     storage_get_value_size m = val_size sndr \<and>
     (\<forall>i. valid_id m i \<longrightarrow> unlocked (load64 m (rec_of (snd_store sndr) m i)))"

lemma reply_copy_quiet:
  assumes "write_quiet e sndr m" "valid_id m i"
  shows "reply_copy slp (we_last e) (rec_of (snd_store sndr) m i) (val_size sndr) (we_looks e i) =
    Inr (if record_get_revision m (rec_of (snd_store sndr) m i) = 0 then None else Some (value_of sndr m i))"
  using assms by (simp add: write_quiet_def record_read_lock_def value_of_def record_get_revision_def)

definition min_scanned :: "sender \<Rightarrow> ident list \<Rightarrow> sequence \<Rightarrow> sequence" where
  "min_scanned sndr is s = foldl min s (map (seq_of sndr) is)"

lemma min_scanned_simps [simp]:
  "min_scanned sndr [] s = s"
  "min_scanned sndr (i # is) s = min_scanned sndr is (min s (seq_of sndr i))"
  by (simp_all add: min_scanned_def)

lemma min_scanned_le: "min_scanned sndr is s \<le> s" "i \<in> set is \<Longrightarrow> min_scanned sndr is s \<le> seq_of sndr i"
proof (induction "is" arbitrary: s)
  case (Cons k ks)
  { case 1 then show ?case using Cons.IH(1) [of "min s (seq_of sndr k)"] by simp
  next
    case 2
    then show ?case
      using Cons.IH(1) [of "min s (seq_of sndr k)"] Cons.IH(2) [of "min s (seq_of sndr k)"] by auto }
qed simp_all

text \<open>The state a reply to \<open>i\<close> leaves.\<close>

definition reply_to :: "sender \<Rightarrow> mem \<Rightarrow> ident \<Rightarrow> tcp_client \<Rightarrow> tcp_client" where
  "reply_to sndr m i clnt =
     clnt\<lparr>min_seq_found := min_scanned sndr [reply_id clnt..i] (min_seq_found clnt),
          out_buf := put_net (put_net (mwrite (out_buf clnt) 16 (value_of sndr m i)) 0 (seq_of sndr i)) 8 i,
          out_next := 0, out_remain := pkt_size clnt, reply_id := i + 1\<rparr>"

text \<open>One round of the scan: the number of the record is noted, and the record passed.\<close>

definition passed :: "sender \<Rightarrow> tcp_client \<Rightarrow> tcp_client" where
  "passed sndr clnt = clnt\<lparr>min_seq_found := min (min_seq_found clnt) (seq_of sndr (reply_id clnt)), reply_id := reply_id clnt + 1\<rparr>"

lemma passed_fields [simp]:
  "reply_id (passed sndr clnt) = reply_id clnt + 1" "reply_range (passed sndr clnt) = reply_range clnt"
  "min_seq_found (passed sndr clnt) = min (min_seq_found clnt) (seq_of sndr (reply_id clnt))"
  by (simp_all add: passed_def)

lemma reply_scan_Suc:
  "reply_scan e sndr (Suc n) st clnt =
     (let k = reply_id clnt; c = clnt\<lparr>min_seq_found := min (min_seq_found clnt) (seq_of sndr k)\<rparr>
      in if IS_WITHIN_RANGE (reply_range clnt) (seq_of sndr k) then
           (case storage_get_record (snd_store sndr) (we_mem e) k True of
              Inl err \<Rightarrow> (err, False, c)
            | Inr r \<Rightarrow>
                (case reply_copy (we_slp e) (we_last e) r (val_size sndr) (we_looks e k) of
                   Inl err \<Rightarrow> (err, False, c)
                 | Inr None \<Rightarrow> reply_scan e sndr n OK (passed sndr clnt)
                 | Inr (Some val) \<Rightarrow> (OK, True, (passed sndr clnt)\<lparr>
                     out_buf := put_net (put_net (mwrite (out_buf clnt) 16 val) 0 (seq_of sndr k)) 8 k,
                     out_next := 0, out_remain := pkt_size clnt\<rparr>)))
         else reply_scan e sndr n st (passed sndr clnt))"
proof -
  define c where "c = clnt\<lparr>min_seq_found := min (min_seq_found clnt) (seq_of sndr (reply_id clnt))\<rparr>"
  have s: "record_seqs sndr ! nat (reply_id clnt - base_id sndr) = seq_of sndr (reply_id clnt)"
    and e: "(if seq_of sndr (reply_id clnt) < min_seq_found clnt then clnt\<lparr>min_seq_found := seq_of sndr (reply_id clnt)\<rparr> else clnt) = c"
    by (auto simp: c_def seq_of_def min_def)
  have f: "reply_id c = reply_id clnt" "reply_range c = reply_range clnt" "out_buf c = out_buf clnt" "pkt_size c = pkt_size clnt"
    "c\<lparr>reply_id := reply_id clnt + 1\<rparr> = passed sndr clnt"
    "c\<lparr>out_buf := b, out_next := j, out_remain := z, reply_id := reply_id clnt + 1\<rparr> =
      (passed sndr clnt)\<lparr>out_buf := b, out_next := j, out_remain := z\<rparr>" for b j z
    by (simp_all add: c_def passed_def)
  show ?thesis unfolding reply_scan.simps(2) Let_def s e c_def [symmetric] f by (rule refl)
qed

lemma reply_scan_quiet:
  assumes "write_quiet e sndr m" "base_id sndr \<le> reply_id clnt" "n = nat (max_id sndr - reply_id clnt)"
    and "reply_id clnt \<le> max_id sndr" "0 \<le> st"
  shows "case find (wanted sndr m (reply_range clnt)) [reply_id clnt..max_id sndr - 1] of
      None \<Rightarrow> \<exists>st'\<ge>0. reply_scan e sndr n st clnt = (st', False, clnt\<lparr>reply_id := max_id sndr,
        min_seq_found := min_scanned sndr [reply_id clnt..max_id sndr - 1] (min_seq_found clnt)\<rparr>)
    | Some i \<Rightarrow> reply_scan e sndr n st clnt = (OK, True, reply_to sndr m i clnt)"
  using assms(2-5)
proof (induction n arbitrary: clnt st)
  case 0
  then have "reply_id clnt = max_id sndr" by simp
  then show ?case using 0 by (auto intro!: exI [of _ st])
next
  case (Suc n)
  let ?k = "reply_id clnt" and ?s = "seq_of sndr (reply_id clnt)" and ?P = "wanted sndr m (reply_range clnt)"
  define c2 where "c2 = passed sndr clnt"
  have k: "?k < max_id sndr" "n = nat (max_id sndr - (?k + 1))" using Suc.prems by simp_all
  have up: "[?k..max_id sndr - 1] = ?k # [?k + 1..max_id sndr - 1]" using k(1) by (simp add: upto_rec1)
  have v: "valid_id m ?k" using assms(1) Suc.prems(1) k(1) by (simp add: valid_id_def write_quiet_def)
  have m: "we_mem e = m" using assms(1) by (simp add: write_quiet_def)
  have step: "reply_scan e sndr (Suc n) st clnt =
      (if IS_WITHIN_RANGE (reply_range clnt) ?s
       then if record_get_revision m (rec_of (snd_store sndr) m ?k) = 0 then reply_scan e sndr n OK c2
            else (OK, True, reply_to sndr m ?k clnt)
       else reply_scan e sndr n st c2)"
    using v reply_copy_quiet [OF assms(1) v, of "we_slp e"]
    unfolding reply_scan_Suc Let_def m c2_def
    by (simp del: reply_scan.simps) (simp add: passed_def reply_to_def min.commute del: reply_scan.simps)
  show ?case
  proof (cases "?P ?k")
    case True
    then show ?thesis using up step by (simp add: wanted_def)
  next
    case False
    define st1 where "st1 = (if IS_WITHIN_RANGE (reply_range clnt) ?s then OK else st)"
    have go: "reply_scan e sndr (Suc n) st clnt = reply_scan e sndr n st1 c2" "0 \<le> st1"
      using False step Suc.prems(4) by (auto simp: wanted_def st1_def OK_def)
    have c2: "reply_id c2 = ?k + 1" "reply_range c2 = reply_range clnt"
      "min_seq_found c2 = min (min_seq_found clnt) ?s" by (simp_all add: c2_def)
    have to: "reply_to sndr m i c2 = reply_to sndr m i clnt" if "?k < i" for i
      using that upto_rec1 [of ?k i] by (simp add: reply_to_def c2_def passed_def)
    have "case find ?P [?k + 1..max_id sndr - 1] of
        None \<Rightarrow> \<exists>st'\<ge>0. reply_scan e sndr n st1 c2 = (st', False, c2\<lparr>reply_id := max_id sndr,
          min_seq_found := min_scanned sndr [?k + 1..max_id sndr - 1] (min_seq_found c2)\<rparr>)
      | Some i \<Rightarrow> reply_scan e sndr n st1 c2 = (OK, True, reply_to sndr m i c2)"
      using Suc.IH [of c2 st1, unfolded c2(1,2)] Suc.prems k go(2) by simp
    moreover have "?k < i" if "find ?P [?k + 1..max_id sndr - 1] = Some i" for i
      using that by (auto simp: find_Some_iff dest!: nth_mem)
    moreover have "find ?P [?k..max_id sndr - 1] = find ?P [?k + 1..max_id sndr - 1]" using False up by simp
    ultimately show ?thesis
      using go(1) up to by (auto simp: c2(3) c2_def passed_def split: option.splits)
  qed
qed

section \<open>The stream of replies\<close>

text \<open>What is still in the output buffer, and what is still to be composed.\<close>

definition unsent :: "tcp_client \<Rightarrow> byte list" where
  "unsent clnt = mread (out_buf clnt) (out_next clnt) (out_remain clnt)"

definition todo :: "sender \<Rightarrow> mem \<Rightarrow> tcp_client \<Rightarrow> byte list" where
  "todo sndr m clnt =
     (if IS_VALID_RANGE (reply_range clnt)
      then concat (map (reply_bytes sndr m)
             (filter (wanted sndr m (reply_range clnt)) [reply_id clnt..max_id sndr - 1]))
      else [])"

definition clnt_ok :: "sender \<Rightarrow> tcp_client \<Rightarrow> bool" where
  "clnt_ok sndr clnt \<longleftrightarrow> pkt_size clnt = 16 + val_size sndr \<and>
     (IS_VALID_RANGE (reply_range clnt) \<longrightarrow> base_id sndr \<le> reply_id clnt \<and> reply_id clnt \<le> max_id sndr)"

lemma find_filter:
  "find P xs = None \<Longrightarrow> filter P xs = []"
  "find P xs = Some x \<Longrightarrow> \<exists>ys zs. xs = ys @ x # zs \<and> filter P xs = x # filter P zs"
proof (induction xs)
  case (Cons y xs)
  { case 1
    then show ?case using Cons.IH(1) by (auto split: if_splits)
  next
    case 2
    show ?case
    proof (cases "P y")
      case True
      then show ?thesis using 2 by (intro exI [of _ "[]"] exI [of _ xs]) auto
    next
      case False
      with 2 Cons.IH(2) obtain ys zs where "xs = ys @ x # zs" "filter P xs = x # filter P zs" by auto
      with False show ?thesis by (intro exI [of _ "y # ys"] exI [of _ zs]) auto
    qed }
qed simp_all

lemma upto_split_at: "[a..b] = ys @ i # zs \<Longrightarrow> zs = [i + 1..b]"
proof (induction ys arbitrary: a)
  case Nil
  then have "a \<le> b" by (cases "a \<le> b") simp_all
  with Nil show ?case by (auto simp: upto_rec1)
next
  case (Cons y ys)
  then have "a \<le> b" by (cases "a \<le> b") simp_all
  with Cons show ?case by (auto simp: upto_rec1)
qed

lemma wanted_first:
  assumes "find P [k..b] = Some i"
  shows "filter P [k..b] = i # filter P [i + 1..b]" "k \<le> i" "i \<le> b" "P i"
proof -
  from find_filter(2) [OF assms] obtain ys zs where y: "[k..b] = ys @ i # zs" "filter P [k..b] = i # filter P zs"
    by blast
  show "filter P [k..b] = i # filter P [i + 1..b]" using y(2) upto_split_at [OF y(1)] by simp
  have "i \<in> set [k..b]" by (simp only: y(1)) simp
  then show "k \<le> i" "i \<le> b" by simp_all
  show "P i" using assms by (simp add: find_Some_iff) blast
qed

lemma unsent_reply_to:
  assumes "clnt_ok sndr clnt"
  shows "unsent (reply_to sndr m i clnt) = reply_bytes sndr m i"
proof -
  let ?v = "value_of sndr m i"
  let ?b = "put_net (put_net (mwrite (out_buf clnt) 16 ?v) 0 (seq_of sndr i)) 8 i"
  have l: "length ?v = val_size sndr" by (simp add: value_of_def)
  have "mread ?b 0 (8 + (8 + val_size sndr)) = wire64 (seq_of sndr i) @ wire64 i @ ?v"
    unfolding mread_add using l
    by (simp add: mread_put_net_disjoint put_net_wire mread_mwrite_disjoint)
  then show ?thesis
    using assms by (simp add: unsent_def reply_to_def clnt_ok_def reply_bytes_def)
qed

text \<open>Draining the buffer changes only the buffer position, the statistics and times.\<close>

lemma snd_tcp_write_buf_stream:
  assumes "snd_tcp_write_buf sg slp clk xs sndr clnt = (st, sndr', clnt', out)"
  shows "out @ unsent clnt' = unsent clnt" "same_config sndr sndr'" "record_seqs sndr' = record_seqs sndr"
    "clnt' = clnt\<lparr>out_next := out_next clnt', out_remain := out_remain clnt', tcp_send_time := tcp_send_time clnt'\<rparr>"
proof -
  obtain st1 nx rem sent where w:
    "write_loop sg (out_buf clnt) xs OK (out_next clnt) (out_remain clnt) [] = (st1, nx, rem, sent)"
    by (cases "write_loop sg (out_buf clnt) xs OK (out_next clnt) (out_remain clnt) []")
  note l = write_loop_sent [OF w]
  have c: "out = sent" "out_buf clnt' = out_buf clnt" "out_next clnt' = nx" "out_remain clnt' = rem"
    "clnt' = clnt\<lparr>out_next := nx, out_remain := rem, tcp_send_time := tcp_send_time clnt'\<rparr>"
    using assms w by (auto simp: snd_tcp_write_buf_def Let_def split: if_splits sum.splits)
  show "out @ unsent clnt' = unsent clnt"
    using mread_add [of "out_buf clnt" "out_next clnt" "nx - out_next clnt" rem] l(1-3)
    by (simp add: unsent_def c(1-4))
  show "clnt' = clnt\<lparr>out_next := out_next clnt', out_remain := out_remain clnt', tcp_send_time := tcp_send_time clnt'\<rparr>"
    using c(5) by (simp add: c(3,4))
  show "same_config sndr sndr'" "record_seqs sndr' = record_seqs sndr"
    using assms w by (auto simp: snd_tcp_write_buf_def Let_def same_config_def dest!: with_stats_Inr
        split: if_splits sum.splits)
qed
lemma todo_cong:
  assumes "same_config sndr sndr'" "record_seqs sndr' = record_seqs sndr"
    and "reply_range clnt' = reply_range clnt" "reply_id clnt' = reply_id clnt"
  shows "todo sndr' m clnt' = todo sndr m clnt"
proof -
  have "wanted sndr' m = wanted sndr m" "reply_bytes sndr' m = reply_bytes sndr m"
    using assms(1,2) by (auto simp: wanted_def reply_bytes_def seq_of_def value_of_def same_config_def fun_eq_iff)
  with assms show ?thesis by (simp add: todo_def same_config_def)
qed

lemma write_quiet_cong: "same_config sndr sndr' \<Longrightarrow> write_quiet e sndr' m = write_quiet e sndr m"
  by (simp add: write_quiet_def same_config_def)

lemma clnt_ok_cong:
  "same_config sndr sndr' \<Longrightarrow> pkt_size clnt' = pkt_size clnt \<Longrightarrow> reply_range clnt' = reply_range clnt \<Longrightarrow>
    reply_id clnt' = reply_id clnt \<Longrightarrow> clnt_ok sndr' clnt' = clnt_ok sndr clnt"
  by (simp add: clnt_ok_def same_config_def)

text \<open>Composing the next reply, or finding that there is none.\<close>

lemma reply_scan_stream:
  assumes "reply_scan e sndr (nat (max_id sndr - reply_id clnt)) st clnt = (st', replied, clnt')"
    and "write_quiet e sndr m" "clnt_ok sndr clnt" "IS_VALID_RANGE (reply_range clnt)" "0 \<le> st" "out_remain clnt = 0"
  shows "0 \<le> st'" "replied \<Longrightarrow> clnt_ok sndr clnt' \<and> unsent clnt' @ todo sndr m clnt' = todo sndr m clnt"
    "\<not> replied \<Longrightarrow> todo sndr m clnt = [] \<and> clnt' = clnt\<lparr>reply_id := max_id sndr,
       min_seq_found := min_scanned sndr [reply_id clnt..max_id sndr - 1] (min_seq_found clnt)\<rparr>"
    "replied \<Longrightarrow> reply_range clnt' = reply_range clnt \<and> reply_id clnt < reply_id clnt'"
proof -
  let ?P = "wanted sndr m (reply_range clnt)" and ?xs = "[reply_id clnt..max_id sndr - 1]"
  have k: "base_id sndr \<le> reply_id clnt" "reply_id clnt \<le> max_id sndr"
    using assms(3,4) by (simp_all add: clnt_ok_def)
  note sc = reply_scan_quiet [OF assms(2) k(1) refl k(2) assms(5)]
  have t: "todo sndr m clnt = concat (map (reply_bytes sndr m) (filter ?P ?xs))"
    using assms(4) by (simp add: todo_def)
  have "0 \<le> st' \<and> (replied \<longrightarrow> clnt_ok sndr clnt' \<and> unsent clnt' @ todo sndr m clnt' = todo sndr m clnt \<and>
      reply_range clnt' = reply_range clnt \<and> reply_id clnt < reply_id clnt') \<and>
    (\<not> replied \<longrightarrow> todo sndr m clnt = [] \<and> clnt' = clnt\<lparr>reply_id := max_id sndr,
       min_seq_found := min_scanned sndr ?xs (min_seq_found clnt)\<rparr>)"
  proof (cases "find ?P ?xs")
    case None
    then show ?thesis using sc assms(1) find_filter(1) [OF None] t by auto
  next
    case (Some i)
    note w = wanted_first [OF Some]
    have c: "clnt' = reply_to sndr m i clnt" "replied" "st' = OK" using sc assms(1) Some by auto
    have "reply_range clnt' = reply_range clnt" "reply_id clnt' = i + 1" "pkt_size clnt' = pkt_size clnt"
      by (simp_all add: c(1) reply_to_def)
    then show ?thesis
      using c assms(3,4) w k unsent_reply_to [OF assms(3), of m i] t
      by (auto simp: todo_def clnt_ok_def OK_def)
  qed
  then show "0 \<le> st'" "replied \<Longrightarrow> clnt_ok sndr clnt' \<and> unsent clnt' @ todo sndr m clnt' = todo sndr m clnt"
    "\<not> replied \<Longrightarrow> todo sndr m clnt = [] \<and> clnt' = clnt\<lparr>reply_id := max_id sndr,
       min_seq_found := min_scanned sndr [reply_id clnt..max_id sndr - 1] (min_seq_found clnt)\<rparr>"
    "replied \<Longrightarrow> reply_range clnt' = reply_range clnt \<and> reply_id clnt < reply_id clnt'"
    by blast+
qed

lemma INVALIDATE_RANGE_invalid [simp]: "\<not> IS_VALID_RANGE INVALIDATE_RANGE"
  by (simp add: IS_VALID_RANGE_def INVALIDATE_RANGE_def SEQUENCE_MAX_def SEQUENCE_MIN_def LONG_MAX_def LONG_MIN_def)

text \<open>
  What filling the empty buffer does: it moves a message from what is still to be composed into
  the buffer, or ends the range, or adds a heartbeat.
\<close>

definition composed ::
  "sender \<Rightarrow> mem \<Rightarrow> tcp_client \<Rightarrow> byte list \<Rightarrow> byte list \<Rightarrow> sender \<Rightarrow> tcp_client \<Rightarrow> bool" where
  "composed sndr m clnt out hb sndr' clnt' \<longleftrightarrow> clnt_ok sndr' clnt' \<and>
     out @ unsent clnt' @ todo sndr' m clnt' = unsent clnt @ todo sndr m clnt @ hb \<and>
     (hb = [] \<or> hb = wire64 HEARTBEAT_SEQ \<and> \<not> IS_VALID_RANGE (reply_range clnt)) \<and>
     (IS_VALID_RANGE (reply_range clnt) \<and> \<not> IS_VALID_RANGE (reply_range clnt') \<longrightarrow>
        min_seq sndr' = min_scanned sndr [reply_id clnt..max_id sndr - 1] (min_seq_found clnt))"

lemma tcp_compose_stream:
  assumes "tcp_compose e st sndr clnt = (st', sndr', clnt')" "0 \<le> st'" "0 \<le> st" "out_remain clnt = 0"
    and "write_quiet e sndr m" "clnt_ok sndr clnt"
  shows "\<exists>hb. composed sndr m clnt [] hb sndr' clnt'"
proof (cases "IS_VALID_RANGE (reply_range clnt)")
  case valid: True
  obtain st3 replied c2 where s: "reply_scan e sndr (nat (max_id sndr - reply_id clnt)) st clnt = (st3, replied, c2)"
    by (cases "reply_scan e sndr (nat (max_id sndr - reply_id clnt)) st clnt")
  note r = reply_scan_stream [OF s assms(5,6) valid assms(3,4)]
  have u: "unsent clnt = []" using assms(4) by (simp add: unsent_def)
  show ?thesis
  proof (cases replied)
    case True
    then have "sndr' = sndr" "clnt' = c2" using assms(1) valid s by (simp_all add: tcp_compose_def)
    then show ?thesis using r(2,4) [OF True] u valid by (auto simp: composed_def)
  next
    case False
    then have e: "sndr' = sndr\<lparr>min_seq := min_seq_found c2\<rparr>" "clnt' = c2\<lparr>reply_range := INVALIDATE_RANGE\<rparr>"
      using assms(1) valid s r(1) by (simp_all add: tcp_compose_def)
    note c2 = r(3) [OF False]
    have "unsent clnt' = []" using c2 assms(4) by (simp add: e unsent_def)
    moreover have "clnt_ok sndr' clnt'" using c2 assms(6) by (simp add: e clnt_ok_def)
    ultimately show ?thesis using c2 u by (intro exI [of _ "[]"]) (simp add: composed_def e todo_def)
  qed
next
  case False
  have hb: "unsent (clnt\<lparr>out_buf := put_net b 0 HEARTBEAT_SEQ, out_next := 0, out_remain := 8\<rparr>) = wire64 HEARTBEAT_SEQ"
    for b by (simp add: unsent_def put_net_wire)
  have "unsent clnt = []" using assms(4) by (simp add: unsent_def)
  with False assms(1,6) hb show ?thesis
    by (cases "we_clock2 e") (auto simp: tcp_compose_def composed_def todo_def clnt_ok_def split: if_splits)
qed

lemma tcp_on_write_composed:
  assumes "snd_tcp_on_write e sndr clnt = (st, sndr', clnt', out)" "0 \<le> st"
    and "write_quiet e sndr m" "clnt_ok sndr clnt"
  shows "\<exists>hb. composed sndr m clnt out hb sndr' clnt'"
proof -
  obtain st1 s1 c1 where w:
    "snd_tcp_write_buf (we_raised e) (we_slp e) (we_clock e) (we_writes e) sndr clnt = (st1, s1, c1, out)"
    using assms(1) by (auto simp: snd_tcp_on_write_def Let_def split: prod.splits if_splits)
  note b = snd_tcp_write_buf_stream [OF w]
  have f: "reply_range c1 = reply_range clnt" "reply_id c1 = reply_id clnt" "pkt_size c1 = pkt_size clnt"
    "min_seq_found c1 = min_seq_found clnt" by (subst b(4), simp)+
  have ok1: "clnt_ok s1 c1" using assms(4) b(2) f by (simp add: clnt_ok_cong)
  have t1: "todo s1 m c1 = todo sndr m clnt" using b(2,3) f(1,2) by (rule todo_cong)
  have q1: "write_quiet e s1 m" using assms(3) b(2) by (simp add: write_quiet_cong)
  have "seq_of s1 = seq_of sndr" using b(2,3) by (simp add: fun_eq_iff seq_of_def same_config_def)
  then have ms: "\<And>is x. min_scanned s1 is x = min_scanned sndr is x" "max_id s1 = max_id sndr"
    using b(2) by (simp_all add: min_scanned_def same_config_def)
  define st2 where "st2 = (if st1 = BLOCKED then OK else st1)"
  have st2: "0 \<le> st2" using assms(1,2) w by (auto simp: snd_tcp_on_write_def st2_def OK_def split: if_splits)
  show ?thesis
  proof (cases "out_remain c1 = 0")
    case True
    obtain st3 s3 c3 where c: "tcp_compose e st2 s1 c1 = (st3, s3, c3)" by (cases "tcp_compose e st2 s1 c1")
    have r: "st = st3" "sndr' = s3" "clnt' = c3"
      using assms(1) w True c st2 by (auto simp: snd_tcp_on_write_def Let_def st2_def split: if_splits)
    have u: "unsent c1 = []" using True by (simp add: unsent_def)
    from tcp_compose_stream [OF c _ st2 True q1 ok1] assms(2) r obtain hb where "composed s1 m c1 [] hb s3 c3" by auto
    then show ?thesis
      using b(1) u t1 f ms by (intro exI [of _ hb]) (auto simp: composed_def r)
  next
    case False
    then have "sndr' = s1" "clnt' = c1"
      using assms(1) w st2 by (auto simp: snd_tcp_on_write_def Let_def st2_def split: if_splits)
    then show ?thesis using ok1 b(1) t1 f by (intro exI [of _ "[]"]) (simp add: composed_def)
  qed
qed
section \<open>A request is served\<close>

text \<open>Repeated calls of \<open>tcp_on_write\<close>, with what they send; \<open>None\<close> when one of them fails.\<close>

fun reply_run :: "write_env \<Rightarrow> nat \<Rightarrow> sender \<Rightarrow> tcp_client \<Rightarrow> (sender \<times> tcp_client \<times> byte list) option" where
  "reply_run e 0 sndr clnt = Some (sndr, clnt, [])"
| "reply_run e (Suc n) sndr clnt =
     (case snd_tcp_on_write e sndr clnt of
        (st, sndr, clnt, out) \<Rightarrow>
          if FAILED st then None
          else map_option (\<lambda>(sndr, clnt, out'). (sndr, clnt, out @ out')) (reply_run e n sndr clnt))"

text \<open>The socket takes everything it is given, the clock works and the statistics are free.\<close>

definition drains :: "write_env \<Rightarrow> sender \<Rightarrow> bool" where
  "drains e sndr \<longleftrightarrow> (\<exists>now. we_clock e = Inr now) \<and> stats_lock sndr = 0 \<and>
     (\<exists>n xs. we_writes e = Moved n # xs \<and> 16 + val_size sndr \<le> n)"

lemma with_stats_free: "stats_lock sndr = 0 \<Longrightarrow> \<exists>s. with_stats slp f sndr = Inr s"
  by (simp add: with_stats_def spin_write_lock_def spin_loop.simps)

lemma write_buf_drains:
  assumes "drains e sndr" "out_remain clnt \<le> 16 + val_size sndr"
    and "snd_tcp_write_buf (we_raised e) (we_slp e) (we_clock e) (we_writes e) sndr clnt = (st, sndr', clnt', out)"
  shows "0 \<le> st" "out_remain clnt' = 0" "stats_lock sndr' = 0"
proof -
  obtain now n xs where e: "we_clock e = Inr now" "we_writes e = Moved n # xs" "16 + val_size sndr \<le> n"
    using assms(1) by (auto simp: drains_def)
  define w where "w = write_loop (we_raised e) (out_buf clnt) (we_writes e) OK (out_next clnt) (out_remain clnt) []"
  have w: "\<exists>st1 nx out1. w = (st1, nx, 0, out1) \<and> 0 \<le> st1"
  proof (cases "out_remain clnt = 0")
    case True
    then show ?thesis by (simp add: w_def e(2) OK_def)
  next
    case False
    have "min n (out_remain clnt) = out_remain clnt" using assms(2) e(3) by simp
    with False show ?thesis by (cases xs) (simp_all add: w_def e(2) sock_write_def)
  qed
  then obtain st1 nx out1 where w1: "w = (st1, nx, 0, out1)" "0 \<le> st1" by blast
  have free: "stats_lock sndr = 0" using assms(1) by (simp add: drains_def)
  from with_stats_free [OF this] obtain s where s:
    "with_stats (we_slp e) (\<lambda>s. s\<lparr>tcp_bytes_sent := tcp_bytes_sent s + int (length out1)\<rparr>) sndr = Inr s" by blast
  have "0 \<le> st \<and> out_remain clnt' = 0 \<and> stats_lock sndr' = 0"
    using assms(3) w1 s free with_stats_Inr [OF s]
    by (auto simp: snd_tcp_write_buf_def Let_def e(1) w_def [symmetric] split: if_splits)
  then show "0 \<le> st" "out_remain clnt' = 0" "stats_lock sndr' = 0" by simp_all
qed

text \<open>A draining call while a range is answered makes progress and cannot fail.\<close>

lemma tcp_on_write_progress:
  assumes "drains e sndr" "write_quiet e sndr m" "clnt_ok sndr clnt" "IS_VALID_RANGE (reply_range clnt)"
    and "out_remain clnt \<le> 16 + val_size sndr"
  obtains st sndr' clnt' out where "snd_tcp_on_write e sndr clnt = (st, sndr', clnt', out)" "0 \<le> st"
    "same_config sndr (sndr'\<lparr>min_seq := min_seq sndr\<rparr>)" "record_seqs sndr' = record_seqs sndr" "stats_lock sndr' = 0"
    "IS_VALID_RANGE (reply_range clnt') \<Longrightarrow> reply_id clnt < reply_id clnt' \<and>
       out_remain clnt' = 16 + val_size sndr"
    "\<not> IS_VALID_RANGE (reply_range clnt') \<Longrightarrow> out_remain clnt' = 0 \<and> out = unsent clnt"
proof -
  obtain st1 s1 c1 out where w:
    "snd_tcp_write_buf (we_raised e) (we_slp e) (we_clock e) (we_writes e) sndr clnt = (st1, s1, c1, out)"
    by (cases "snd_tcp_write_buf (we_raised e) (we_slp e) (we_clock e) (we_writes e) sndr clnt")
  note b = snd_tcp_write_buf_stream [OF w] and d = write_buf_drains [OF assms(1,5) w]
  have f: "reply_range c1 = reply_range clnt" "reply_id c1 = reply_id clnt" "pkt_size c1 = pkt_size clnt"
    by (subst b(4), simp)+
  have ok1: "clnt_ok s1 c1" using assms(3) b(2) f by (simp add: clnt_ok_cong)
  have q1: "write_quiet e s1 m" using assms(2) b(2) by (simp add: write_quiet_cong)
  have nb: "st1 \<noteq> BLOCKED" using d(1) by (auto simp: status_defs)
  obtain st3 replied c2 where s: "reply_scan e s1 (nat (max_id s1 - reply_id c1)) st1 c1 = (st3, replied, c2)"
    by (cases "reply_scan e s1 (nat (max_id s1 - reply_id c1)) st1 c1")
  have v1: "IS_VALID_RANGE (reply_range c1)" using assms(4) f(1) by simp
  note r = reply_scan_stream [OF s q1 ok1 v1 d(1,2)]
  have sc: "same_config sndr s1" "record_seqs s1 = record_seqs sndr" by (fact b(2,3))+
  have out: "out = unsent clnt" using b(1) d(2) by (simp add: unsent_def)
  have run: "snd_tcp_on_write e sndr clnt = (if replied then (st3, s1, c2, out)
      else (st3, s1\<lparr>min_seq := min_seq_found c2\<rparr>, c2\<lparr>reply_range := INVALIDATE_RANGE\<rparr>, out))"
    using w d nb v1 s r(1) by (simp add: snd_tcp_on_write_def Let_def tcp_compose_def)
  show thesis
  proof (cases replied)
    case True
    have "out_remain c2 = 16 + val_size sndr"
      using reply_scan_quiet [OF q1, of c1 "nat (max_id s1 - reply_id c1)" st1] s True ok1 v1 d(1) sc(1)
      by (auto simp: clnt_ok_def reply_to_def same_config_def split: option.splits)
    moreover have "snd_tcp_on_write e sndr clnt = (st3, s1, c2, out)" using run True by simp
    ultimately show thesis
      using that [of st3 s1 c2 out] r(1) sc d(3) r(4) [OF True] f v1 by (simp add: same_config_def)
  next
    case False
    show thesis
    proof (rule that)
      show "snd_tcp_on_write e sndr clnt =
        (st3, s1\<lparr>min_seq := min_seq_found c2\<rparr>, c2\<lparr>reply_range := INVALIDATE_RANGE\<rparr>, out)"
        using run False by simp
      show "same_config sndr (s1\<lparr>min_seq := min_seq_found c2\<rparr>\<lparr>min_seq := min_seq sndr\<rparr>)"
        using sc by (simp add: same_config_def)
    qed (use r(1) sc d False r(3) out in simp_all)
  qed
qed
lemma gap_reply_run:
  assumes "drains e sndr" "write_quiet e sndr m" "clnt_ok sndr clnt" "IS_VALID_RANGE (reply_range clnt)"
    and "out_remain clnt \<le> 16 + val_size sndr"
  shows "\<exists>n\<le>nat (max_id sndr - reply_id clnt) + 1. \<exists>sndr' clnt'.
    reply_run e n sndr clnt = Some (sndr', clnt', unsent clnt @ todo sndr m clnt) \<and>
    \<not> IS_VALID_RANGE (reply_range clnt')"
  using assms
proof (induction "nat (max_id sndr - reply_id clnt)" arbitrary: sndr clnt rule: less_induct)
  case less
  obtain st s1 c1 out where w: "snd_tcp_on_write e sndr clnt = (st, s1, c1, out)" "0 \<le> st"
    "same_config sndr (s1\<lparr>min_seq := min_seq sndr\<rparr>)" "record_seqs s1 = record_seqs sndr" "stats_lock s1 = 0"
    "IS_VALID_RANGE (reply_range c1) \<Longrightarrow> reply_id clnt < reply_id c1 \<and> out_remain c1 = 16 + val_size sndr"
    "\<not> IS_VALID_RANGE (reply_range c1) \<Longrightarrow> out_remain c1 = 0 \<and> out = unsent clnt"
    by (rule tcp_on_write_progress [OF less.prems]) blast
  from tcp_on_write_composed [OF w(1,2) less.prems(2,3)] less.prems(4) have
    c: "clnt_ok s1 c1" "out @ unsent c1 @ todo s1 m c1 = unsent clnt @ todo sndr m clnt"
    by (auto simp: composed_def)
  have cfg: "max_id s1 = max_id sndr" "val_size s1 = val_size sndr" "base_id s1 = base_id sndr"
    using w(3) by (simp_all add: same_config_def)
  show ?case
  proof (cases "IS_VALID_RANGE (reply_range c1)")
    case False
    have "todo sndr m clnt = []"
      using c(2) w(7) [OF False] False by (simp add: unsent_def todo_def)
    then have "reply_run e 1 sndr clnt = Some (s1, c1, unsent clnt @ todo sndr m clnt)"
      using w(1,2) w(7) [OF False] by simp
    with False show ?thesis by (intro exI [of _ 1]) auto
  next
    case True
    have id: "reply_id c1 \<le> max_id sndr" "reply_id clnt < reply_id c1"
      using c(1) True w(6) cfg(1) by (simp_all add: clnt_ok_def)
    have "write_quiet e s1 m" using less.prems(2) w(3) by (simp add: write_quiet_def same_config_def)
    moreover have "drains e s1" using less.prems(1) w(5) cfg(2) by (simp add: drains_def)
    moreover have "nat (max_id s1 - reply_id c1) < nat (max_id sndr - reply_id clnt)" using id cfg(1) by simp
    moreover have "out_remain c1 \<le> 16 + val_size s1" using w(6) [OF True] cfg(2) by simp
    ultimately obtain n s2 c2 where n: "n \<le> nat (max_id s1 - reply_id c1) + 1"
      "reply_run e n s1 c1 = Some (s2, c2, unsent c1 @ todo s1 m c1)" "\<not> IS_VALID_RANGE (reply_range c2)"
      using less.hyps [of s1 c1] c(1) True by blast
    have "reply_run e (Suc n) sndr clnt = Some (s2, c2, unsent clnt @ todo sndr m clnt)"
      using w(1,2) n(2) c(2) by simp
    moreover have "Suc n \<le> nat (max_id sndr - reply_id clnt) + 1" using n(1) id cfg(1) by simp
    ultimately show ?thesis using n(3) by blast
  qed
qed

section \<open>Properties of the replies\<close>

text \<open>
  C16.  The reply to a requested range.  As long as nobody writes to the storage, each call of
  \<open>tcp_on_write\<close> hands a piece of one fixed byte stream to the socket, however the socket
  accepts it: first what is left in the output buffer, then for every record in use whose
  last packet lies in the range being answered, in the order of the identifiers and starting at
  \<open>reply_id\<close>, one message of its sequence number, its identifier and its current value, and
  after the last of them at most a heartbeat.
\<close>

theorem tcp_on_write_stream:
  assumes "snd_tcp_on_write e sndr clnt = (st, sndr', clnt', out)" "0 \<le> st"
    and "write_quiet e sndr m" "clnt_ok sndr clnt"
  shows "clnt_ok sndr' clnt' \<and>
    (\<exists>hb. out @ unsent clnt' @ todo sndr' m clnt' = unsent clnt @ todo sndr m clnt @ hb \<and>
       (hb = [] \<or> hb = wire64 HEARTBEAT_SEQ \<and> \<not> IS_VALID_RANGE (reply_range clnt)))"
  using tcp_on_write_composed [OF assms] by (auto simp: composed_def)

text \<open>
  C9.  A request is served: while the socket takes what it is given, after at most one call of
  \<open>tcp_on_write\<close> per identifier, and one more, exactly what was left in the buffer and the
  messages of all the records wanted have been sent, and the range is done with.
\<close>

theorem gap_reply_served:
  assumes "drains e sndr" "write_quiet e sndr m" "clnt_ok sndr clnt" "IS_VALID_RANGE (reply_range clnt)"
    and "out_remain clnt \<le> 16 + val_size sndr"
  shows "\<exists>n\<le>nat (max_id sndr - reply_id clnt) + 1. \<exists>sndr' clnt'.
    reply_run e n sndr clnt = Some (sndr', clnt', unsent clnt @
      concat (map (\<lambda>i. wire64 (seq_of sndr i) @ wire64 i @ value_of sndr m i)
        (filter (wanted sndr m (reply_range clnt)) [reply_id clnt..max_id sndr - 1]))) \<and>
    \<not> IS_VALID_RANGE (reply_range clnt')"
  using gap_reply_run [OF assms] assms(4) by (simp add: todo_def reply_bytes_def [abs_def])

text \<open>A client of the sample sender that has asked for everything up to sequence number one.\<close>

definition sample_client :: "sender \<Rightarrow> tcp_client" where
  "sample_client sndr = (new_client sndr)\<lparr>reply_range := \<lparr>low = 0, high = 1\<rparr>, reply_id := base_id sndr,
     min_seq_found := SEQUENCE_MAX\<rparr>"

definition sample_write_env :: "mem \<Rightarrow> write_env" where
  "sample_write_env m = \<lparr>we_raised = (\<lambda>_. False), we_slp = (\<lambda>_. OK), we_clock = Inr 5, we_writes = [Moved 100],
     we_mem = m, we_looks = (\<lambda>_. []), we_last = m, we_clock2 = Inr 6\<rparr>"

lemma sample_replies:
  obtains st m where "stg_ok st m" "write_quiet (sample_write_env m) (sample_sender st m) m"
    "drains (sample_write_env m) (sample_sender st m)"
    "clnt_ok (sample_sender st m) (sample_client (sample_sender st m))"
    "IS_VALID_RANGE (reply_range (sample_client (sample_sender st m)))"
    "out_remain (sample_client (sample_sender st m)) = 0"
proof -
  obtain st m where s: "stg_ok st m" "storage_get_value_size m = 8" "storage_get_base_id m = 10"
    "storage_get_max_id m = 14" "\<forall>r\<in>set (storage_records st m). unlocked (load64 m r)"
    using sample_store by blast
  have "write_quiet (sample_write_env m) (sample_sender st m) m"
    using s rec_of_is_record [of m _ st]
    by (auto simp: write_quiet_def sample_write_env_def sample_sender_def is_record_def)
  moreover have "drains (sample_write_env m) (sample_sender st m)"
    using s(2) by (simp add: drains_def sample_write_env_def sample_sender_def)
  moreover have "clnt_ok (sample_sender st m) (sample_client (sample_sender st m))"
    using s(3,4) by (simp add: clnt_ok_def sample_client_def new_client_def sample_sender_def)
  ultimately show thesis
    using that s(1) by (simp add: sample_client_def new_client_def IS_VALID_RANGE_def)
qed

theorem tcp_on_write_stream_witness:
  "\<exists>st m res sndr' clnt' out. stg_ok st m \<and>
    snd_tcp_on_write (sample_write_env m) (sample_sender st m) (sample_client (sample_sender st m)) =
      (res, sndr', clnt', out) \<and> clnt_ok sndr' clnt'"
proof -
  obtain st m where s: "stg_ok st m" "write_quiet (sample_write_env m) (sample_sender st m) m"
    "drains (sample_write_env m) (sample_sender st m)"
    "clnt_ok (sample_sender st m) (sample_client (sample_sender st m))"
    "IS_VALID_RANGE (reply_range (sample_client (sample_sender st m)))"
    "out_remain (sample_client (sample_sender st m)) = 0" by (rule sample_replies)
  then obtain res sndr' clnt' out where w:
    "snd_tcp_on_write (sample_write_env m) (sample_sender st m) (sample_client (sample_sender st m)) =
      (res, sndr', clnt', out)" "0 \<le> res"
    by (metis tcp_on_write_progress [OF s(3,2,4,5)] zero_le)
  from tcp_on_write_stream [OF w s(2,4)] w(1) s(1) show ?thesis by blast
qed

theorem gap_reply_served_witness:
  "\<exists>st m n sndr' clnt' sent. stg_ok st m \<and>
    reply_run (sample_write_env m) n (sample_sender st m) (sample_client (sample_sender st m)) =
      Some (sndr', clnt', sent) \<and> \<not> IS_VALID_RANGE (reply_range clnt')"
proof -
  obtain st m where s: "stg_ok st m" "write_quiet (sample_write_env m) (sample_sender st m) m"
    "drains (sample_write_env m) (sample_sender st m)"
    "clnt_ok (sample_sender st m) (sample_client (sample_sender st m))"
    "IS_VALID_RANGE (reply_range (sample_client (sample_sender st m)))"
    "out_remain (sample_client (sample_sender st m)) = 0" by (rule sample_replies)
  from s(6) have "out_remain (sample_client (sample_sender st m)) \<le> 16 + val_size (sample_sender st m)" by simp
  from gap_reply_served [OF s(3,2,4,5) this] s(1) show ?thesis by blast
qed
section \<open>The lower bound of the sequence numbers\<close>

text \<open>
  \<open>min_seq\<close> lies below the sequence number of every record; while a range is answered,
  \<open>min_seq_found\<close> lies below those of the records scanned so far.
\<close>

definition bound_ok :: "sender \<Rightarrow> bool" where
  "bound_ok sndr \<longleftrightarrow> min_seq sndr \<le> next_seq sndr \<and>
     (\<forall>i. base_id sndr \<le> i \<and> i < max_id sndr \<longrightarrow> min_seq sndr \<le> seq_of sndr i)"

definition scanned_ok :: "sender \<Rightarrow> tcp_client \<Rightarrow> bool" where
  "scanned_ok sndr clnt \<longleftrightarrow> (IS_VALID_RANGE (reply_range clnt) \<longrightarrow>
     base_id sndr \<le> reply_id clnt \<and> reply_id clnt \<le> max_id sndr \<and>
     (\<forall>i. base_id sndr \<le> i \<and> i < reply_id clnt \<longrightarrow> min_seq_found clnt \<le> seq_of sndr i))"

lemma reply_copy_fails: "reply_copy slp m r sz looks = Inl err \<Longrightarrow> err < 0"
  by (induction slp m r sz looks rule: reply_copy.induct)
    (auto split: if_splits sum.splits simp: record_read_lock_def dest: spin_read_lock_at_InlD)

lemma reply_scan_cases:
  assumes "reply_scan e sndr (Suc n) st clnt = (st', replied, clnt')" "0 \<le> st'"
  obtains (go) st1 where "reply_scan e sndr n st1 (passed sndr clnt) = (st', replied, clnt')"
  | (hit) "replied" "reply_id clnt' = reply_id clnt + 1" "reply_range clnt' = reply_range clnt"
      "min_seq_found clnt' = min_seq_found (passed sndr clnt)"
proof -
  have "err < 0" if "storage_get_record (snd_store sndr) (we_mem e) (reply_id clnt) True = Inl err" for err
    using storage_get_record_fails [OF that] by (simp add: status_defs)
  then show thesis
    using assms that unfolding reply_scan_Suc Let_def
    by (auto split: if_splits sum.splits option.splits dest: reply_copy_fails)
qed

lemma passed_scanned:
  assumes "scanned_ok sndr clnt" "IS_VALID_RANGE (reply_range clnt)" "reply_id clnt < max_id sndr"
  shows "scanned_ok sndr (passed sndr clnt)"
  unfolding scanned_ok_def
proof (intro impI conjI allI)
  show "base_id sndr \<le> reply_id (passed sndr clnt)" "reply_id (passed sndr clnt) \<le> max_id sndr"
    using assms by (simp_all add: scanned_ok_def)
next
  fix i
  assume "base_id sndr \<le> i \<and> i < reply_id (passed sndr clnt)"
  then show "min_seq_found (passed sndr clnt) \<le> seq_of sndr i"
    using assms(1,2) by (cases "i = reply_id clnt") (auto simp: scanned_ok_def min_le_iff_disj)
qed

lemma reply_scan_scanned:
  assumes "reply_scan e sndr n st clnt = (st', replied, clnt')" "n = nat (max_id sndr - reply_id clnt)"
    and "IS_VALID_RANGE (reply_range clnt)" "scanned_ok sndr clnt" "0 \<le> st'"
  shows "scanned_ok sndr clnt' \<and> reply_range clnt' = reply_range clnt \<and>
    (\<not> replied \<longrightarrow> reply_id clnt' = max_id sndr)"
  using assms
proof (induction n arbitrary: st clnt)
  case 0
  then show ?case by (auto simp: scanned_ok_def)
next
  case (Suc n)
  have k: "reply_id clnt < max_id sndr" "n = nat (max_id sndr - reply_id (passed sndr clnt))" using Suc.prems(2) by simp_all
  note s2 = passed_scanned [OF Suc.prems(4,3) k(1)]
  show ?case using Suc.prems(1,5)
  proof (cases rule: reply_scan_cases)
    case go
    from Suc.IH [OF go k(2) _ s2 Suc.prems(5)] Suc.prems(3) show ?thesis by simp
  next
    case hit
    then show ?thesis using s2 Suc.prems(3) by (simp add: scanned_ok_def)
  qed
qed

text \<open>Publishing only raises the sequence numbers of records.\<close>

definition seqs_grow :: "sender \<Rightarrow> sender \<Rightarrow> bool" where
  "seqs_grow sndr sndr' \<longleftrightarrow> same_config sndr sndr' \<and> next_seq sndr \<le> next_seq sndr' \<and>
     (\<forall>i. base_id sndr \<le> i \<and> i < max_id sndr \<longrightarrow> seq_of sndr i \<le> seq_of sndr' i)"

lemma seqs_grow_refl: "same_config s s' \<Longrightarrow> next_seq s \<le> next_seq s' \<Longrightarrow> record_seqs s' = record_seqs s \<Longrightarrow> seqs_grow s s'"
  by (simp add: seqs_grow_def seq_of_def same_config_def)

lemma seqs_grow_trans: "seqs_grow a b \<Longrightarrow> seqs_grow b c \<Longrightarrow> seqs_grow a c"
  by (fastforce simp: seqs_grow_def same_config_def)

lemma accum_seqs_grow:
  assumes "mcast_accum_record e sndr i = (st, sndr', out)" "accum_env_ok e sndr" "snd_inv sndr rs"
    and "st \<ge> 0 \<or> st = BLOCKED"
  shows "seqs_grow sndr sndr' \<and> (\<exists>rs'. snd_inv sndr' rs')"
  using assms
proof (cases rule: mcast_accum_cases)
  case (same r)
  then show ?thesis using assms(3) by (auto simp: seqs_grow_def)
next
  case (blocked now)
  then show ?thesis using snd_inv_stamp [OF assms(3)] by (auto intro!: seqs_grow_refl simp: same_config_def)
next
  case (added r rv v ts rv' s1 rs1)
  have g: "seqs_grow sndr s1" using added(4) by (auto intro!: seqs_grow_refl)
  have s1: "base_id s1 = base_id sndr" "record_seqs s1 = record_seqs sndr" "max_id s1 = max_id sndr"
    using added(4) by (auto simp: same_config_def)
  have len: "length (record_seqs sndr) = nat (max_id sndr - base_id sndr)"
    "\<forall>s\<in>set (record_seqs sndr). s \<le> next_seq sndr" using assms(3) by (simp_all add: snd_inv_def)
  have "seq_of s1 j \<le> seq_of sndr' j" if "base_id sndr \<le> j" "j < max_id sndr" for j
  proof -
    have "nat (j - base_id sndr) < length (record_seqs sndr)" using that len(1) by simp
    then have "seq_of s1 j \<le> next_seq s1"
      using len(2) g nth_mem [of "nat (j - base_id sndr)" "record_seqs sndr"]
      by (fastforce simp: seq_of_def s1 seqs_grow_def)
    moreover have "base_id sndr' = base_id sndr" using added(6) s1(1) by (simp add: same_config_def)
    ultimately show ?thesis
      using added(9) \<open>nat (j - base_id sndr) < length (record_seqs sndr)\<close>
      by (cases "nat (j - base_id sndr) = nat (i - base_id sndr)") (simp_all add: seq_of_def s1)
  qed
  then have "seqs_grow s1 sndr'" using added(6,7) s1 by (simp add: seqs_grow_def)
  with g added(5) show ?thesis using seqs_grow_trans by blast
qed

lemma accum_queue_seqs_grow:
  assumes "accum_queue es k qi n st0 sndr out0 = (st, qi', sndr', out')"
    and "\<forall>j. accum_env_ok (es j) sndr" "snd_inv sndr rs" "st \<ge> 0 \<or> st = BLOCKED" "0 \<le> st0"
  shows "seqs_grow sndr sndr'"
  using assms
proof (induction n arbitrary: k qi st0 sndr out0 rs)
  case 0
  then show ?case by (simp add: seqs_grow_def)
next
  case (Suc n)
  show ?case
  proof (cases "storage_read_queue (ac_mem (es k)) qi True")
    case (Inl err)
    then show ?thesis using Suc.prems(1) by (simp add: seqs_grow_def)
  next
    case (Inr i)
    obtain st1 s1 out1 where a: "mcast_accum_record (es k) sndr i = (st1, s1, out1)"
      by (cases "mcast_accum_record (es k) sndr i")
    have env: "accum_env_ok (es k) sndr" using Suc.prems(2) by simp
    show ?thesis
    proof (cases "st1 = 0")
      case False
      then have "st = st1" "sndr' = s1" using Suc.prems(1) Inr a by auto
      with accum_seqs_grow [OF a env Suc.prems(3)] Suc.prems(4) show ?thesis by simp
    next
      case True
      then have "seqs_grow sndr s1 \<and> (\<exists>rs1. snd_inv s1 rs1)"
        using accum_seqs_grow [OF a env Suc.prems(3)] by simp
      then obtain rs1 where g: "seqs_grow sndr s1" "snd_inv s1 rs1" by blast
      have "same_config sndr s1" using g(1) by (simp add: seqs_grow_def)
      then have "\<forall>j. accum_env_ok (es j) s1" using Suc.prems(2) by (auto simp: accum_env_ok_cong)
      moreover have "accum_queue es (k + 1) (qi + 1) n st1 s1 (out0 @ out1) = (st, qi', sndr', out')"
        using Suc.prems(1) Inr a True by simp
      ultimately have "seqs_grow s1 sndr'" using Suc.IH g(2) Suc.prems(4) True by blast
      with g(1) show ?thesis by (rule seqs_grow_trans)
    qed
  qed
qed

lemma mcast_on_write_seqs_grow:
  assumes "mcast_on_write m es clk e sndr = (st, sndr', out)" "st \<ge> 0"
    and "snd_inv sndr rs" "\<forall>k. accum_env_ok (es k) sndr" "send_env_ok e" "clock_ok clk"
  shows "seqs_grow sndr sndr'"
proof -
  have inv: "snd_inv (sndr\<lparr>last_q_idx := q\<rparr>) rs" for q
    using assms(3) by (rule snd_inv_fields) (simp_all add: same_config_def)
  show ?thesis using assms(1,2)
  proof (cases rule: mcast_on_write_cases)
    case (empty q)
    from mcast_on_empty_queue_published [OF empty(1) assms(5,6) inv assms(2)]
    show ?thesis by (auto simp: seqs_grow_def seq_of_def same_config_def published_def)
  next
    case (queue q st1 qi s1)
    have env: "\<forall>j. accum_env_ok (es j) (sndr\<lparr>last_q_idx := q\<rparr>)" using assms(4) by (simp add: accum_env_ok_def)
    have "st1 \<ge> 0 \<or> st1 = BLOCKED" using queue(2) assms(2) by (auto split: if_splits)
    from accum_queue_seqs_grow [OF queue(1) env inv this]
    have g: "seqs_grow (sndr\<lparr>last_q_idx := q\<rparr>) s1" by (simp add: OK_def)
    then have "base_id s1 = base_id sndr" by (simp add: seqs_grow_def same_config_def)
    with g show ?thesis by (simp add: queue(3) seqs_grow_def seq_of_def same_config_def)
  qed
qed

section \<open>Requests are never dropped\<close>

text \<open>
  A sender and its clients, in any interleaving of the handlers that keeps it running; a client
  whose handler fails is hung up on, as \<open>event_func\<close> does.
\<close>

inductive snd_step :: "sender \<times> (sock \<Rightarrow> tcp_client option) \<Rightarrow> sender \<times> (sock \<Rightarrow> tcp_client option) \<Rightarrow> bool" where
  on_accept: "snd_step (sndr, C) (sndr, C(sk \<mapsto> (new_client sndr)\<lparr>tcp_send_time := now\<rparr>))"
| on_mcast: "mcast_on_write m es clk e sndr = (st, sndr', out) \<Longrightarrow> 0 \<le> st \<Longrightarrow>
     \<forall>k. accum_env_ok (es k) sndr \<Longrightarrow> send_env_ok e \<Longrightarrow> clock_ok clk \<Longrightarrow> snd_step (sndr, C) (sndr', C)"
| on_write: "C sk = Some clnt \<Longrightarrow> snd_tcp_on_write we sndr clnt = (st, sndr', clnt', out) \<Longrightarrow>
     snd_step (sndr, C) (sndr', C(sk := if FAILED st then None else Some clnt'))"
| on_read: "C sk = Some clnt \<Longrightarrow> snd_tcp_on_read sg slp xs avail sndr clnt = (st, sndr', clnt', rest) \<Longrightarrow>
     snd_step (sndr, C) (sndr', C(sk := if FAILED st then None else Some clnt'))"
| on_blocked: "C sk = Some clnt \<Longrightarrow> tcp_on_read_blocked sndr clnt = (st, clnt') \<Longrightarrow>
     snd_step (sndr, C) (sndr, C(sk \<mapsto> clnt'))"
| on_hup: "snd_step (sndr, C) (sndr, C(sk := None))"

text \<open>It begins with a sender as \<open>init\<close> leaves it: nothing staged, no client connected.\<close>

definition snd_begins :: "sender \<Rightarrow> sender \<times> (sock \<Rightarrow> tcp_client option) \<Rightarrow> bool" where
  "snd_begins s0 s \<longleftrightarrow> s = (s0, \<lambda>_. None) \<and> snd_inv s0 [] \<and> bound_ok s0 \<and> base_id s0 < max_id s0"

abbreviation snd_reach :: "sender \<Rightarrow> sender \<times> (sock \<Rightarrow> tcp_client option) \<Rightarrow> bool" where
  "snd_reach s0 \<equiv> reach (snd_begins s0) snd_step"

definition serve_inv :: "sender \<times> (sock \<Rightarrow> tcp_client option) \<Rightarrow> bool" where
  "serve_inv s \<longleftrightarrow> (case s of (sndr, C) \<Rightarrow> (\<exists>rs. snd_inv sndr rs) \<and> bound_ok sndr \<and> base_id sndr < max_id sndr \<and>
     (\<forall>sk clnt. C sk = Some clnt \<longrightarrow> scanned_ok sndr clnt))"

lemma grow_scanned: "seqs_grow s s' \<Longrightarrow> scanned_ok s clnt \<Longrightarrow> scanned_ok s' clnt"
  by (fastforce simp: scanned_ok_def seqs_grow_def same_config_def)

lemma grow_bound: "seqs_grow s s' \<Longrightarrow> bound_ok s \<Longrightarrow> bound_ok s'"
  by (fastforce simp: bound_ok_def seqs_grow_def same_config_def)
lemma reply_scan_union: "reply_scan e sndr n st clnt = (st', replied, clnt') \<Longrightarrow> union_range clnt' = union_range clnt"
proof (induction n arbitrary: st clnt)
  case (Suc n)
  let ?s = "record_seqs sndr ! nat (reply_id clnt - base_id sndr)"
  define c1 where "c1 = (if ?s < min_seq_found clnt then clnt\<lparr>min_seq_found := ?s\<rparr> else clnt)"
  have "union_range c1 = union_range clnt" by (simp add: c1_def)
  with Suc.prems show ?case
    unfolding reply_scan.simps(2) Let_def c1_def [symmetric]
    by (auto split: if_splits sum.splits option.splits dest: Suc.IH)
qed simp

lemma tcp_compose_scanned:
  assumes "tcp_compose e st sndr clnt = (st', sndr', clnt')" "0 \<le> st'" "0 \<le> st"
    and "scanned_ok sndr clnt"
  shows "(\<exists>q. sndr' = sndr\<lparr>min_seq := q\<rparr> \<and> (q = min_seq sndr \<or> (\<forall>i. base_id sndr \<le> i \<and> i < max_id sndr \<longrightarrow> q \<le> seq_of sndr i))) \<and>
    scanned_ok sndr clnt' \<and> union_range clnt' = union_range clnt"
proof (cases "IS_VALID_RANGE (reply_range clnt)")
  case valid: True
  obtain st3 replied c2 where s: "reply_scan e sndr (nat (max_id sndr - reply_id clnt)) st clnt = (st3, replied, c2)"
    by (cases "reply_scan e sndr (nat (max_id sndr - reply_id clnt)) st clnt")
  have st': "st' = st3" using assms(1) valid s by (auto simp: tcp_compose_def split: if_splits)
  note r = reply_scan_scanned [OF s refl valid assms(4)]
  have u: "union_range c2 = union_range clnt" using reply_scan_union [OF s] .
  show ?thesis
  proof (cases replied)
    case True
    then have "sndr' = sndr" "clnt' = c2" using assms(1) valid s by (simp_all add: tcp_compose_def)
    then show ?thesis using r u assms(2) st' by (auto intro!: exI [of _ "min_seq sndr"])
  next
    case False
    then have e: "sndr' = sndr\<lparr>min_seq := min_seq_found c2\<rparr>" "clnt' = c2\<lparr>reply_range := INVALIDATE_RANGE\<rparr>"
      using assms(1,2) valid s st' by (simp_all add: tcp_compose_def)
    have "scanned_ok sndr c2" "reply_id c2 = max_id sndr" "IS_VALID_RANGE (reply_range c2)"
      using r assms(2) st' False valid by simp_all
    then show ?thesis using u by (intro conjI exI [of _ "min_seq_found c2"]) (simp_all add: e scanned_ok_def)
  qed
next
  case False
  then show ?thesis using assms
    by (cases "we_clock2 e") (auto simp: tcp_compose_def scanned_ok_def split: if_splits intro!: exI [of _ "min_seq sndr"])
qed
text \<open>What serving a client changes of the sender: statistics, times, and perhaps a better bound.\<close>

definition served :: "sender \<Rightarrow> sender \<Rightarrow> bool" where
  "served sndr sndr' \<longleftrightarrow> (\<exists>s q. same_config sndr s \<and> next_seq s = next_seq sndr \<and> record_seqs s = record_seqs sndr \<and>
     (\<forall>rs. snd_inv sndr rs \<longrightarrow> snd_inv s rs) \<and> sndr' = s\<lparr>min_seq := q\<rparr> \<and>
     (q = min_seq sndr \<or> (\<forall>i. base_id sndr \<le> i \<and> i < max_id sndr \<longrightarrow> q \<le> seq_of sndr i)))"

lemma seq_of_min_seq [simp]: "seq_of (s\<lparr>min_seq := q\<rparr>) i = seq_of s i"
  by (simp add: seq_of_def)

lemma seq_of_cong: "same_config s s' \<Longrightarrow> record_seqs s' = record_seqs s \<Longrightarrow> seq_of s' = seq_of s"
  by (simp add: fun_eq_iff seq_of_def same_config_def)

lemma scanned_ok_min_seq [simp]: "scanned_ok (s\<lparr>min_seq := q\<rparr>) clnt = scanned_ok s clnt"
  by (simp add: scanned_ok_def)

lemma snd_inv_min_seq [simp]: "snd_inv (s\<lparr>min_seq := q\<rparr>) rs = snd_inv s rs"
  by (simp add: snd_inv_def staged_def)

lemma scanned_ok_cong:
  "same_config s s' \<Longrightarrow> record_seqs s' = record_seqs s \<Longrightarrow> scanned_ok s' clnt = scanned_ok s clnt"
  using seq_of_cong [of s s'] by (simp add: scanned_ok_def same_config_def)

lemma served_scanned: "served s s' \<Longrightarrow> scanned_ok s' clnt = scanned_ok s clnt"
  by (auto simp: served_def scanned_ok_cong)

text \<open>The sequence number of some record is at most the next one, and so is a bound of them all.\<close>

lemma served_bound:
  assumes "served s s'" "bound_ok s" "snd_inv s rs" "base_id s < max_id s"
  shows "bound_ok s'" "snd_inv s' rs" "base_id s' = base_id s" "max_id s' = max_id s"
proof -
  from assms(1) obtain s1 q where s1: "same_config s s1" "next_seq s1 = next_seq s" "record_seqs s1 = record_seqs s"
    "snd_inv s1 rs" "s' = s1\<lparr>min_seq := q\<rparr>"
    and q: "q = min_seq s \<or> (\<forall>i. base_id s \<le> i \<and> i < max_id s \<longrightarrow> q \<le> seq_of s i)"
    using assms(3) by (auto simp: served_def)
  show "snd_inv s' rs" "base_id s' = base_id s" "max_id s' = max_id s"
    using s1 by (simp_all add: same_config_def)
  have "length (record_seqs s) = nat (max_id s - base_id s)" "\<forall>x\<in>set (record_seqs s). x \<le> next_seq s"
    using assms(3) by (simp_all add: snd_inv_def)
  then have "seq_of s (base_id s) \<le> next_seq s" using assms(4) by (simp add: seq_of_def)
  then have "q \<le> next_seq s \<and> (\<forall>i. base_id s \<le> i \<and> i < max_id s \<longrightarrow> q \<le> seq_of s i)"
    using q assms(2,4) by (fastforce simp: bound_ok_def)
  then show "bound_ok s'"
    using s1 seq_of_cong [OF s1(1,3)] by (simp add: bound_ok_def same_config_def)
qed

lemma served_stats:
  assumes "same_config s s'" "next_seq s' = next_seq s" "record_seqs s' = record_seqs s" "record_revs s' = record_revs s"
    and "pkt_buf s' = pkt_buf s" "pkt_next s' = pkt_next s"
  shows "served s s'"
  unfolding served_def using assms snd_inv_fields [of s _ s']
  by (intro exI [of _ s'] exI [of _ "min_seq s"]) (simp add: same_config_def)

lemma snd_tcp_write_buf_served:
  assumes "snd_tcp_write_buf sg slp clk xs sndr clnt = (st, sndr', clnt', out)"
  shows "served sndr sndr'"
  using assms
  by (intro served_stats) (auto simp: snd_tcp_write_buf_def Let_def same_config_def dest!: with_stats_Inr
      split: if_splits sum.splits prod.splits)

lemma tcp_on_write_served:
  assumes "snd_tcp_on_write e sndr clnt = (st, sndr', clnt', out)" "scanned_ok sndr clnt"
  shows "served sndr sndr'" "0 \<le> st \<Longrightarrow> scanned_ok sndr' clnt' \<and> union_range clnt' = union_range clnt"
proof -
  obtain st1 s1 c1 where w:
    "snd_tcp_write_buf (we_raised e) (we_slp e) (we_clock e) (we_writes e) sndr clnt = (st1, s1, c1, out)"
    using assms(1) by (auto simp: snd_tcp_on_write_def Let_def split: prod.splits if_splits)
  note b = snd_tcp_write_buf_stream [OF w] and v = snd_tcp_write_buf_served [OF w]
  have f: "reply_range c1 = reply_range clnt" "reply_id c1 = reply_id clnt" "union_range c1 = union_range clnt"
    "min_seq_found c1 = min_seq_found clnt" by (subst b(4), simp)+
  have ok1: "scanned_ok s1 c1" using assms(2) served_scanned [OF v, of clnt] f by (simp add: scanned_ok_def)
  define st2 where "st2 = (if st1 = BLOCKED then OK else st1)"
  obtain st3 s3 c3 where c: "tcp_compose e st2 s1 c1 = (st3, s3, c3)" by (cases "tcp_compose e st2 s1 c1")
  consider (fail) "sndr' = s1" "st < 0" | (part) "sndr' = s1" "clnt' = c1"
    | (full) "0 \<le> st2" "st = st3" "sndr' = s3" "clnt' = c3"
    using assms(1) w c by (auto simp: snd_tcp_on_write_def Let_def st2_def OK_def split: if_splits)
  then have "served sndr sndr' \<and> (0 \<le> st \<longrightarrow> scanned_ok sndr' clnt' \<and> union_range clnt' = union_range clnt)"
  proof cases
    case full
    show ?thesis
    proof (cases "0 \<le> st")
      case True
      with tcp_compose_scanned [OF c _ full(1) ok1] full obtain q where
        q: "s3 = s1\<lparr>min_seq := q\<rparr>" "q = min_seq s1 \<or> (\<forall>i. base_id s1 \<le> i \<and> i < max_id s1 \<longrightarrow> q \<le> seq_of s1 i)"
        "scanned_ok s1 c3" "union_range c3 = union_range c1" by auto
      have sq: "seq_of s1 = seq_of sndr" using seq_of_cong [OF b(2,3)] .
      have "min_seq s1 = min_seq sndr" "base_id s1 = base_id sndr" "max_id s1 = max_id sndr"
        using b(2) by (simp_all add: same_config_def)
      moreover from v obtain x y where "same_config sndr x" "next_seq x = next_seq sndr" "record_seqs x = record_seqs sndr"
        "\<forall>rs. snd_inv sndr rs \<longrightarrow> snd_inv x rs" "s1 = x\<lparr>min_seq := y\<rparr>" by (auto simp: served_def)
      ultimately have "served sndr s3"
        using q(1,2) unfolding served_def sq by (intro exI [of _ x] exI [of _ q]) simp
      then show ?thesis using full q f by simp
    next
      case False
      then have "s3 = s1" using c full(2) by (auto simp: tcp_compose_def split: if_splits prod.splits sum.splits)
      then show ?thesis using False full v by simp
    qed
  qed (use v ok1 f in simp_all)
  then show "served sndr sndr'" "0 \<le> st \<Longrightarrow> scanned_ok sndr' clnt' \<and> union_range clnt' = union_range clnt" by simp_all
qed
section \<open>Requests are merged\<close>

text \<open>The bytes of a request that have arrived; a request on the wire; the smallest range over two.\<close>

definition partial :: "tcp_client \<Rightarrow> byte list" where
  "partial clnt = mread (in_buf clnt) 0 (in_next clnt)"

definition req_bytes :: "sequence_range \<Rightarrow> byte list" where
  "req_bytes r = wire64 (low r) @ wire64 (high r)"

definition range_ok :: "sequence_range \<Rightarrow> bool" where
  "range_ok r \<longleftrightarrow> IS_VALID_RANGE r \<and> is_long (low r) \<and> is_long (high r)"

interpretation requests: framing req_bytes range_ok
proof
  fix r q xs ys
  assume ok: "range_ok r" "range_ok q" and "req_bytes r @ xs = req_bytes q @ ys"
  then have "wire64 (low r) = wire64 (low q)" "wire64 (high r) = wire64 (high q)" by (simp_all add: req_bytes_def)
  then show "r = q" using ok wire64_inj by (auto simp: range_ok_def intro!: sequence_range.equality)
qed (simp add: req_bytes_def)

definition cover :: "sequence_range \<Rightarrow> sequence_range \<Rightarrow> sequence_range" where
  "cover u r = \<lparr>low = min (low u) (low r), high = max (high u) (high r)\<rparr>"

definition in_ok :: "tcp_client \<Rightarrow> bool" where
  "in_ok clnt \<longleftrightarrow> in_next clnt + in_remain clnt = 16 \<and> 0 < in_remain clnt"

lemma cover_update:
  "(let u = if low r < low u then u\<lparr>low := low r\<rparr> else u in if high r > high u then u\<lparr>high := high r\<rparr> else u) = cover u r"
  by (auto simp: cover_def Let_def min_def max_def)

lemma with_stats_neg: "with_stats slp f sndr = Inl err \<Longrightarrow> err < 0"
  by (auto simp: with_stats_def split: sum.splits dest: spin_loop_fails simp: spin_write_lock_def)

lemma tcp_on_read_merges:
  assumes "snd_tcp_on_read sg slp xs avail sndr clnt = (st, sndr', clnt', rest)" "0 \<le> st" "in_ok clnt"
  shows "\<exists>got. avail = got @ rest \<and> in_ok clnt' \<and>
    (partial clnt' = partial clnt @ got \<and> union_range clnt' = union_range clnt \<or>
     (\<exists>r. range_ok r \<and> partial clnt @ got = req_bytes r \<and> partial clnt' = [] \<and>
          union_range clnt' = cover (union_range clnt) r))"
proof -
  obtain st1 buf nx rem av where r: "read_loop sg xs OK (in_buf clnt) (in_next clnt) (in_remain clnt) avail = (st1, buf, nx, rem, av)"
    by (cases "read_loop sg xs OK (in_buf clnt) (in_next clnt) (in_remain clnt) avail")
  note l = read_loop_got [OF r]
  define got where "got = take (nx - in_next clnt) avail"
  define c1 where "c1 = clnt\<lparr>in_buf := buf, in_next := nx, in_remain := rem\<rparr>"
  have av: "avail = got @ av" "length got = nx - in_next clnt" using l by (simp_all add: got_def)
  have "mread buf 0 nx = mread buf 0 (in_next clnt) @ mread buf (in_next clnt) (length got)"
    using mread_add [of buf 0 "in_next clnt" "length got"] av(2) l(1) by simp
  also have "\<dots> = partial clnt @ got"
    by (simp add: l(5) got_def [symmetric] partial_def mread_mwrite_disjoint)
  finally have p1: "mread buf 0 nx = partial clnt @ got" .
  show ?thesis
  proof (cases "rem = 0")
    case False
    then have "clnt' = c1" "rest = av"
      using assms(1) r by (auto simp: snd_tcp_on_read_def snd_tcp_read_buf_def c1_def Let_def split: if_splits)
    then show ?thesis
      using False p1 av(1) l(2) assms(3) by (intro exI [of _ got]) (simp add: c1_def partial_def in_ok_def)
  next
    case True
    define q where "q = \<lparr>low = get_net buf 0, high = get_net buf 8\<rparr>"
    have nx: "nx = 16" using True l(2) assms(3) by (simp add: in_ok_def)
    have is_q: "is_long (low q)" "is_long (high q)" by (simp_all add: q_def)
    have "partial clnt @ got = req_bytes q"
      using p1 mread_add [of buf 0 8 8] by (simp add: nx q_def req_bytes_def put_get_net)
    moreover have "range_ok q \<and> rest = av \<and> union_range clnt' = cover (union_range clnt) q \<and>
      in_next clnt' = 0 \<and> in_remain clnt' = 16"
      using assms(1,2) r True cover_update [of q "union_range clnt"]
      by (auto simp: snd_tcp_on_read_def snd_tcp_read_buf_def q_def [symmetric] Let_def status_defs range_ok_def is_q
          split: if_splits sum.splits dest: with_stats_neg)
    ultimately show ?thesis using av(1) by (intro exI [of _ got]) (auto simp: in_ok_def partial_def)
  qed
qed
text \<open>Repeated calls of \<open>tcp_on_read\<close>, each with the bytes that have arrived since the last one.\<close>

fun read_run ::
  "raised \<Rightarrow> (nat \<Rightarrow> status) \<Rightarrow> (io list \<times> byte list) list \<Rightarrow> byte list \<Rightarrow> sender \<Rightarrow> tcp_client \<Rightarrow>
     (sender \<times> tcp_client \<times> byte list) option" where
  "read_run sg slp [] avail sndr clnt = Some (sndr, clnt, avail)"
| "read_run sg slp ((xs, new) # es) avail sndr clnt =
     (case snd_tcp_on_read sg slp xs (avail @ new) sndr clnt of
        (st, sndr, clnt, rest) \<Rightarrow> if FAILED st then None else read_run sg slp es rest sndr clnt)"

lemma read_run_merges:
  assumes "read_run sg slp es avail sndr clnt = Some (sndr', clnt', rest)" "in_ok clnt"
  shows "\<exists>rs. partial clnt @ avail @ concat (map snd es) = concat (map req_bytes rs) @ partial clnt' @ rest \<and>
    (\<forall>r\<in>set rs. IS_VALID_RANGE r) \<and> length (partial clnt') < 16 \<and> union_range clnt' = foldl cover (union_range clnt) rs"
  using assms
proof (induction es arbitrary: avail sndr clnt)
  case Nil
  then show ?case by (intro exI [of _ "[]"]) (simp add: partial_def in_ok_def)
next
  case (Cons e es)
  obtain xs new where e: "e = (xs, new)" by (cases e)
  obtain st s1 c1 av where r: "snd_tcp_on_read sg slp xs (avail @ new) sndr clnt = (st, s1, c1, av)"
    by (cases "snd_tcp_on_read sg slp xs (avail @ new) sndr clnt")
  have st: "0 \<le> st" "read_run sg slp es av s1 c1 = Some (sndr', clnt', rest)"
    using Cons.prems(1) by (auto simp: e r split: if_splits)
  from tcp_on_read_merges [OF r st(1) Cons.prems(2)] obtain got where g: "avail @ new = got @ av" "in_ok c1"
    and c: "partial c1 = partial clnt @ got \<and> union_range c1 = union_range clnt \<or>
     (\<exists>r. range_ok r \<and> partial clnt @ got = req_bytes r \<and> partial c1 = [] \<and>
          union_range c1 = cover (union_range clnt) r)" by blast
  from Cons.IH [OF st(2) g(2)] obtain rs where ih:
    "partial c1 @ av @ concat (map snd es) = concat (map req_bytes rs) @ partial clnt' @ rest"
    "\<forall>r\<in>set rs. IS_VALID_RANGE r" "length (partial clnt') < 16" "union_range clnt' = foldl cover (union_range c1) rs" by blast
  have all: "partial clnt @ avail @ concat (map snd (e # es)) = (partial clnt @ got) @ av @ concat (map snd es)"
    using g(1) by (simp add: e flip: append_assoc)
  from c show ?case
  proof (elim disjE exE conjE)
    assume "partial c1 = partial clnt @ got" "union_range c1 = union_range clnt"
    then show ?thesis using ih all by (intro exI [of _ rs]) simp
  next
    fix r
    assume "range_ok r" "partial clnt @ got = req_bytes r" "partial c1 = []" "union_range c1 = cover (union_range clnt) r"
    then show ?thesis using ih all by (intro exI [of _ "r # rs"]) (simp add: range_ok_def)
  qed
qed

lemma cover_within:
  "IS_WITHIN_RANGE u n \<or> (\<exists>r\<in>set rs. IS_WITHIN_RANGE r n) \<Longrightarrow> IS_WITHIN_RANGE (foldl cover u rs) n"
proof (induction rs arbitrary: u)
  case (Cons r rs)
  then have "IS_WITHIN_RANGE (cover u r) n \<or> (\<exists>r\<in>set rs. IS_WITHIN_RANGE r n)"
    by (auto simp: cover_def IS_WITHIN_RANGE_def)
  then show ?case using Cons.IH by simp
qed simp

text \<open>
  C15.  However the stream of a client is cut into reads, it is understood as the same sequence of
  requests followed by an incomplete one; each is a valid range, none is lost, and the range noted
  for the client contains every sequence number asked for.
\<close>

theorem requests_merged:
  assumes "read_run sg slp es avail sndr clnt = Some (sndr', clnt', rest)" "in_ok clnt"
  shows "\<exists>rs. partial clnt @ avail @ concat (map snd es) = concat (map req_bytes rs) @ partial clnt' @ rest \<and>
    length (partial clnt') < 16 \<and>
    (\<forall>r\<in>set rs. IS_VALID_RANGE r \<and> (\<forall>n. IS_WITHIN_RANGE r n \<longrightarrow> IS_WITHIN_RANGE (union_range clnt') n)) \<and>
    (\<forall>n. IS_WITHIN_RANGE (union_range clnt) n \<longrightarrow> IS_WITHIN_RANGE (union_range clnt') n)"
proof -
  from read_run_merges [OF assms] obtain rs where
    "partial clnt @ avail @ concat (map snd es) = concat (map req_bytes rs) @ partial clnt' @ rest"
    "\<forall>r\<in>set rs. IS_VALID_RANGE r" "length (partial clnt') < 16"
    "union_range clnt' = foldl cover (union_range clnt) rs" by blast
  then show ?thesis using cover_within [of "union_range clnt" _ rs] by (intro exI [of _ rs]) auto
qed

section \<open>The invariant of the running sender\<close>

lemma tcp_on_read_served:
  assumes "snd_tcp_on_read sg slp xs avail sndr clnt = (st, sndr', clnt', rest)"
  shows "served sndr sndr'" "reply_range clnt' = reply_range clnt" "reply_id clnt' = reply_id clnt"
    "min_seq_found clnt' = min_seq_found clnt"
  using assms
  by (auto intro!: served_stats simp: snd_tcp_on_read_def snd_tcp_read_buf_def Let_def same_config_def
      dest!: with_stats_Inr split: if_splits sum.splits prod.splits)

lemma tcp_on_read_blocked_scanned:
  assumes "tcp_on_read_blocked sndr clnt = (st, clnt')" "scanned_ok sndr clnt" "base_id sndr < max_id sndr"
  shows "scanned_ok sndr clnt'"
  using assms by (auto simp: tcp_on_read_blocked_def scanned_ok_def split: if_splits)

lemma serve_inv_served:
  assumes "serve_inv (sndr, C)" "served sndr sndr'" "\<And>clnt. c = Some clnt \<Longrightarrow> scanned_ok sndr' clnt"
  shows "serve_inv (sndr', C(sk := c))"
  using assms served_bound [OF assms(2)] served_scanned [OF assms(2)] by (auto simp: serve_inv_def)

lemma snd_step_serve_inv: "snd_step s s' \<Longrightarrow> serve_inv s \<Longrightarrow> serve_inv s'"
proof (induction rule: snd_step.induct)
  case (on_accept sndr C sk now)
  then show ?case by (auto simp: serve_inv_def scanned_ok_def new_client_def IS_VALID_RANGE_def)
next
  case (on_mcast m es clk e sndr st sndr' out C)
  then obtain rs where rs: "snd_inv sndr rs" by (auto simp: serve_inv_def)
  note g = mcast_on_write_seqs_grow [OF on_mcast(1,2) rs on_mcast(3-5)]
  have "\<exists>rs. snd_inv sndr' rs" using mcast_on_write_published [OF on_mcast(1,2) rs on_mcast(3-5)] by blast
  moreover have "base_id sndr' = base_id sndr" "max_id sndr' = max_id sndr"
    using g by (simp_all add: seqs_grow_def same_config_def)
  ultimately show ?case using on_mcast(6) grow_scanned [OF g] grow_bound [OF g] by (auto simp: serve_inv_def)
next
  case (on_write C sk clnt we sndr st sndr' clnt' out)
  then have "scanned_ok sndr clnt" by (auto simp: serve_inv_def)
  note w = tcp_on_write_served [OF on_write(2) this]
  show ?case using w(2) by (intro serve_inv_served [OF on_write(3) w(1)]) (auto split: if_splits)
next
  case (on_read C sk clnt sg slp xs avail sndr st sndr' clnt' rest)
  then have "scanned_ok sndr clnt" by (auto simp: serve_inv_def)
  then have "scanned_ok sndr' clnt'"
    using tcp_on_read_served [OF on_read(2)] served_scanned [of sndr sndr' clnt] by (simp add: scanned_ok_def)
  then show ?case using tcp_on_read_served(1) [OF on_read(2)]
    by (intro serve_inv_served [OF on_read(3)]) (auto split: if_splits)
next
  case (on_blocked C sk clnt sndr st clnt')
  then have "scanned_ok sndr clnt'" using tcp_on_read_blocked_scanned by (auto simp: serve_inv_def)
  then show ?case using on_blocked(3) by (auto simp: serve_inv_def)
next
  case (on_hup sndr C sk)
  then show ?case by (auto simp: serve_inv_def)
qed

interpretation serving: invariant_of "snd_begins s0" snd_step serve_inv for s0
proof
  fix s
  assume "snd_begins s0 s"
  then show "serve_inv s" by (auto simp: snd_begins_def serve_inv_def)
qed (rule snd_step_serve_inv)

text \<open>
  C6.  In every state a sender reaches, whatever the order of its handlers, a range asked for by a
  client waits, or is taken up from the first record, or is given up for the one reason that the
  last packet of no record lies in it: no request that could be answered is dropped.
\<close>

theorem request_not_dropped:
  assumes "snd_reach s0 (sndr, C)" "C sk = Some clnt" "tcp_on_read_blocked sndr clnt = (st, clnt')"
  shows "union_range clnt' = union_range clnt \<and> reply_range clnt' = reply_range clnt \<or>
    \<not> IS_VALID_RANGE (reply_range clnt) \<and> reply_range clnt' = union_range clnt \<and> reply_id clnt' = base_id sndr \<or>
    (\<forall>i. base_id sndr \<le> i \<and> i < max_id sndr \<longrightarrow> \<not> IS_WITHIN_RANGE (union_range clnt) (seq_of sndr i)) \<and>
      reply_range clnt' = reply_range clnt"
proof -
  have "bound_ok sndr" using serving.reach_inv [OF assms(1)] by (simp add: serve_inv_def)
  then show ?thesis
    using assms(3) by (auto simp: tcp_on_read_blocked_def bound_ok_def IS_WITHIN_RANGE_def split: if_splits)
qed
text \<open>A client that has just connected to the sample sender asks for the first five packets.\<close>

definition sample_request :: sequence_range where
  "sample_request = \<lparr>low = 0, high = 5\<rparr>"

lemma sample_read:
  assumes "sndr = sample_sender st m" "clnt = (new_client sndr)\<lparr>tcp_send_time := 7\<rparr>"
  obtains sndr' clnt' where
    "snd_tcp_on_read (\<lambda>_. False) (\<lambda>_. OK) [Moved 16] (req_bytes sample_request) sndr clnt = (OK, sndr', clnt', [])"
    "union_range clnt' = sample_request" "in_next clnt' = 0"
proof -
  define buf where "buf = mwrite (\<lambda>_. 0) 0 (req_bytes sample_request)"
  have "mread buf 0 8 = wire64 0" "mread buf 8 8 = wire64 5"
    by (simp_all add: buf_def req_bytes_def sample_request_def mwrite_append mread_mwrite_disjoint)
  then have n: "get_net buf 0 = 0" "get_net buf 8 = 5"
    by (auto intro!: get_net_wire simp: is_long_def LONG_MIN_def LONG_MAX_def)
  have l: "length (req_bytes sample_request) = 16" by (simp add: req_bytes_def)
  have r: "read_loop (\<lambda>_. False) [Moved 16] OK (\<lambda>_. 0) 0 16 (req_bytes sample_request) = (16, buf, 16, 0, [])"
    using l by (auto simp: sock_read_def buf_def Let_def)
  have w: "\<exists>s. with_stats (\<lambda>_. OK) f (sample_sender st m) = Inr s" for f
    by (rule with_stats_free) (simp add: sample_sender_def)
  show thesis
    using that w [of "\<lambda>s. s\<lparr>tcp_gap_count := tcp_gap_count s + 1\<rparr>"] r n
    by (auto simp: assms snd_tcp_on_read_def snd_tcp_read_buf_def new_client_def Let_def BLOCKED_def
        IS_VALID_RANGE_def INVALIDATE_RANGE_def sample_request_def SEQUENCE_MAX_def SEQUENCE_MIN_def LONG_MAX_def LONG_MIN_def)
qed

theorem requests_merged_witness:
  "\<exists>st m sndr' clnt'. stg_ok st m \<and>
    read_run (\<lambda>_. False) (\<lambda>_. OK) [([Moved 16], req_bytes sample_request)] [] (sample_sender st m)
      ((new_client (sample_sender st m))\<lparr>tcp_send_time := 7\<rparr>) = Some (sndr', clnt', []) \<and>
    length (partial clnt') < 16"
proof -
  obtain st m where s: "stg_ok st m" using sample_store by blast
  obtain sndr' clnt' where r: "snd_tcp_on_read (\<lambda>_. False) (\<lambda>_. OK) [Moved 16] (req_bytes sample_request) (sample_sender st m)
    ((new_client (sample_sender st m))\<lparr>tcp_send_time := 7\<rparr>) = (OK, sndr', clnt', [])"
    using sample_read [OF refl refl] by blast
  then have run: "read_run (\<lambda>_. False) (\<lambda>_. OK) [([Moved 16], req_bytes sample_request)] [] (sample_sender st m)
      ((new_client (sample_sender st m))\<lparr>tcp_send_time := 7\<rparr>) = Some (sndr', clnt', [])" by (simp add: OK_def)
  have "in_ok ((new_client (sample_sender st m))\<lparr>tcp_send_time := 7\<rparr>)" by (simp add: in_ok_def new_client_def)
  from requests_merged [OF run this] s run show ?thesis by blast
qed

theorem request_not_dropped_witness:
  "\<exists>st m sndr clnt. snd_reach (sample_sender st m) (sndr, [3 \<mapsto> clnt]) \<and> union_range clnt = sample_request \<and>
    (let (res, clnt') = tcp_on_read_blocked sndr clnt
     in reply_range clnt' = sample_request \<or>
       (\<forall>i. base_id sndr \<le> i \<and> i < max_id sndr \<longrightarrow> \<not> IS_WITHIN_RANGE sample_request (seq_of sndr i)))"
proof -
  obtain st m where s: "stg_ok st m" "storage_get_value_size m = 8" "storage_get_base_id m = 10" "storage_get_max_id m = 14"
    using sample_store by blast
  let ?s0 = "sample_sender st m" and ?c0 = "(new_client (sample_sender st m))\<lparr>tcp_send_time := 7\<rparr>"
  obtain sndr clnt where r: "snd_tcp_on_read (\<lambda>_. False) (\<lambda>_. OK) [Moved 16] (req_bytes sample_request) ?s0 ?c0 = (OK, sndr, clnt, [])"
    "union_range clnt = sample_request" "in_next clnt = 0" using sample_read [OF refl refl] by blast
  have "snd_begins ?s0 (?s0, \<lambda>_. None)"
    using sample_inv [OF s(1,2)] s(3,4) by (auto simp: snd_begins_def bound_ok_def seq_of_def sample_sender_def storage_count_def)
  then have "snd_reach ?s0 (?s0, \<lambda>_. None)" by (rule reach_init)
  from reach_step [OF this on_accept] have "snd_reach ?s0 (?s0, [3 \<mapsto> ?c0])" .
  from reach_step [OF this on_read [OF _ r(1), of _ 3]]
  have reach: "snd_reach ?s0 (sndr, [3 \<mapsto> clnt])" by (simp add: OK_def)
  obtain res clnt' where t: "tcp_on_read_blocked sndr clnt = (res, clnt')" by (cases "tcp_on_read_blocked sndr clnt")
  have nw: "\<not> (union_range clnt' = union_range clnt \<and> reply_range clnt' = reply_range clnt) \<or>
      reply_range clnt' = sample_request" if "\<not> (\<forall>i. base_id sndr \<le> i \<and> i < max_id sndr \<longrightarrow> \<not> IS_WITHIN_RANGE sample_request (seq_of sndr i))"
    using t r(2,3) tcp_on_read_served(2) [OF r(1)]
    by (auto simp: tcp_on_read_blocked_def new_client_def IS_VALID_RANGE_def INVALIDATE_RANGE_def sample_request_def
      SEQUENCE_MAX_def SEQUENCE_MIN_def LONG_MAX_def LONG_MIN_def split: if_splits)
  have "reply_range clnt' = sample_request \<or>
       (\<forall>i. base_id sndr \<le> i \<and> i < max_id sndr \<longrightarrow> \<not> IS_WITHIN_RANGE sample_request (seq_of sndr i))"
    using request_not_dropped [OF reach _ t, of 3] nw r(2) by fastforce
  with reach r(2) t show ?thesis
    by (intro exI [of _ st] exI [of _ m] exI [of _ sndr] exI [of _ clnt]) (simp add: Let_def)
qed
text \<open>A sender that has been created satisfies what its handlers rely on.\<close>

lemma snd_init_inv:
  assumes "snd_init e file addr port iface recreate overrun hb orphan age = Inr (sndr, pol)"
    and "storage_get_value_size (oe_contents (si_open e)) < 2 ^ 63"
  shows "snd_inv sndr []" "bound_ok sndr" "next_seq sndr = 1" "clients sndr = (\<lambda>_. None)"
proof -
  let ?m = "oe_contents (si_open e)"
  from assms(1) obtain st lat port' mtu now where
    s: "sndr = (init_sender e st lat addr port' (unat mtu) recreate overrun hb orphan age)\<lparr>last_active_time := now\<rparr>"
    and mtu: "\<not> mtu < 8 + 8 + 8 + load64 ?m OFF_val_size"
    by (auto simp: snd_init_def Let_def split: sum.splits prod.splits option.splits if_splits)
  have "unat (24 + load64 ?m OFF_val_size) = 24 + storage_get_value_size ?m"
    using assms(2) by (simp add: storage_get_value_size_def unat_word_ariths)
  then have "24 + storage_get_value_size ?m \<le> unat mtu"
    using mtu by (simp add: not_less word_le_nat_alt)
  then show "snd_inv sndr []" "bound_ok sndr" "next_seq sndr = 1" "clients sndr = (\<lambda>_. None)"
    by (auto simp: s snd_inv_def staged_def init_sender_def Let_def SEQUENCE_MAX_def LONG_MAX_def bound_ok_def seq_of_def)
qed

end
