(* ===== verification/Delivery.thy ===== *)
theory Delivery
  imports Batch Receiver Gaps
begin

text \<open>
  What \<open>receiver.c\<close> does to the subscriber's storage: multicast packets, heartbeats and replies are
  applied exactly as an abstract receiver applies them, whose state is a map from identifiers
  to the sequence number and the value last received, the next sequence number expected, and
  the request being sent.
\<close>

section \<open>The abstract receiver\<close>

type_synonym view = "ident \<Rightarrow> (sequence \<times> byte list) option"

record rcv_abs =
  a_view :: view
  a_next :: sequence
  a_request :: "byte list"

text \<open>A record arrives under a sequence number, from a packet or in a reply.\<close>

definition put :: "sequence \<Rightarrow> view \<Rightarrow> ident \<times> byte list \<Rightarrow> view" where
  "put seq f r = f(fst r \<mapsto> (seq, snd r))"

definition put_newer :: "view \<Rightarrow> sequence \<times> ident \<times> byte list \<Rightarrow> view" where
  "put_newer f r = (case r of (seq, i, v) \<Rightarrow>
     (case f i of Some (old, w) \<Rightarrow> if seq > old then f(i \<mapsto> (seq, v)) else f | None \<Rightarrow> f))"

text \<open>
  A packet is old, or the next one, or it shows that packets have been missed: then they are
  asked for, in place of whatever the request buffer holds.
\<close>

definition skip_to :: "sequence \<Rightarrow> rcv_abs \<Rightarrow> rcv_abs" where
  "skip_to seq a =
     (if seq > a_next a
      then a\<lparr>a_next := seq, a_request := req_bytes \<lparr>low = a_next a, high = seq\<rparr>\<rparr> else a)"

definition abs_packet :: "sequence \<Rightarrow> (ident \<times> byte list) list \<Rightarrow> rcv_abs \<Rightarrow> rcv_abs" where
  "abs_packet seq rs a =
     (if seq < 0 then skip_to (- seq) a
      else if seq < a_next a then a
      else (skip_to seq a)\<lparr>a_next := seq + 1, a_view := foldl (put seq) (a_view a) rs\<rparr>)"

section \<open>The concrete receiver\<close>

definition r_value :: "receiver \<Rightarrow> mem \<Rightarrow> ident \<Rightarrow> byte list" where
  "r_value recv m i = mread m (record_get_value_ref (rec_of (r_store recv) m i)) (r_val_size recv)"

definition view_of :: "receiver \<Rightarrow> mem \<Rightarrow> view" where
  "view_of recv m i =
     (if valid_id m i then Some (r_record_seqs recv ! nat (i - r_base_id recv), r_value recv m i) else None)"

definition pending :: "receiver \<Rightarrow> byte list" where
  "pending recv = mread (r_out_buf recv) (r_out_next recv) (r_out_remain recv)"

definition abs_of :: "receiver \<Rightarrow> mem \<Rightarrow> rcv_abs" where
  "abs_of recv m = \<lparr>a_view = view_of recv m, a_next = r_next_seq recv, a_request = pending recv\<rparr>"

text \<open>The storage is writable and described by the receiver's fields, and nothing is locked.\<close>

definition rcv_ok :: "receiver \<Rightarrow> mem \<Rightarrow> bool" where
  "rcv_ok recv m \<longleftrightarrow> stg_ok (r_store recv) m \<and> \<not> stg_read_only (r_store recv) \<and>
     r_base_id recv = storage_get_base_id m \<and> r_val_size recv = storage_get_value_size m \<and>
     length (r_record_seqs recv) = storage_count m \<and>
     (\<forall>i. valid_id m i \<longrightarrow> unlocked (load64 m (rec_of (r_store recv) m i))) \<and>
     unlocked (r_stats_lock recv) \<and> unlocked (lat_lock (r_mcast_latency recv))"

lemma queue_test: "0 < storage_get_queue_capacity m \<longleftrightarrow> has_queue m"
  by (auto simp: has_queue_def storage_get_queue_capacity_def word_gt_0 eq_neg_iff_add_eq_0)

lemma valid_id_index:
  "valid_id m i \<Longrightarrow> nat (i - storage_get_base_id m) < storage_count m"
  by (simp add: valid_id_def storage_count_def)

lemma update_record_OK:
  assumes "rcv_ok recv m" "valid_id m i" "length v = r_val_size recv"
  obtains m' where "update_record slp recv m seq i v now =
      (OK, recv\<lparr>r_record_seqs := (r_record_seqs recv)[nat (i - r_base_id recv) := seq]\<rparr>, m')"
    "same_layout m m'" "committed (r_store recv) m m' i v now"
    "\<And>j. valid_id m j \<Longrightarrow> j \<noteq> i \<Longrightarrow> untouched (r_store recv) m m' j"
proof -
  let ?st = "r_store recv" and ?r = "rec_of (r_store recv) m i"
  have ok: "stg_ok ?st m" "\<not> stg_read_only ?st" "unlocked (load64 m ?r)" "length v \<le> storage_get_value_size m"
    using assms by (simp_all add: rcv_ok_def)
  define m1 where "m1 = commit_record (store64 m ?r (load64 m ?r OR SPIN_MASK)) ?r (load64 m ?r) v now"
  obtain m2 where
    w: "(if has_queue m then storage_write_queue ?st m1 i else (OK, m1)) = (OK, m2)"
      "same_layout m m2" "committed ?st m m2 i v now"
      "\<And>j. valid_id m j \<Longrightarrow> j \<noteq> i \<Longrightarrow> untouched ?st m m2 j" using write_step [OF ok(1,2) assms(2) ok(4) m1_def] by metis
  note r = rec_of_is_record [OF assms(2), of ?st]
  have "same_layout m m1"
    using only_record_layout [OF ok(1) r] commit_record_fields(1) [OF ok(1) r ok(4) m1_def] by simp
  then have "has_queue m1 = has_queue m" by (rule same_layout_queue)
  then have "update_record slp recv m seq i v now =
      (OK, recv\<lparr>r_record_seqs := (r_record_seqs recv)[nat (i - r_base_id recv) := seq]\<rparr>, m2)"
    using w(1) assms(2) ok(3)
    by (auto simp: update_record_def record_write_lock_def m1_def [symmetric] Let_def queue_test split: if_splits)
  with w(2-4) that show thesis by blast
qed
text \<open>What an update keeps of a receiver.\<close>

definition same_rcv :: "receiver \<Rightarrow> receiver \<Rightarrow> bool" where
  "same_rcv recv recv' \<longleftrightarrow> r_store recv' = r_store recv \<and> r_base_id recv' = r_base_id recv \<and>
     r_val_size recv' = r_val_size recv \<and> r_tcp_sock recv' = r_tcp_sock recv \<and>
     r_mcast_sock recv' = r_mcast_sock recv \<and> r_mcast_mtu recv' = r_mcast_mtu recv \<and> r_tcp_ip recv' = r_tcp_ip recv"

lemma same_rcv_refl [simp]: "same_rcv r r"
  by (simp add: same_rcv_def)

lemma same_rcv_trans: "same_rcv a b \<Longrightarrow> same_rcv b c \<Longrightarrow> same_rcv a c"
  by (simp add: same_rcv_def)

lemma update_record_view:
  assumes "rcv_ok recv m" "valid_id m i" "length v = r_val_size recv"
  obtains recv' m' where "update_record slp recv m seq i v now = (OK, recv', m')"
    "recv' = recv\<lparr>r_record_seqs := r_record_seqs recv'\<rparr>" "rcv_ok recv' m'" "same_layout m m'"
    "view_of recv' m' = put seq (view_of recv m) (i, v)"
proof -
  let ?st = "r_store recv" and ?recv = "recv\<lparr>r_record_seqs := (r_record_seqs recv)[nat (i - r_base_id recv) := seq]\<rparr>"
  obtain m' where u: "update_record slp recv m seq i v now = (OK, ?recv, m')"
    and s: "same_layout m m'" and c: "committed ?st m m' i v now"
    and un: "\<And>j. valid_id m j \<Longrightarrow> j \<noteq> i \<Longrightarrow> untouched ?st m m' j"
    using update_record_OK [OF assms, of slp seq now] by metis
  note f = same_layout_fields [OF s] same_layout_ids [OF s]
  have ok: "stg_ok ?st m" "r_base_id recv = storage_get_base_id m" "r_val_size recv = storage_get_value_size m"
    "length (r_record_seqs recv) = storage_count m" using assms(1) by (simp_all add: rcv_ok_def)
  have "unlocked (load64 m' (rec_of ?st m j))" if "valid_id m j" for j
    using c untouched_rev [OF ok(1) un, of j] that assms(1) by (cases "j = i") (simp_all add: committed_def rcv_ok_def)
  then have ok': "rcv_ok ?recv m'"
    using assms(1) same_layout_stg_ok [OF s] by (simp add: rcv_ok_def f storage_count_def)
  have other: "r_value ?recv m' j = r_value recv m j" if "valid_id m j" "j \<noteq> i" for j
    using untouched_part [OF un [OF that], of 16 "r_val_size recv"] layout_okD(3,4) [OF stg_okD(1) [OF ok(1)]] ok(3)
    by (simp add: r_value_def f record_get_value_ref_def)
  have new: "r_value ?recv m' i = v"
    using c assms(3) by (simp add: r_value_def f committed_def)
  have "view_of ?recv m' j = put seq (view_of recv m) (i, v) j" for j
  proof (cases "valid_id m j")
    case True
    have "nat (j - r_base_id recv) \<noteq> nat (i - r_base_id recv)" if "j \<noteq> i"
      using that True assms(2) ok(2) by (auto simp: valid_id_def)
    then show ?thesis
      using True valid_id_index [OF assms(2)] new other [OF True] ok(2,4)
      by (cases "j = i") (simp_all add: view_of_def f put_def)
  next
    case False
    then have "j \<noteq> i" using assms(2) by auto
    then show ?thesis using False by (simp add: view_of_def f put_def)
  qed
  then have "view_of ?recv m' = put seq (view_of recv m) (i, v)" by (simp add: fun_eq_iff)
  with u ok' s show thesis by (intro that) simp_all
qed

text \<open>The records of a packet that starts at \<open>p\<close>, for identifiers of the storage.\<close>

definition entries_ok :: "receiver \<Rightarrow> mem \<Rightarrow> (ident \<times> byte list) list \<Rightarrow> bool" where
  "entries_ok recv m rs \<longleftrightarrow> (\<forall>(i, v)\<in>set rs. valid_id m i \<and> is_long i \<and> length v = r_val_size recv)"

lemma packet_entries_length:
  "entries_ok recv m rs \<Longrightarrow> length (concat (map entry_bytes rs)) = length rs * (8 + r_val_size recv)"
  by (induction rs) (auto simp: entries_ok_def entry_bytes_def)

lemma entries_ok_cong:
  "same_layout m m' \<Longrightarrow> r_val_size recv' = r_val_size recv \<Longrightarrow> entries_ok recv' m' rs = entries_ok recv m rs"
  by (simp add: entries_ok_def same_layout_ids)

lemma update_records_view:
  assumes "rcv_ok recv m" "entries_ok recv m rs" "lst = p + length rs * (8 + r_val_size recv)"
    and "mread buf p (length rs * (8 + r_val_size recv)) = concat (map entry_bytes rs)" "0 \<le> st"
  shows "\<exists>st' recv' m'. update_records slp buf seq now p lst st recv m = (st', recv', m') \<and> 0 \<le> st' \<and>
    recv' = recv\<lparr>r_record_seqs := r_record_seqs recv'\<rparr> \<and> rcv_ok recv' m' \<and> same_layout m m' \<and>
    view_of recv' m' = foldl (put seq) (view_of recv m) rs"
  using assms
proof (induction rs arbitrary: p st recv m)
  case Nil
  then show ?case by (subst update_records.simps) simp
next
  case (Cons r rs)
  obtain i v where r: "r = (i, v)" by (cases r)
  let ?n = "8 + r_val_size recv" and ?k = "length rs * (8 + r_val_size recv)"
  have i: "valid_id m i" "is_long i" "length v = r_val_size recv" "entries_ok recv m rs"
    using Cons.prems(2) by (auto simp: entries_ok_def r)
  have "mread buf p (8 + (r_val_size recv + ?k)) =
      mread buf p 8 @ mread buf (p + 8) (r_val_size recv) @ mread buf (p + ?n) ?k"
    by (simp only: mread_add add.assoc)
  moreover have "length (r # rs) * ?n = 8 + (r_val_size recv + ?k)" by simp
  ultimately have "mread buf p 8 @ mread buf (p + 8) (r_val_size recv) @ mread buf (p + ?n) ?k =
      entry_bytes r @ concat (map entry_bytes rs)"
    using Cons.prems(4) by (simp only: list.map concat.simps)
  then have b: "mread buf p 8 = wire64 i" "mread buf (p + 8) (r_val_size recv) = v"
    "mread buf (p + ?n) ?k = concat (map entry_bytes rs)" using i(3) by (simp_all add: r entry_bytes_def)
  obtain recv1 m1 where u: "update_record slp recv m seq i v now = (OK, recv1, m1)"
    "recv1 = recv\<lparr>r_record_seqs := r_record_seqs recv1\<rparr>" "rcv_ok recv1 m1" "same_layout m m1"
    "view_of recv1 m1 = put seq (view_of recv m) (i, v)"
    by (rule update_record_view [OF Cons.prems(1) i(1,3)])
  have vs: "r_val_size recv1 = r_val_size recv" by (subst u(2)) simp
  have go: "update_records slp buf seq now p lst st recv m = update_records slp buf seq now (p + ?n) lst OK recv1 m1"
    using Cons.prems(3) get_net_wire [OF b(1) i(2)] b(2) u(1)
    by (subst update_records.simps) (simp add: OK_def add.assoc)
  have "entries_ok recv1 m1 rs" using i(4) entries_ok_cong [OF u(4) vs] by simp
  from Cons.IH [of recv1 m1 "p + ?n" OK, OF u(3) this] b(3) Cons.prems(3) vs obtain st' recv' m' where
    ih: "update_records slp buf seq now (p + ?n) lst OK recv1 m1 = (st', recv', m')" "0 \<le> st'"
      "recv' = recv1\<lparr>r_record_seqs := r_record_seqs recv'\<rparr>" "rcv_ok recv' m'" "same_layout m1 m'"
      "view_of recv' m' = foldl (put seq) (view_of recv1 m1) rs"
    by (auto simp: OK_def algebra_simps)
  have "recv' = recv\<lparr>r_record_seqs := r_record_seqs recv'\<rparr>"
    by (subst ih(3), subst u(2)) simp
  with ih go u(5) same_layout_trans [OF u(4) ih(5)] show ?case by (auto simp: r)
qed
section \<open>Multicast packets\<close>

lemma spin_free: "unlocked w \<Longrightarrow> spin_write_lock (\<lambda>_. w) slp = Inr (w, 0, w OR SPIN_MASK)"
  by (simp add: spin_write_lock_from spin_from_free [of _ 0, simplified])

definition stats_only :: "receiver \<Rightarrow> receiver \<Rightarrow> bool" where
  "stats_only recv recv' \<longleftrightarrow> same_rcv recv recv' \<and> r_record_seqs recv' = r_record_seqs recv \<and>
     r_next_seq recv' = r_next_seq recv \<and> r_in_buf recv' = r_in_buf recv \<and> r_in_next recv' = r_in_next recv \<and>
     r_in_remain recv' = r_in_remain recv \<and> r_out_buf recv' = r_out_buf recv \<and> r_out_next recv' = r_out_next recv \<and>
     r_out_remain recv' = r_out_remain recv \<and> r_is_stopping recv' = r_is_stopping recv"

lemma view_of_cong:
  "same_rcv recv recv' \<Longrightarrow> r_record_seqs recv' = r_record_seqs recv \<Longrightarrow> view_of recv' m = view_of recv m"
  by (rule ext) (simp add: same_rcv_def view_of_def r_value_def)

lemma stats_only_abs: "stats_only recv recv' \<Longrightarrow> abs_of recv' m = abs_of recv m"
  by (simp add: stats_only_def view_of_cong abs_of_def pending_def)

lemma r_with_stats_OK:
  assumes "rcv_ok recv m"
  obtains recv' where "r_with_stats slp f recv = Inr recv'" "rcv_ok recv' m" "stats_only recv recv'"
proof
  let ?r = "recv\<lparr>r_next_stats := f (r_next_stats recv), r_stats_lock := 0\<rparr>"
  show "r_with_stats slp f recv = Inr ?r" using assms by (simp add: r_with_stats_def rcv_ok_def spin_free)
  show "rcv_ok ?r m" using assms by (simp add: rcv_ok_def)
  show "stats_only recv ?r" by (simp add: stats_only_def same_rcv_def)
qed

lemma update_stats_OK:
  assumes "rcv_ok recv m"
  obtains recv' where "update_stats slp recv n d = (OK, recv')" "rcv_ok recv' m" "stats_only recv recv'"
proof -
  obtain r1 where r1: "r_with_stats slp (\<lambda>s. s\<lparr>r_mcast_bytes_recv := r_mcast_bytes_recv s + int n\<rparr>) recv = Inr r1"
    "rcv_ok r1 m" "stats_only recv r1" by (rule r_with_stats_OK [OF assms])
  then have "unlocked (lat_lock (r_mcast_latency r1))" by (simp add: rcv_ok_def)
  then obtain lat where lat: "latency_on_sample slp (r_mcast_latency r1) (of_int d) = (OK, lat)" "lat_lock lat = 0"
    by (simp add: latency_on_sample_def spin_free)
  have "rcv_ok (r1\<lparr>r_mcast_latency := lat\<rparr>) m" "stats_only recv (r1\<lparr>r_mcast_latency := lat\<rparr>)"
    using r1(2,3) lat(2) by (simp_all add: rcv_ok_def stats_only_def same_rcv_def)
  then show thesis using that r1(1) lat(1) by (simp add: update_stats_def)
qed

text \<open>The connection is among the polled sockets.\<close>

definition polled :: "poller \<Rightarrow> receiver \<Rightarrow> bool" where
  "polled pol recv \<longleftrightarrow> r_tcp_sock recv \<noteq> 0 \<and> sock_index pol (r_tcp_sock recv) \<noteq> None"

lemma polled_set_event:
  assumes "polled pol recv"
  obtains pol' where "poller_set_event pol (r_tcp_sock recv) ev = (OK, pol')" "polled pol' recv"
  using assms that by (auto simp: poller_set_event_def polled_def sock_index_def)

lemma polled_cong: "same_rcv recv recv' \<Longrightarrow> polled pol recv' = polled pol recv"
  by (simp add: same_rcv_def polled_def)

lemma request_gap_OK:
  assumes "rcv_ok recv m" "polled pol recv"
  obtains pol' recv' where "request_gap slp pol recv lo hi = (OK, pol', recv')" "rcv_ok recv' m" "same_rcv recv recv'"
    "r_next_seq recv' = r_next_seq recv" "view_of recv' m = view_of recv m"
    "pending recv' = req_bytes \<lparr>low = lo, high = hi\<rparr>" "polled pol' recv'"
proof -
  define r1 where "r1 = recv\<lparr>r_out_buf := put_net (put_net (r_out_buf recv) 0 lo) 8 hi, r_out_next := 0, r_out_remain := 16\<rparr>"
  have ok1: "rcv_ok r1 m" using assms(1) by (simp add: rcv_ok_def r1_def)
  obtain r2 where r2: "r_with_stats slp (\<lambda>s. s\<lparr>r_tcp_gap_count := r_tcp_gap_count s + 1\<rparr>) r1 = Inr r2"
    "rcv_ok r2 m" "stats_only r1 r2" by (rule r_with_stats_OK [OF ok1])
  obtain pol' where p: "poller_set_event pol (r_tcp_sock recv) (POLLIN OR POLLOUT) = (OK, pol')" "polled pol' recv"
    by (rule polled_set_event [OF assms(2)])
  have "pending r1 = mread (r_out_buf r1) 0 8 @ mread (r_out_buf r1) 8 8"
    using mread_add [of "r_out_buf r1" 0 8 8] by (simp add: pending_def r1_def)
  also have "\<dots> = req_bytes \<lparr>low = lo, high = hi\<rparr>"
    by (simp add: r1_def req_bytes_def put_net_wire mread_mwrite_disjoint)
  finally have "pending r1 = req_bytes \<lparr>low = lo, high = hi\<rparr>" .
  moreover have "view_of r1 m = view_of recv m" by (simp add: view_of_def r1_def r_value_def fun_eq_iff)
  ultimately have "pending r2 = req_bytes \<lparr>low = lo, high = hi\<rparr>" "view_of r2 m = view_of recv m"
    using stats_only_abs [OF r2(3), of m] by (simp_all add: abs_of_def)
  moreover have "request_gap slp pol recv lo hi = (OK, pol', r2)"
    using p(1) r2(1) by (simp add: request_gap_def r1_def Let_def OK_def)
  moreover have "same_rcv recv r2" "r_next_seq r2 = r_next_seq recv"
    using r2(3) by (simp_all add: stats_only_def same_rcv_def r1_def)
  ultimately show thesis using that r2(2) p(2) by (simp add: polled_cong)
qed
text \<open>A packet as a sender sends it, received from the publisher's address.\<close>

definition packet_ok :: "receiver \<Rightarrow> mem \<Rightarrow> sequence \<Rightarrow> microsec \<Rightarrow> (ident \<times> byte list) list \<Rightarrow> bool" where
  "packet_ok recv m seq stamp rs \<longleftrightarrow> is_long seq \<and> - SEQUENCE_MAX \<le> seq \<and> seq < SEQUENCE_MAX \<and> is_long stamp \<and>
     entries_ok recv m rs \<and> length (packet seq stamp rs) \<le> r_mcast_mtu recv"

definition arrives :: "read_env \<Rightarrow> receiver \<Rightarrow> byte list \<Rightarrow> bool" where
  "arrives e recv dgram \<longleftrightarrow> re_dgram e = Inr dgram \<and> re_src_ip e = r_tcp_ip recv \<and> (\<exists>now. re_clock e = Inr now)"

lemma packet_read:
  assumes "packet_ok recv m seq stamp rs" "buf = mwrite stk 0 (packet seq stamp rs)"
  shows "get_net buf 0 = seq" "get_net buf 8 = stamp" "length (packet seq stamp rs) = 16 + length rs * (8 + r_val_size recv)"
    "mread buf 16 (length rs * (8 + r_val_size recv)) = concat (map entry_bytes rs)"
proof -
  have e: "length (concat (map entry_bytes rs)) = length rs * (8 + r_val_size recv)"
    using assms(1) by (intro packet_entries_length [of recv m]) (simp add: packet_ok_def)
  then show l: "length (packet seq stamp rs) = 16 + length rs * (8 + r_val_size recv)"
    by (simp add: packet_def)
  have "mread buf 0 8 @ mread buf 8 8 @ mread buf 16 (length rs * (8 + r_val_size recv)) = packet seq stamp rs"
    using mread_add [of buf 0 8 "8 + length rs * (8 + r_val_size recv)"]
      mread_add [of buf 8 8 "length rs * (8 + r_val_size recv)"] mread_mwrite_same [OF l [symmetric], of stk 0]
    by (simp add: assms(2))
  then have b: "mread buf 0 8 = wire64 seq" "mread buf 8 8 = wire64 stamp"
    "mread buf 16 (length rs * (8 + r_val_size recv)) = concat (map entry_bytes rs)" by (simp_all add: packet_def)
  then show "mread buf 16 (length rs * (8 + r_val_size recv)) = concat (map entry_bytes rs)" by simp
  show "get_net buf 0 = seq" "get_net buf 8 = stamp"
    using get_net_wire [OF b(1)] get_net_wire [OF b(2)] assms(1) by (simp_all add: packet_ok_def)
qed

text \<open>Asking for what lies between the next sequence number expected and the one seen.\<close>

lemma gap_step:
  assumes "rcv_ok recv m" "polled pol recv"
  obtains pol' r1 r2 where
    "(if s > r_next_seq recv then request_gap slp pol recv (r_next_seq recv) s else (OK, pol, recv)) = (OK, pol', r1)"
    "(if s > r_next_seq r1 then r1\<lparr>r_next_seq := s\<rparr> else r1) = r2"
    "rcv_ok r2 m" "same_rcv recv r2" "polled pol' r2" "abs_of r2 m = skip_to s (abs_of recv m)"
proof (cases "s > r_next_seq recv")
  case False
  then show thesis using assms that [of pol recv recv] by (simp add: skip_to_def abs_of_def)
next
  case True
  obtain pol' r1 where g: "request_gap slp pol recv (r_next_seq recv) s = (OK, pol', r1)" "rcv_ok r1 m" "same_rcv recv r1"
    "r_next_seq r1 = r_next_seq recv" "view_of r1 m = view_of recv m"
    "pending r1 = req_bytes \<lparr>low = r_next_seq recv, high = s\<rparr>" "polled pol' r1"
    by (rule request_gap_OK [OF assms])
  let ?r2 = "r1\<lparr>r_next_seq := s\<rparr>"
  have "same_rcv r1 ?r2" by (simp add: same_rcv_def)
  then have "view_of ?r2 m = view_of r1 m" "polled pol' ?r2" "same_rcv recv ?r2"
    using g(3,7) by (auto simp: view_of_cong polled_cong intro: same_rcv_trans)
  moreover have "pending ?r2 = pending r1" "rcv_ok ?r2 m" using g(2) by (simp_all add: pending_def rcv_ok_def)
  ultimately show thesis
    using that [of pol' r1 ?r2] g True by (simp add: skip_to_def abs_of_def)
qed

text \<open>The records of a packet at or above the number expected are applied, and what is missing is asked for.\<close>

lemma new_packet:
  assumes "rcv_ok recv m" "polled pol recv" "entries_ok recv m rs" "0 \<le> seq" "r_next_seq recv \<le> seq"
    and "mread buf 16 (length rs * (8 + r_val_size recv)) = concat (map entry_bytes rs)"
  obtains st2 r2 m2 pol' r3 r4 where
    "update_records slp buf seq now 16 (16 + length rs * (8 + r_val_size recv)) OK recv m = (st2, r2, m2)" "0 \<le> st2"
    "(if seq > r_next_seq r2 then request_gap slp pol r2 (r_next_seq r2) seq else (OK, pol, r2)) = (OK, pol', r3)"
    "(if seq > r_next_seq r3 then r3\<lparr>r_next_seq := seq\<rparr> else r3) = r4" "r_next_seq r2 = r_next_seq recv"
    "rcv_ok (r4\<lparr>r_next_seq := r_next_seq r4 + 1\<rparr>) m2" "same_layout m m2" "same_rcv recv (r4\<lparr>r_next_seq := r_next_seq r4 + 1\<rparr>)"
    "polled pol' (r4\<lparr>r_next_seq := r_next_seq r4 + 1\<rparr>)"
    "abs_of (r4\<lparr>r_next_seq := r_next_seq r4 + 1\<rparr>) m2 = abs_packet seq rs (abs_of recv m)"
proof -
  let ?n = "16 + length rs * (8 + r_val_size recv)"
  from update_records_view [OF assms(1,3), of ?n 16 buf OK slp seq now] assms(6)
  obtain st2 r2 m2 where u: "update_records slp buf seq now 16 ?n OK recv m = (st2, r2, m2)" "0 \<le> st2"
    "r2 = recv\<lparr>r_record_seqs := r_record_seqs r2\<rparr>" "rcv_ok r2 m2" "same_layout m m2"
    "view_of r2 m2 = foldl (put seq) (view_of recv m) rs" by (auto simp: OK_def)
  have f2: "same_rcv recv r2" "r_next_seq r2 = r_next_seq recv" "pending r2 = pending recv"
    by (subst u(3), simp add: same_rcv_def pending_def)+
  have p2: "polled pol r2" using assms(2) f2(1) by (simp add: polled_cong)
  obtain pol' r3 r4 where g:
    "(if seq > r_next_seq r2 then request_gap slp pol r2 (r_next_seq r2) seq else (OK, pol, r2)) = (OK, pol', r3)"
    "(if seq > r_next_seq r3 then r3\<lparr>r_next_seq := seq\<rparr> else r3) = r4"
    "rcv_ok r4 m2" "same_rcv r2 r4" "polled pol' r4" "abs_of r4 m2 = skip_to seq (abs_of r2 m2)"
    by (rule gap_step [OF u(4) p2])
  let ?r5 = "r4\<lparr>r_next_seq := r_next_seq r4 + 1\<rparr>"
  have s5: "same_rcv r4 ?r5" by (simp add: same_rcv_def)
  have s: "same_rcv recv ?r5" by (rule same_rcv_trans [OF f2(1) same_rcv_trans [OF g(4) s5]])
  have ok: "rcv_ok ?r5 m2" "polled pol' ?r5" using g(3,5) s5 by (simp_all add: rcv_ok_def polled_cong)
  have "abs_of ?r5 m2 = (abs_of r4 m2)\<lparr>a_next := r_next_seq r4 + 1\<rparr>"
    using view_of_cong [OF s5] by (simp add: abs_of_def pending_def)
  moreover have "r_next_seq r4 = seq" using g(6) f2(2) assms(5) by (auto simp: abs_of_def skip_to_def split: if_splits)
  moreover have "abs_of r2 m2 = (abs_of recv m)\<lparr>a_view := foldl (put seq) (a_view (abs_of recv m)) rs\<rparr>"
    using u(6) f2(2,3) by (simp add: abs_of_def)
  ultimately have "abs_of ?r5 m2 = abs_packet seq rs (abs_of recv m)"
    using g(6) assms(4,5) by (simp add: abs_packet_def skip_to_def abs_of_def split: if_splits)
  from that [OF u(1,2) g(1,2) f2(2) ok(1) u(5) s ok(2) this] show thesis .
qed

lemma mcast_on_read_refines:
  assumes "rcv_ok recv m" "polled pol recv" "packet_ok recv m seq stamp rs" "arrives e recv (packet seq stamp rs)"
  shows "\<exists>pol' recv' m'. mcast_on_read e pol recv m = (OK, pol', recv', m') \<and> rcv_ok recv' m' \<and> same_layout m m' \<and>
    same_rcv recv recv' \<and> polled pol' recv' \<and> abs_of recv' m' = abs_packet seq rs (abs_of recv m)"
proof -
  obtain now where env: "re_dgram e = Inr (packet seq stamp rs)" "re_src_ip e = r_tcp_ip recv" "re_clock e = Inr now"
    using assms(4) by (auto simp: arrives_def)
  define buf where "buf = mwrite (re_stack e) 0 (packet seq stamp rs)"
  note b = packet_read [OF assms(3) buf_def]
  have len: "length (packet seq stamp rs) \<le> r_mcast_mtu recv" using assms(3) by (simp add: packet_ok_def)
  then have rx: "sock_recvfrom (re_raised e) (re_dgram e) True (r_mcast_mtu recv) = Inr (packet seq stamp rs)"
    using b(3) by (auto simp: sock_recvfrom_def env)
  let ?n = "length (packet seq stamp rs)"
  have "rcv_ok (recv\<lparr>r_mcast_recv_time := now\<rparr>) m" using assms(1) by (simp add: rcv_ok_def)
  then obtain r1 where r1: "update_stats (re_slp e) (recv\<lparr>r_mcast_recv_time := now\<rparr>) ?n (now - get_net buf 8) = (OK, r1)"
    "rcv_ok r1 m" "stats_only (recv\<lparr>r_mcast_recv_time := now\<rparr>) r1" by (rule update_stats_OK)
  have s1: "stats_only recv r1" "same_rcv recv r1" using r1(3) by (simp_all add: stats_only_def same_rcv_def)
  note a1 = stats_only_abs [OF s1(1), of m]
  have nx: "r_next_seq r1 = r_next_seq recv" using s1(1) by (simp add: stats_only_def)
  have p1: "polled pol r1" using assms(2) s1(2) by (simp add: polled_cong)
  note run = mcast_on_read_def [of e pol recv m, unfolded Let_def rx env(2,3) sum.case buf_def [symmetric] r1(1) b(1)]
  have n16: "\<not> length (packet seq stamp rs) < 16" using b(3) by simp
  consider (hb) "seq < 0" | (old) "0 \<le> seq" "seq < r_next_seq recv" | (new) "0 \<le> seq" "r_next_seq recv \<le> seq" by linarith
  then show ?thesis
  proof cases
    case old
    then have "mcast_on_read e pol recv m = (OK, pol, r1, m)" using run n16 b(1) nx by (simp add: OK_def)
    moreover have "abs_packet seq rs (abs_of recv m) = abs_of recv m" using old by (simp add: abs_packet_def abs_of_def)
    ultimately show ?thesis using r1(2) s1(2) p1 a1 by (intro exI [of _ pol] exI [of _ r1] exI [of _ m]) simp
  next
    case hb
    have neg: "(seq < 0) = True" using hb by simp
    obtain pol' r2 r3 where g:
      "(if - seq > r_next_seq r1 then request_gap (re_slp e) pol r1 (r_next_seq r1) (- seq) else (OK, pol, r1)) = (OK, pol', r2)"
      "(if - seq > r_next_seq r2 then r2\<lparr>r_next_seq := - seq\<rparr> else r2) = r3"
      "rcv_ok r3 m" "same_rcv r1 r3" "polled pol' r3" "abs_of r3 m = skip_to (- seq) (abs_of r1 m)"
      by (rule gap_step [OF r1(2) p1])
    have "mcast_on_read e pol recv m = (OK, pol', r3, m)"
      using run [unfolded neg if_True if_False not_True_eq_False simp_thms prod.case g(1)] n16 g(2) by (simp add: OK_def)
    then show ?thesis using g(3-6) s1(2) a1 hb same_rcv_trans [OF s1(2) g(4)]
      by (intro exI [of _ pol'] exI [of _ r3] exI [of _ m]) (simp add: abs_packet_def)
  next
    case new
    have pos: "(seq < 0) = False" using new(1) by simp
    have en: "entries_ok r1 m rs" "r_val_size r1 = r_val_size recv"
      using assms(3) s1(2) by (auto simp: packet_ok_def entries_ok_def same_rcv_def)
    have ln: "?n = 16 + length rs * (8 + r_val_size r1)" using b(3) en(2) by simp
    from new_packet [OF r1(2) p1 en(1) new(1), of buf "re_slp e" now] new(2) nx b(4) en(2)
    obtain st2 r2 m2 pol' r3 r4 where u: "update_records (re_slp e) buf seq now 16 ?n OK r1 m = (st2, r2, m2)" "0 \<le> st2"
      and g: "(if seq > r_next_seq r2 then request_gap (re_slp e) pol r2 (r_next_seq r2) seq else (OK, pol, r2)) = (OK, pol', r3)"
        "(if seq > r_next_seq r3 then r3\<lparr>r_next_seq := seq\<rparr> else r3) = r4" "r_next_seq r2 = r_next_seq r1"
      and r5: "rcv_ok (r4\<lparr>r_next_seq := r_next_seq r4 + 1\<rparr>) m2" "same_layout m m2" "same_rcv r1 (r4\<lparr>r_next_seq := r_next_seq r4 + 1\<rparr>)"
        "polled pol' (r4\<lparr>r_next_seq := r_next_seq r4 + 1\<rparr>)"
        "abs_of (r4\<lparr>r_next_seq := r_next_seq r4 + 1\<rparr>) m2 = abs_packet seq rs (abs_of r1 m)"
      unfolding ln by metis
    have "mcast_on_read e pol recv m = (OK, pol', r4\<lparr>r_next_seq := r_next_seq r4 + 1\<rparr>, m2)"
      using run [unfolded pos if_True if_False not_False_eq_True simp_thms u(1) prod.case g(1)] n16 new(2) u(2) g(2,3) nx by (simp add: OK_def)
    then show ?thesis using r5 a1 same_rcv_trans [OF s1(2) r5(3)] by auto
  qed
qed
section \<open>Replies\<close>

text \<open>What comes over the connection.\<close>

datatype msg = Heartbeat | Will_quit | Reply sequence ident "byte list"

fun msg_bytes :: "msg \<Rightarrow> byte list" where
  "msg_bytes Heartbeat = wire64 HEARTBEAT_SEQ"
| "msg_bytes Will_quit = wire64 WILL_QUIT_SEQ"
| "msg_bytes (Reply seq i v) = wire64 seq @ wire64 i @ v"

fun on_msg :: "view \<Rightarrow> msg \<Rightarrow> view" where
  "on_msg f (Reply seq i v) = put_newer f (seq, i, v)"
| "on_msg f _ = f"

text \<open>
  The bytes of the message being read.  Once its first eight bytes are there the buffer holds the
  sequence number in the byte order of the host.
\<close>

definition got_bytes :: "receiver \<Rightarrow> byte list" where
  "got_bytes recv =
     (if r_is_stopping recv then []
      else if r_in_next recv < 8 then mread (r_in_buf recv) 0 (r_in_next recv)
      else wire64 (sint (load64 (r_in_buf recv) 0)) @ mread (r_in_buf recv) 8 (r_in_next recv - 8))"

definition rin_ok :: "receiver \<Rightarrow> bool" where
  "rin_ok recv \<longleftrightarrow>
     (if r_in_next recv < 8 then r_in_next recv + r_in_remain recv = 8
      else r_in_next recv + r_in_remain recv = 16 + r_val_size recv \<and> 0 < r_in_remain recv \<and>
        sint (load64 (r_in_buf recv) 0) \<notin> {HEARTBEAT_SEQ, WILL_QUIT_SEQ})"

text \<open>Messages that are told apart by their sequence numbers.\<close>

fun msg_ok :: "nat \<Rightarrow> msg \<Rightarrow> bool" where
  "msg_ok n (Reply seq i v) \<longleftrightarrow> seq \<notin> {HEARTBEAT_SEQ, WILL_QUIT_SEQ} \<and> is_long seq \<and> is_long i \<and> length v = n"
| "msg_ok n _ \<longleftrightarrow> True"

text \<open>The sequence number at the head of a message, and what follows it.\<close>

fun head_seq :: "msg \<Rightarrow> sequence" where
  "head_seq Heartbeat = HEARTBEAT_SEQ"
| "head_seq Will_quit = WILL_QUIT_SEQ"
| "head_seq (Reply seq i v) = seq"

fun after_head :: "msg \<Rightarrow> byte list" where
  "after_head (Reply seq i v) = wire64 i @ v"
| "after_head _ = []"

lemma msg_bytes_split: "msg_bytes msg = wire64 (head_seq msg) @ after_head msg"
  by (cases msg) simp_all

lemma head_seq_long: "msg_ok n msg \<Longrightarrow> is_long (head_seq msg)"
  by (cases msg) (simp_all add: HEARTBEAT_SEQ_def WILL_QUIT_SEQ_def is_long_def LONG_MIN_def LONG_MAX_def)

lemma head_seq_kind:
  assumes "msg_ok n msg" "msg_ok n msg'" "head_seq msg = head_seq msg'"
  shows "msg = msg' \<or> (\<exists>s i v j w. msg = Reply s i v \<and> msg' = Reply s j w)"
  using assms by (cases msg; cases msg') (simp_all add: HEARTBEAT_SEQ_def WILL_QUIT_SEQ_def)

interpretation replies: framing msg_bytes "msg_ok n" for n
proof
  fix msg msg' :: msg and xs ys
  assume ok: "msg_ok n msg" "msg_ok n msg'" and e: "msg_bytes msg @ xs = msg_bytes msg' @ ys"
  then have h: "wire64 (head_seq msg) = wire64 (head_seq msg')" and t: "after_head msg @ xs = after_head msg' @ ys"
    by (simp_all add: msg_bytes_split)
  from h have "head_seq msg = head_seq msg'" using ok head_seq_long by (intro wire64_inj) auto
  from head_seq_kind [OF ok this] show "msg = msg'"
  proof (elim disjE exE conjE)
    fix s i v j w
    assume r: "msg = Reply s i v" "msg' = Reply s j w"
    then have "is_long i" "is_long j" "wire64 i = wire64 j" "v = w" using ok t by simp_all
    then show ?thesis using wire64_inj [of i j] by (simp add: r)
  qed
next
  show "msg_bytes msg \<noteq> []" for msg
    by (cases msg) simp_all
qed

text \<open>One call reads a part of a message, or ends one and acts on it.\<close>

definition read_step :: "receiver \<Rightarrow> mem \<Rightarrow> byte list \<Rightarrow> receiver \<Rightarrow> mem \<Rightarrow> bool" where
  "read_step recv m g recv' m' \<longleftrightarrow>
     (got_bytes recv @ g = got_bytes recv' \<and> view_of recv' m' = view_of recv m \<and>
        \<not> r_is_stopping recv' \<or>
      (\<exists>msg. msg_ok (r_val_size recv) msg \<and> got_bytes recv @ g = msg_bytes msg \<and> got_bytes recv' = [] \<and>
         view_of recv' m' = on_msg (view_of recv m) msg \<and> (r_is_stopping recv' \<longleftrightarrow> msg = Will_quit)))"

definition keeps_rcv :: "receiver \<Rightarrow> mem \<Rightarrow> receiver \<Rightarrow> mem \<Rightarrow> bool" where
  "keeps_rcv recv m recv' m' \<longleftrightarrow> rcv_ok recv' m' \<and> same_rcv recv recv' \<and> same_layout m m' \<and>
     r_next_seq recv' = r_next_seq recv \<and> pending recv' = pending recv"

lemma keeps_rcv_trans: "keeps_rcv a m b m1 \<Longrightarrow> keeps_rcv b m1 c m2 \<Longrightarrow> keeps_rcv a m c m2"
  by (auto simp: keeps_rcv_def intro: same_rcv_trans same_layout_trans)

lemma tcp_read_buf_step:
  assumes "rcv_tcp_read_buf sg slp clk xs avail recv = (st, recv', rest)" "0 \<le> st \<or> st = BLOCKED" "clock_ok clk"
    and "rcv_ok recv m"
  shows "keeps_rcv recv m recv' m" "r_record_seqs recv' = r_record_seqs recv" "r_is_stopping recv' = r_is_stopping recv"
    "r_in_next recv \<le> r_in_next recv'" "r_in_next recv' + r_in_remain recv' = r_in_next recv + r_in_remain recv"
    "\<exists>g. avail = g @ rest \<and> length g = r_in_next recv' - r_in_next recv \<and> r_in_buf recv' = mwrite (r_in_buf recv) (r_in_next recv) g"
proof -
  obtain st1 buf nx rem av where r: "read_loop sg xs OK (r_in_buf recv) (r_in_next recv) (r_in_remain recv) avail = (st1, buf, nx, rem, av)"
    by (cases "read_loop sg xs OK (r_in_buf recv) (r_in_next recv) (r_in_remain recv) avail")
  note l = read_loop_got [OF r]
  define r1 where "r1 = recv\<lparr>r_in_buf := buf, r_in_next := nx, r_in_remain := rem\<rparr>"
  have ok1: "rcv_ok r1 m" using assms(4) by (simp add: r1_def rcv_ok_def)
  have "rest = av \<and> rcv_ok recv' m \<and> (\<exists>t. stats_only (r1\<lparr>r_tcp_recv_time := t\<rparr>) recv')"
  proof (cases "nx - r_in_next recv > 0")
    case False
    then have "recv' = r1" "rest = av" using assms(1) r by (simp_all add: rcv_tcp_read_buf_def r1_def Let_def)
    then show ?thesis using ok1 by (auto simp: stats_only_def same_rcv_def)
  next
    case True
    then obtain now where clk: "clk = Inr now"
      using assms(1-3) r by (cases clk) (auto simp: rcv_tcp_read_buf_def clock_ok_def Let_def BLOCKED_def)
    have "rcv_ok (r1\<lparr>r_tcp_recv_time := now\<rparr>) m" using ok1 by (simp add: rcv_ok_def)
    then obtain r2 where r2: "r_with_stats slp (\<lambda>s. s\<lparr>r_tcp_bytes_recv := r_tcp_bytes_recv s + int (nx - r_in_next recv)\<rparr>)
        (r1\<lparr>r_tcp_recv_time := now\<rparr>) = Inr r2" "rcv_ok r2 m" "stats_only (r1\<lparr>r_tcp_recv_time := now\<rparr>) r2"
      by (rule r_with_stats_OK)
    then have "recv' = r2" "rest = av"
      using assms(1) r True clk by (simp_all add: rcv_tcp_read_buf_def r1_def Let_def)
    then show ?thesis using r2(2,3) by auto
  qed
  then obtain t where s: "rest = av" "rcv_ok recv' m" "stats_only (r1\<lparr>r_tcp_recv_time := t\<rparr>) recv'" by auto
  have f: "same_rcv recv recv'" "r_record_seqs recv' = r_record_seqs recv" "r_is_stopping recv' = r_is_stopping recv"
    "r_next_seq recv' = r_next_seq recv" "pending recv' = pending recv"
    "r_in_next recv' = nx" "r_in_remain recv' = rem" "r_in_buf recv' = buf"
    using s(3) by (simp_all add: r1_def stats_only_def same_rcv_def pending_def)
  show "keeps_rcv recv m recv' m" using f s(2) by (simp add: keeps_rcv_def)
  show "r_record_seqs recv' = r_record_seqs recv" "r_is_stopping recv' = r_is_stopping recv"
    "r_in_next recv \<le> r_in_next recv'" "r_in_next recv' + r_in_remain recv' = r_in_next recv + r_in_remain recv"
    using f l by simp_all
  show "\<exists>g. avail = g @ rest \<and> length g = r_in_next recv' - r_in_next recv \<and> r_in_buf recv' = mwrite (r_in_buf recv) (r_in_next recv) g"
    using l(3-5) by (intro exI [of _ "take (nx - r_in_next recv) avail"]) (simp add: s f)
qed
lemma got_bytes_step:
  assumes "rin_ok recv" "\<not> r_is_stopping recv" "r_in_buf recv1 = mwrite (r_in_buf recv) (r_in_next recv) g"
    and "length g = r_in_next recv1 - r_in_next recv" "r_in_next recv \<le> r_in_next recv1"
  shows "got_bytes recv @ g =
     (if r_in_next recv < 8 then mread (r_in_buf recv1) 0 (r_in_next recv1)
      else wire64 (sint (load64 (r_in_buf recv1) 0)) @ mread (r_in_buf recv1) 8 (r_in_next recv1 - 8))"
proof -
  let ?b = "r_in_buf recv1" and ?n = "r_in_next recv" and ?n1 = "r_in_next recv1"
  have new: "mread ?b ?n (length g) = g" by (simp add: assms(3))
  have old: "mread ?b a k = mread (r_in_buf recv) a k" if "a + k \<le> ?n" for a k
    using that by (simp add: assms(3) mread_mwrite_disjoint)
  show ?thesis
  proof (cases "?n < 8")
    case True
    then show ?thesis
      using mread_add [of ?b 0 ?n "length g"] new old [of 0 ?n] assms(2,4,5) by (simp add: got_bytes_def)
  next
    case False
    then have "load64 ?b 0 = load64 (r_in_buf recv) 0" using old [of 0 8] by (simp add: load_def)
    then show ?thesis
      using False mread_add [of ?b 8 "?n - 8" "length g"] new old [of 8 "?n - 8"] assms(2,4,5)
      by (simp add: got_bytes_def)
  qed
qed

text \<open>A complete reply updates the record exactly when it is newer than what the record holds.\<close>

lemma reply_applied:
  assumes "rcv_ok recv m" "length v = r_val_size recv" "0 \<le> st" "clock_ok clk"
    and "(if seq > seq_at e recv (i - r_base_id recv)
          then (case clk of Inl err \<Rightarrow> (err, recv, m) | Inr now \<Rightarrow> update_record slp recv m seq i v now)
          else (st0, recv, m)) = (st, recv', m')"
  shows "rcv_ok recv' m' \<and> same_layout m m' \<and> recv' = recv\<lparr>r_record_seqs := r_record_seqs recv'\<rparr> \<and>
    view_of recv' m' = put_newer (view_of recv m) (seq, i, v)"
proof -
  have idx: "seq_at e recv (i - r_base_id recv) = r_record_seqs recv ! nat (i - r_base_id recv)" if "valid_id m i"
    using that assms(1) valid_id_index [OF that] by (auto simp: seq_at_def rcv_ok_def valid_id_def)
  show ?thesis
  proof (cases "seq > seq_at e recv (i - r_base_id recv)")
    case False
    then show ?thesis
      using assms(1,5) idx by (cases "valid_id m i") (auto simp: put_newer_def view_of_def)
  next
    case True
    then obtain now where u: "clk = Inr now" "update_record slp recv m seq i v now = (st, recv', m')"
      using assms(3-5) by (cases clk) (auto simp: clock_ok_def)
    have v: "valid_id m i"
    proof (rule ccontr)
      assume "\<not> valid_id m i"
      then have "storage_get_record (r_store recv) m i True = Inl INVALID_RECORD"
        by (auto simp: storage_get_record_def valid_id_def)
      then show False using u(2) assms(3) by (simp add: update_record_def status_defs)
    qed
    obtain r2 m2 where "update_record slp recv m seq i v now = (OK, r2, m2)"
      "r2 = recv\<lparr>r_record_seqs := r_record_seqs r2\<rparr>" "rcv_ok r2 m2" "same_layout m m2"
      "view_of r2 m2 = put seq (view_of recv m) (i, v)"
      by (rule update_record_view [OF assms(1) v assms(2)])
    with u(2) idx [OF v] True v show ?thesis by (auto simp: put_newer_def put_def view_of_def)
  qed
qed

text \<open>What \<open>tcp_read_buf\<close> leaves of the receiver: it has read some bytes and changed nothing else that counts.\<close>

lemma keeps_view:
  assumes "keeps_rcv recv m r1 m" "r_record_seqs r1 = r_record_seqs recv"
  shows "view_of r1 m = view_of recv m" "r_val_size r1 = r_val_size recv"
  using assms view_of_cong [of recv r1 m] by (simp_all add: keeps_rcv_def same_rcv_def)

text \<open>The sequence number at the head of a message has been read: it is the whole message, or a reply follows.\<close>

lemma head_read:
  assumes "keeps_rcv recv m r1 m" "r_record_seqs r1 = r_record_seqs recv" "\<not> r_is_stopping r1" "r_in_next r1 = 8"
    and "got_bytes recv @ g = wire64 (get_net (r_in_buf r1) 0)"
    and "r2 = r1\<lparr>r_in_buf := store64 (r_in_buf r1) 0 (word_of_int (get_net (r_in_buf r1) 0))\<rparr>"
    and "get_net (r_in_buf r1) 0 = WILL_QUIT_SEQ \<and> recv' = r2\<lparr>r_is_stopping := True\<rparr> \<or>
      get_net (r_in_buf r1) 0 = HEARTBEAT_SEQ \<and> recv' = r2\<lparr>r_in_next := 0, r_in_remain := 8\<rparr> \<or>
      get_net (r_in_buf r1) 0 \<notin> {HEARTBEAT_SEQ, WILL_QUIT_SEQ} \<and> recv' = r2\<lparr>r_in_remain := 8 + r_val_size r1\<rparr>"
  shows "keeps_rcv recv m recv' m \<and> (r_is_stopping recv' \<or> rin_ok recv') \<and> read_step recv m g recv' m"
proof -
  let ?seq = "get_net (r_in_buf r1) 0"
  have ok: "rcv_ok r1 m" using assms(1) by (simp add: keeps_rcv_def)
  have "keeps_rcv r1 m recv' m" "r_record_seqs recv' = r_record_seqs r1"
    using assms(6,7) ok by (auto simp: keeps_rcv_def same_rcv_def rcv_ok_def pending_def)
  then have k: "keeps_rcv recv m recv' m" "view_of recv' m = view_of recv m"
    using keeps_rcv_trans [OF assms(1)] keeps_view [OF assms(1,2)] keeps_view [of r1 m recv'] by simp_all
  from assms(7) show ?thesis
  proof (elim disjE conjE)
    assume q: "?seq = WILL_QUIT_SEQ" "recv' = r2\<lparr>r_is_stopping := True\<rparr>"
    then have "r_is_stopping recv'" "got_bytes recv' = []" by (simp_all add: got_bytes_def)
    then show ?thesis using k assms(5) q(1) by (auto simp: read_step_def intro!: exI [of _ Will_quit])
  next
    assume q: "?seq = HEARTBEAT_SEQ" "recv' = r2\<lparr>r_in_next := 0, r_in_remain := 8\<rparr>"
    then have "\<not> r_is_stopping recv'" "got_bytes recv' = []" "rin_ok recv'"
      using assms(3,6) by (simp_all add: got_bytes_def rin_ok_def)
    then show ?thesis using k assms(5) q(1) by (auto simp: read_step_def intro!: exI [of _ Heartbeat])
  next
    assume q: "?seq \<notin> {HEARTBEAT_SEQ, WILL_QUIT_SEQ}" "recv' = r2\<lparr>r_in_remain := 8 + r_val_size r1\<rparr>"
    then have "\<not> r_is_stopping recv'" "got_bytes recv' = wire64 ?seq" "rin_ok recv'"
      using assms(3,4,6) by (simp_all add: got_bytes_def rin_ok_def)
    then show ?thesis using k assms(5) by (auto simp: read_step_def)
  qed
qed

text \<open>The rest of a reply has been read: it is applied, when it is newer than the record, and the next message awaited.\<close>

lemma reply_read:
  assumes "keeps_rcv recv m r1 m" "r_record_seqs r1 = r_record_seqs recv" "\<not> r_is_stopping r1"
    and "got_bytes recv @ g = msg_bytes (Reply seq i (mread (r_in_buf r1) 16 (r_val_size r1)))"
    and "msg_ok (r_val_size recv) (Reply seq i (mread (r_in_buf r1) 16 (r_val_size r1)))"
    and "r2 = r1\<lparr>r_in_buf := b\<rparr>" "clock_ok clk" "0 \<le> st"
    and "(if seq > seq_at e r2 (i - r_base_id r2)
          then (case clk of Inl err \<Rightarrow> (err, r2, m)
                | Inr now \<Rightarrow> update_record slp r2 m seq i (mread (r_in_buf r1) 16 (r_val_size r1)) now)
          else (st0, r2, m)) = (st, r3, m3)"
    and "recv' = r3\<lparr>r_in_next := 0, r_in_remain := 8\<rparr>"
  shows "keeps_rcv recv m recv' m3 \<and> (r_is_stopping recv' \<or> rin_ok recv') \<and> read_step recv m g recv' m3"
proof -
  let ?v = "mread (r_in_buf r1) 16 (r_val_size r1)"
  have "rcv_ok r1 m" using assms(1) by (simp add: keeps_rcv_def)
  then have ok2: "rcv_ok r2 m" "length ?v = r_val_size r2" "keeps_rcv r1 m r2 m" "r_record_seqs r2 = r_record_seqs r1"
    by (simp_all add: assms(6) keeps_rcv_def rcv_ok_def same_rcv_def pending_def)
  note a = reply_applied [OF ok2(1,2) assms(8,7,9)]
  then have r3: "r3 = r2\<lparr>r_record_seqs := r_record_seqs r3\<rparr>" by blast
  have "same_rcv r2 r3" "r_next_seq r3 = r_next_seq r2" "pending r3 = pending r2" "r_is_stopping r3 = r_is_stopping r1"
    by (subst r3, simp add: assms(6) same_rcv_def pending_def)+
  then have k3: "keeps_rcv r2 m recv' m3" "same_rcv r3 recv'" "r_record_seqs recv' = r_record_seqs r3"
    "\<not> r_is_stopping recv'" "got_bytes recv' = []" "rin_ok recv'"
    using a assms(3) by (simp_all add: assms(10) keeps_rcv_def same_rcv_def rcv_ok_def pending_def got_bytes_def rin_ok_def)
  have "view_of recv' m3 = on_msg (view_of recv m) (Reply seq i ?v)"
    using view_of_cong [OF k3(2,3)] a keeps_view [OF assms(1,2)] keeps_view [OF ok2(3,4)] by simp
  then have "read_step recv m g recv' m3" using assms(4,5) k3(4,5) unfolding read_step_def by blast
  then show ?thesis
    using k3(6) keeps_rcv_trans [OF keeps_rcv_trans [OF assms(1) ok2(3)] k3(1)] by simp
qed

text \<open>What \<open>tcp_on_read\<close> does with a message it has read to its end.\<close>

lemma tcp_on_read_whole:
  assumes "rcv_tcp_read_buf (te_raised e) (te_slp e) (te_clock e) (te_reads e) avail recv = (st1, r1, av)"
    and "0 \<le> st1 \<or> st1 = BLOCKED" "r_in_remain r1 = 0" "r_in_next r1 \<noteq> 8"
  shows "rcv_tcp_on_read e avail recv m =
     (let seq = sint (load64 (r_in_buf r1) 0);
          i = get_net (r_in_buf r1) 8;
          r2 = r1\<lparr>r_in_buf := store64 (r_in_buf r1) 8 (word_of_int i)\<rparr>
      in case (if seq > seq_at e r2 (i - r_base_id r2) then
                 (case te_clock2 e of
                    Inl err \<Rightarrow> (err, r2, m)
                  | Inr now \<Rightarrow> update_record (te_slp e) r2 m seq i (mread (r_in_buf r1) 16 (r_val_size r1)) now)
               else (if st1 = BLOCKED then OK else st1, r2, m)) of
           (st, r3, m) \<Rightarrow>
             if FAILED st then (st, r3, m, av) else (st, r3\<lparr>r_in_next := 0, r_in_remain := 8\<rparr>, m, av))"
proof -
  have v: "mread (r_in_buf (r1\<lparr>r_in_buf := store64 (r_in_buf r1) 8 w\<rparr>)) 16
      (r_val_size (r1\<lparr>r_in_buf := store64 (r_in_buf r1) 8 w\<rparr>)) = mread (r_in_buf r1) 16 (r_val_size r1)" for w
    by (simp add: store_def mread_mwrite_disjoint)
  have c: "(st1 \<noteq> BLOCKED \<and> FAILED st1) = False" "(r_in_remain r1 = 0) = True" "(r_in_next r1 = 8) = False"
    using assms(2-4) by auto
  show ?thesis
    unfolding rcv_tcp_on_read_def assms(1) prod.case Let_def c if_True if_False v by (rule refl)
qed

lemma tcp_on_read_step:
  assumes "rcv_tcp_on_read e avail recv m = (st, recv', m', rest)" "0 \<le> st" "rcv_ok recv m" "rin_ok recv"
    and "\<not> r_is_stopping recv" "clock_ok (te_clock e)" "clock_ok (te_clock2 e)"
  shows "keeps_rcv recv m recv' m' \<and> (r_is_stopping recv' \<or> rin_ok recv') \<and>
    (\<exists>g. avail = g @ rest \<and> read_step recv m g recv' m')"
proof -
  obtain st1 r1 av where b: "rcv_tcp_read_buf (te_raised e) (te_slp e) (te_clock e) (te_reads e) avail recv = (st1, r1, av)"
    by (cases "rcv_tcp_read_buf (te_raised e) (te_slp e) (te_clock e) (te_reads e) avail recv")
  have st1: "0 \<le> st1 \<or> st1 = BLOCKED"
    using assms(1,2) b by (auto simp: rcv_tcp_on_read_def split: if_splits)
  note s = tcp_read_buf_step [OF b st1 assms(6,3)]
  obtain g where g: "avail = g @ av" "length g = r_in_next r1 - r_in_next recv"
    "r_in_buf r1 = mwrite (r_in_buf recv) (r_in_next recv) g" using s(6) by blast
  note gb = got_bytes_step [OF assms(4,5) g(3,2) s(4)] and kv = keeps_view [OF s(1,2)]
  have ns: "\<not> r_is_stopping r1" using s(3) assms(5) by simp
  have ld: "load64 (r_in_buf r1) 0 = load64 (r_in_buf recv) 0" if "8 \<le> r_in_next recv"
    using that g(3) mread_mwrite_disjoint [of 0 8 "r_in_next recv" g "r_in_buf recv"] by (simp add: load_def)
  consider (part) "r_in_remain r1 > 0" | (head) "r_in_remain r1 = 0" "r_in_next recv < 8"
    | (whole) "r_in_remain r1 = 0" "8 \<le> r_in_next recv" by linarith
  then show ?thesis
  proof cases
    case part
    then have "recv' = r1" "m' = m" "rest = av" using assms(1) b st1 by (auto simp: rcv_tcp_on_read_def split: if_splits)
    moreover have "rin_ok r1" using part assms(4) s(4,5) kv ld by (auto simp: rin_ok_def split: if_splits)
    moreover have "r_in_next recv < 8 \<longleftrightarrow> r_in_next r1 < 8"
      using part assms(4) s(4,5) by (auto simp: rin_ok_def split: if_splits)
    ultimately show ?thesis
      using s(1) g(1) gb kv(1) ns by (auto simp: read_step_def got_bytes_def intro!: exI [of _ g])
  next
    case head
    then have nx: "r_in_next r1 = 8" using assms(4) s(4,5) by (simp add: rin_ok_def)
    then have w: "got_bytes recv @ g = wire64 (get_net (r_in_buf r1) 0)" using gb head(2) by (simp add: put_get_net)
    have "m' = m" "rest = av" using assms(1) b st1 head nx by (auto simp: rcv_tcp_on_read_def Let_def split: if_splits)
    moreover have "keeps_rcv recv m recv' m \<and> (r_is_stopping recv' \<or> rin_ok recv') \<and> read_step recv m g recv' m"
      using assms(1) b st1 head nx
      by (intro head_read [OF s(1,2) ns nx w refl]) (auto simp: rcv_tcp_on_read_def Let_def split: if_splits)
    ultimately show ?thesis using g(1) by auto
  next
    case whole
    let ?seq = "sint (load64 (r_in_buf r1) 0)" and ?i = "get_net (r_in_buf r1) 8"
      and ?v = "mread (r_in_buf r1) 16 (r_val_size r1)"
    have nx: "r_in_next r1 = 16 + r_val_size r1" using whole assms(4) s(4,5) kv by (simp add: rin_ok_def)
    then have w: "got_bytes recv @ g = msg_bytes (Reply ?seq ?i ?v)"
      using gb whole(2) mread_add [of "r_in_buf r1" 8 8 "r_val_size r1"] by (simp add: put_get_net)
    have mo: "msg_ok (r_val_size recv) (Reply ?seq ?i ?v)"
      using ld [OF whole(2)] assms(4) whole(2) kv by (simp add: rin_ok_def)
    have n8: "r_in_next r1 \<noteq> 8" using nx by simp
    obtain st3 r3 m3 where u: "(let r2 = r1\<lparr>r_in_buf := store64 (r_in_buf r1) 8 (word_of_int ?i)\<rparr> in
        if ?seq > seq_at e r2 (?i - r_base_id r2)
        then (case te_clock2 e of Inl err \<Rightarrow> (err, r2, m) | Inr now \<Rightarrow> update_record (te_slp e) r2 m ?seq ?i ?v now)
        else (if st1 = BLOCKED then OK else st1, r2, m)) = (st3, r3, m3)"
      by (metis prod_cases3)
    have r: "rest = av" "m' = m3" "st = st3" "recv' = r3\<lparr>r_in_next := 0, r_in_remain := 8\<rparr>"
      using assms(1,2) tcp_on_read_whole [OF b st1 whole(1) n8, of m, unfolded Let_def u [unfolded Let_def] prod.case]
      by (auto split: if_splits)
    show ?thesis
      using reply_read [OF s(1,2) ns w mo refl assms(7) _ u [unfolded Let_def] r(4)] assms(2) r g(1) by auto
  qed
qed

text \<open>
  Repeated calls of \<open>tcp_on_read\<close>, each with the bytes that have arrived since the last one, until the
  publisher announces that it will quit.
\<close>

fun tcp_run :: "(tcp_env \<times> byte list) list \<Rightarrow> byte list \<Rightarrow> receiver \<Rightarrow> mem \<Rightarrow> (receiver \<times> mem \<times> byte list) option" where
  "tcp_run [] avail recv m = Some (recv, m, avail)"
| "tcp_run ((e, new) # es) avail recv m =
     (case rcv_tcp_on_read e (avail @ new) recv m of
        (st, recv, m, rest) \<Rightarrow>
          if FAILED st then None
          else if r_is_stopping recv then Some (recv, m, rest @ concat (map snd es))
          else tcp_run es rest recv m)"

definition clocks_ok :: "(tcp_env \<times> byte list) list \<Rightarrow> bool" where
  "clocks_ok es \<longleftrightarrow> (\<forall>e\<in>fst ` set es. clock_ok (te_clock e) \<and> clock_ok (te_clock2 e))"

lemma tcp_run_applied:
  assumes "tcp_run es avail recv m = Some (recv', m', rest)" "rcv_ok recv m" "rin_ok recv" "\<not> r_is_stopping recv" "clocks_ok es"
  shows "\<exists>msgs. got_bytes recv @ avail @ concat (map snd es) = concat (map msg_bytes msgs) @ got_bytes recv' @ rest \<and>
    keeps_rcv recv m recv' m' \<and> view_of recv' m' = foldl on_msg (view_of recv m) msgs \<and>
    (r_is_stopping recv' \<longleftrightarrow> Will_quit \<in> set msgs)"
  using assms
proof (induction es arbitrary: avail recv m)
  case Nil
  then show ?case by (intro exI [of _ "[]"]) (simp add: keeps_rcv_def)
next
  case (Cons p es)
  obtain e new where p: "p = (e, new)" by (cases p)
  obtain st r1 m1 av where r: "rcv_tcp_on_read e (avail @ new) recv m = (st, r1, m1, av)"
    by (cases "rcv_tcp_on_read e (avail @ new) recv m")
  have st: "0 \<le> st" using Cons.prems(1) by (auto simp: p r split: if_splits)
  have cl: "clock_ok (te_clock e)" "clock_ok (te_clock2 e)" "clocks_ok es"
    using Cons.prems(5) by (simp_all add: clocks_ok_def p)
  from tcp_on_read_step [OF r st Cons.prems(2-4) cl(1,2)] obtain g where
    s: "keeps_rcv recv m r1 m1" "r_is_stopping r1 \<or> rin_ok r1" "avail @ new = g @ av" "read_step recv m g r1 m1" by blast
  have all: "got_bytes recv @ avail @ concat (map snd (p # es)) = (got_bytes recv @ g) @ av @ concat (map snd es)"
    using s(3) by (simp add: p flip: append_assoc)
  obtain m0 where m0: "got_bytes recv @ g = concat (map msg_bytes m0) @ got_bytes r1"
    "view_of r1 m1 = foldl on_msg (view_of recv m) m0" "r_is_stopping r1 \<longleftrightarrow> Will_quit \<in> set m0"
  proof -
    from s(4) consider "got_bytes recv @ g = got_bytes r1" "view_of r1 m1 = view_of recv m" "\<not> r_is_stopping r1"
      | msg where "msg_ok (r_val_size recv) msg" "got_bytes recv @ g = msg_bytes msg" "got_bytes r1 = []" "view_of r1 m1 = on_msg (view_of recv m) msg"
        "r_is_stopping r1 \<longleftrightarrow> msg = Will_quit" unfolding read_step_def by blast
    then show thesis
    proof cases
      case 1
      then show thesis using that [of "[]"] by simp
    next
      case (2 msg)
      then show thesis using that [of "[msg]"] by auto
    qed
  qed
  show ?case
  proof (cases "r_is_stopping r1")
    case True
    then have "recv' = r1" "m' = m1" "rest = av @ concat (map snd es)"
      using Cons.prems(1) st by (simp_all add: p r)
    then show ?thesis using all m0 s(1) True by (intro exI [of _ m0]) simp
  next
    case False
    then have "tcp_run es av r1 m1 = Some (recv', m', rest)" using Cons.prems(1) st by (simp add: p r)
    moreover have "rcv_ok r1 m1" using s(1) by (simp add: keeps_rcv_def)
    ultimately obtain msgs where ih: "got_bytes r1 @ av @ concat (map snd es) = concat (map msg_bytes msgs) @ got_bytes recv' @ rest"
      "keeps_rcv r1 m1 recv' m'" "view_of recv' m' = foldl on_msg (view_of r1 m1) msgs"
      "r_is_stopping recv' \<longleftrightarrow> Will_quit \<in> set msgs"
      using Cons.IH [of av r1 m1] s(2) False cl(3) by blast
    then show ?thesis using all m0 False keeps_rcv_trans [OF s(1) ih(2)] by (intro exI [of _ "m0 @ msgs"]) simp
  qed
qed

section \<open>Properties\<close>

text \<open>
  C7.  Given a packet in the format of the sender, \<open>mcast_on_read\<close> does to the subscriber's storage
  and to the receiver what the abstract receiver does: an old packet changes nothing; a new one
  puts its records, in order and under its sequence number, into the storage and into the array
  of sequence numbers, and leaves every other record alone; and when packets are missing, also
  when only a heartbeat tells so, exactly the missing range is asked for.
\<close>

theorem mcast_on_read_delivers:
  assumes "rcv_ok recv m" "polled pol recv" "packet_ok recv m seq stamp rs" "arrives e recv (packet seq stamp rs)"
  shows "\<exists>pol' recv' m'. mcast_on_read e pol recv m = (OK, pol', recv', m') \<and> rcv_ok recv' m' \<and> polled pol' recv' \<and>
    abs_of recv' m' = abs_packet seq rs (abs_of recv m)"
  using mcast_on_read_refines [OF assms] by blast


text \<open>A receiver on the sample storage, and what arrives at it.\<close>

definition sample_receiver :: "storage \<Rightarrow> mem \<Rightarrow> receiver" where
  "sample_receiver st m =
     \<lparr>r_store = st, r_mcast_sock = 6, r_tcp_sock = 5, r_tcp_ip = 77, r_record_seqs = replicate (storage_count m) 0,
      r_next_seq = 1, r_mcast_mtu = 1472, r_base_id = storage_get_base_id m, r_val_size = storage_get_value_size m,
      r_in_buf = (\<lambda>_. 0), r_in_next = 0, r_in_remain = 8, r_out_buf = (\<lambda>_. 0), r_out_next = 0, r_out_remain = 0,
      r_mcast_recv_time = 0, r_tcp_recv_time = 0, r_touched_time = 0, r_touch_period_usec = 1000000,
      r_timeout_usec = 5000000, r_mcast_latency = \<lparr>lat_curr = zero_stats, lat_next = zero_stats, lat_lock = 0\<rparr>,
      r_curr_stats = zero_receiver_stats, r_next_stats = zero_receiver_stats, r_stats_lock = 0, r_is_stopping = False\<rparr>"

definition sample_entry :: "ident \<times> byte list" where
  "sample_entry = (11, replicate 8 7)"

definition sample_arrival :: "byte list \<Rightarrow> read_env" where
  "sample_arrival d = \<lparr>re_raised = (\<lambda>_. False), re_slp = (\<lambda>_. OK), re_clock = Inr 300, re_dgram = Inr d,
     re_src_ip = 77, re_stack = (\<lambda>_. 0)\<rparr>"

lemma sample_rcv_ok:
  obtains st m pol where "rcv_ok (sample_receiver st m) m" "polled pol (sample_receiver st m)" "valid_id m 11"
    "storage_get_value_size m = 8"
proof -
  obtain st m where s: "stg_ok st m" "\<not> stg_read_only st" "storage_get_base_id m = 10" "storage_get_max_id m = 14"
    "storage_get_value_size m = 8" "\<forall>r\<in>set (storage_records st m). unlocked (load64 m r)"
    using sample_store by blast
  obtain p where p: "poller_ok p" "entries p = [(5, fd_for 5), (6, fd_for 6)]" using sample_poller by blast
  have "rcv_ok (sample_receiver st m) m"
    using s rec_of_is_record [of m _ st] by (auto simp: rcv_ok_def sample_receiver_def is_record_def)
  moreover have "polled p (sample_receiver st m)"
    using sock_index_None [OF p(1), of 5] p(2) by (simp add: polled_def sample_receiver_def)
  moreover have "valid_id m 11" using s(3,4) by (simp add: valid_id_def)
  ultimately show thesis using that s(5) by blast
qed

theorem mcast_on_read_delivers_witness:
  "\<exists>st m pol pol' recv' m'.
    mcast_on_read (sample_arrival (packet 3 100 [sample_entry])) pol (sample_receiver st m) m = (OK, pol', recv', m') \<and>
    view_of recv' m' 11 = Some (3, replicate 8 7) \<and> r_next_seq recv' = 4 \<and>
    pending recv' = req_bytes \<lparr>low = 1, high = 3\<rparr>"
proof -
  obtain st m pol where s: "rcv_ok (sample_receiver st m) m" "polled pol (sample_receiver st m)" "valid_id m 11"
    "storage_get_value_size m = 8" by (rule sample_rcv_ok)
  have pk: "packet_ok (sample_receiver st m) m 3 100 [sample_entry]"
    using s(3,4) by (simp add: packet_ok_def entries_ok_def sample_entry_def sample_receiver_def packet_def entry_bytes_def
        is_long_def LONG_MIN_def LONG_MAX_def SEQUENCE_MAX_def)
  have "arrives (sample_arrival (packet 3 100 [sample_entry])) (sample_receiver st m) (packet 3 100 [sample_entry])"
    by (simp add: arrives_def sample_arrival_def sample_receiver_def)
  from mcast_on_read_delivers [OF s(1,2) pk this] obtain pol' recv' m' where
    r: "mcast_on_read (sample_arrival (packet 3 100 [sample_entry])) pol (sample_receiver st m) m = (OK, pol', recv', m')"
    "abs_of recv' m' = abs_packet 3 [sample_entry] (abs_of (sample_receiver st m) m)" by blast
  have "view_of recv' m' 11 = Some (3, replicate 8 7) \<and> r_next_seq recv' = 4 \<and> pending recv' = req_bytes \<lparr>low = 1, high = 3\<rparr>"
    using r(2) by (simp add: abs_of_def abs_packet_def skip_to_def sample_receiver_def put_def sample_entry_def)
  with r(1) show ?thesis by blast
qed
definition sample_tcp_env :: tcp_env where
  "sample_tcp_env = \<lparr>te_raised = (\<lambda>_. False), te_slp = (\<lambda>_. OK), te_clock = Inr 300, te_reads = [Moved 8],
     te_clock2 = Inr 301, te_stray = (\<lambda>_. 0)\<rparr>"

lemma sample_tcp_read:
  "\<exists>recv'. rcv_tcp_on_read sample_tcp_env (wire64 WILL_QUIT_SEQ) (sample_receiver st m) m = (8, recv', m, []) \<and>
    r_is_stopping recv'"
proof -
  define buf where "buf = mwrite (\<lambda>_. 0) 0 (wire64 WILL_QUIT_SEQ)"
  have g: "get_net buf 0 = WILL_QUIT_SEQ"
    by (rule get_net_wire) (simp_all add: buf_def WILL_QUIT_SEQ_def is_long_def LONG_MIN_def LONG_MAX_def)
  have l: "read_loop (\<lambda>_. False) [Moved 8] OK (\<lambda>_. 0) 0 8 (wire64 WILL_QUIT_SEQ) = (8, buf, 8, 0, [])"
    by (simp add: sock_read_def buf_def Let_def)
  have "r_with_stats (\<lambda>_. OK) f r = Inr (r\<lparr>r_next_stats := f (r_next_stats r), r_stats_lock := 0\<rparr>)" if "r_stats_lock r = 0" for f r
    using that by (simp add: r_with_stats_def spin_free)
  then show ?thesis
    using l g by (simp add: rcv_tcp_on_read_def rcv_tcp_read_buf_def sample_tcp_env_def sample_receiver_def Let_def status_defs)
qed

text \<open>
  C17.  A second gap before the first request has been written out replaces the request: after two
  packets that both show a gap, only the second range is asked for, although the receiver no
  longer expects anything below the second packet.
\<close>

theorem request_overwritten:
  assumes "rcv_ok recv m" "polled pol recv" "0 \<le> r_next_seq recv"
    and "packet_ok recv m s1 t1 rs1" "arrives e1 recv (packet s1 t1 rs1)" "r_next_seq recv < s1"
    and "mcast_on_read e1 pol recv m = (st1, pol1, recv1, m1)"
    and "packet_ok recv1 m1 s2 t2 rs2" "arrives e2 recv1 (packet s2 t2 rs2)" "s1 + 1 < s2"
    and "mcast_on_read e2 pol1 recv1 m1 = (st2, pol2, recv2, m2)"
  shows "pending recv1 = req_bytes \<lparr>low = r_next_seq recv, high = s1\<rparr> \<and>
    pending recv2 = req_bytes \<lparr>low = s1 + 1, high = s2\<rparr> \<and> r_next_seq recv2 = s2 + 1"
proof -
  have a: "rcv_ok recv1 m1" "polled pol1 recv1" "abs_of recv1 m1 = abs_packet s1 rs1 (abs_of recv m)"
    using mcast_on_read_refines [OF assms(1,2,4,5)] assms(7) by auto
  have b: "abs_of recv2 m2 = abs_packet s2 rs2 (abs_of recv1 m1)"
    using mcast_on_read_refines [OF a(1,2) assms(8,9)] assms(11) by auto
  have "pending recv1 = req_bytes \<lparr>low = r_next_seq recv, high = s1\<rparr>" "r_next_seq recv1 = s1 + 1"
    using a(3) assms(3,6) by (simp_all add: abs_packet_def skip_to_def abs_of_def)
  with b show ?thesis using assms(3,6,10) by (simp add: abs_packet_def skip_to_def abs_of_def)
qed

theorem request_overwritten_witness:
  "\<exists>st m pol pol1 recv1 m1 pol2 recv2 m2.
    mcast_on_read (sample_arrival (packet 3 100 [])) pol (sample_receiver st m) m = (OK, pol1, recv1, m1) \<and>
    mcast_on_read (sample_arrival (packet 6 200 [])) pol1 recv1 m1 = (OK, pol2, recv2, m2) \<and>
    pending recv1 = req_bytes \<lparr>low = 1, high = 3\<rparr> \<and> pending recv2 = req_bytes \<lparr>low = 4, high = 6\<rparr>"
proof -
  obtain st m pol where s: "rcv_ok (sample_receiver st m) m" "polled pol (sample_receiver st m)" by (rule sample_rcv_ok)
  have pk: "packet_ok recv mm q t []" if "same_rcv (sample_receiver st m) recv" "q \<in> {3, 6}" "t \<in> {100, 200}" for recv mm q t
    using that by (auto simp: packet_ok_def entries_ok_def same_rcv_def sample_receiver_def packet_def
        is_long_def LONG_MIN_def LONG_MAX_def SEQUENCE_MAX_def)
  have ar: "arrives (sample_arrival d) recv d" if "same_rcv (sample_receiver st m) recv" for recv d
    using that by (simp add: arrives_def sample_arrival_def sample_receiver_def same_rcv_def)
  have refl: "same_rcv (sample_receiver st m) (sample_receiver st m)" by (simp add: same_rcv_def)
  have "r_next_seq (sample_receiver st m) = 1" by (simp add: sample_receiver_def)
  moreover obtain pol1 recv1 m1 where r1: "mcast_on_read (sample_arrival (packet 3 100 [])) pol (sample_receiver st m) m =
      (OK, pol1, recv1, m1)" "rcv_ok recv1 m1" "polled pol1 recv1" "same_rcv (sample_receiver st m) recv1"
    using mcast_on_read_refines [OF s pk [OF refl] ar [OF refl], of 3 100] by auto
  moreover obtain pol2 recv2 m2 where r2: "mcast_on_read (sample_arrival (packet 6 200 [])) pol1 recv1 m1 =
      (OK, pol2, recv2, m2)"
    using mcast_on_read_refines [OF r1(2,3) pk [OF r1(4)] ar [OF r1(4)], of 6 200] by auto
  ultimately have "pending recv1 = req_bytes \<lparr>low = 1, high = 3\<rparr> \<and> pending recv2 = req_bytes \<lparr>low = 4, high = 6\<rparr>"
    using request_overwritten [OF s _ pk [OF refl] ar [OF refl] _ r1(1) pk [OF r1(4)] ar [OF r1(4)] _ r2] by auto
  with r1(1) r2 show ?thesis by blast
qed

end
