(* ===== verification/Protocol.thy ===== *)
theory Protocol
  imports Delivery
begin

text \<open>
  The protocol between a publisher and a subscriber as a whole.  An abstract protocol of packets,
  ranges and replies is shown never to lose an update; theory \<open>Convergence\<close> shows that \<open>sender.c\<close> and
  \<open>receiver.c\<close>, joined by a network that may lose, repeat and reorder datagrams, implement it.
\<close>

section \<open>The publisher\<close>

text \<open>
  \<open>p_seqs\<close> has for each record the number of the last packet it was put into, \<open>p_staged\<close> the records
  of the packet being filled, whose number will be \<open>p_next\<close>.
\<close>

record pub =
  p_next :: sequence
  p_seqs :: "ident \<Rightarrow> sequence"
  p_staged :: "(ident \<times> byte list) list"

type_synonym pkt = "sequence \<times> (ident \<times> byte list) list"

text \<open>\<open>V i v\<close>: \<open>v\<close> is a value the record \<open>i\<close> may be published with.\<close>

inductive pub_step :: "ident set \<Rightarrow> (ident \<Rightarrow> byte list \<Rightarrow> bool) \<Rightarrow> pub \<Rightarrow> pkt list \<Rightarrow> pub \<Rightarrow> bool"
  for ids V where
  stage: "i \<in> ids \<Longrightarrow> V i v \<Longrightarrow>
     pub_step ids V p [] (p\<lparr>p_seqs := (p_seqs p)(i := p_next p), p_staged := p_staged p @ [(i, v)]\<rparr>)"
| flush: "p_staged p \<noteq> [] \<Longrightarrow>
     pub_step ids V p [(p_next p, p_staged p)] (p\<lparr>p_next := p_next p + 1, p_staged := []\<rparr>)"
| beat: "p_staged p = [] \<Longrightarrow> pub_step ids V p [(- p_next p, [])] p"

inductive pub_steps :: "ident set \<Rightarrow> (ident \<Rightarrow> byte list \<Rightarrow> bool) \<Rightarrow> pub \<Rightarrow> pkt list \<Rightarrow> pub \<Rightarrow> bool"
  for ids V where
  none: "pub_steps ids V p [] p"
| more: "pub_steps ids V p ps p1 \<Longrightarrow> pub_step ids V p1 ps' p2 \<Longrightarrow> pub_steps ids V p (ps @ ps') p2"

lemma pub_steps_one: "pub_step ids V p ps p1 \<Longrightarrow> pub_steps ids V p ps p1"
  using pub_steps.more [OF pub_steps.none, of ids V p ps p1] by simp

lemma pub_steps_trans: "pub_steps ids V p1 ps' p2 \<Longrightarrow> pub_steps ids V p ps p1 \<Longrightarrow> pub_steps ids V p (ps @ ps') p2"
  by (induction arbitrary: ps rule: pub_steps.induct) (auto simp flip: append_assoc intro: pub_steps.more)

section \<open>The protocol\<close>

record proto =
  p_pub :: pub
  p_sent :: "pkt set"
  p_reqs :: "sequence_range list"
  p_union :: sequence_range
  p_reply :: sequence_range
  p_reply_id :: ident
  p_msgs :: "msg list"
  p_view :: view
  p_expect :: sequence

text \<open>Asking for what has been missed, when a number at or above the one expected is seen.\<close>

definition ask :: "sequence \<Rightarrow> proto \<Rightarrow> proto" where
  "ask seq p =
     (if seq > p_expect p
      then p\<lparr>p_expect := seq, p_reqs := p_reqs p @ [\<lparr>low = p_expect p, high = seq\<rparr>]\<rparr> else p)"

definition accept_pkt :: "pkt \<Rightarrow> proto \<Rightarrow> proto" where
  "accept_pkt pk p = (case pk of (seq, rs) \<Rightarrow>
     if seq < 0 then ask (- seq) p
     else if seq < p_expect p then p
     else (ask seq p)\<lparr>p_expect := seq + 1, p_view := foldl (put seq) (p_view p) rs\<rparr>)"

text \<open>
  The steps.  \<open>used\<close> are identifiers whose records are in use whenever replies are composed.  A
  packet that was sent may be delivered at any time and any number of times, or never.
\<close>

inductive proto_step :: "ident set \<Rightarrow> ident set \<Rightarrow> (ident \<Rightarrow> byte list \<Rightarrow> bool) \<Rightarrow> proto \<Rightarrow> proto \<Rightarrow> bool"
  for ids used V where
  publish: "pub_step ids V (p_pub p) ps q \<Longrightarrow>
     proto_step ids used V p (p\<lparr>p_pub := q, p_sent := p_sent p \<union> set ps\<rparr>)"
| deliver: "pk \<in> p_sent p \<Longrightarrow> proto_step ids used V p (accept_pkt pk p)"
| take_req: "p_reqs p = r # rs \<Longrightarrow>
     proto_step ids used V p (p\<lparr>p_reqs := rs, p_union := cover (p_union p) r\<rparr>)"
| begin_reply: "\<not> IS_VALID_RANGE (p_reply p) \<Longrightarrow> \<forall>i\<in>ids. i0 \<le> i \<Longrightarrow>
     proto_step ids used V p
       (p\<lparr>p_reply := p_union p, p_union := INVALIDATE_RANGE, p_reply_id := i0\<rparr>)"
| drop_req: "\<forall>i\<in>ids. \<not> IS_WITHIN_RANGE (p_union p) (p_seqs (p_pub p) i) \<Longrightarrow>
     proto_step ids used V p (p\<lparr>p_union := INVALIDATE_RANGE\<rparr>)"
| reply: "i \<in> ids \<Longrightarrow> p_reply_id p \<le> i \<Longrightarrow> V i v \<Longrightarrow>
     \<forall>j\<in>used. p_reply_id p \<le> j \<and> j < i \<longrightarrow> \<not> IS_WITHIN_RANGE (p_reply p) (p_seqs (p_pub p) j) \<Longrightarrow>
     proto_step ids used V p
       (p\<lparr>p_msgs := p_msgs p @ [Reply (p_seqs (p_pub p) i) i v], p_reply_id := i + 1\<rparr>)"
| end_reply: "\<forall>j\<in>used. p_reply_id p \<le> j \<longrightarrow> \<not> IS_WITHIN_RANGE (p_reply p) (p_seqs (p_pub p) j) \<Longrightarrow>
     proto_step ids used V p (p\<lparr>p_reply := INVALIDATE_RANGE\<rparr>)"
| tcp_beat: "proto_step ids used V p (p\<lparr>p_msgs := p_msgs p @ [Heartbeat]\<rparr>)"
| hear: "p_msgs p = m # ms \<Longrightarrow> proto_step ids used V p (p\<lparr>p_msgs := ms, p_view := on_msg (p_view p) m\<rparr>)"

section \<open>Nothing is lost\<close>

text \<open>
  The subscriber has the record of \<open>i\<close> as it was last published, or newer; or there is a reply for
  it on the way; or it lies in a range that has been asked for and is not answered yet.
\<close>

definition covered :: "proto \<Rightarrow> ident \<Rightarrow> bool" where
  "covered p i \<longleftrightarrow> (let s = p_seqs (p_pub p) i in
     (\<exists>t v. p_view p i = Some (t, v) \<and> s \<le> t) \<or>
     (\<exists>t v. Reply t i v \<in> set (p_msgs p) \<and> s \<le> t) \<or>
     (\<exists>r\<in>set (p_reqs p). IS_WITHIN_RANGE r s) \<or>
     IS_WITHIN_RANGE (p_union p) s \<or>
     IS_WITHIN_RANGE (p_reply p) s \<and> p_reply_id p \<le> i)"

text \<open>The numbers of packets and records.\<close>

definition pub_inv :: "ident set \<Rightarrow> pub \<Rightarrow> bool" where
  "pub_inv ids p \<longleftrightarrow> 0 < p_next p \<and> (\<forall>i\<in>ids. 0 \<le> p_seqs p i \<and> p_seqs p i \<le> p_next p \<and>
     (p_seqs p i = p_next p \<longleftrightarrow> i \<in> fst ` set (p_staged p)))"

definition numbered :: "ident set \<Rightarrow> pub \<Rightarrow> sequence \<Rightarrow> (ident \<times> byte list) list \<Rightarrow> bool" where
  "numbered ids p seq rs \<longleftrightarrow> (seq < 0 \<longrightarrow> - seq \<le> p_next p) \<and>
     (0 \<le> seq \<longrightarrow> seq < p_next p \<and>
        (\<forall>i\<in>ids. (p_seqs p i = seq \<longrightarrow> i \<in> fst ` set rs) \<and> (i \<in> fst ` set rs \<longrightarrow> seq \<le> p_seqs p i)))"

definition sent_inv :: "ident set \<Rightarrow> proto \<Rightarrow> bool" where
  "sent_inv ids p \<longleftrightarrow> (\<forall>(seq, rs)\<in>p_sent p. numbered ids (p_pub p) seq rs)"

definition seqs_inv :: "ident set \<Rightarrow> proto \<Rightarrow> bool" where
  "seqs_inv ids p \<longleftrightarrow> p_expect p \<le> p_next (p_pub p) \<and>
     (\<forall>i\<in>ids. \<exists>s v. p_view p i = Some (s, v) \<and> s \<le> p_seqs (p_pub p) i) \<and>
     (\<forall>s i v. Reply s i v \<in> set (p_msgs p) \<longrightarrow> i \<in> ids \<and> s \<le> p_seqs (p_pub p) i)"

definition vals_inv :: "ident set \<Rightarrow> (ident \<Rightarrow> byte list \<Rightarrow> bool) \<Rightarrow> proto \<Rightarrow> bool" where
  "vals_inv ids V p \<longleftrightarrow>
     (\<forall>(i, v)\<in>set (p_staged (p_pub p)). V i v) \<and> (\<forall>(seq, rs)\<in>p_sent p. \<forall>(i, v)\<in>set rs. V i v) \<and>
     (\<forall>s i v. Reply s i v \<in> set (p_msgs p) \<longrightarrow> V i v) \<and>
     (\<forall>i\<in>ids. \<forall>s v. p_view p i = Some (s, v) \<and> 0 \<le> s \<longrightarrow> V i v)"

definition proto_inv :: "ident set \<Rightarrow> ident set \<Rightarrow> (ident \<Rightarrow> byte list \<Rightarrow> bool) \<Rightarrow> proto \<Rightarrow> bool" where
  "proto_inv ids used V p \<longleftrightarrow> used \<subseteq> ids \<and> pub_inv ids (p_pub p) \<and> sent_inv ids p \<and> seqs_inv ids p \<and> vals_inv ids V p \<and>
     (\<forall>i\<in>used. p_seqs (p_pub p) i < p_expect p \<longrightarrow> covered p i)"

lemma within_valid: "IS_WITHIN_RANGE r s \<Longrightarrow> IS_VALID_RANGE r"
  by (auto simp: IS_WITHIN_RANGE_def IS_VALID_RANGE_def)

lemma not_within_invalid [simp]: "\<not> IS_WITHIN_RANGE INVALIDATE_RANGE s"
  using within_valid INVALIDATE_RANGE_invalid by blast

lemma foldl_put:
  shows foldl_put_other: "i \<notin> fst ` set rs \<Longrightarrow> foldl (put seq) f rs i = f i"
    and foldl_put_in: "i \<in> fst ` set rs \<Longrightarrow> \<exists>v. (i, v) \<in> set rs \<and> foldl (put seq) f rs i = Some (seq, v)"
proof (induction rs rule: rev_induct)
  case (snoc r rs)
  { case 1 then show ?case using snoc by (cases r) (auto simp: put_def)
  next
    case 2 then show ?case using snoc by (cases r) (auto simp: put_def) }
qed simp_all

lemma ask_fields [simp]:
  "p_pub (ask s p) = p_pub p" "p_sent (ask s p) = p_sent p" "p_msgs (ask s p) = p_msgs p" "p_view (ask s p) = p_view p"
  "p_union (ask s p) = p_union p" "p_reply (ask s p) = p_reply p" "p_reply_id (ask s p) = p_reply_id p"
  by (simp_all add: ask_def)

lemma accept_pkt_fields [simp]:
  "p_pub (accept_pkt pk p) = p_pub p" "p_sent (accept_pkt pk p) = p_sent p" "p_msgs (accept_pkt pk p) = p_msgs p"
  by (simp_all add: accept_pkt_def split: prod.split)

lemma put_newer_view:
  assumes "f i = Some (s, v)"
  shows "\<exists>s' v'. put_newer f (t, j, w) i = Some (s', v') \<and> s \<le> s' \<and> (j = i \<longrightarrow> t \<le> s') \<and>
    ((s', v') = (s, v) \<or> j = i \<and> (s', v') = (t, w))"
  using assms by (cases "f j") (auto simp: put_newer_def)

lemma on_msg_view:
  assumes "f i = Some (s, v)"
  shows "\<exists>s' v'. on_msg f m i = Some (s', v') \<and> s \<le> s' \<and> (\<forall>t w. m = Reply t i w \<longrightarrow> t \<le> s') \<and>
    ((s', v') = (s, v) \<or> m = Reply s' i v')"
proof (cases m)
  case (Reply t j w)
  then show ?thesis using put_newer_view [of f i s v t j w] assms by auto
qed (use assms in auto)

lemma pub_step_inv: "pub_step ids V p ps q \<Longrightarrow> pub_inv ids p \<Longrightarrow> pub_inv ids q"
  by (induction rule: pub_step.induct) (fastforce simp: pub_inv_def image_Un)+

lemma pub_step_grows:
  assumes "pub_step ids V p ps q" "pub_inv ids p"
  shows "p_next p \<le> p_next q" "i \<in> ids \<Longrightarrow> p_seqs q i = p_seqs p i \<or> p_seqs q i = p_next p"
    "i \<in> ids \<Longrightarrow> p_seqs p i \<le> p_seqs q i"
  using assms by (induction rule: pub_step.induct) (auto simp: pub_inv_def)

lemma sent_inv_step:
  assumes "proto_step ids used V p q" "pub_inv ids (p_pub p)" "sent_inv ids p"
  shows "sent_inv ids q"
  using assms(1)
proof cases
  case (publish ps p')
  note g = pub_step_grows [OF publish(2) assms(2)]
  have "numbered ids p' seq rs" if "(seq, rs) \<in> p_sent p" for seq rs
  proof -
    have n: "numbered ids (p_pub p) seq rs" using that assms(3) by (auto simp: sent_inv_def)
    have "i \<in> fst ` set rs" if "i \<in> ids" "p_seqs p' i = seq" "0 \<le> seq" for i
      using n g(2) [OF that(1)] that by (auto simp: numbered_def)
    moreover have "seq \<le> p_seqs p' i" if "i \<in> ids" "i \<in> fst ` set rs" "0 \<le> seq" for i
      using n g(3) [OF that(1)] that unfolding numbered_def by (meson order_trans)
    ultimately show ?thesis using n g(1) unfolding numbered_def by auto
  qed
  moreover have "numbered ids p' seq rs" if "(seq, rs) \<in> set ps" for seq rs
    using publish(2) that assms(2) by (cases rule: pub_step.cases) (auto simp: pub_inv_def numbered_def)
  ultimately show ?thesis by (auto simp: sent_inv_def publish(1))
qed (use assms(3) in \<open>simp_all add: sent_inv_def\<close>)
lemma seqs_inv_step:
  assumes "proto_step ids used V p q" "pub_inv ids (p_pub p)" "sent_inv ids p" "seqs_inv ids p"
  shows "seqs_inv ids q"
  using assms(1)
proof cases
  case (publish ps p')
  note g = pub_step_grows [OF publish(2) assms(2)]
  show ?thesis using assms(4) g unfolding publish(1) seqs_inv_def by simp (meson order_trans)
next
  case (deliver pk)
  obtain seq rs where pk: "pk = (seq, rs)" by (cases pk)
  have s: "seq < 0 \<longrightarrow> - seq \<le> p_next (p_pub p)" "0 \<le> seq \<longrightarrow> seq < p_next (p_pub p)"
    "\<And>i. 0 \<le> seq \<Longrightarrow> i \<in> ids \<Longrightarrow> i \<in> fst ` set rs \<Longrightarrow> seq \<le> p_seqs (p_pub p) i"
    using assms(3) deliver(2) unfolding sent_inv_def pk numbered_def by blast+
  have ex: "p_expect q \<le> p_next (p_pub p)" using s(1,2) assms(4) by (auto simp: deliver(1) pk accept_pkt_def ask_def seqs_inv_def)
  have "\<exists>t v. p_view q i = Some (t, v) \<and> t \<le> p_seqs (p_pub p) i" if "i \<in> ids" for i
    using that s(3) [OF _ that] assms(4) foldl_put_other [of i rs seq "p_view p"] foldl_put_in [of i rs seq "p_view p"]
    by (cases "i \<in> fst ` set rs") (auto simp: deliver(1) pk accept_pkt_def seqs_inv_def)
  then show ?thesis using ex assms(4) unfolding seqs_inv_def by (simp add: deliver(1))
next
  case (reply i v)
  then show ?thesis using assms(4) by (auto simp: seqs_inv_def)
next
  case (hear m ms)
  have v: "\<forall>i\<in>ids. \<exists>s v. p_view p i = Some (s, v) \<and> s \<le> p_seqs (p_pub p) i"
    "\<forall>s i v. Reply s i v \<in> set (p_msgs p) \<longrightarrow> i \<in> ids \<and> s \<le> p_seqs (p_pub p) i" using assms(4) by (auto simp: seqs_inv_def)
  have "\<exists>s v. on_msg (p_view p) m i = Some (s, v) \<and> s \<le> p_seqs (p_pub p) i" if i: "i \<in> ids" for i
  proof -
    from v(1) i obtain s0 v0 where f: "p_view p i = Some (s0, v0)" "s0 \<le> p_seqs (p_pub p) i" by blast
    from on_msg_view [of "p_view p", OF f(1), of m] obtain s' v' where "on_msg (p_view p) m i = Some (s', v')"
      "(s', v') = (s0, v0) \<or> m = Reply s' i v'" by blast
    then show ?thesis using f(2) v(2) hear(2) by auto
  qed
  then show ?thesis using assms(4) v(2) hear(2) by (simp add: hear(1) seqs_inv_def)
qed (use assms(4) in \<open>auto simp: seqs_inv_def\<close>)

lemma vals_inv_step:
  assumes "proto_step ids used V p q" "vals_inv ids V p" "seqs_inv ids p"
  shows "vals_inv ids V q"
  using assms(1)
proof cases
  case (publish ps p')
  have "(\<forall>(i, v)\<in>set (p_staged p'). V i v) \<and> (\<forall>(seq, rs)\<in>set ps. \<forall>(i, v)\<in>set rs. V i v)"
    using publish(2) assms(2) by (cases rule: pub_step.cases) (auto simp: vals_inv_def)
  then show ?thesis using assms(2) by (auto simp: vals_inv_def publish(1))
next
  case (deliver pk)
  obtain seq rs where pk: "pk = (seq, rs)" by (cases pk)
  have rs: "\<forall>(i, v)\<in>set rs. V i v" using assms(2) deliver(2) by (auto simp: vals_inv_def pk)
  have "V i v" if "i \<in> ids" "p_view q i = Some (s, v)" "0 \<le> s" for i s v
  proof (cases "seq < 0 \<or> seq < p_expect p \<or> i \<notin> fst ` set rs")
    case True
    then have "p_view q i = p_view p i"
      using foldl_put_other [of i rs seq "p_view p"] by (auto simp: deliver(1) pk accept_pkt_def)
    then show ?thesis using that assms(2) unfolding vals_inv_def by metis
  next
    case False
    then show ?thesis
      using that foldl_put_in [of i rs seq "p_view p"] rs by (auto simp: deliver(1) pk accept_pkt_def)
  qed
  then show ?thesis using assms(2) unfolding vals_inv_def by (simp add: deliver(1))
next
  case (hear m ms)
  have "V i v" if i: "i \<in> ids" "on_msg (p_view p) m i = Some (s, v)" "0 \<le> s" for i s v
  proof -
    from assms(3) i(1) obtain s0 v0 where f: "p_view p i = Some (s0, v0)" by (fastforce simp: seqs_inv_def)
    from on_msg_view [of "p_view p", OF f, of m] i(2) have "(s, v) = (s0, v0) \<or> m = Reply s i v" by auto
    then show ?thesis using f i assms(2) hear(2) by (auto simp: vals_inv_def)
  qed
  then show ?thesis using assms(2) hear(2) unfolding vals_inv_def by (simp add: hear(1))
qed (use assms(2) in \<open>auto simp: vals_inv_def\<close>)
lemma covered_mono:
  assumes "covered p i" "p_seqs (p_pub q) i = p_seqs (p_pub p) i"
    and "\<And>t v. p_view p i = Some (t, v) \<Longrightarrow> \<exists>t' v'. p_view q i = Some (t', v') \<and> t \<le> t'"
    and "\<And>t v. Reply t i v \<in> set (p_msgs p) \<Longrightarrow> p_seqs (p_pub p) i \<le> t \<Longrightarrow> covered q i"
    and "\<And>r. r \<in> set (p_reqs p) \<Longrightarrow> IS_WITHIN_RANGE r (p_seqs (p_pub p) i) \<Longrightarrow> covered q i"
    and "IS_WITHIN_RANGE (p_union p) (p_seqs (p_pub p) i) \<Longrightarrow> covered q i"
    and "IS_WITHIN_RANGE (p_reply p) (p_seqs (p_pub p) i) \<Longrightarrow> p_reply_id p \<le> i \<Longrightarrow> covered q i"
  shows "covered q i"
proof -
  have "covered q i" if "p_view p i = Some (t, v)" "p_seqs (p_pub p) i \<le> t" for t v
    using assms(2) assms(3) [OF that(1)] that(2) unfolding covered_def Let_def by (metis order_trans)
  with assms show ?thesis unfolding covered_def [of p] Let_def by blast
qed

lemma coveredI:
  "p_view q i = Some (t, v) \<Longrightarrow> p_seqs (p_pub q) i \<le> t \<Longrightarrow> covered q i"
  "Reply t i v \<in> set (p_msgs q) \<Longrightarrow> p_seqs (p_pub q) i \<le> t \<Longrightarrow> covered q i"
  "r \<in> set (p_reqs q) \<Longrightarrow> IS_WITHIN_RANGE r (p_seqs (p_pub q) i) \<Longrightarrow> covered q i"
  "IS_WITHIN_RANGE (p_union q) (p_seqs (p_pub q) i) \<Longrightarrow> covered q i"
  "IS_WITHIN_RANGE (p_reply q) (p_seqs (p_pub q) i) \<Longrightarrow> p_reply_id q \<le> i \<Longrightarrow> covered q i"
  unfolding covered_def Let_def by blast+

text \<open>A packet at or above the number expected: what lies below it has been asked for.\<close>

lemma ask_covered:
  assumes "covered p i \<or> p_expect p \<le> p_seqs (p_pub p) i" "p_seqs (p_pub p) i < s"
  shows "covered (ask s p) i"
proof (cases "p_expect p \<le> p_seqs (p_pub p) i")
  case True
  then have "\<lparr>low = p_expect p, high = s\<rparr> \<in> set (p_reqs (ask s p))" "IS_WITHIN_RANGE \<lparr>low = p_expect p, high = s\<rparr> (p_seqs (p_pub p) i)"
    using assms(2) by (simp_all add: ask_def IS_WITHIN_RANGE_def)
  then show ?thesis using coveredI(3) [of _ "ask s p" i] by simp
next
  case False
  then have "covered p i" using assms(1) by simp
  then show ?thesis by (rule covered_mono) (auto simp: ask_def intro: coveredI)
qed

lemma accept_pkt_covered:
  assumes "pk \<in> p_sent p" "sent_inv ids p" "seqs_inv ids p" "i \<in> ids"
    and "p_seqs (p_pub p) i < p_expect p \<longrightarrow> covered p i" "p_seqs (p_pub p) i < p_expect (accept_pkt pk p)"
  shows "covered (accept_pkt pk p) i"
proof -
  obtain seq rs where pk: "pk = (seq, rs)" by (cases pk)
  have n: "numbered ids (p_pub p) seq rs" using assms(1,2) by (auto simp: sent_inv_def pk)
  have c: "covered p i \<or> p_expect p \<le> p_seqs (p_pub p) i" using assms(5) by auto
  consider (hb) "seq < 0" | (old) "0 \<le> seq" "seq < p_expect p" | (new) "0 \<le> seq" "p_expect p \<le> seq" by linarith
  then show ?thesis
  proof cases
    case hb
    then have q: "accept_pkt pk p = ask (- seq) p" by (simp add: accept_pkt_def pk)
    show ?thesis
    proof (cases "p_expect p < - seq")
      case True
      then show ?thesis using ask_covered [OF c, of "- seq"] assms(6) by (simp add: q ask_def)
    next
      case False
      then show ?thesis using assms(5,6) by (simp add: q ask_def)
    qed
  next
    case old
    then show ?thesis using assms(5,6) by (simp add: accept_pkt_def pk)
  next
    case new
    let ?q = "(ask seq p)\<lparr>p_expect := seq + 1, p_view := foldl (put seq) (p_view p) rs\<rparr>"
    have q: "accept_pkt pk p = ?q" using new by (simp add: accept_pkt_def pk)
    obtain t v where v: "p_view p i = Some (t, v)" "t \<le> p_seqs (p_pub p) i" using assms(3,4) by (fastforce simp: seqs_inv_def)
    have up: "\<exists>t' v'. p_view ?q i = Some (t', v') \<and> min t seq \<le> t'"
      using foldl_put_in [of i rs seq "p_view p"] foldl_put_other [of i rs seq "p_view p"] v(1)
      by (cases "i \<in> fst ` set rs") fastforce+
    show ?thesis
    proof (cases "p_seqs (p_pub p) i = seq")
      case True
      then have "i \<in> fst ` set rs" using n new(1) assms(4) by (simp add: numbered_def)
      then obtain w where "p_view ?q i = Some (seq, w)" using foldl_put_in [of i rs seq "p_view p"] by auto
      then show ?thesis unfolding q using True coveredI(1) [of ?q i seq w] by simp
    next
      case False
      then have less: "p_seqs (p_pub p) i < seq" using assms(6) by (simp add: q)
      from ask_covered [OF c less] have "covered (ask seq p) i" .
      then show ?thesis unfolding q
      proof (rule covered_mono)
        fix t' v'
        assume "p_view (ask seq p) i = Some (t', v')"
        then show "\<exists>t'' v''. p_view ?q i = Some (t'', v'') \<and> t' \<le> t''" using up v less by auto
      qed (auto intro: coveredI)
    qed
  qed
qed
lemma cover_grows: "IS_WITHIN_RANGE u s \<or> IS_WITHIN_RANGE r s \<Longrightarrow> IS_WITHIN_RANGE (cover u r) s"
  using cover_within [of u s "[r]"] by simp

lemma hear_covered:
  assumes "covered p i" "p_view p i = Some (t, v)" "p_msgs p = m # ms"
  shows "covered (p\<lparr>p_msgs := ms, p_view := on_msg (p_view p) m\<rparr>) i" (is "covered ?q i")
proof -
  from on_msg_view [of "p_view p", OF assms(2), of m] obtain t' v' where
    n: "p_view ?q i = Some (t', v')" "t \<le> t'" "\<forall>s w. m = Reply s i w \<longrightarrow> s \<le> t'" by auto
  from assms(1) show ?thesis
  proof (rule covered_mono)
    fix s w
    assume "Reply s i w \<in> set (p_msgs p)" "p_seqs (p_pub p) i \<le> s"
    then show "covered ?q i"
      using assms(3) n coveredI(1) [OF n(1)] coveredI(2) [of s i w ?q] by auto
  qed (use assms(2) n in \<open>auto intro: coveredI\<close>)
qed

lemma reply_covered:
  assumes "covered p i" "\<not> (p_reply_id p \<le> i \<and> i < k \<and> IS_WITHIN_RANGE (p_reply p) (p_seqs (p_pub p) i))"
  shows "covered (p\<lparr>p_msgs := p_msgs p @ [Reply (p_seqs (p_pub p) k) k v], p_reply_id := k + 1\<rparr>) i" (is "covered ?q i")
  using assms(1)
proof (rule covered_mono)
  assume a: "IS_WITHIN_RANGE (p_reply p) (p_seqs (p_pub p) i)" "p_reply_id p \<le> i"
  then consider "i = k" | "k + 1 \<le> i" using assms(2) by linarith
  then show "covered ?q i" using a by cases (auto intro: coveredI)
qed (auto intro: coveredI)

lemma proto_step_covered:
  assumes "proto_step ids used V p q" "proto_inv ids used V p" "i \<in> used" "p_seqs (p_pub q) i < p_expect q"
  shows "covered q i"
proof -
  have inv: "pub_inv ids (p_pub p)" "sent_inv ids p" "seqs_inv ids p" "i \<in> ids"
    "p_seqs (p_pub p) i < p_expect p \<longrightarrow> covered p i"
    using assms(2,3) by (auto simp: proto_inv_def)
  have same: "covered p i" if "p_pub q = p_pub p" "p_expect q = p_expect p" using that inv(5) assms(4) by simp
  from assms(1) show ?thesis
  proof cases
    case (publish ps p')
    note g = pub_step_grows [OF publish(2) inv(1)]
    have "p_expect p \<le> p_next (p_pub p)" using inv(3) by (simp add: seqs_inv_def)
    then have e: "p_seqs p' i = p_seqs (p_pub p) i" "p_seqs (p_pub p) i < p_expect p"
      using g(2) [OF inv(4)] assms(4) by (auto simp: publish(1))
    with inv(5) have "covered p i" by simp
    then show ?thesis by (rule covered_mono) (auto simp: publish(1) e intro: coveredI)
  next
    case (deliver pk)
    then show ?thesis using accept_pkt_covered [OF deliver(2) inv(2-5)] assms(4) by simp
  next
    case (take_req r rs)
    then have "covered p i" using same by simp
    then show ?thesis using take_req by (elim covered_mono) (auto intro: coveredI simp: cover_grows)
  next
    case (begin_reply i0)
    then have "covered p i" using same by simp
    then show ?thesis using begin_reply inv(4) within_valid by (elim covered_mono) (auto intro: coveredI)
  next
    case drop_req
    then have "covered p i" using same by simp
    then show ?thesis using drop_req inv(4) by (elim covered_mono) (auto intro: coveredI)
  next
    case (reply k v)
    then show ?thesis using same assms(3) by (auto intro!: reply_covered)
  next
    case end_reply
    then have "covered p i" using same by simp
    then show ?thesis using end_reply assms(3) by (elim covered_mono) (auto intro: coveredI)
  next
    case tcp_beat
    then have "covered p i" using same by simp
    then show ?thesis using tcp_beat by (elim covered_mono) (auto intro: coveredI)
  next
    case (hear m ms)
    obtain t v where "p_view p i = Some (t, v)" using inv(3,4) by (fastforce simp: seqs_inv_def)
    then show ?thesis using same hear by (auto intro: hear_covered)
  qed
qed

lemma proto_step_inv:
  assumes "proto_step ids used V p q" "proto_inv ids used V p"
  shows "proto_inv ids used V q"
proof -
  have inv: "used \<subseteq> ids" "pub_inv ids (p_pub p)" "sent_inv ids p" "seqs_inv ids p" "vals_inv ids V p"
    using assms(2) by (auto simp: proto_inv_def)
  have "pub_inv ids (p_pub q)" using assms(1) inv(2) by cases (auto dest: pub_step_inv)
  then show ?thesis
    using inv sent_inv_step [OF assms(1) inv(2,3)] seqs_inv_step [OF assms(1) inv(2-4)] vals_inv_step [OF assms(1) inv(5,4)]
      proto_step_covered [OF assms] by (auto simp: proto_inv_def)
qed

text \<open>When everything on the way has arrived, the subscriber has what was last published.\<close>

definition at_rest :: "proto \<Rightarrow> bool" where
  "at_rest p \<longleftrightarrow> p_staged (p_pub p) = [] \<and> p_expect p = p_next (p_pub p) \<and> p_reqs p = [] \<and>
     \<not> IS_VALID_RANGE (p_union p) \<and> \<not> IS_VALID_RANGE (p_reply p) \<and> (\<forall>s i v. Reply s i v \<notin> set (p_msgs p))"

lemma at_rest_in_sync:
  assumes "proto_inv ids used V p" "at_rest p" "i \<in> used"
  shows "\<exists>v. p_view p i = Some (p_seqs (p_pub p) i, v) \<and> V i v"
proof -
  have inv: "i \<in> ids" "pub_inv ids (p_pub p)" "seqs_inv ids p" "vals_inv ids V p" "p_seqs (p_pub p) i < p_expect p \<longrightarrow> covered p i"
    using assms(1,3) by (auto simp: proto_inv_def)
  have "0 \<le> p_seqs (p_pub p) i" "p_seqs (p_pub p) i < p_expect p"
    using inv(1,2) assms(2) by (force simp: pub_inv_def at_rest_def)+
  then have "covered p i" using inv(5) by simp
  then obtain t v where v: "p_view p i = Some (t, v)" "p_seqs (p_pub p) i \<le> t"
    using assms(2) within_valid by (auto simp: covered_def at_rest_def Let_def)
  then have "t = p_seqs (p_pub p) i" using inv(1,3) by (fastforce simp: seqs_inv_def)
  with v inv(1,4) \<open>0 \<le> p_seqs (p_pub p) i\<close> show ?thesis unfolding vals_inv_def by blast
qed

end
