(* ===== verification/Convergence.thy ===== *)
theory Convergence
  imports Protocol
begin

text \<open>
  The code implements the protocol.  A publisher and a subscriber run the handlers of \<open>sender.c\<close> and
  \<open>receiver.c\<close> in any order, joined by a network that may lose, repeat and reorder datagrams; every
  handler takes steps of the abstract protocol of theory \<open>Protocol\<close>, so that no update is lost.
\<close>

section \<open>Publishing\<close>

definition ids_of :: "sender \<Rightarrow> ident set" where
  "ids_of sndr = {base_id sndr..<max_id sndr}"

definition seqs_of :: "sender \<Rightarrow> ident \<Rightarrow> sequence" where
  "seqs_of sndr i = (if i \<in> ids_of sndr then seq_of sndr i else 0)"

definition abs_pub :: "sender \<Rightarrow> (ident \<times> byte list) list \<Rightarrow> pub" where
  "abs_pub sndr rs = \<lparr>p_next = next_seq sndr, p_seqs = seqs_of sndr, p_staged = rs\<rparr>"

text \<open>A datagram that carries the packet and fits.\<close>

definition carries :: "nat \<Rightarrow> byte list \<Rightarrow> pkt \<Rightarrow> bool" where
  "carries mtu d pk \<longleftrightarrow> (\<exists>now. is_long now \<and> d = packet (fst pk) now (snd pk)) \<and> length d \<le> mtu"

lemma ids_of_cong: "same_config s s' \<Longrightarrow> ids_of s' = ids_of s"
  by (simp add: ids_of_def same_config_def)

lemma seqs_of_cong: "same_config s s' \<Longrightarrow> record_seqs s' = record_seqs s \<Longrightarrow> seqs_of s' = seqs_of s"
  by (rule ext) (simp add: seqs_of_def ids_of_cong seq_of_cong)

lemma abs_pub_cong:
  "same_config s s' \<Longrightarrow> next_seq s' = next_seq s \<Longrightarrow> record_seqs s' = record_seqs s \<Longrightarrow> abs_pub s' rs = abs_pub s rs"
  by (simp add: abs_pub_def seqs_of_cong)

lemma stage_pub:
  assumes "snd_inv s rs" "same_config s s'" "next_seq s' = next_seq s" "i \<in> ids_of s" "V i v"
    and "record_seqs s' = (record_seqs s)[nat (i - base_id s) := next_seq s]"
  shows "pub_step (ids_of s) V (abs_pub s rs) [] (abs_pub s' (rs @ [(i, v)]))"
proof -
  have len: "length (record_seqs s) = nat (max_id s - base_id s)" using assms(1) by (simp add: snd_inv_def)
  have b: "base_id s' = base_id s" using assms(2) by (simp add: same_config_def)
  have "seq_of s' j = (if j = i then next_seq s else seq_of s j)" if "j \<in> ids_of s" for j
    using that assms(4) len by (auto simp: seq_of_def assms(6) b ids_of_def nth_list_update)
  then have "seqs_of s' = (seqs_of s)(i := next_seq s)"
    using assms(4) ids_of_cong [OF assms(2)] by (auto simp: seqs_of_def fun_eq_iff)
  then have "abs_pub s' (rs @ [(i, v)]) =
      (abs_pub s rs)\<lparr>p_seqs := (p_seqs (abs_pub s rs))(i := p_next (abs_pub s rs)), p_staged := p_staged (abs_pub s rs) @ [(i, v)]\<rparr>"
    using assms(3) by (simp add: abs_pub_def)
  then show ?thesis using stage [of i "ids_of s" V v "abs_pub s rs"] assms(4,5) by simp
qed

lemma accum_pub:
  assumes "mcast_accum_record e sndr i = (st, sndr', out)" "accum_env_ok e sndr" "snd_inv sndr rs"
    and "st \<ge> 0 \<or> st = BLOCKED" "\<And>v. copied e sndr i v \<Longrightarrow> V i v"
  shows "\<exists>rs' ps. snd_inv sndr' rs' \<and> same_config sndr sndr' \<and> list_all2 (carries (mcast_mtu sndr)) out ps \<and>
    pub_steps (ids_of sndr) V (abs_pub sndr rs) ps (abs_pub sndr' rs')"
  using assms(1-4)
proof (cases rule: mcast_accum_cases)
  case (same r)
  then show ?thesis using assms(3) by (intro exI [of _ rs] exI [of _ "[]"]) (simp add: pub_steps.none)
next
  case (blocked now)
  have c: "same_config sndr sndr'" by (simp add: blocked same_config_def)
  have "abs_pub sndr' rs = abs_pub sndr rs" by (rule abs_pub_cong [OF c]) (simp_all add: blocked)
  then show ?thesis using snd_inv_stamp [OF assms(3)] blocked c
    by (intro exI [of _ rs] exI [of _ "[]"]) (simp add: pub_steps.none)
next
  case (added r rv v ts rv' s1 rs1)
  have i: "i \<in> ids_of sndr"
    using added(1) assms(2) by (auto simp: storage_get_record_def accum_env_ok_def ids_of_def split: if_splits)
  have V: "V i v" using assms(5) added(1-3) by (auto simp: copied_def)
  have c1: "same_config sndr s1" "snd_inv s1 rs1" using added(4) assms(3) by auto
  then have "nat (i - base_id sndr) = nat (i - base_id s1)" "i \<in> ids_of s1" using i ids_of_cong [of sndr s1] by (simp_all add: same_config_def)
  then have st: "pub_step (ids_of sndr) V (abs_pub s1 rs1) [] (abs_pub sndr' (rs1 @ [(i, v)]))"
    using stage_pub [where V = V, OF c1(2) added(6,7), of i v] V added(9) ids_of_cong [OF c1(1)] by simp
  have c': "same_config sndr sndr'" using c1(1) added(6) by (rule same_config_trans)
  from added(4) show ?thesis
  proof (elim disjE conjE)
    assume "out = []" "s1 = sndr" "rs1 = rs"
    then show ?thesis using pub_steps_one [OF st] added(5) c' by (intro exI [of _ "rs1 @ [(i, v)]"] exI [of _ "[]"]) simp
  next
    assume a: "rs \<noteq> []" "rs1 = []" "next_seq s1 = next_seq sndr + 1" "record_seqs s1 = record_seqs sndr"
      "\<exists>now. is_long now \<and> out = [packet (next_seq sndr) now rs]"
    have "abs_pub s1 [] = (abs_pub sndr rs)\<lparr>p_next := p_next (abs_pub sndr rs) + 1, p_staged := []\<rparr>"
      using a(3) seqs_of_cong [OF c1(1) a(4)] by (simp add: abs_pub_def)
    then have "pub_step (ids_of sndr) V (abs_pub sndr rs) [(next_seq sndr, rs)] (abs_pub s1 [])"
      using flush [of "abs_pub sndr rs" "ids_of sndr" V] a(1) by (simp add: abs_pub_def)
    from pub_steps.more [OF pub_steps_one [OF this] st [unfolded a(2)]]
    have "pub_steps (ids_of sndr) V (abs_pub sndr rs) [(next_seq sndr, rs)] (abs_pub sndr' [(i, v)])" by simp
    moreover have "list_all2 (carries (mcast_mtu sndr)) out [(next_seq sndr, rs)]"
      using a(5) packet_length(2) [OF assms(3) a(1)] by (auto simp: carries_def)
    ultimately show ?thesis using added(5) c' a(2) by auto
  qed
qed
lemma accum_queue_pub:
  assumes "accum_queue es k qi n st0 sndr out0 = (st, qi', sndr', out')"
    and "\<forall>j. accum_env_ok (es j) sndr" "snd_inv sndr rs" "st \<ge> 0 \<or> st = BLOCKED" "0 \<le> st0"
    and "\<forall>j i v. copied (es j) sndr i v \<longrightarrow> V i v"
  shows "\<exists>rs' ps out. out' = out0 @ out \<and> snd_inv sndr' rs' \<and> same_config sndr sndr' \<and>
    list_all2 (carries (mcast_mtu sndr)) out ps \<and> pub_steps (ids_of sndr) V (abs_pub sndr rs) ps (abs_pub sndr' rs')"
  using assms
proof (induction n arbitrary: k qi st0 sndr out0 rs)
  case 0
  then show ?case using pub_steps.none [of "ids_of sndr" V "abs_pub sndr rs"]
    by (intro exI [of _ rs] exI [of _ "[]"]) simp
next
  case (Suc n)
  obtain i where i: "storage_read_queue (ac_mem (es k)) qi True = Inr i"
    using Suc.prems(1,4) by (cases "storage_read_queue (ac_mem (es k)) qi True")
      (auto simp: storage_read_queue_def status_defs split: if_splits)
  obtain st1 s1 out1 where a: "mcast_accum_record (es k) sndr i = (st1, s1, out1)"
    by (cases "mcast_accum_record (es k) sndr i")
  have env: "accum_env_ok (es k) sndr" using Suc.prems(2) by simp
  have st1: "st1 \<ge> 0 \<or> st1 = BLOCKED" using Suc.prems(1,4) i a by (cases "st1 = 0") auto
  from accum_pub [where V = V, OF a env Suc.prems(3) st1] Suc.prems(6) obtain rs1 ps1 where
    s1: "snd_inv s1 rs1" "same_config sndr s1" "list_all2 (carries (mcast_mtu sndr)) out1 ps1"
      "pub_steps (ids_of sndr) V (abs_pub sndr rs) ps1 (abs_pub s1 rs1)" by blast
  show ?case
  proof (cases "st1 = 0")
    case False
    then have "sndr' = s1" "out' = out0 @ out1" using Suc.prems(1) i a by auto
    then show ?thesis using s1 by blast
  next
    case True
    then have go: "accum_queue es (k + 1) (qi + 1) n st1 s1 (out0 @ out1) = (st, qi', sndr', out')" and z: "0 \<le> st1"
      using Suc.prems(1) i a by simp_all
    have envs: "\<forall>j. accum_env_ok (es j) s1" using Suc.prems(2) accum_env_ok_cong [OF s1(2)] by simp
    have vs: "\<forall>j i v. copied (es j) s1 i v \<longrightarrow> V i v"
      using Suc.prems(6) copied_cong [OF s1(2)] by simp
    obtain rs' ps out where ih: "out' = (out0 @ out1) @ out" "snd_inv sndr' rs'" "same_config s1 sndr'"
      "list_all2 (carries (mcast_mtu s1)) out ps" "pub_steps (ids_of s1) V (abs_pub s1 rs1) ps (abs_pub sndr' rs')"
      using Suc.IH [OF go envs s1(1) Suc.prems(4) z vs] by blast
    have "mcast_mtu s1 = mcast_mtu sndr" "ids_of s1 = ids_of sndr"
      using s1(2) ids_of_cong [OF s1(2)] by (simp_all add: same_config_def)
    then show ?thesis
      using ih s1 pub_steps_trans [OF ih(5) [unfolded \<open>ids_of s1 = ids_of sndr\<close>] s1(4)]
      by (intro exI [of _ rs'] exI [of _ "ps1 @ ps"] exI [of _ "out1 @ out"])
        (simp add: list_all2_appendI same_config_trans [OF s1(2) ih(3)])
  qed
qed

lemma empty_queue_pub:
  assumes "mcast_on_empty_queue clk e sndr = (st, sndr', out)" "send_env_ok e" "clock_ok clk" "snd_inv sndr rs" "st \<ge> 0"
  shows "\<exists>rs' ps. snd_inv sndr' rs' \<and> same_config sndr sndr' \<and> list_all2 (carries (mcast_mtu sndr)) out ps \<and>
    pub_steps (ids_of sndr) V (abs_pub sndr rs) ps (abs_pub sndr' rs')"
proof -
  obtain rs' where r: "snd_inv sndr' rs'" "same_config sndr sndr'" "published sndr rs out sndr' rs' []"
    "record_seqs sndr' = record_seqs sndr"
    using mcast_on_empty_queue_published [OF assms] by blast
  note f = seqs_of_cong [OF r(2,4)]
  from r(3) consider (quiet) "out = []" "next_seq sndr' = next_seq sndr" "rs' = rs"
    | (hb) now where "is_long now" "out = [packet (- next_seq sndr) now []]" "next_seq sndr' = next_seq sndr" "rs = []" "rs' = []"
    | (full) now ent where "is_long now" "ent \<noteq> []" "out = [packet (next_seq sndr) now ent]"
      "length (packet (next_seq sndr) now ent) \<le> mcast_mtu sndr" "next_seq sndr' = next_seq sndr + 1" "ent @ rs' = rs"
    by (auto simp: published_def)
  then show ?thesis
  proof cases
    case quiet
    then have "abs_pub sndr' rs' = abs_pub sndr rs" using f by (simp add: abs_pub_def)
    then show ?thesis using r(1,2) quiet(1) by (intro exI [of _ rs'] exI [of _ "[]"]) (simp add: pub_steps.none)
  next
    case hb
    have "abs_pub sndr' rs' = abs_pub sndr rs" using f hb by (simp add: abs_pub_def)
    moreover have "pub_step (ids_of sndr) V (abs_pub sndr rs) [(- next_seq sndr, [])] (abs_pub sndr rs)"
      using beat [of "abs_pub sndr rs"] hb(4) by (simp add: abs_pub_def)
    moreover have "length (packet (- next_seq sndr) now []) \<le> mcast_mtu sndr"
      using assms(4) by (simp add: packet_def snd_inv_def)
    ultimately show ?thesis using r(1,2) hb pub_steps_one
      by (intro exI [of _ rs'] exI [of _ "[(- next_seq sndr, [])]"]) (auto simp: carries_def)
  next
    case full
    have "rs' = []"
    proof (rule ccontr)
      assume "rs' \<noteq> []"
      then obtain i v where iv: "(i, v) \<in> set rs'" by (cases rs') auto
      then have "record_seqs sndr' ! nat (i - base_id sndr') = next_seq sndr'" using r(1) by (auto simp: snd_inv_def)
      moreover have "record_seqs sndr ! nat (i - base_id sndr) = next_seq sndr"
        using iv full(6) assms(4) by (auto simp: snd_inv_def)
      ultimately show False using r(2,4) full(5) by (simp add: same_config_def)
    qed
    then have "abs_pub sndr' rs' = (abs_pub sndr rs)\<lparr>p_next := p_next (abs_pub sndr rs) + 1, p_staged := []\<rparr>" "ent = rs"
      using f full(5,6) by (simp_all add: abs_pub_def)
    then have "pub_step (ids_of sndr) V (abs_pub sndr rs) [(next_seq sndr, rs)] (abs_pub sndr' rs')"
      using flush [of "abs_pub sndr rs" "ids_of sndr" V] full(2) by (simp add: abs_pub_def)
    then show ?thesis using r(1,2) full pub_steps_one \<open>ent = rs\<close>
      by (intro exI [of _ rs'] exI [of _ "[(next_seq sndr, rs)]"]) (auto simp: carries_def)
  qed
qed

lemma mcast_on_write_pub:
  assumes "mcast_on_write m es clk e sndr = (st, sndr', out)" "st \<ge> 0"
    and "snd_inv sndr rs" "\<forall>k. accum_env_ok (es k) sndr" "send_env_ok e" "clock_ok clk"
    and "\<forall>j i v. copied (es j) sndr i v \<longrightarrow> V i v"
  shows "\<exists>rs' ps. snd_inv sndr' rs' \<and> same_config sndr sndr' \<and> list_all2 (carries (mcast_mtu sndr)) out ps \<and>
    pub_steps (ids_of sndr) V (abs_pub sndr rs) ps (abs_pub sndr' rs')"
proof -
  have f: "same_config s (s\<lparr>last_q_idx := q\<rparr>)" "snd_inv (s\<lparr>last_q_idx := q\<rparr>) r = snd_inv s r"
    "abs_pub (s\<lparr>last_q_idx := q\<rparr>) r = abs_pub s r" "ids_of (s\<lparr>last_q_idx := q\<rparr>) = ids_of s" for s q r
    by (simp add: same_config_def, simp add: snd_inv_def staged_def,
        rule abs_pub_cong, simp_all add: same_config_def ids_of_def)
  have inv: "snd_inv (sndr\<lparr>last_q_idx := q\<rparr>) rs" for q using assms(3) f(2) by simp
  show ?thesis using assms(1,2)
  proof (cases rule: mcast_on_write_cases)
    case (empty q)
    from empty_queue_pub [where V = V, OF empty(1) assms(5,6) inv assms(2)]
    show ?thesis by (auto simp: f same_config_def)
  next
    case (queue q st1 qi s1)
    have st1: "st1 \<ge> 0 \<or> st1 = BLOCKED" using queue(2) assms(2) by (auto split: if_splits)
    have env: "\<forall>j. accum_env_ok (es j) (sndr\<lparr>last_q_idx := q\<rparr>)" using assms(4) by (simp add: accum_env_ok_def)
    have "\<forall>j i v. copied (es j) (sndr\<lparr>last_q_idx := q\<rparr>) i v \<longrightarrow> V i v"
      using assms(7) by (simp add: copied_def)
    with accum_queue_pub [where V = V, OF queue(1) env inv st1] obtain rs' ps where
      "snd_inv s1 rs'" "same_config sndr s1" "list_all2 (carries (mcast_mtu sndr)) out ps"
      "pub_steps (ids_of sndr) V (abs_pub sndr rs) ps (abs_pub s1 rs')"
      by (auto simp: f OK_def same_config_def)
    then show ?thesis using f(1) [of s1 qi] same_config_trans unfolding queue(3) f(2,3) by blast
  qed
qed
section \<open>Replying\<close>

definition same_in :: "tcp_client \<Rightarrow> tcp_client \<Rightarrow> bool" where
  "same_in clnt clnt' \<longleftrightarrow> in_buf clnt' = in_buf clnt \<and> in_next clnt' = in_next clnt \<and> in_remain clnt' = in_remain clnt \<and>
     union_range clnt' = union_range clnt \<and> pkt_size clnt' = pkt_size clnt"

text \<open>What is put into the empty output buffer: nothing, a heartbeat, the next record wanted, or the end of the range.\<close>

definition composes :: "sender \<Rightarrow> mem \<Rightarrow> tcp_client \<Rightarrow> tcp_client \<Rightarrow> bool" where
  "composes sndr m clnt clnt' \<longleftrightarrow> same_in clnt clnt' \<and>
     ((unsent clnt' = [] \<or> unsent clnt' = wire64 HEARTBEAT_SEQ) \<and>
        reply_range clnt' = reply_range clnt \<and> reply_id clnt' = reply_id clnt \<or>
      (\<exists>i. reply_id clnt \<le> i \<and> i < max_id sndr \<and> base_id sndr \<le> i \<and> unsent clnt' = reply_bytes sndr m i \<and>
         reply_range clnt' = reply_range clnt \<and> reply_id clnt' = i + 1 \<and> wanted sndr m (reply_range clnt) i \<and>
         (\<forall>j. reply_id clnt \<le> j \<and> j < i \<longrightarrow> \<not> wanted sndr m (reply_range clnt) j)) \<or>
      unsent clnt' = [] \<and> reply_range clnt' = INVALIDATE_RANGE \<and>
        (\<forall>j. reply_id clnt \<le> j \<and> j < max_id sndr \<longrightarrow> \<not> wanted sndr m (reply_range clnt) j))"

lemma find_first:
  assumes "find P [k..b] = Some i" "k \<le> j" "j < i"
  shows "\<not> P j"
proof
  assume "P j"
  from find_filter(2) [OF assms(1)] obtain ys zs where y: "[k..b] = ys @ i # zs" "filter P [k..b] = i # filter P zs" by blast
  have "j \<in> set (filter P [k..b])" using assms(2,3) wanted_first(3) [OF assms(1)] \<open>P j\<close> by simp
  then have "j \<in> set zs" using y(2) assms(3) by auto
  then show False using upto_split_at [OF y(1)] assms(3) by auto
qed

lemma compose_exact:
  assumes "tcp_compose e st sndr clnt = (st', sndr', clnt')" "0 \<le> st'" "0 \<le> st" "out_remain clnt = 0"
    and "write_quiet e sndr m" "clnt_ok sndr clnt"
  shows "composes sndr m clnt clnt'"
proof (cases "IS_VALID_RANGE (reply_range clnt)")
  case valid: True
  let ?P = "wanted sndr m (reply_range clnt)" and ?xs = "[reply_id clnt..max_id sndr - 1]"
  have k: "base_id sndr \<le> reply_id clnt" "reply_id clnt \<le> max_id sndr"
    using assms(6) valid by (simp_all add: clnt_ok_def)
  note sc = reply_scan_quiet [OF assms(5) k(1) refl k(2) assms(3)]
  have u: "unsent clnt = []" using assms(4) by (simp add: unsent_def)
  show ?thesis
  proof (cases "find ?P ?xs")
    case None
    then obtain st1 where "0 \<le> st1" "reply_scan e sndr (nat (max_id sndr - reply_id clnt)) st clnt =
        (st1, False, clnt\<lparr>reply_id := max_id sndr, min_seq_found := min_scanned sndr ?xs (min_seq_found clnt)\<rparr>)"
      using sc by auto
    then have "clnt' = clnt\<lparr>reply_id := max_id sndr, min_seq_found := min_scanned sndr ?xs (min_seq_found clnt),
        reply_range := INVALIDATE_RANGE\<rparr>"
      using assms(1) valid by (simp add: tcp_compose_def)
    then show ?thesis using u None by (simp add: composes_def same_in_def unsent_def find_None_iff)
  next
    case (Some i)
    then have c: "clnt' = reply_to sndr m i clnt" using sc assms(1) valid by (auto simp: tcp_compose_def)
    have f: "same_in clnt clnt'" "reply_range clnt' = reply_range clnt" "reply_id clnt' = i + 1"
      by (simp_all add: c reply_to_def same_in_def)
    show ?thesis
      using f wanted_first [OF Some] find_first [OF Some] k unsent_reply_to [OF assms(6), of m i] c
      unfolding composes_def by (intro conjI disjI2 disjI1 exI [of _ i]) auto
  qed
next
  case False
  have hb: "unsent (clnt\<lparr>out_buf := put_net b 0 HEARTBEAT_SEQ, out_next := 0, out_remain := 8\<rparr>) = wire64 HEARTBEAT_SEQ"
    for b by (simp add: unsent_def put_net_wire)
  have "unsent clnt = []" using assms(4) by (simp add: unsent_def)
  with False assms(1) hb show ?thesis
    by (cases "we_clock2 e") (auto simp: tcp_compose_def composes_def same_in_def split: if_splits)
qed

lemma tcp_on_write_exact:
  assumes "snd_tcp_on_write e sndr clnt = (st, sndr', clnt', out)" "0 \<le> st"
    and "write_quiet e sndr m" "clnt_ok sndr clnt"
  shows "\<exists>c1. same_in clnt c1 \<and> reply_range c1 = reply_range clnt \<and> reply_id c1 = reply_id clnt \<and>
    out @ unsent c1 = unsent clnt \<and> (clnt' = c1 \<or> unsent c1 = [] \<and> composes sndr m c1 clnt')"
proof -
  obtain st1 s1 c1 where w:
    "snd_tcp_write_buf (we_raised e) (we_slp e) (we_clock e) (we_writes e) sndr clnt = (st1, s1, c1, out)"
    using assms(1) by (auto simp: snd_tcp_on_write_def Let_def split: prod.splits if_splits)
  note b = snd_tcp_write_buf_stream [OF w]
  have f: "same_in clnt c1" "reply_range c1 = reply_range clnt" "reply_id c1 = reply_id clnt" "pkt_size c1 = pkt_size clnt"
    by (subst b(4), simp add: same_in_def)+
  have ok1: "clnt_ok s1 c1" using assms(4) clnt_ok_cong [OF b(2) f(4,2,3)] by simp
  have q1: "write_quiet e s1 m" using assms(3) write_quiet_cong [OF b(2)] by simp
  have sq: "seq_of s1 = seq_of sndr" "max_id s1 = max_id sndr" "base_id s1 = base_id sndr" "snd_store s1 = snd_store sndr"
    "val_size s1 = val_size sndr"
    using seq_of_cong [OF b(2,3)] b(2) by (simp_all add: same_config_def)
  have eq: "wanted s1 m = wanted sndr m" "reply_bytes s1 m = reply_bytes sndr m"
    by (simp_all add: wanted_def reply_bytes_def value_of_def sq fun_eq_iff)
  define st2 where "st2 = (if st1 = BLOCKED then OK else st1)"
  have st2: "0 \<le> st2" using assms(1,2) w by (auto simp: snd_tcp_on_write_def st2_def OK_def split: if_splits)
  show ?thesis
  proof (cases "out_remain c1 = 0")
    case True
    obtain st3 s3 c3 where c: "tcp_compose e st2 s1 c1 = (st3, s3, c3)" by (cases "tcp_compose e st2 s1 c1")
    have r: "st = st3" "clnt' = c3"
      using assms(1) w True c st2 by (auto simp: snd_tcp_on_write_def Let_def st2_def split: if_splits)
    have "composes s1 m c1 c3" using compose_exact [OF c _ st2 True q1 ok1] assms(2) r(1) by simp
    then have "composes sndr m c1 clnt'" by (simp add: composes_def sq eq r(2))
    moreover have "unsent c1 = []" using True by (simp add: unsent_def)
    ultimately show ?thesis using f b(1) by blast
  next
    case False
    then have "clnt' = c1"
      using assms(1) w st2 by (auto simp: snd_tcp_on_write_def Let_def st2_def split: if_splits)
    then show ?thesis using f b(1) by blast
  qed
qed
section \<open>The system\<close>

text \<open>
  A publisher with one subscriber: the sender and its client record, the datagrams sent so far, the
  bytes on the connection in both directions, and the receiver with its storage and poller.
\<close>

record net =
  n_sndr :: sender
  n_clnt :: tcp_client
  n_dgrams :: "byte list set"
  n_up :: "byte list"
  n_down :: "byte list"
  n_recv :: receiver
  n_mem :: mem
  n_pol :: poller

text \<open>The sequence number at the head of a datagram.\<close>

definition pkt_seq :: "byte list \<Rightarrow> sequence" where
  "pkt_seq d = get_net (mwrite (\<lambda>_. 0) 0 d) 0"

text \<open>
  The steps are whole handlers that do not fail.  The publisher's storage may be written to at
  any time between them, and during \<open>mcast_on_write\<close>; \<open>V i v\<close> says that \<open>v\<close> is a value the record
  had, and the records in \<open>used\<close> are never erased.  A datagram may be delivered any number of
  times, in any order, or never.  A packet that shows a gap is handled only after the request
  for the last gap has been handed to the kernel, because \<open>request_gap\<close> overwrites it otherwise.
\<close>

inductive net_step :: "ident set \<Rightarrow> (ident \<Rightarrow> byte list \<Rightarrow> bool) \<Rightarrow> net \<Rightarrow> net \<Rightarrow> bool" for used V where
  n_publish: "mcast_on_write m es clk e (n_sndr s) = (st, sndr, out) \<Longrightarrow> 0 \<le> st \<Longrightarrow>
     \<forall>k. accum_env_ok (es k) (n_sndr s) \<Longrightarrow> send_env_ok e \<Longrightarrow> clock_ok clk \<Longrightarrow>
     \<forall>k i v. copied (es k) (n_sndr s) i v \<longrightarrow> V i v \<Longrightarrow>
     net_step used V s (s\<lparr>n_sndr := sndr, n_dgrams := n_dgrams s \<union> set out\<rparr>)"
| n_deliver: "d \<in> n_dgrams s \<Longrightarrow> arrives e (n_recv s) d \<Longrightarrow>
     pending (n_recv s) = [] \<or> \<bar>pkt_seq d\<bar> \<le> r_next_seq (n_recv s) \<Longrightarrow>
     mcast_on_read e (n_pol s) (n_recv s) (n_mem s) = (st, pol, recv, m) \<Longrightarrow>
     net_step used V s (s\<lparr>n_recv := recv, n_mem := m, n_pol := pol\<rparr>)"
| n_request: "rcv_tcp_on_write sg xs (n_pol s) (n_recv s) = (st, pol, recv, sent) \<Longrightarrow>
     net_step used V s (s\<lparr>n_recv := recv, n_pol := pol, n_up := n_up s @ sent\<rparr>)"
| n_serve: "snd_tcp_on_read sg slp xs (n_up s) (n_sndr s) (n_clnt s) = (st, sndr, clnt, rest) \<Longrightarrow> 0 \<le> st \<Longrightarrow>
     net_step used V s (s\<lparr>n_sndr := sndr, n_clnt := clnt, n_up := rest\<rparr>)"
| n_blocked: "tcp_on_read_blocked (n_sndr s) (n_clnt s) = (st, clnt) \<Longrightarrow> net_step used V s (s\<lparr>n_clnt := clnt\<rparr>)"
| n_reply: "snd_tcp_on_write e (n_sndr s) (n_clnt s) = (st, sndr, clnt, out) \<Longrightarrow> 0 \<le> st \<Longrightarrow>
     write_quiet e (n_sndr s) m \<Longrightarrow>
     \<forall>i\<in>used. record_get_revision m (rec_of (snd_store (n_sndr s)) m i) \<noteq> 0 \<Longrightarrow>
     \<forall>i. valid_id m i \<longrightarrow> V i (value_of (n_sndr s) m i) \<Longrightarrow>
     net_step used V s (s\<lparr>n_sndr := sndr, n_clnt := clnt, n_down := n_down s @ out\<rparr>)"
| n_receive: "rcv_tcp_on_read e (n_down s) (n_recv s) (n_mem s) = (st, recv, m, rest) \<Longrightarrow> 0 \<le> st \<Longrightarrow>
     clock_ok (te_clock e) \<Longrightarrow> clock_ok (te_clock2 e) \<Longrightarrow>
     net_step used V s (s\<lparr>n_recv := recv, n_mem := m, n_down := rest\<rparr>)"

text \<open>The sender and its client, the streams, and the receiver match the abstract state.\<close>

definition snd_sim :: "sender \<Rightarrow> tcp_client \<Rightarrow> proto \<Rightarrow> bool" where
  "snd_sim sndr clnt p \<longleftrightarrow> (\<exists>rs. snd_inv sndr rs \<and> p_pub p = abs_pub sndr rs) \<and>
     bound_ok sndr \<and> scanned_ok sndr clnt \<and> base_id sndr < max_id sndr \<and> clnt_ok sndr clnt \<and> in_ok clnt \<and>
     is_long (base_id sndr) \<and> is_long (max_id sndr) \<and>
     p_union p = union_range clnt \<and> p_reply p = reply_range clnt \<and>
     (IS_VALID_RANGE (reply_range clnt) \<longrightarrow> p_reply_id p = reply_id clnt)"

definition rcv_sim :: "sender \<Rightarrow> receiver \<Rightarrow> mem \<Rightarrow> poller \<Rightarrow> proto \<Rightarrow> bool" where
  "rcv_sim sndr recv m pol p \<longleftrightarrow> rcv_ok recv m \<and> rin_ok recv \<and> polled pol recv \<and> \<not> r_is_stopping recv \<and>
     storage_get_base_id m = base_id sndr \<and> storage_get_max_id m = max_id sndr \<and>
     r_val_size recv = val_size sndr \<and> r_mcast_mtu recv = mcast_mtu sndr \<and>
     p_view p = view_of recv m \<and> p_expect p = r_next_seq recv \<and> 0 \<le> r_next_seq recv"

definition up_sim :: "tcp_client \<Rightarrow> byte list \<Rightarrow> receiver \<Rightarrow> proto \<Rightarrow> bool" where
  "up_sim clnt up recv p \<longleftrightarrow> partial clnt @ up @ pending recv = concat (map req_bytes (p_reqs p)) \<and>
     (\<forall>r\<in>set (p_reqs p). range_ok r)"

definition down_sim :: "tcp_client \<Rightarrow> byte list \<Rightarrow> receiver \<Rightarrow> proto \<Rightarrow> bool" where
  "down_sim clnt down recv p \<longleftrightarrow> got_bytes recv @ down @ unsent clnt = concat (map msg_bytes (p_msgs p)) \<and>
     (\<forall>m\<in>set (p_msgs p). msg_ok (r_val_size recv) m \<and> m \<noteq> Will_quit)"

definition sent_sim :: "sender \<Rightarrow> byte list set \<Rightarrow> proto \<Rightarrow> bool" where
  "sent_sim sndr ds p \<longleftrightarrow> (\<forall>d\<in>ds. \<exists>pk\<in>p_sent p. carries (mcast_mtu sndr) d pk)"

text \<open>The values are of the size all records have, under identifiers of the storage.\<close>

definition sized :: "sender \<Rightarrow> (ident \<Rightarrow> byte list \<Rightarrow> bool) \<Rightarrow> ident \<Rightarrow> byte list \<Rightarrow> bool" where
  "sized sndr V i v \<longleftrightarrow> i \<in> ids_of sndr \<and> length v = val_size sndr \<and> V i v"

definition sim :: "net \<Rightarrow> proto \<Rightarrow> bool" where
  "sim s p \<longleftrightarrow> snd_sim (n_sndr s) (n_clnt s) p \<and> rcv_sim (n_sndr s) (n_recv s) (n_mem s) (n_pol s) p \<and>
     up_sim (n_clnt s) (n_up s) (n_recv s) p \<and> down_sim (n_clnt s) (n_down s) (n_recv s) p \<and>
     sent_sim (n_sndr s) (n_dgrams s) p"

text \<open>The steps of the protocol that may match a handler in state \<open>s\<close>, and the invariant they keep.\<close>

abbreviation spec_step :: "ident set \<Rightarrow> (ident \<Rightarrow> byte list \<Rightarrow> bool) \<Rightarrow> net \<Rightarrow> proto \<Rightarrow> proto \<Rightarrow> bool" where
  "spec_step used V s \<equiv> proto_step (ids_of (n_sndr s)) used (sized (n_sndr s) V)"

abbreviation spec_inv :: "ident set \<Rightarrow> (ident \<Rightarrow> byte list \<Rightarrow> bool) \<Rightarrow> net \<Rightarrow> proto \<Rightarrow> bool" where
  "spec_inv used V s \<equiv> proto_inv (ids_of (n_sndr s)) used (sized (n_sndr s) V)"

section \<open>Every handler takes steps of the protocol\<close>

lemma pub_steps_proto:
  "pub_steps ids V a ps b \<Longrightarrow> p_pub p = a \<Longrightarrow>
    (proto_step ids used V)\<^sup>*\<^sup>* p (p\<lparr>p_pub := b, p_sent := p_sent p \<union> set ps\<rparr>)"
proof (induction rule: pub_steps.induct)
  case (none a)
  then have "p\<lparr>p_pub := a, p_sent := p_sent p \<union> set []\<rparr> = p" by simp
  then show ?case by (metis rtranclp.rtrancl_refl)
next
  case (more a ps b ps' c)
  let ?q = "p\<lparr>p_pub := b, p_sent := p_sent p \<union> set ps\<rparr>"
  have "proto_step ids used V ?q (?q\<lparr>p_pub := c, p_sent := p_sent ?q \<union> set ps'\<rparr>)"
    using more(2) by (intro publish) simp
  then show ?case using rtranclp.rtrancl_into_rtrancl [OF more.IH [OF more.prems]] by (simp add: Un_assoc)
qed

lemma sized_cong: "ids_of s' = ids_of s \<Longrightarrow> val_size s' = val_size s \<Longrightarrow> sized s' V = sized s V"
  by (intro ext) (simp add: sized_def)

text \<open>A value copied from the storage has the size of the record.\<close>

lemma copied_sized:
  assumes "copied e sndr i v" "accum_env_ok e sndr" "V i v"
  shows "sized sndr V i v"
proof -
  have "i \<in> ids_of sndr"
    using assms(1,2) by (auto simp: copied_def storage_get_record_def accum_env_ok_def ids_of_def split: if_splits)
  moreover have "length v = val_size sndr" using assms(1) by (auto simp: copied_def dest: accum_copy_length)
  ultimately show ?thesis using assms(3) by (simp add: sized_def)
qed

lemma sim_publish:
  assumes "sim s p" "mcast_on_write m es clk e (n_sndr s) = (st, sndr, out)" "0 \<le> st"
    and "\<forall>k. accum_env_ok (es k) (n_sndr s)" "send_env_ok e" "clock_ok clk" "\<forall>k i v. copied (es k) (n_sndr s) i v \<longrightarrow> V i v"
  shows "\<exists>q. (spec_step used V s)\<^sup>*\<^sup>* p q \<and> sim (s\<lparr>n_sndr := sndr, n_dgrams := n_dgrams s \<union> set out\<rparr>) q"
    "ids_of sndr = ids_of (n_sndr s)" "val_size sndr = val_size (n_sndr s)"
proof -
  let ?s = "n_sndr s" and ?V = "sized (n_sndr s) V"
  have ss: "snd_sim ?s (n_clnt s) p" using assms(1) by (simp add: sim_def)
  then obtain rs where rs: "snd_inv ?s rs" "p_pub p = abs_pub ?s rs" by (auto simp: snd_sim_def)
  have "\<forall>k i v. copied (es k) ?s i v \<longrightarrow> ?V i v" by (intro allI impI copied_sized) (use assms(4,7) in auto)
  from mcast_on_write_pub [where V = ?V, OF assms(2,3) rs(1) assms(4-6) this] obtain rs' ps where
    w: "snd_inv sndr rs'" "same_config ?s sndr" "list_all2 (carries (mcast_mtu ?s)) out ps"
      "pub_steps (ids_of ?s) ?V (abs_pub ?s rs) ps (abs_pub sndr rs')" by blast
  note grow = mcast_on_write_seqs_grow [OF assms(2,3) rs(1) assms(4-6)]
  let ?q = "p\<lparr>p_pub := abs_pub sndr rs', p_sent := p_sent p \<union> set ps\<rparr>"
  have reach: "(spec_step used V s)\<^sup>*\<^sup>* p ?q" using pub_steps_proto [OF w(4)] rs(2) by simp
  have f: "base_id sndr = base_id ?s" "max_id sndr = max_id ?s" "val_size sndr = val_size ?s" "mcast_mtu sndr = mcast_mtu ?s"
    using w(2) by (simp_all add: same_config_def)
  have "snd_sim sndr (n_clnt s) ?q"
    using ss w(1) grow_bound [OF grow] grow_scanned [OF grow] clnt_ok_cong [OF w(2)] f by (auto simp: snd_sim_def)
  moreover have "\<exists>pk\<in>set ps. carries (mcast_mtu ?s) d pk" if "d \<in> set out" for d
    using w(3) that by (metis in_set_conv_nth list_all2_conv_all_nth)
  then have "sent_sim sndr (n_dgrams s \<union> set out) ?q"
    using assms(1) f(4) unfolding sim_def sent_sim_def by auto
  ultimately have "sim (s\<lparr>n_sndr := sndr, n_dgrams := n_dgrams s \<union> set out\<rparr>) ?q"
    using assms(1) f by (auto simp: sim_def rcv_sim_def up_sim_def down_sim_def)
  with reach show "\<exists>q. (spec_step used V s)\<^sup>*\<^sup>* p q \<and> sim (s\<lparr>n_sndr := sndr, n_dgrams := n_dgrams s \<union> set out\<rparr>) q" by blast
  show "ids_of sndr = ids_of ?s" "val_size sndr = val_size ?s" using f by (simp_all add: ids_of_def)
qed

text \<open>The multicast side of the receiver does not touch the message being read.\<close>

definition same_stream :: "receiver \<Rightarrow> receiver \<Rightarrow> bool" where
  "same_stream recv recv' \<longleftrightarrow> r_in_buf recv' = r_in_buf recv \<and> r_in_next recv' = r_in_next recv \<and>
     r_in_remain recv' = r_in_remain recv \<and> r_is_stopping recv' = r_is_stopping recv \<and> r_val_size recv' = r_val_size recv"

lemma same_stream_got:
  "same_stream recv recv' \<Longrightarrow> got_bytes recv' = got_bytes recv \<and> rin_ok recv' = rin_ok recv \<and>
    r_is_stopping recv' = r_is_stopping recv"
  by (simp add: same_stream_def got_bytes_def rin_ok_def)

lemma r_with_stats_stream: "r_with_stats slp f recv = Inr recv' \<Longrightarrow> same_stream recv recv'"
  by (auto simp: r_with_stats_def same_stream_def split: sum.splits)

lemma update_stats_stream: "update_stats slp recv n d = (st, recv') \<Longrightarrow> same_stream recv recv'"
  by (auto simp: update_stats_def same_stream_def split: sum.splits prod.splits dest!: r_with_stats_stream)

lemma request_gap_stream: "request_gap slp pol recv lo hi = (st, pol', recv') \<Longrightarrow> same_stream recv recv'"
  by (auto simp: request_gap_def same_stream_def Let_def split: sum.splits prod.splits if_splits dest!: r_with_stats_stream)

lemma update_record_stream: "update_record slp recv m seq i v now = (st, recv', m') \<Longrightarrow> same_stream recv recv'"
  by (auto simp: update_record_def same_stream_def Let_def split: sum.splits prod.splits if_splits)

lemma same_stream_trans: "same_stream a b \<Longrightarrow> same_stream b c \<Longrightarrow> same_stream a c"
  by (simp add: same_stream_def)

lemma update_records_stream:
  "update_records slp buf seq now p lst st recv m = (st', recv', m') \<Longrightarrow> same_stream recv recv'"
proof (induction slp buf seq now p lst st recv m rule: update_records.induct)
  case (1 slp buf seq now p lst st recv m)
  show ?case
  proof (cases "p < lst")
    case False
    then show ?thesis using 1(2) by (subst (asm) update_records.simps) (simp add: same_stream_def)
  next
    case True
    obtain st1 r1 m1 where u: "update_record slp recv m seq (get_net buf p) (mread buf (p + 8) (r_val_size recv)) now = (st1, r1, m1)"
      by (metis prod_cases3)
    show ?thesis
    proof (cases "FAILED st1")
      case True
      then have "recv' = r1" using 1(2) u \<open>p < lst\<close> by (subst (asm) update_records.simps) simp
      then show ?thesis using update_record_stream [OF u] by simp
    next
      case False
      then have "update_records slp buf seq now (p + 8 + r_val_size recv) lst st1 r1 m1 = (st', recv', m')"
        using 1(2) u \<open>p < lst\<close> by (subst (asm) update_records.simps) simp
      from 1(1) [OF \<open>p < lst\<close> u [symmetric] refl False this] update_record_stream [OF u] show ?thesis
        by (rule same_stream_trans [rotated])
    qed
  qed
qed

lemma mcast_on_read_stream:
  assumes "mcast_on_read e pol recv m = (st, pol', recv', m')"
  shows "same_stream recv recv'"
proof -
  have self: "same_stream recv recv" by (simp add: same_stream_def)
  show ?thesis
  proof (cases "sock_recvfrom (re_raised e) (re_dgram e) True (r_mcast_mtu recv)")
    case (Inl err)
    then show ?thesis using assms self by (simp add: mcast_on_read_def Let_def)
  next
    case rx: (Inr d)
    show ?thesis
    proof (cases "re_clock e")
      case (Inl err)
      then show ?thesis using assms self rx by (simp add: mcast_on_read_def Let_def)
    next
      case clk: (Inr now)
      define buf where "buf = mwrite (re_stack e) 0 d"
      obtain st1 r1 where u: "update_stats (re_slp e) (recv\<lparr>r_mcast_recv_time := now\<rparr>) (length d) (now - get_net buf 8) = (st1, r1)"
        by (cases "update_stats (re_slp e) (recv\<lparr>r_mcast_recv_time := now\<rparr>) (length d) (now - get_net buf 8)")
      let ?seq = "get_net buf 0"
      obtain st2 r2 m2 where v: "(if ?seq < 0 then (OK, r1, m) else update_records (re_slp e) buf ?seq now 16 (length d) OK r1 m) = (st2, r2, m2)"
        by (metis prod_cases3)
      define s where "s = (if ?seq < 0 then - ?seq else ?seq)"
      obtain st3 pol3 r3 where g: "(if s > r_next_seq r2 then request_gap (re_slp e) pol r2 (r_next_seq r2) s else (OK, pol, r2)) = (st3, pol3, r3)"
        by (metis prod_cases3)
      have s1: "same_stream recv r1" using update_stats_stream [OF u] by (simp add: same_stream_def)
      have s2: "same_stream r1 r2" using v update_records_stream by (auto simp: same_stream_def split: if_splits)
      have s3: "same_stream r2 r3" using g request_gap_stream by (auto simp: same_stream_def split: if_splits)
      note run = assms [unfolded mcast_on_read_def Let_def rx sum.case clk buf_def [symmetric] u prod.case v s_def [symmetric] g]
      have "recv' \<in> {recv, r1, r2, r3} \<or> (\<exists>a. recv' = r3\<lparr>r_next_seq := a\<rparr>)"
        using run by (auto split: if_splits)
      then show ?thesis using self s1 s2 s3 by (auto simp: same_stream_def)
    qed
  qed
qed
lemma pkt_seq_packet: "is_long seq \<Longrightarrow> pkt_seq (packet seq now rs) = seq"
  unfolding pkt_seq_def by (rule get_net_wire) (simp_all add: packet_def mwrite_append mread_mwrite_disjoint)

text \<open>A datagram that has been sent is one the receiver understands.\<close>

lemma datagram_ok:
  assumes "sim s p" "spec_inv used V s p" "d \<in> n_dgrams s"
  obtains seq ents now where "(seq, ents) \<in> p_sent p" "d = packet seq now ents"
    "packet_ok (n_recv s) (n_mem s) seq now ents" "is_long seq" "\<bar>seq\<bar> \<le> next_seq (n_sndr s)"
proof -
  let ?s = "n_sndr s" and ?r = "n_recv s" and ?m = "n_mem s"
  have ss: "snd_sim ?s (n_clnt s) p" and rs: "rcv_sim ?s ?r ?m (n_pol s) p" and sent: "sent_sim ?s (n_dgrams s) p"
    using assms(1) by (simp_all add: sim_def)
  obtain seq ents now where pk: "(seq, ents) \<in> p_sent p" "is_long now" "d = packet seq now ents" "length d \<le> mcast_mtu ?s"
    using sent assms(3) by (fastforce simp: sent_sim_def carries_def)
  have nx: "p_next (p_pub p) = next_seq ?s" "next_seq ?s < SEQUENCE_MAX" "1 \<le> next_seq ?s"
    using ss by (auto simp: snd_sim_def abs_pub_def snd_inv_def)
  have "seq < 0 \<longrightarrow> - seq \<le> next_seq ?s" "0 \<le> seq \<longrightarrow> seq < next_seq ?s"
    using assms(2) pk(1) nx(1) by (auto simp: proto_inv_def sent_inv_def numbered_def)
  then have long: "is_long seq" "- SEQUENCE_MAX \<le> seq" "seq < SEQUENCE_MAX" "\<bar>seq\<bar> \<le> next_seq ?s"
    using nx(2) by (auto simp: is_long_def SEQUENCE_MAX_def LONG_MAX_def LONG_MIN_def)
  have "\<forall>(i, v)\<in>set ents. sized ?s V i v" using assms(2) pk(1) by (auto simp: proto_inv_def vals_inv_def)
  moreover have "valid_id ?m i \<and> is_long i" if "i \<in> ids_of ?s" for i
    using that rs ss by (auto simp: ids_of_def valid_id_def rcv_sim_def snd_sim_def is_long_def)
  ultimately have "entries_ok ?r ?m ents" using rs by (auto simp: entries_ok_def sized_def rcv_sim_def)
  then have "packet_ok ?r ?m seq now ents" using long pk(2,3,4) rs by (simp add: packet_ok_def rcv_sim_def)
  with that pk(1,3) long(1,4) show thesis by blast
qed

text \<open>The abstract receiver of theory \<open>Delivery\<close> does with a packet what the protocol does.\<close>

lemma accept_abs:
  assumes "p_view p = view_of recv m" "p_expect p = r_next_seq recv" "abs_of recv' m' = abs_packet seq ents (abs_of recv m)"
  shows "p_view (accept_pkt (seq, ents) p) = view_of recv' m'" "p_expect (accept_pkt (seq, ents) p) = r_next_seq recv'"
    "\<bar>seq\<bar> \<le> p_expect p \<Longrightarrow> p_reqs (accept_pkt (seq, ents) p) = p_reqs p \<and> pending recv' = pending recv"
    "\<bar>seq\<bar> > p_expect p \<Longrightarrow> p_reqs (accept_pkt (seq, ents) p) = p_reqs p @ [\<lparr>low = p_expect p, high = \<bar>seq\<bar>\<rparr>] \<and>
       pending recv' = req_bytes \<lparr>low = p_expect p, high = \<bar>seq\<bar>\<rparr>"
  using assms by (auto simp: accept_pkt_def abs_packet_def skip_to_def ask_def abs_of_def abs_if split: if_splits)

lemma up_sim_accept:
  assumes "up_sim clnt up recv p" "abs_of recv' m' = abs_packet seq ents (abs_of recv m)"
    and "p_view p = view_of recv m" "p_expect p = r_next_seq recv" "0 \<le> p_expect p"
    and "\<bar>seq\<bar> < SEQUENCE_MAX" "pending recv = [] \<or> \<bar>seq\<bar> \<le> r_next_seq recv"
  shows "up_sim clnt up recv' (accept_pkt (seq, ents) p)"
proof (cases "\<bar>seq\<bar> > p_expect p")
  case True
  have "range_ok \<lparr>low = p_expect p, high = \<bar>seq\<bar>\<rparr>"
    using True assms(5,6) by (simp add: range_ok_def IS_VALID_RANGE_def is_long_def SEQUENCE_MAX_def LONG_MAX_def LONG_MIN_def)
  then show ?thesis
    using accept_abs(4) [OF assms(3,4,2) True] assms(1,4,7) True by (auto simp: up_sim_def simp flip: append_assoc)
next
  case False
  then show ?thesis using accept_abs(3) [OF assms(3,4,2)] assms(1) by (simp add: up_sim_def)
qed

lemma sim_deliver:
  assumes "sim s p" "spec_inv used V s p" "d \<in> n_dgrams s" "arrives e (n_recv s) d"
    and "pending (n_recv s) = [] \<or> \<bar>pkt_seq d\<bar> \<le> r_next_seq (n_recv s)"
    and "mcast_on_read e (n_pol s) (n_recv s) (n_mem s) = (st, pol, recv, m)"
  shows "\<exists>q. (spec_step used V s)\<^sup>*\<^sup>* p q \<and> sim (s\<lparr>n_recv := recv, n_mem := m, n_pol := pol\<rparr>) q"
proof -
  let ?s = "n_sndr s" and ?r = "n_recv s" and ?m = "n_mem s"
  have ss: "snd_sim ?s (n_clnt s) p" and rs: "rcv_sim ?s ?r ?m (n_pol s) p" and up: "up_sim (n_clnt s) (n_up s) ?r p"
    and dn: "down_sim (n_clnt s) (n_down s) ?r p" and sent: "sent_sim ?s (n_dgrams s) p"
    using assms(1) by (simp_all add: sim_def)
  obtain seq ents now where pk: "(seq, ents) \<in> p_sent p" "d = packet seq now ents" "packet_ok ?r ?m seq now ents"
    "is_long seq" "\<bar>seq\<bar> \<le> next_seq ?s" using datagram_ok [OF assms(1-3)] by blast
  have a: "rcv_ok ?r ?m" "polled (n_pol s) ?r" "p_view p = view_of ?r ?m" "p_expect p = r_next_seq ?r" "0 \<le> p_expect p"
    using rs by (simp_all add: rcv_sim_def)
  from mcast_on_read_refines [OF a(1,2) pk(3) assms(4) [unfolded pk(2)]] assms(6)
  have ref: "rcv_ok recv m" "same_layout ?m m" "same_rcv ?r recv" "polled pol recv"
    "abs_of recv m = abs_packet seq ents (abs_of ?r ?m)" by auto
  note st = mcast_on_read_stream [OF assms(6)] and acc = accept_abs [OF a(3,4) ref(5)]
  let ?q = "accept_pkt (seq, ents) p"
  have "\<bar>seq\<bar> < SEQUENCE_MAX" using pk(5) ss by (auto simp: snd_sim_def snd_inv_def)
  moreover have "pending ?r = [] \<or> \<bar>seq\<bar> \<le> r_next_seq ?r" using assms(5) pkt_seq_packet [OF pk(4)] pk(2) by simp
  ultimately have "up_sim (n_clnt s) (n_up s) recv ?q" by (rule up_sim_accept [OF up ref(5) a(3-5)])
  moreover have "down_sim (n_clnt s) (n_down s) recv ?q"
    using dn st same_stream_got [OF st] by (simp add: down_sim_def same_stream_def)
  moreover have "0 \<le> r_next_seq recv" using acc(2) a(5) by (auto simp: accept_pkt_def ask_def split: if_splits)
  then have "rcv_sim ?s recv m pol ?q"
    using rs ref acc(1,2) same_stream_got [OF st] same_layout_fields [OF ref(2)] by (simp add: rcv_sim_def same_rcv_def)
  moreover have "snd_sim ?s (n_clnt s) ?q" using ss by (simp add: snd_sim_def accept_pkt_def)
  ultimately have "sim (s\<lparr>n_recv := recv, n_mem := m, n_pol := pol\<rparr>) ?q" using sent by (simp add: sim_def sent_sim_def)
  moreover have "(spec_step used V s)\<^sup>*\<^sup>* p ?q" using deliver [OF pk(1)] by (rule r_into_rtranclp)
  ultimately show ?thesis by blast
qed

lemma rcv_tcp_on_write_sent:
  assumes "rcv_tcp_on_write sg xs pol recv = (st, pol', recv', sent)" "polled pol recv"
  shows "sent @ pending recv' = pending recv" "polled pol' recv'"
    "recv' = recv\<lparr>r_out_next := r_out_next recv', r_out_remain := r_out_remain recv'\<rparr>"
proof -
  obtain st1 nx rem out where w: "write_loop sg (r_out_buf recv) xs OK (r_out_next recv) (r_out_remain recv) [] = (st1, nx, rem, out)"
    by (cases "write_loop sg (r_out_buf recv) xs OK (r_out_next recv) (r_out_remain recv) []")
  note l = write_loop_sent [OF w]
  have r: "recv' = recv\<lparr>r_out_next := nx, r_out_remain := rem\<rparr>" "sent = out"
    using assms(1) w by (auto simp: rcv_tcp_on_write_def rcv_tcp_write_buf_def Let_def split: if_splits prod.splits)
  show "recv' = recv\<lparr>r_out_next := r_out_next recv', r_out_remain := r_out_remain recv'\<rparr>" by (simp add: r(1))
  show "sent @ pending recv' = pending recv"
    using mread_add [of "r_out_buf recv" "r_out_next recv" "nx - r_out_next recv" rem] l(1-3)
    by (simp add: pending_def r)
  have p: "polled pol recv'" using assms(2) by (simp add: polled_def r(1))
  obtain pol2 where "poller_set_event pol (r_tcp_sock recv') POLLIN = (OK, pol2)" "polled pol2 recv'"
    by (rule polled_set_event [OF p])
  then show "polled pol' recv'"
    using assms(1) w p by (auto simp: rcv_tcp_on_write_def rcv_tcp_write_buf_def r(1) Let_def split: if_splits)
qed

lemma sim_request:
  assumes "sim s p" "rcv_tcp_on_write sg xs (n_pol s) (n_recv s) = (st, pol, recv, sent)"
  shows "sim (s\<lparr>n_recv := recv, n_pol := pol, n_up := n_up s @ sent\<rparr>) p"
proof -
  have rs: "rcv_sim (n_sndr s) (n_recv s) (n_mem s) (n_pol s) p" using assms(1) by (simp add: sim_def)
  then have "polled (n_pol s) (n_recv s)" by (simp add: rcv_sim_def)
  note w = rcv_tcp_on_write_sent [OF assms(2) this]
  have f: "same_stream (n_recv s) recv" "same_rcv (n_recv s) recv" "r_record_seqs recv = r_record_seqs (n_recv s)"
    "r_next_seq recv = r_next_seq (n_recv s)"
    by (subst w(3), simp add: same_stream_def same_rcv_def)+
  have "rcv_ok (n_recv s) (n_mem s)" using rs by (simp add: rcv_sim_def)
  then have "rcv_ok recv (n_mem s)" by (subst w(3), simp add: rcv_ok_def)
  then show ?thesis
    using assms(1) rs f same_stream_got [OF f(1)] w(1,2) view_of_cong [OF f(2,3)]
    by (auto simp: sim_def rcv_sim_def up_sim_def down_sim_def same_rcv_def)
qed

text \<open>What the sender's handlers for a client keep of the sender.\<close>

lemma served_fields:
  assumes "served sndr sndr'"
  shows "ids_of sndr' = ids_of sndr" "val_size sndr' = val_size sndr" "mcast_mtu sndr' = mcast_mtu sndr"
    "base_id sndr' = base_id sndr" "max_id sndr' = max_id sndr"
  using assms by (auto simp: served_def same_config_def ids_of_def)

lemma served_refl: "served sndr sndr"
  by (rule served_stats) simp_all

lemma snd_sim_served:
  assumes "snd_sim sndr clnt p" "served sndr sndr'" "scanned_ok sndr' clnt'" "clnt_ok sndr' clnt'" "in_ok clnt'"
    and "p_pub q = p_pub p" "p_union q = union_range clnt'" "p_reply q = reply_range clnt'"
    and "IS_VALID_RANGE (reply_range clnt') \<longrightarrow> p_reply_id q = reply_id clnt'"
  shows "snd_sim sndr' clnt' q"
proof -
  obtain rs where rs: "snd_inv sndr rs" "p_pub p = abs_pub sndr rs" using assms(1) by (auto simp: snd_sim_def)
  have bd: "bound_ok sndr" "base_id sndr < max_id sndr" using assms(1) by (simp_all add: snd_sim_def)
  note b = served_bound [OF assms(2) bd(1) rs(1) bd(2)]
  from assms(2) obtain s1 k where s1: "same_config sndr s1" "next_seq s1 = next_seq sndr" "record_seqs s1 = record_seqs sndr"
    "sndr' = s1\<lparr>min_seq := k\<rparr>" by (auto simp: served_def)
  have "seqs_of sndr' i = seqs_of s1 i" for i by (simp add: s1(4) seqs_of_def ids_of_def)
  then have "abs_pub sndr' rs = abs_pub s1 rs" by (simp add: s1(4) abs_pub_def fun_eq_iff)
  then have "abs_pub sndr' rs = abs_pub sndr rs" using abs_pub_cong [OF s1(1-3)] by simp
  then show ?thesis using assms rs b by (auto simp: snd_sim_def)
qed

text \<open>A handler of the sender's side leaves the receiver's side and the datagrams as they are.\<close>

lemma sim_sender:
  assumes "sim s p" "served (n_sndr s) (n_sndr s')" "scanned_ok (n_sndr s') (n_clnt s')" "clnt_ok (n_sndr s') (n_clnt s')"
    and "in_ok (n_clnt s')" "p_pub q = p_pub p" "p_union q = union_range (n_clnt s')" "p_reply q = reply_range (n_clnt s')"
    and "IS_VALID_RANGE (reply_range (n_clnt s')) \<longrightarrow> p_reply_id q = reply_id (n_clnt s')"
    and "p_view q = p_view p" "p_expect q = p_expect p" "p_sent q = p_sent p"
    and "up_sim (n_clnt s') (n_up s') (n_recv s) q" "down_sim (n_clnt s') (n_down s') (n_recv s) q"
    and "n_recv s' = n_recv s" "n_mem s' = n_mem s" "n_pol s' = n_pol s" "n_dgrams s' = n_dgrams s"
  shows "sim s' q"
proof -
  have "snd_sim (n_sndr s) (n_clnt s) p" using assms(1) by (simp add: sim_def)
  from snd_sim_served [OF this assms(2-9)] show ?thesis
    using assms(1,10-18) served_fields [OF assms(2)] by (simp add: sim_def rcv_sim_def sent_sim_def)
qed

lemma sim_serve:
  assumes "sim s p" "snd_tcp_on_read sg slp xs (n_up s) (n_sndr s) (n_clnt s) = (st, sndr, clnt, rest)" "0 \<le> st"
  shows "\<exists>q. (spec_step used V s)\<^sup>*\<^sup>* p q \<and> sim (s\<lparr>n_sndr := sndr, n_clnt := clnt, n_up := rest\<rparr>) q"
proof -
  let ?s = "n_sndr s" and ?c = "n_clnt s" and ?t = "s\<lparr>n_sndr := sndr, n_clnt := clnt, n_up := rest\<rparr>"
  have ss: "snd_sim ?s ?c p" and up: "up_sim ?c (n_up s) (n_recv s) p" and dn: "down_sim ?c (n_down s) (n_recv s) p"
    using assms(1) by (simp_all add: sim_def)
  have ok: "in_ok ?c" "scanned_ok ?s ?c" "clnt_ok ?s ?c" using ss by (simp_all add: snd_sim_def)
  note v = tcp_on_read_served [OF assms(2)]
  have sc: "scanned_ok sndr clnt" using ok(2) v(2-4) served_scanned [OF v(1), of ?c] by (simp add: scanned_ok_def)
  have out: "unsent clnt = unsent ?c" "pkt_size clnt = pkt_size ?c"
    using assms(2) by (auto simp: snd_tcp_on_read_def snd_tcp_read_buf_def Let_def unsent_def split: if_splits sum.splits prod.splits)
  have ck: "clnt_ok sndr clnt"
    using ok(3) v(2,3) out(2) served_fields [OF v(1)] by (simp add: clnt_ok_def)
  from tcp_on_read_merges [OF assms(2,3) ok(1)] obtain got where g: "n_up s = got @ rest" "in_ok clnt"
    and c: "partial clnt = partial ?c @ got \<and> union_range clnt = union_range ?c \<or>
     (\<exists>r. range_ok r \<and> partial ?c @ got = req_bytes r \<and> partial clnt = [] \<and> union_range clnt = cover (union_range ?c) r)" by blast
  have sim: "sim ?t (p\<lparr>p_reqs := rs, p_union := union_range clnt\<rparr>)"
    if "up_sim clnt rest (n_recv s) (p\<lparr>p_reqs := rs, p_union := union_range clnt\<rparr>)" for rs
    using that ss v(1-3) sc ck g(2) dn out(1) by (intro sim_sender [OF assms(1)]) (auto simp: snd_sim_def down_sim_def)
  from c show ?thesis
  proof (elim disjE exE conjE)
    assume u: "partial clnt = partial ?c @ got" "union_range clnt = union_range ?c"
    have "p\<lparr>p_reqs := p_reqs p, p_union := union_range clnt\<rparr> = p" using ss u(2) by (simp add: snd_sim_def)
    moreover have "up_sim clnt rest (n_recv s) p" using up g(1) u(1) by (simp add: up_sim_def)
    ultimately show ?thesis using sim [of "p_reqs p"] by auto
  next
    fix r
    assume r: "range_ok r" "partial ?c @ got = req_bytes r" "partial clnt = []" "union_range clnt = cover (union_range ?c) r"
    have "req_bytes r @ rest @ pending (n_recv s) = concat (map req_bytes (p_reqs p))"
      using up g(1) by (simp add: up_sim_def flip: r(2))
    then obtain rs' where q: "p_reqs p = r # rs'" "rest @ pending (n_recv s) = concat (map req_bytes rs')"
      using requests.stream_first [OF _ r(1)] up unfolding up_sim_def by blast
    have "up_sim clnt rest (n_recv s) (p\<lparr>p_reqs := rs', p_union := union_range clnt\<rparr>)" using q up r(3) by (simp add: up_sim_def)
    moreover have "union_range clnt = cover (p_union p) r" using r(4) ss by (simp add: snd_sim_def)
    ultimately show ?thesis using sim take_req [OF q(1)] by (metis r_into_rtranclp)
  qed
qed

lemma blocked_cases:
  assumes "tcp_on_read_blocked sndr c = (st, clnt)"
  shows "clnt = c \<or> clnt = c\<lparr>union_range := INVALIDATE_RANGE\<rparr> \<and> high (union_range c) \<le> min_seq sndr \<or>
    \<not> IS_VALID_RANGE (reply_range c) \<and> clnt = c\<lparr>reply_range := union_range c, union_range := INVALIDATE_RANGE,
        reply_id := base_id sndr, min_seq_found := SEQUENCE_MAX\<rparr>"
proof -
  have "clnt = (if in_next c = 0 then
            (if high (union_range c) \<le> min_seq sndr then c\<lparr>union_range := INVALIDATE_RANGE\<rparr>
             else if \<not> IS_VALID_RANGE (reply_range c) then
               c\<lparr>reply_range := union_range c, union_range := INVALIDATE_RANGE,
                    reply_id := base_id sndr, min_seq_found := SEQUENCE_MAX\<rparr>
             else c)
          else c)" using assms unfolding tcp_on_read_blocked_def by (simp only: prod.inject)
  then show ?thesis by argo
qed

lemma sim_blocked:
  assumes "sim s p" "tcp_on_read_blocked (n_sndr s) (n_clnt s) = (st, clnt)"
  shows "\<exists>q. (spec_step used V s)\<^sup>*\<^sup>* p q \<and> sim (s\<lparr>n_clnt := clnt\<rparr>) q"
proof -
  let ?s = "n_sndr s" and ?c = "n_clnt s" and ?t = "s\<lparr>n_clnt := clnt\<rparr>"
  have ss: "snd_sim ?s ?c p" using assms(1) by (simp add: sim_def)
  have sc: "scanned_ok ?s clnt" using tcp_on_read_blocked_scanned [OF assms(2)] ss by (simp add: snd_sim_def)
  note cs = blocked_cases [OF assms(2)]
  then have f: "partial clnt = partial ?c" "unsent clnt = unsent ?c" "in_ok clnt" "clnt_ok ?s clnt"
    using ss by (auto simp: partial_def unsent_def in_ok_def clnt_ok_def snd_sim_def)
  have sim: "sim ?t q"
    if "p_pub q = p_pub p" "p_reqs q = p_reqs p" "p_msgs q = p_msgs p" "p_view q = p_view p" "p_expect q = p_expect p"
      "p_sent q = p_sent p" "p_union q = union_range clnt" "p_reply q = reply_range clnt"
      "IS_VALID_RANGE (reply_range clnt) \<longrightarrow> p_reply_id q = reply_id clnt" for q
    using that assms(1) f sc served_refl [of ?s]
    by (intro sim_sender [OF assms(1)]) (simp_all add: sim_def up_sim_def down_sim_def)
  from cs consider (same) "clnt = ?c"
    | (gone) "clnt = ?c\<lparr>union_range := INVALIDATE_RANGE\<rparr>" "high (union_range ?c) \<le> min_seq ?s"
    | (up) "\<not> IS_VALID_RANGE (reply_range ?c)" "clnt = ?c\<lparr>reply_range := union_range ?c, union_range := INVALIDATE_RANGE,
        reply_id := base_id ?s, min_seq_found := SEQUENCE_MAX\<rparr>" by blast
  then show ?thesis
  proof cases
    case same
    then have "sim ?t p" using ss by (intro sim) (auto simp: snd_sim_def)
    then show ?thesis by blast
  next
    case gone
    have "\<not> IS_WITHIN_RANGE (p_union p) (p_seqs (p_pub p) i)" if "i \<in> ids_of ?s" for i
    proof -
      have "min_seq ?s \<le> seq_of ?s i" using ss that by (simp add: snd_sim_def bound_ok_def ids_of_def)
      then show ?thesis using gone(2) ss that by (auto simp: snd_sim_def abs_pub_def seqs_of_def IS_WITHIN_RANGE_def)
    qed
    then have "spec_step used V s p (p\<lparr>p_union := INVALIDATE_RANGE\<rparr>)" by (intro drop_req ballI)
    moreover have "sim ?t (p\<lparr>p_union := INVALIDATE_RANGE\<rparr>)"
      using ss by (intro sim) (simp_all add: gone(1) snd_sim_def)
    ultimately show ?thesis by blast
  next
    case up
    let ?q = "p\<lparr>p_reply := p_union p, p_union := INVALIDATE_RANGE, p_reply_id := base_id ?s\<rparr>"
    have "spec_step used V s p ?q" using up(1) ss by (intro begin_reply) (simp_all add: snd_sim_def ids_of_def)
    moreover have "sim ?t ?q" using ss by (intro sim) (simp_all add: up(2) snd_sim_def)
    ultimately show ?thesis by blast
  qed
qed

text \<open>The sender's numbers of records are the abstract ones, and fit the wire.\<close>

lemma seq_of_sim:
  assumes "snd_sim sndr clnt p" "proto_inv (ids_of sndr) used V p" "i \<in> ids_of sndr"
  shows "p_seqs (p_pub p) i = seq_of sndr i" "is_long i" "0 \<le> seq_of sndr i" "seq_of sndr i < SEQUENCE_MAX"
proof -
  obtain rs where rs: "snd_inv sndr rs" "p_pub p = abs_pub sndr rs" using assms(1) by (auto simp: snd_sim_def)
  show e: "p_seqs (p_pub p) i = seq_of sndr i" using rs(2) assms(3) by (simp add: abs_pub_def seqs_of_def)
  show "is_long i" using assms(1,3) by (auto simp: snd_sim_def ids_of_def is_long_def)
  have "0 \<le> p_seqs (p_pub p) i" "p_seqs (p_pub p) i \<le> p_next (p_pub p)"
    using assms(2,3) by (auto simp: proto_inv_def pub_inv_def)
  then show "0 \<le> seq_of sndr i" "seq_of sndr i < SEQUENCE_MAX" using rs e by (auto simp: abs_pub_def snd_inv_def)
qed

text \<open>A record in use that the sender does not want to reply with lies outside the range being answered.\<close>

lemma unwanted_outside:
  assumes "snd_sim sndr c p" "proto_inv (ids_of sndr) used V p" "j \<in> used"
    and "\<forall>i\<in>used. record_get_revision m (rec_of (snd_store sndr) m i) \<noteq> 0" "\<not> wanted sndr m (reply_range c) j"
  shows "\<not> IS_WITHIN_RANGE (p_reply p) (p_seqs (p_pub p) j)"
proof -
  have "j \<in> ids_of sndr" using assms(2,3) by (auto simp: proto_inv_def)
  then show ?thesis using assms seq_of_sim(1) [OF assms(1,2)] by (auto simp: wanted_def snd_sim_def)
qed

lemma reply_msg_ok:
  assumes "snd_sim sndr c p" "proto_inv (ids_of sndr) used V p" "i \<in> ids_of sndr"
  shows "msg_ok (val_size sndr) (Reply (p_seqs (p_pub p) i) i (value_of sndr m i))"
    "msg_bytes (Reply (p_seqs (p_pub p) i) i (value_of sndr m i)) = reply_bytes sndr m i"
  using seq_of_sim [OF assms]
  by (simp_all add: reply_bytes_def HEARTBEAT_SEQ_def WILL_QUIT_SEQ_def is_long_def SEQUENCE_MAX_def LONG_MAX_def LONG_MIN_def value_of_def)

text \<open>
  What a call of \<open>tcp_on_write\<close> puts into the client's output buffer is the answer of the protocol:
  nothing, a heartbeat, a reply, or the end of the range.
\<close>

lemma answer_steps:
  assumes "snd_sim sndr c p" "proto_inv (ids_of sndr) used (sized sndr V) p" "composes sndr m c1 clnt"
    and "reply_range c1 = reply_range c" "reply_id c1 = reply_id c" "storage_get_base_id m = base_id sndr" "storage_get_max_id m = max_id sndr"
    and "\<forall>i\<in>used. record_get_revision m (rec_of (snd_store sndr) m i) \<noteq> 0" "\<forall>i. valid_id m i \<longrightarrow> V i (value_of sndr m i)"
  obtains ms k where
    "(proto_step (ids_of sndr) used (sized sndr V))\<^sup>*\<^sup>* p
       (p\<lparr>p_msgs := p_msgs p @ ms, p_reply := reply_range clnt, p_reply_id := k\<rparr>)"
    "IS_VALID_RANGE (reply_range clnt) \<longrightarrow> k = reply_id clnt"
    "unsent clnt = concat (map msg_bytes ms)" "\<forall>msg\<in>set ms. msg_ok (val_size sndr) msg \<and> msg \<noteq> Will_quit"
proof -
  let ?r = "reply_range c" and ?V = "sized sndr V"
  have pr: "p_reply p = ?r" "IS_VALID_RANGE ?r \<longrightarrow> p_reply_id p = reply_id c" using assms(1) by (simp_all add: snd_sim_def)
  note unw = unwanted_outside [OF assms(1,2) _ assms(8)]
  have keep: "p\<lparr>p_msgs := ms, p_reply := ?r, p_reply_id := k\<rparr> = p\<lparr>p_msgs := ms, p_reply_id := k\<rparr>" for ms k
    using pr(1) by simp
  from assms(3) consider (none) "unsent clnt = []" "reply_range clnt = ?r" "reply_id clnt = reply_id c"
    | (hb) "unsent clnt = wire64 HEARTBEAT_SEQ" "reply_range clnt = ?r" "reply_id clnt = reply_id c"
    | (rec) i where "reply_id c \<le> i" "i \<in> ids_of sndr" "unsent clnt = reply_bytes sndr m i" "reply_range clnt = ?r"
      "reply_id clnt = i + 1" "wanted sndr m ?r i" "\<forall>j. reply_id c \<le> j \<and> j < i \<longrightarrow> \<not> wanted sndr m ?r j"
    | (fin) "unsent clnt = []" "reply_range clnt = INVALIDATE_RANGE"
      "\<forall>j. reply_id c \<le> j \<and> j < max_id sndr \<longrightarrow> \<not> wanted sndr m ?r j"
    by (auto simp: composes_def assms(4,5) ids_of_def)
  then show thesis
  proof cases
    case none
    moreover have "p\<lparr>p_reply := ?r\<rparr> = p" using pr(1) by simp
    ultimately show thesis using that [where ms = "[]" and k = "p_reply_id p"] pr(2) by simp
  next
    case hb
    then show thesis
      using that [where ms = "[Heartbeat]" and k = "p_reply_id p"] keep pr(2) tcp_beat [of "ids_of sndr" used ?V p] by auto
  next
    case rec
    let ?m = "Reply (p_seqs (p_pub p) i) i (value_of sndr m i)"
    have "IS_VALID_RANGE ?r" using rec(6) within_valid by (auto simp: wanted_def)
    then have id: "p_reply_id p = reply_id c" using pr(2) by simp
    have "valid_id m i" using rec(2) assms(6,7) by (auto simp: valid_id_def ids_of_def)
    then have "?V i (value_of sndr m i)" using rec(2) assms(9) by (auto simp: sized_def value_of_def)
    then have "proto_step (ids_of sndr) used ?V p (p\<lparr>p_msgs := p_msgs p @ [?m], p_reply_id := i + 1\<rparr>)"
      using rec(1,2,7) id unw by (intro reply) auto
    then show thesis
      using that [where ms = "[?m]" and k = "i + 1"] rec(3-5) keep reply_msg_ok [OF assms(1,2) rec(2), of m]
      by (auto simp del: msg_bytes.simps msg_ok.simps)
  next
    case fin
    have "\<not> IS_WITHIN_RANGE (p_reply p) (p_seqs (p_pub p) j)" if j: "j \<in> used" "p_reply_id p \<le> j" for j
      using unw [OF j(1)] within_valid [of "p_reply p"] pr fin(3) j assms(2) by (auto simp: proto_inv_def ids_of_def)
    then have "proto_step (ids_of sndr) used ?V p (p\<lparr>p_reply := INVALIDATE_RANGE\<rparr>)" by (intro end_reply) auto
    then show thesis using that [where ms = "[]" and k = "p_reply_id p"] fin(1,2) by auto
  qed
qed

lemma sim_reply:
  assumes "sim s p" "spec_inv used V s p" "snd_tcp_on_write e (n_sndr s) (n_clnt s) = (st, sndr, clnt, out)" "0 \<le> st"
    and "write_quiet e (n_sndr s) m" "\<forall>i\<in>used. record_get_revision m (rec_of (snd_store (n_sndr s)) m i) \<noteq> 0"
    and "\<forall>i. valid_id m i \<longrightarrow> V i (value_of (n_sndr s) m i)"
  shows "\<exists>q. (spec_step used V s)\<^sup>*\<^sup>* p q \<and> sim (s\<lparr>n_sndr := sndr, n_clnt := clnt, n_down := n_down s @ out\<rparr>) q"
proof -
  let ?s = "n_sndr s" and ?c = "n_clnt s" and ?t = "s\<lparr>n_sndr := sndr, n_clnt := clnt, n_down := n_down s @ out\<rparr>"
  have ss: "snd_sim ?s ?c p" and up: "up_sim ?c (n_up s) (n_recv s) p" and dn: "down_sim ?c (n_down s) (n_recv s) p"
    and vs: "r_val_size (n_recv s) = val_size ?s" using assms(1) by (simp_all add: sim_def rcv_sim_def)
  have ok: "in_ok ?c" "scanned_ok ?s ?c" "clnt_ok ?s ?c" using ss by (simp_all add: snd_sim_def)
  note v = tcp_on_write_served [OF assms(3) ok(2)]
  have ck: "clnt_ok sndr clnt" using tcp_on_write_composed [OF assms(3-5) ok(3)] by (auto simp: composed_def)
  obtain c1 where c1: "same_in ?c c1" "reply_range c1 = reply_range ?c" "reply_id c1 = reply_id ?c"
    "out @ unsent c1 = unsent ?c" "clnt = c1 \<or> unsent c1 = [] \<and> composes ?s m c1 clnt"
    using tcp_on_write_exact [OF assms(3-5) ok(3)] by blast
  then have "same_in ?c clnt" by (auto simp: composes_def same_in_def)
  then have f: "partial clnt = partial ?c" "in_ok clnt" "union_range clnt = union_range ?c"
    using ok(1) by (simp_all add: same_in_def partial_def in_ok_def)
  have b: "got_bytes (n_recv s) @ (n_down s @ out) @ unsent c1 = concat (map msg_bytes (p_msgs p))"
    using dn c1(4) by (simp add: down_sim_def)
  have sim: "sim ?t (p\<lparr>p_msgs := p_msgs p @ ms, p_reply := reply_range clnt, p_reply_id := k\<rparr>)"
    if "IS_VALID_RANGE (reply_range clnt) \<longrightarrow> k = reply_id clnt" "unsent clnt = unsent c1 @ concat (map msg_bytes ms)"
      "\<forall>msg\<in>set ms. msg_ok (val_size ?s) msg \<and> msg \<noteq> Will_quit" for ms k
    using that ss v assms(4) ck f up dn b vs
    by (intro sim_sender [OF assms(1)]) (auto simp: snd_sim_def up_sim_def down_sim_def)
  from c1(5) show ?thesis
  proof (elim disjE conjE)
    assume c: "clnt = c1"
    have "p\<lparr>p_msgs := p_msgs p @ [], p_reply := reply_range clnt, p_reply_id := p_reply_id p\<rparr> = p"
      using ss c c1(2) by (simp add: snd_sim_def)
    moreover have "IS_VALID_RANGE (reply_range clnt) \<longrightarrow> p_reply_id p = reply_id clnt" using ss c c1(2,3) by (simp add: snd_sim_def)
    ultimately show ?thesis using sim [where ms = "[]" and k = "p_reply_id p"] c by auto
  next
    assume u: "unsent c1 = []" "composes ?s m c1 clnt"
    have "storage_get_base_id m = base_id ?s" "storage_get_max_id m = max_id ?s" using assms(5) by (simp_all add: write_quiet_def)
    from answer_steps [OF ss assms(2) u(2) c1(2,3) this assms(6,7)] show ?thesis using sim u(1) by (metis append_Nil)
  qed
qed

lemma sim_receive:
  assumes "sim s p" "rcv_tcp_on_read e (n_down s) (n_recv s) (n_mem s) = (st, recv, m, rest)" "0 \<le> st"
    and "clock_ok (te_clock e)" "clock_ok (te_clock2 e)"
  shows "\<exists>q. (spec_step used V s)\<^sup>*\<^sup>* p q \<and> sim (s\<lparr>n_recv := recv, n_mem := m, n_down := rest\<rparr>) q"
proof -
  let ?s = "n_sndr s" and ?r = "n_recv s" and ?t = "s\<lparr>n_recv := recv, n_mem := m, n_down := rest\<rparr>"
  have rs: "rcv_sim ?s ?r (n_mem s) (n_pol s) p" and dn: "down_sim (n_clnt s) (n_down s) ?r p"
    using assms(1) by (simp_all add: sim_def)
  have ok: "rcv_ok ?r (n_mem s)" "rin_ok ?r" "\<not> r_is_stopping ?r" using rs by (simp_all add: rcv_sim_def)
  from tcp_on_read_step [OF assms(2,3) ok assms(4,5)] obtain g where
    k: "keeps_rcv ?r (n_mem s) recv m" "r_is_stopping recv \<or> rin_ok recv" "n_down s = g @ rest"
      "read_step ?r (n_mem s) g recv m" by blast
  have f: "rcv_ok recv m" "same_rcv ?r recv" "same_layout (n_mem s) m" "r_next_seq recv = r_next_seq ?r" "pending recv = pending ?r"
    using k(1) by (simp_all add: keeps_rcv_def)
  have vs: "r_val_size recv = r_val_size ?r" using f(2) by (simp add: same_rcv_def)
  have sim: "sim ?t (p\<lparr>p_msgs := ms, p_view := view_of recv m\<rparr>)"
    if "\<not> r_is_stopping recv" "down_sim (n_clnt s) rest recv (p\<lparr>p_msgs := ms, p_view := view_of recv m\<rparr>)" for ms
    using that assms(1) f k(2) vs same_layout_fields [OF f(3)]
    by (auto simp: sim_def snd_sim_def rcv_sim_def up_sim_def sent_sim_def same_rcv_def polled_def)
  have b: "(got_bytes ?r @ g) @ rest @ unsent (n_clnt s) = concat (map msg_bytes (p_msgs p))"
    and ms: "\<forall>m\<in>set (p_msgs p). msg_ok (r_val_size ?r) m" "Will_quit \<notin> set (p_msgs p)"
    using dn k(3) by (auto simp: down_sim_def)
  have pv: "p_view p = view_of ?r (n_mem s)" using rs by (simp add: rcv_sim_def)
  from k(4) consider (part) "got_bytes ?r @ g = got_bytes recv" "view_of recv m = view_of ?r (n_mem s)" "\<not> r_is_stopping recv"
    | (msg) x where "msg_ok (r_val_size ?r) x" "got_bytes ?r @ g = msg_bytes x" "got_bytes recv = []"
      "view_of recv m = on_msg (view_of ?r (n_mem s)) x" "r_is_stopping recv \<longleftrightarrow> x = Will_quit"
    unfolding read_step_def by blast
  then show ?thesis
  proof cases
    case part
    have "p\<lparr>p_msgs := p_msgs p, p_view := view_of recv m\<rparr> = p" using part(2) pv by simp
    moreover have "down_sim (n_clnt s) rest recv p" using dn b part(1) vs by (simp add: down_sim_def)
    ultimately show ?thesis using sim [OF part(3), of "p_msgs p"] by auto
  next
    case (msg x)
    from b have "msg_bytes x @ rest @ unsent (n_clnt s) = concat (map msg_bytes (p_msgs p))" by (simp only: msg(2))
    then obtain ms' where q: "p_msgs p = x # ms'" "rest @ unsent (n_clnt s) = concat (map msg_bytes ms')"
      using replies.stream_first [OF _ msg(1) ms(1)] by blast
    have "sim ?t (p\<lparr>p_msgs := ms', p_view := view_of recv m\<rparr>)"
      using msg(3,5) ms(2) q dn vs by (intro sim) (auto simp: down_sim_def)
    then show ?thesis using hear [OF q(1), of "ids_of ?s" used "sized ?s V"] msg(4) pv by auto
  qed
qed

text \<open>Every step of the system is matched by steps of the protocol, and keeps the shape of the storage.\<close>

definition same_shape :: "net \<Rightarrow> net \<Rightarrow> bool" where
  "same_shape s s' \<longleftrightarrow> ids_of (n_sndr s') = ids_of (n_sndr s) \<and> val_size (n_sndr s') = val_size (n_sndr s)"

lemma sim_step:
  assumes "net_step used V s s'" "sim s p" "spec_inv used V s p"
  shows "\<exists>q. (spec_step used V s)\<^sup>*\<^sup>* p q \<and> sim s' q \<and> same_shape s s'"
  using assms(1)
proof cases
  case (n_publish m es clk e st sndr out)
  then show ?thesis using sim_publish [OF assms(2) n_publish(2-7)] by (simp add: same_shape_def)
next
  case (n_deliver d e st pol recv m)
  then show ?thesis using sim_deliver [OF assms(2,3) n_deliver(2-5)] by (simp add: same_shape_def)
next
  case (n_request sg xs st pol recv sent)
  then show ?thesis using sim_request [OF assms(2) n_request(2)] by (auto simp: same_shape_def)
next
  case (n_serve sg slp xs st sndr clnt rest)
  then show ?thesis
    using sim_serve [OF assms(2) n_serve(2,3)] served_fields [OF tcp_on_read_served(1) [OF n_serve(2)]] by (simp add: same_shape_def)
next
  case (n_blocked st clnt)
  then show ?thesis using sim_blocked [OF assms(2) n_blocked(2)] by (simp add: same_shape_def)
next
  case (n_reply e st sndr clnt out m)
  have "scanned_ok (n_sndr s) (n_clnt s)" using assms(2) by (simp add: sim_def snd_sim_def)
  then show ?thesis
    using n_reply sim_reply [OF assms(2,3) n_reply(2-6)] served_fields [OF tcp_on_write_served(1) [OF n_reply(2)]]
    by (simp add: same_shape_def)
next
  case (n_receive e st recv m rest)
  then show ?thesis using sim_receive [OF assms(2) n_receive(2-5)] by (simp add: same_shape_def)
qed

section \<open>Properties\<close>

text \<open>
  A subscriber that has just connected, or that is known to lag behind: it expects the packet
  \<open>r_next_seq\<close>, and of the records in \<open>used\<close> it has everything published before it.  A receiver that
  has just been created expects packet zero and has nothing.
\<close>

definition joined :: "ident set \<Rightarrow> (ident \<Rightarrow> byte list \<Rightarrow> bool) \<Rightarrow> net \<Rightarrow> bool" where
  "joined used V s \<longleftrightarrow> (let sndr = n_sndr s; recv = n_recv s; m = n_mem s in
     (\<exists>rs. snd_inv sndr rs \<and> (\<forall>i\<in>ids_of sndr. seq_of sndr i = next_seq sndr \<longrightarrow> i \<in> fst ` set rs) \<and>
        (\<forall>(i, v)\<in>set rs. V i v)) \<and>
     bound_ok sndr \<and> base_id sndr < max_id sndr \<and> is_long (base_id sndr) \<and> is_long (max_id sndr) \<and>
     (\<exists>now. n_clnt s = (new_client sndr)\<lparr>tcp_send_time := now\<rparr>) \<and> n_dgrams s = {} \<and> n_up s = [] \<and> n_down s = [] \<and>
     rcv_ok recv m \<and> polled (n_pol s) recv \<and> \<not> r_is_stopping recv \<and> r_in_next recv = 0 \<and> r_in_remain recv = 8 \<and>
     r_out_remain recv = 0 \<and> storage_get_base_id m = base_id sndr \<and> storage_get_max_id m = max_id sndr \<and>
     r_val_size recv = val_size sndr \<and> r_mcast_mtu recv = mcast_mtu sndr \<and>
     0 \<le> r_next_seq recv \<and> r_next_seq recv \<le> next_seq sndr \<and> used \<subseteq> ids_of sndr \<and>
     (\<forall>i\<in>ids_of sndr. \<forall>t v. view_of recv m i = Some (t, v) \<longrightarrow>
        t \<le> seq_of sndr i \<and> (0 \<le> t \<longrightarrow> V i v) \<and> (i \<in> used \<and> seq_of sndr i < r_next_seq recv \<longrightarrow> seq_of sndr i \<le> t)))"

lemma joined_sim:
  assumes "joined used V s"
  shows "\<exists>p. spec_inv used V s p \<and> sim s p"
proof -
  obtain sndr clnt ds up down recv m pol where s: "s = \<lparr>n_sndr = sndr, n_clnt = clnt, n_dgrams = ds, n_up = up, n_down = down,
      n_recv = recv, n_mem = m, n_pol = pol\<rparr>" by (cases s)
  obtain rs now where j: "snd_inv sndr rs" "\<forall>i\<in>ids_of sndr. seq_of sndr i = next_seq sndr \<longrightarrow> i \<in> fst ` set rs"
    "\<forall>(i, v)\<in>set rs. V i v" "bound_ok sndr" "base_id sndr < max_id sndr" "is_long (base_id sndr)" "is_long (max_id sndr)"
    "clnt = (new_client sndr)\<lparr>tcp_send_time := now\<rparr>" "ds = {}" "up = []" "down = []"
    and r: "rcv_ok recv m" "polled pol recv" "\<not> r_is_stopping recv" "r_in_next recv = 0" "r_in_remain recv = 8"
     "r_out_remain recv = 0" "storage_get_base_id m = base_id sndr" "storage_get_max_id m = max_id sndr"
     "r_val_size recv = val_size sndr" "r_mcast_mtu recv = mcast_mtu sndr"
     "0 \<le> r_next_seq recv" "r_next_seq recv \<le> next_seq sndr" "used \<subseteq> ids_of sndr"
    and v: "\<forall>i\<in>ids_of sndr. \<forall>t v. view_of recv m i = Some (t, v) \<longrightarrow>
        t \<le> seq_of sndr i \<and> (0 \<le> t \<longrightarrow> V i v) \<and> (i \<in> used \<and> seq_of sndr i < r_next_seq recv \<longrightarrow> seq_of sndr i \<le> t)"
    using assms by (auto simp: joined_def s Let_def)
  let ?ids = "ids_of sndr"
  define p where "p = \<lparr>p_pub = abs_pub sndr rs, p_sent = {}, p_reqs = [], p_union = INVALIDATE_RANGE,
    p_reply = \<lparr>low = 0, high = 0\<rparr>, p_reply_id = 0, p_msgs = [], p_view = view_of recv m, p_expect = r_next_seq recv\<rparr>"
  have val: "\<exists>t w. view_of recv m i = Some (t, w) \<and> length w = val_size sndr" if "i \<in> ?ids" for i
    using that r(7-9) by (simp add: view_of_def valid_id_def ids_of_def r_value_def)
  have sq: "0 \<le> seq_of sndr i \<and> seq_of sndr i \<le> next_seq sndr" if "i \<in> ?ids" for i
    using that j(1) nth_mem [of "nat (i - base_id sndr)" "record_seqs sndr"]
    by (auto simp: snd_inv_def seq_of_def ids_of_def)
  have "pub_inv ?ids (abs_pub sndr rs)"
    using sq j(1,2) by (fastforce simp: pub_inv_def abs_pub_def seqs_of_def snd_inv_def seq_of_def)
  moreover have "seqs_inv ?ids p" using val v r(12) by (fastforce simp: seqs_inv_def p_def abs_pub_def seqs_of_def)
  moreover have "vals_inv ?ids (sized sndr V) p"
    using j(1,3) v val by (fastforce simp: vals_inv_def p_def abs_pub_def sized_def snd_inv_def ids_of_def)
  moreover have "covered p i" if i: "i \<in> used" "p_seqs (p_pub p) i < p_expect p" for i
  proof -
    have "i \<in> ?ids" using i(1) r(13) by auto
    with val obtain t w where w: "view_of recv m i = Some (t, w)" by blast
    then have "seq_of sndr i \<le> t" using v i \<open>i \<in> ?ids\<close> by (auto simp: p_def abs_pub_def seqs_of_def)
    then show ?thesis using w \<open>i \<in> ?ids\<close> coveredI(1) [of p i t w] by (simp add: p_def abs_pub_def seqs_of_def)
  qed
  ultimately have inv: "proto_inv ?ids used (sized sndr V) p" using r(13) by (simp add: proto_inv_def sent_inv_def p_def)
  have "snd_sim sndr clnt p"
    using j by (auto simp: snd_sim_def p_def scanned_ok_def clnt_ok_def in_ok_def new_client_def IS_VALID_RANGE_def)
  moreover have "rcv_sim sndr recv m pol p" using r by (simp add: rcv_sim_def p_def rin_ok_def)
  ultimately have "sim s p"
    using j(8-11) r(3,4,6)
    by (simp add: sim_def s up_sim_def down_sim_def sent_sim_def p_def partial_def pending_def got_bytes_def unsent_def new_client_def)
  with inv show ?thesis by (auto simp: s)
qed

text \<open>The states of a system in which a subscriber has joined in state \<open>s0\<close>.\<close>

abbreviation net_reach :: "ident set \<Rightarrow> (ident \<Rightarrow> byte list \<Rightarrow> bool) \<Rightarrow> net \<Rightarrow> net \<Rightarrow> bool" where
  "net_reach used V s0 \<equiv> reach (\<lambda>s. s = s0 \<and> joined used V s0) (net_step used V)"

interpretation network: refinement "spec_inv used V s0" "spec_step used V s0" "spec_inv used V s0"
  "\<lambda>s. s = s0 \<and> joined used V s0" "net_step used V" "\<lambda>s p. sim s p \<and> same_shape s0 s" for used V s0
proof
  show "proto_step ids used V p q \<Longrightarrow> proto_inv ids used V p \<Longrightarrow> proto_inv ids used V q" for ids V p q
    by (rule proto_step_inv)
next
  fix s
  assume "s = s0 \<and> joined used V s0"
  then have "s = s0" "joined used V s0" by simp_all
  from joined_sim [OF this(2)] show "\<exists>p. spec_inv used V s0 p \<and> sim s p \<and> same_shape s0 s"
    by (simp add: \<open>s = s0\<close> same_shape_def)
next
  fix s s' p
  assume s: "net_step used V s s'" "sim s p \<and> same_shape s0 s" "spec_inv used V s0 p"
  then have e: "ids_of (n_sndr s) = ids_of (n_sndr s0)" "sized (n_sndr s) V = sized (n_sndr s0) V"
    using sized_cong [of "n_sndr s" "n_sndr s0" V] by (simp_all add: same_shape_def)
  have "spec_inv used V s p" unfolding e by (rule s(3))
  from sim_step [OF s(1) conjunct1 [OF s(2)] this, unfolded e] s(2)
  show "\<exists>q. (spec_step used V s0)\<^sup>*\<^sup>* p q \<and> sim s' q \<and> same_shape s0 s'" by (auto simp: same_shape_def)
qed

text \<open>Every state reached matches a state of the protocol in which the invariant holds.\<close>

lemma net_reach_sim:
  assumes "net_reach used V s0 s"
  obtains p where "sim s p" "spec_inv used V s p"
proof -
  from network.impl.reach_inv [OF assms] obtain p where "spec_inv used V s0 p" "sim s p" "same_shape s0 s" by (elim exE conjE)
  then have e: "ids_of (n_sndr s) = ids_of (n_sndr s0)" "sized (n_sndr s) V = sized (n_sndr s0) V"
    using sized_cong [of "n_sndr s" "n_sndr s0" V] by (simp_all add: same_shape_def)
  show thesis
  proof (rule that)
    show "sim s p" by fact
    show "spec_inv used V s p" unfolding e by fact
  qed
qed

text \<open>
  The subscriber has the record as it was last published, or newer, or it will: a reply for it is
  on the connection, or a request that contains its sequence number is on the connection, in the
  range the sender has noted, or in the range it is answering and has not yet scanned that far.
\<close>

definition has_or_will :: "net \<Rightarrow> ident \<Rightarrow> bool" where
  "has_or_will s i \<longleftrightarrow> (let n = seq_of (n_sndr s) i in
     (\<exists>t v. view_of (n_recv s) (n_mem s) i = Some (t, v) \<and> n \<le> t) \<or>
     (\<exists>msgs t v. got_bytes (n_recv s) @ n_down s @ unsent (n_clnt s) = concat (map msg_bytes msgs) \<and>
        (\<forall>msg\<in>set msgs. msg_ok (r_val_size (n_recv s)) msg) \<and> Reply t i v \<in> set msgs \<and> n \<le> t) \<or>
     (\<exists>rs. partial (n_clnt s) @ n_up s @ pending (n_recv s) = concat (map req_bytes rs) \<and>
        (\<forall>r\<in>set rs. range_ok r) \<and> (\<exists>r\<in>set rs. IS_WITHIN_RANGE r n)) \<or>
     IS_WITHIN_RANGE (union_range (n_clnt s)) n \<or>
     IS_WITHIN_RANGE (reply_range (n_clnt s)) n \<and> reply_id (n_clnt s) \<le> i)"


text \<open>Nothing is on the way, and the last packet has been received.\<close>

definition quiescent :: "net \<Rightarrow> bool" where
  "quiescent s \<longleftrightarrow> n_up s = [] \<and> n_down s = [] \<and> partial (n_clnt s) = [] \<and> unsent (n_clnt s) = [] \<and>
     got_bytes (n_recv s) = [] \<and> pending (n_recv s) = [] \<and> \<not> IS_VALID_RANGE (union_range (n_clnt s)) \<and>
     \<not> IS_VALID_RANGE (reply_range (n_clnt s)) \<and> pkt_next (n_sndr s) = 0 \<and>
     r_next_seq (n_recv s) = next_seq (n_sndr s)"


text \<open>The sample sender with a subscriber that has just connected, to the sample storage in both places.\<close>

definition sample_net :: "storage \<Rightarrow> mem \<Rightarrow> poller \<Rightarrow> net" where
  "sample_net st m pol = \<lparr>n_sndr = sample_sender st m, n_clnt = (new_client (sample_sender st m))\<lparr>tcp_send_time := 7\<rparr>,
     n_dgrams = {}, n_up = [], n_down = [], n_recv = sample_receiver st m, n_mem = m, n_pol = pol\<rparr>"

lemma sample_joined:
  obtains st m pol where "joined {11} (\<lambda>_ _. True) (sample_net st m pol)"
    "storage_get_base_id m = 10" "storage_get_max_id m = 14"
proof -
  obtain st m where s: "stg_ok st m" "\<not> stg_read_only st" "storage_get_base_id m = 10" "storage_get_max_id m = 14"
    "storage_get_value_size m = 8" "\<forall>r\<in>set (storage_records st m). unlocked (load64 m r)"
    using sample_store by blast
  obtain pol where p: "poller_ok pol" "entries pol = [(5, fd_for 5), (6, fd_for 6)]" using sample_poller by blast
  have r: "rcv_ok (sample_receiver st m) m"
    using s rec_of_is_record [of m _ st] by (auto simp: rcv_ok_def sample_receiver_def is_record_def)
  have q: "polled pol (sample_receiver st m)"
    using sock_index_None [OF p(1), of 5] p(2) by (simp add: polled_def sample_receiver_def)
  have f: "base_id (sample_sender st m) = 10" "max_id (sample_sender st m) = 14" "val_size (sample_sender st m) = 8"
    "next_seq (sample_sender st m) = 1" "mcast_mtu (sample_sender st m) = 1472"
    "r_in_next (sample_receiver st m) = 0" "r_in_remain (sample_receiver st m) = 8" "r_out_remain (sample_receiver st m) = 0"
    "r_val_size (sample_receiver st m) = 8" "r_mcast_mtu (sample_receiver st m) = 1472"
    "r_next_seq (sample_receiver st m) = 1" "\<not> r_is_stopping (sample_receiver st m)"
    using s(3-5) by (simp_all add: sample_sender_def sample_receiver_def)
  have i: "seq_of (sample_sender st m) i = 0" if "10 \<le> i" "i < 14" for i
    using that s(3,4) by (simp add: seq_of_def sample_sender_def storage_count_def)
  have "bound_ok (sample_sender st m)" using i s(3,4) by (simp add: bound_ok_def sample_sender_def)
  moreover have "view_of (sample_receiver st m) m j = Some (0, r_value (sample_receiver st m) m j)" if "10 \<le> j" "j < 14" for j
    using that s(3,4) by (simp add: view_of_def valid_id_def sample_receiver_def storage_count_def)
  ultimately have "joined {11} (\<lambda>_ _. True) (sample_net st m pol)"
    using r q sample_inv(1) [OF s(1,5)] i f s(3-5) unfolding joined_def Let_def
    by (intro conjI exI [of _ "[]"] exI [of _ 7])
      (simp_all add: sample_net_def ids_of_def is_long_def LONG_MAX_def LONG_MIN_def)
  with that s(3,4) show thesis by blast
qed

text \<open>Nothing has been asked for, so the sender's handler for the end of the requests changes nothing.\<close>

lemma sample_reached:
  assumes "joined used V (sample_net st m pol)"
  shows "net_reach used V (sample_net st m pol) (sample_net st m pol)"
proof -
  have "tcp_on_read_blocked (n_sndr (sample_net st m pol)) (n_clnt (sample_net st m pol)) = (OK, n_clnt (sample_net st m pol))"
    by (simp add: tcp_on_read_blocked_def sample_net_def new_client_def IS_VALID_RANGE_def INVALIDATE_RANGE_def
        SEQUENCE_MIN_def SEQUENCE_MAX_def LONG_MIN_def LONG_MAX_def sample_sender_def)
  from n_blocked [OF this] have "net_step used V (sample_net st m pol) (sample_net st m pol)" by simp
  moreover have "net_reach used V (sample_net st m pol) (sample_net st m pol)" by (rule reach_init) (simp add: assms)
  ultimately show ?thesis by (rule reach_step [rotated])
qed



end
