(* ===== verification/Cmdline.thy ===== *)
theory Cmdline
  imports Runtime Hello "HOL-Library.Char_ord"
begin

text \<open>
  What the command line programs share: the scan of options by \<open>getopt\<close> (the variant of the C
  library that collects the operands behind the options), numbers in the arguments (\<open>a2i\<close>), and
  the two ways a program ends early, \<open>show_syntax\<close> or \<open>show_version\<close> and \<open>error_report_fatal\<close>.
\<close>

section \<open>Options\<close>

text \<open>Whether the specification has the option, and whether the option takes an argument.\<close>

fun opt_arg :: "string \<Rightarrow> char \<Rightarrow> bool option" where
  "opt_arg [] c = None"
| "opt_arg (x # xs) c =
     (if x = c \<and> c \<noteq> CHR '':'' then Some (xs \<noteq> [] \<and> hd xs = CHR '':'') else opt_arg xs c)"

text \<open>
  The letters of one word after its dash, with the words that follow: an option that takes an
  argument takes the rest of the word, or the next word.  An option that is not known, or lacks
  its argument, is reported as a question mark.
\<close>

fun getopt_word :: "string \<Rightarrow> string \<Rightarrow> string list \<Rightarrow> (char \<times> string) list \<times> string list" where
  "getopt_word spec [] ws = ([], ws)"
| "getopt_word spec (c # cs) ws =
     (case opt_arg spec c of
        None \<Rightarrow> (case getopt_word spec cs ws of (opts, ws') \<Rightarrow> ((CHR ''?'', []) # opts, ws'))
      | Some False \<Rightarrow> (case getopt_word spec cs ws of (opts, ws') \<Rightarrow> ((c, []) # opts, ws'))
      | Some True \<Rightarrow>
          if cs \<noteq> [] then ([(c, cs)], ws)
          else case ws of [] \<Rightarrow> ([(CHR ''?'', [])], []) | w # ws' \<Rightarrow> ([(c, w)], ws'))"

lemma getopt_word_length: "length (snd (getopt_word spec cs ws)) \<le> length ws"
  by (induction spec cs ws rule: getopt_word.induct) (auto split: option.splits prod.splits list.splits bool.splits)

function getopt :: "string \<Rightarrow> string list \<Rightarrow> (char \<times> string) list \<times> string list" where
  "getopt spec [] = ([], [])"
| "getopt spec (w # ws) =
     (if w = ''--'' then ([], ws)
      else if 2 \<le> length w \<and> hd w = CHR ''-'' then
        (let (opts, ws') = getopt_word spec (tl w) ws; (opts', operands) = getopt spec ws'
         in (opts @ opts', operands))
      else (case getopt spec ws of (opts, operands) \<Rightarrow> (opts, w # operands)))"
  by pat_completeness auto
termination
  using getopt_word_length
  by (relation "measure (\<lambda>(spec, ws). length ws)") (auto simp: less_Suc_eq_le dest!: sym [of "(_, _)"] intro: order_trans, metis snd_conv)

section \<open>Numbers\<close>

definition bytes_of :: "string \<Rightarrow> byte list" where
  "bytes_of = map of_char"

text \<open>What \<open>sscanf\<close> with one numeric conversion returns, and what it stores.\<close>

definition sscanf_number :: "byte list \<Rightarrow> int \<times> int option" where
  "sscanf_number text =
     (if skip_space text = [] then (- 1, None)
      else case scan_int text of None \<Rightarrow> (0, None) | Some (x, _) \<Rightarrow> (1, Some x))"

text \<open>
  A number in a text, through \<open>a2i\<close>: \<open>narrow\<close> takes it to the type of the conversion, and \<open>old\<close> is
  what the variable holds before, and still does when nothing has been converted.
\<close>

definition a2i_bytes :: "(int \<Rightarrow> int) \<Rightarrow> byte list \<Rightarrow> int \<Rightarrow> int result" where
  "a2i_bytes narrow text old =
     (case sscanf_number text of (ret, num) \<Rightarrow>
        let st = a2i True ret 0
        in if FAILED st then Inl st else Inr (case num of None \<Rightarrow> old | Some x \<Rightarrow> narrow x))"

definition a2i_number :: "(int \<Rightarrow> int) \<Rightarrow> string \<Rightarrow> int \<Rightarrow> int result" where
  "a2i_number narrow text old = a2i_bytes narrow (bytes_of text) old"

lemma a2i_bytes_print: "a2i_bytes narrow (print_int x) old = Inr (narrow x)"
proof -
  have s: "scan_int (print_int x) = Some (x, [])" using scan_print_int [of "[]" x] by (simp add: ends_number_def)
  then have "skip_space (print_int x) \<noteq> []" by (auto simp: scan_int_def)
  then show ?thesis using s by (simp add: a2i_bytes_def sscanf_number_def a2i_def status_defs)
qed

definition to_ulong :: "int \<Rightarrow> int" where "to_ulong x = uint (word_of_int x :: u64)"
definition to_uint :: "int \<Rightarrow> int" where "to_uint x = uint (word_of_int x :: u32)"
definition to_ushort :: "int \<Rightarrow> int" where "to_ushort x = uint (word_of_int x :: u16)"
definition to_short :: "int \<Rightarrow> int" where "to_short x = sint (word_of_int x :: u16)"

section \<open>Ending early\<close>

definition SYNTAX_ERROR :: status where [status_defs]: "SYNTAX_ERROR = LANCASTER_ERROR_BASE - 2"

text \<open>A program either runs on or has exited, with this code.\<close>

datatype 'a run = Exits int | Runs 'a

definition show_syntax :: "'a run" where "show_syntax = Exits (- SYNTAX_ERROR)"
definition show_version :: "'a run" where "show_version = Exits 0"

text \<open>
  \<open>error_report_fatal\<close> exits with the code of the last error.  That is the status a call has
  returned, except for \<open>NO_MEMORY\<close>, which is returned where an allocation has recorded \<open>ENOMEM\<close>.
\<close>

definition exit_code :: "status \<Rightarrow> int" where
  "exit_code st = - (if st = NO_MEMORY then error_errno ENOMEM else st)"

definition error_report_fatal :: "status \<Rightarrow> 'a run" where "error_report_fatal st = Exits (exit_code st)"

text \<open>A result that the program cannot go on without.\<close>

definition or_die :: "'a result \<Rightarrow> ('a \<Rightarrow> 'b run) \<Rightarrow> 'b run" where
  "or_die r k = (case r of Inl st \<Rightarrow> error_report_fatal st | Inr x \<Rightarrow> k x)"

lemma or_die_simps [simp]:
  "or_die (Inr x) k = k x" "or_die (Inl st) k = Exits (exit_code st)"
  by (simp_all add: or_die_def error_report_fatal_def)

text \<open>A switch over the options: each one changes the settings or ends the program.\<close>

fun for_options :: "('c \<Rightarrow> char \<Rightarrow> string \<Rightarrow> 'c run) \<Rightarrow> (char \<times> string) list \<Rightarrow> 'c \<Rightarrow> 'c run" where
  "for_options f [] c = Runs c"
| "for_options f ((ch, arg) # opts) c =
     (case f c ch arg of Exits n \<Rightarrow> Exits n | Runs c \<Rightarrow> for_options f opts c)"
section \<open>What the scan of options gives\<close>

text \<open>An option as the specification allows it, and how it is written.\<close>

definition opt_ok :: "string \<Rightarrow> char \<times> string \<Rightarrow> bool" where
  "opt_ok spec opt \<longleftrightarrow> fst opt \<noteq> CHR ''-'' \<and>
     (case opt_arg spec (fst opt) of None \<Rightarrow> False | Some takes \<Rightarrow> takes \<or> snd opt = [])"

definition opt_words :: "string \<Rightarrow> char \<times> string \<Rightarrow> string list" where
  "opt_words spec opt =
     (if opt_arg spec (fst opt) = Some True then [[CHR ''-'', fst opt], snd opt] else [[CHR ''-'', fst opt]])"

definition operand_ok :: "string \<Rightarrow> bool" where
  "operand_ok w \<longleftrightarrow> \<not> (2 \<le> length w \<and> hd w = CHR ''-'')"

lemma getopt_operands: "\<forall>w\<in>set ws. operand_ok w \<Longrightarrow> getopt spec ws = ([], ws)"
  by (induction ws) (auto simp: operand_ok_def)

text \<open>
  Options and operands written one after the other, each argument in a word of its own, are
  recognised as what they are, in the order in which they are written.
\<close>

lemma getopt_roundtrip:
  assumes "\<forall>opt\<in>set opts. opt_ok spec opt" "\<forall>w\<in>set operands. operand_ok w"
  shows "getopt spec (concat (map (opt_words spec) opts) @ operands) = (opts, operands)"
  using assms(1)
proof (induction opts)
  case Nil
  then show ?case using getopt_operands [OF assms(2)] by simp
next
  case (Cons opt opts)
  obtain c a where opt: "opt = (c, a)" by (cases opt)
  from Cons.prems obtain b where "opt_arg spec c = Some b" "c \<noteq> CHR ''-''" "b \<or> a = []"
    by (auto simp: opt opt_ok_def split: option.splits)
  then show ?case using Cons by (cases b) (simp_all add: opt opt_words_def)
qed

definition opt_typed :: "string \<Rightarrow> char \<times> string \<Rightarrow> bool" where
  "opt_typed spec opt \<longleftrightarrow> opt = (CHR ''?'', []) \<or> opt_arg spec (fst opt) = Some True \<or>
     opt_arg spec (fst opt) = Some False \<and> snd opt = []"

lemma getopt_word_typed:
  "(\<forall>opt\<in>set (fst (getopt_word spec cs ws)). opt_typed spec opt) \<and> set (snd (getopt_word spec cs ws)) \<subseteq> set ws"
proof (induction spec cs ws rule: getopt_word.induct)
  case (2 spec c cs ws)
  consider (none) "opt_arg spec c = None" | (flag) "opt_arg spec c = Some False" | (arg) "opt_arg spec c = Some True"
    by (cases "opt_arg spec c") auto
  then show ?case
  proof cases
    case none
    then show ?thesis using 2(1) by (auto simp: opt_typed_def split: prod.splits)
  next
    case flag
    then show ?thesis using 2(2) [OF flag refl] by (auto simp: opt_typed_def split: prod.splits)
  next
    case arg
    then show ?thesis by (cases ws) (auto simp: opt_typed_def)
  qed
qed simp

text \<open>
  Whatever the words are, every option reported is one of the specification, with an argument
  only if it takes one, or the question mark; and every operand is one of the words.
\<close>

lemma getopt_typed:
  "(\<forall>opt\<in>set (fst (getopt spec ws)). opt_typed spec opt) \<and> set (snd (getopt spec ws)) \<subseteq> set ws"
proof (induction spec ws rule: getopt.induct)
  case (2 spec w ws)
  obtain opts ws' opts' operands where g: "getopt_word spec (tl w) ws = (opts, ws')" "getopt spec ws' = (opts', operands)"
    by (metis surj_pair)
  show ?case
  proof (cases "2 \<le> length w \<and> hd w = CHR ''-'' \<and> w \<noteq> ''--''")
    case True
    then have "(\<forall>opt\<in>set opts'. opt_typed spec opt) \<and> set operands \<subseteq> set ws'"
      using 2(1) [OF _ _ g(1) [symmetric] refl] g(2) by simp
    moreover have "getopt spec (w # ws) = (opts @ opts', operands)" using True g by simp
    ultimately show ?thesis using getopt_word_typed [of spec "tl w" ws] g(1) by auto
  next
    case False
    obtain opts1 operands1 where "getopt spec ws = (opts1, operands1)" by (cases "getopt spec ws")
    then show ?thesis using False 2(2) by (cases "w = ''--''") auto
  qed
qed simp

end
