(* ===== verification/Errors.thy ===== *)
theory Errors
  imports Cmdline
begin

text \<open>
  The last error (\<open>error.c\<close>): the state behind the statuses that the other theories work with.
  Reporting an error records its code and a message and returns the code; a program that ends with it
  tells its parent the cause.  Every reporting function keeps the contract \<open>error_report\<close>.
\<close>

section \<open>The last error\<close>

text \<open>
  The static variables of \<open>error.c\<close>.  \<open>None\<close> as a result is the death of the process: an \<open>abort\<close>, or
  a message longer than the 256 bytes \<open>error_msg\<close> formats it in.  \<open>buf\<close> is the formatted message
  and \<open>stamp\<close> the text of the time, if times are shown.
\<close>

record error_state =
  msg_lock :: u64
  prog_name :: string
  last_msg :: string
  saved_msg :: string
  last_code :: int
  saved_code :: int
  es_errno :: int
  saved_errno :: int
  with_ts :: bool

definition error_set_program_name :: "error_state \<Rightarrow> string \<Rightarrow> error_state" where
  "error_set_program_name es name =
     es\<lparr>prog_name := take 255 (rev (takeWhile (\<lambda>c. c \<noteq> CHR ''/'') (rev name)))\<rparr>"

definition error_with_timestamp :: "error_state \<Rightarrow> bool \<Rightarrow> bool \<times> error_state" where
  "error_with_timestamp es with_timestamp = (with_ts es, es\<lparr>with_ts := with_timestamp\<rparr>)"

definition error_reset :: "error_state \<Rightarrow> error_state" where
  "error_reset es = es\<lparr>last_code := 0, last_msg := []\<rparr>"

definition error_save_last :: "(nat \<Rightarrow> status) \<Rightarrow> error_state \<Rightarrow> error_state option" where
  "error_save_last slp es =
     (case spin_write_lock (\<lambda>_. msg_lock es) slp of
        Inl _ \<Rightarrow> None
      | Inr _ \<Rightarrow>
          let es = (if last_code es \<noteq> 0
                    then error_reset (es\<lparr>saved_errno := es_errno es, saved_code := last_code es,
                           saved_msg := last_msg es\<rparr>)
                    else es)
          in Some (es\<lparr>msg_lock := 0\<rparr>))"

definition error_restore_last :: "(nat \<Rightarrow> status) \<Rightarrow> error_state \<Rightarrow> error_state option" where
  "error_restore_last slp es =
     (case spin_write_lock (\<lambda>_. msg_lock es) slp of
        Inl _ \<Rightarrow> None
      | Inr _ \<Rightarrow>
          let es = (if saved_code es \<noteq> 0
                    then es\<lparr>es_errno := saved_errno es, last_code := saved_code es,
                           last_msg := saved_msg es, saved_code := 0, saved_msg := []\<rparr>
                    else es)
          in Some (es\<lparr>msg_lock := 0\<rparr>))"

definition error_msg ::
  "(nat \<Rightarrow> status) \<Rightarrow> error_state \<Rightarrow> int \<Rightarrow> string \<Rightarrow> string \<Rightarrow> (int \<times> error_state) option" where
  "error_msg slp es code buf stamp =
     (if code \<ge> 0 \<or> length buf \<ge> 256 then None
      else case spin_write_lock (\<lambda>_. msg_lock es) slp of
        Inl _ \<Rightarrow> None
      | Inr _ \<Rightarrow>
          let m = (if with_ts es then stamp else []);
              m = (if prog_name es \<noteq> [] then m @ prog_name es @ '': '' else m);
              m = m @ take (512 - length m - 1) buf
          in Some (code, es\<lparr>last_code := code, last_msg := m, msg_lock := 0\<rparr>))"

definition error_append_msg :: "error_state \<Rightarrow> string \<Rightarrow> error_state option" where
  "error_append_msg es text =
     (if length (last_msg es) + length text \<ge> 512 then None
      else Some (es\<lparr>last_msg := last_msg es @ text\<rparr>))"

definition error_get_program_name :: "error_state \<Rightarrow> string" where
  "error_get_program_name es = prog_name es"

definition error_last_code :: "error_state \<Rightarrow> int" where
  "error_last_code es = last_code es"

definition error_last_msg :: "error_state \<Rightarrow> string" where
  "error_last_msg es = last_msg es"

section \<open>Reporting an error\<close>

text \<open>
  The three ways \<open>xstrerror_r\<close> gets the text of an error number, one of which the build chooses:
  the \<open>strerror_r\<close> of the GNU library (its result and the \<open>errno\<close> it leaves, 0 before the call), the one
  of the standard (its result, what it stores and the \<open>errno\<close> it leaves), or the list of the system.
\<close>

datatype strerror_api =
  Strerror_gnu "int \<Rightarrow> string \<times> int"
| Strerror_xsi "int \<Rightarrow> int \<times> string \<times> int"
| Strerror_list "string list"

text \<open>
  What a report depends on: the status of each sleep while it waits for the lock, the text of the
  time, the texts of error numbers, the signals raised and their names.
\<close>

record err_env =
  ev_slp :: "nat \<Rightarrow> status"
  ev_stamp :: string
  ev_strerror :: strerror_api
  ev_raised :: raised
  ev_siglist :: "int \<Rightarrow> string"

definition print_number :: "int \<Rightarrow> string" where
  "print_number x = map (\<lambda>b. char_of (unat b)) (print_int x)"

definition snprintf_text :: "nat \<Rightarrow> string \<Rightarrow> string" where
  "snprintf_text buf_len text = take (buf_len - 1) text"

definition xstrerror_r :: "strerror_api \<Rightarrow> int \<Rightarrow> nat \<Rightarrow> int \<Rightarrow> string \<times> int" where
  "xstrerror_r api code buf_len errno =
     (case api of
        Strerror_gnu strerror_r \<Rightarrow>
          (case strerror_r code of (ret, errno) \<Rightarrow>
             if errno = 0 then (ret, errno)
             else (snprintf_text buf_len (''strerror_r error '' @ print_number errno), errno))
      | Strerror_xsi strerror_r \<Rightarrow>
          (case strerror_r code of (ret, buf, errno) \<Rightarrow>
             if ret \<noteq> 0
             then let ret = (if ret = - 1 then errno else ret)
                  in (snprintf_text buf_len (''strerror_r error '' @ print_number ret), errno)
             else (buf, errno))
      | Strerror_list sys_errlist \<Rightarrow>
          (if code < int (length sys_errlist) then snprintf_text buf_len (sys_errlist ! nat code)
           else snprintf_text buf_len (''Unknown error '' @ print_number code), errno))"

definition format_error :: "err_env \<Rightarrow> error_state \<Rightarrow> int \<Rightarrow> string \<Rightarrow> string \<Rightarrow> (int \<times> error_state) option" where
  "format_error env es code func desc =
     error_msg (ev_slp env) es code (''error: '' @ func @ '': '' @ desc) (ev_stamp env)"

text \<open>
  The functions that report an error, with the status they return and the state they leave.  No
  function name (\<open>None\<close>) is the end of the process.
\<close>

definition report_eof :: "err_env \<Rightarrow> string option \<Rightarrow> error_state \<Rightarrow> (int \<times> error_state) option" where
  "report_eof env func es =
     (case func of
        None \<Rightarrow> None
      | Some f \<Rightarrow> format_error env es (- 1 + LANCASTER_ERROR_BASE) f ''end of file'')"

definition report_errno :: "err_env \<Rightarrow> string option \<Rightarrow> error_state \<Rightarrow> (int \<times> error_state) option" where
  "report_errno env func es =
     (case func of
        None \<Rightarrow> None
      | Some f \<Rightarrow>
          let code = error_errno (es_errno es);
              (desc, errno) = xstrerror_r (ev_strerror env) (es_errno es) 128 (es_errno es)
          in format_error env (es\<lparr>es_errno := errno\<rparr>) code f desc)"

definition report_on_eintr :: "err_env \<Rightarrow> string option \<Rightarrow> error_state \<Rightarrow> (int \<times> error_state) option" where
  "report_on_eintr env func es =
     (case func of
        None \<Rightarrow> None
      | Some f \<Rightarrow>
          (case first_raised (ev_raised env) of
             Some i \<Rightarrow>
               error_msg (ev_slp env) es (SIG_ERROR_BASE - i) (f @ '': '' @ ev_siglist env i) (ev_stamp env)
           | None \<Rightarrow> report_errno env func es))"

definition report_eintr :: "err_env \<Rightarrow> string option \<Rightarrow> error_state \<Rightarrow> (int \<times> error_state) option" where
  "report_eintr env func es = (if es_errno es = EINTR then report_on_eintr else report_errno) env func es"

definition report_invalid_arg :: "err_env \<Rightarrow> string option \<Rightarrow> error_state \<Rightarrow> (int \<times> error_state) option" where
  "report_invalid_arg env func es = report_errno env func (es\<lparr>es_errno := EINVAL\<rparr>)"

definition ENOSYS :: int where "ENOSYS = 38"

definition report_unimplemented :: "err_env \<Rightarrow> string option \<Rightarrow> error_state \<Rightarrow> (int \<times> error_state) option" where
  "report_unimplemented env func es = report_errno env func (es\<lparr>es_errno := ENOSYS\<rparr>)"

text \<open>
  The end of a program after an error: \<open>None\<close> is an \<open>abort\<close>, because the message cannot be written.
  A parent sees the low byte of the code.
\<close>

definition report_fatal :: "bool \<Rightarrow> error_state \<Rightarrow> int option" where
  "report_fatal stderr_ok es = (if stderr_ok then Some (- last_code es) else None)"

text \<open>
  The option \<open>-p\<close> of the servers and the test programs: the text follows the name the program was
  called by.  \<open>None\<close> is a name that outgrows its 256 bytes.
\<close>

definition add_prefix :: "error_state \<Rightarrow> string \<Rightarrow> string \<Rightarrow> (string \<times> error_state) option" where
  "add_prefix es called optarg =
     (let name = called @ '': '' @ optarg
      in if length name < 256 then Some (name, error_set_program_name es name) else None)"

section \<open>Messages fit\<close>

text \<open>The messages fit their buffers.\<close>

definition error_ok :: "error_state \<Rightarrow> bool" where
  "error_ok es \<longleftrightarrow> unlocked (msg_lock es) \<and> length (prog_name es) < 256 \<and> length (last_msg es) < 512 \<and>
     length (saved_msg es) < 512"

lemma write_lock_free: "unlocked w \<Longrightarrow> spin_write_lock (\<lambda>_. w) slp = Inr (w, 0, w OR SPIN_MASK)"
  by (simp add: spin_write_lock_from spin_from_free [of _ 0, simplified])

text \<open>A saved error is as it was.\<close>

definition kept_saved :: "error_state \<Rightarrow> error_state \<Rightarrow> bool" where
  "kept_saved es es' \<longleftrightarrow> saved_code es' = saved_code es \<and> saved_msg es' = saved_msg es \<and>
     saved_errno es' = saved_errno es"

lemma kept_saved_refl [simp]: "kept_saved es es"
  by (simp add: kept_saved_def)

lemma kept_saved_trans: "kept_saved es es1 \<Longrightarrow> kept_saved es1 es2 \<Longrightarrow> kept_saved es es2"
  by (simp add: kept_saved_def)

lemma error_msg_reports:
  assumes "error_ok es" "code < 0" "length buf < 256" "length stamp < 32"
  shows "\<exists>es'. error_msg slp es code buf stamp = Some (code, es') \<and> error_ok es' \<and> last_code es' = code \<and>
    kept_saved es es'"
proof -
  let ?m = "if with_ts es then stamp else []"
  let ?m1 = "if prog_name es \<noteq> [] then ?m @ prog_name es @ '': '' else ?m"
  have "length ?m1 < 32 + 256 + 2" using assms(1,4) by (simp add: error_ok_def)
  then have "length (?m1 @ take (512 - length ?m1 - 1) buf) < 512" by simp
  with assms show ?thesis
    by (simp add: error_msg_def Let_def error_ok_def write_lock_free kept_saved_def)
qed

lemma error_restore_last_OK:
  assumes "error_ok es" "saved_code es \<noteq> 0"
  shows "\<exists>es'. error_restore_last slp es = Some es' \<and> error_ok es' \<and> last_code es' = saved_code es \<and>
    last_msg es' = saved_msg es \<and> es_errno es' = saved_errno es"
  using assms by (auto simp: error_restore_last_def error_ok_def write_lock_free Let_def)

text \<open>
  The errors reported while cleaning up after a failure: statuses and formatted messages.
\<close>

fun error_msgs :: "(nat \<Rightarrow> status) \<Rightarrow> (int \<times> string) list \<Rightarrow> string \<Rightarrow> error_state \<Rightarrow> error_state option" where
  "error_msgs slp [] stamp es = Some es"
| "error_msgs slp ((code, buf) # ms) stamp es =
     (case error_msg slp es code buf stamp of None \<Rightarrow> None | Some (_, es') \<Rightarrow> error_msgs slp ms stamp es')"

lemma error_msgs_OK:
  assumes "error_ok es" "\<forall>(code, buf)\<in>set ms. code < 0 \<and> length buf < 256" "length stamp < 32"
  shows "\<exists>es'. error_msgs slp ms stamp es = Some es' \<and> error_ok es' \<and> kept_saved es es'"
  using assms(1,2)
proof (induction ms arbitrary: es)
  case Nil
  then show ?case by simp
next
  case (Cons m ms)
  obtain code buf where m: "m = (code, buf)" by (cases m)
  then obtain es' where "error_msg slp es code buf stamp = Some (code, es')" "error_ok es'" "kept_saved es es'"
    using error_msg_reports [of es code buf stamp slp] Cons.prems assms(3) by auto
  with Cons.IH [of es'] Cons.prems(2) m show ?case by (auto intro: kept_saved_trans)
qed

text \<open>
  Cleaning up does not hide the cause of a failure: an error that was saved with
  \<open>error_save_last\<close> is the last error again after \<open>error_restore_last\<close>, with its code, its message
  and its \<open>errno\<close>, whatever errors were reported in between; and no message outgrows its
  buffer.
\<close>

theorem error_save_restore:
  assumes "error_ok es" "last_code es \<noteq> 0" "\<forall>(code, buf)\<in>set ms. code < 0 \<and> length buf < 256"
    and "length stamp < 32"
  shows "\<exists>es1 es2 es3. error_save_last slp es = Some es1 \<and> error_msgs slp ms stamp es1 = Some es2 \<and>
    error_restore_last slp es2 = Some es3 \<and> error_ok es3 \<and> last_code es3 = last_code es \<and>
    last_msg es3 = last_msg es \<and> es_errno es3 = es_errno es"
proof -
  obtain es1 where 1: "error_save_last slp es = Some es1" "error_ok es1" "saved_code es1 = last_code es"
    "saved_msg es1 = last_msg es" "saved_errno es1 = es_errno es"
    using assms(1,2) by (auto simp: error_save_last_def error_ok_def write_lock_free error_reset_def Let_def)
  obtain es2 where "error_msgs slp ms stamp es1 = Some es2" "error_ok es2" "kept_saved es1 es2"
    using error_msgs_OK [OF 1(2) assms(3,4), of slp] by blast
  with 1 assms(2) error_restore_last_OK [of es2 slp] show ?thesis by (auto simp: kept_saved_def)
qed

theorem error_save_restore_witness:
  "\<exists>es1 es2 es3. error_save_last (\<lambda>_. 0) \<lparr>msg_lock = 0, prog_name = ''p'', last_msg = ''m'', saved_msg = [],
      last_code = -22, saved_code = 0, es_errno = 22, saved_errno = 0, with_ts = False\<rparr> = Some es1 \<and>
    error_msgs (\<lambda>_. 0) [(-9, ''close'')] [] es1 = Some es2 \<and>
    error_restore_last (\<lambda>_. 0) es2 = Some es3 \<and> last_code es3 = -22 \<and> last_msg es3 = ''m''"
  using error_save_restore [of "\<lparr>msg_lock = 0, prog_name = ''p'', last_msg = ''m'', saved_msg = [],
      last_code = -22, saved_code = 0, es_errno = 22, saved_errno = 0, with_ts = False\<rparr>"
      "[(-9, ''close'')]" "[]" "\<lambda>_. 0"]
  by (auto simp: error_ok_def)


section \<open>The contract of a report\<close>

text \<open>What an error was, and the status and the exit status it becomes.\<close>

datatype cause = Errno int | Signal int | Library int

fun code_of :: "cause \<Rightarrow> status" where
  "code_of (Errno e) = error_errno e"
| "code_of (Signal i) = SIG_ERROR_BASE - i"
| "code_of (Library k) = LANCASTER_ERROR_BASE - k"

fun cause_ok :: "cause \<Rightarrow> bool" where
  "cause_ok (Errno e) \<longleftrightarrow> 0 < e \<and> e < 150"
| "cause_ok (Signal i) \<longleftrightarrow> 0 < i \<and> i < NSIG"
| "cause_ok (Library k) \<longleftrightarrow> 0 < k \<and> k < 36"

definition cause_of_exit :: "int \<Rightarrow> cause" where
  "cause_of_exit n =
     (if n < 128 then Errno n else if n < 193 then Signal (n - 128)
      else if n < 220 then Errno (n - 70) else Library (n - 220))"

lemma code_neg: "cause_ok c \<Longrightarrow> code_of c < 0"
  by (cases c) (auto simp: error_errno_def status_defs)

lemma cause_of_exit_code: "cause_ok c \<Longrightarrow> cause_of_exit ((- code_of c) mod 256) = c"
  by (cases c) (auto simp: cause_of_exit_def error_errno_def status_defs NSIG_def)

text \<open>The texts of the system are as long as their buffers allow.\<close>

definition env_ok :: "err_env \<Rightarrow> bool" where
  "env_ok env \<longleftrightarrow> length (ev_stamp env) < 32 \<and>
     (\<forall>code errno. length (fst (xstrerror_r (ev_strerror env) code 128 errno)) < 128) \<and>
     (\<forall>i. length (ev_siglist env i) < 128)"

text \<open>
  A function that reports an error of some cause: its status is the code of the cause, which is also
  the last error; the messages fit and a saved error is kept.
\<close>

locale error_report =
  fixes report :: "err_env \<Rightarrow> string option \<Rightarrow> error_state \<Rightarrow> (int \<times> error_state) option"
    and cause :: "err_env \<Rightarrow> error_state \<Rightarrow> cause"
    and pre :: "error_state \<Rightarrow> bool"
  assumes cause_in_range: "pre es \<Longrightarrow> cause_ok (cause env es)"
    and reports: "\<lbrakk>env_ok env; length func < 120; error_ok es; pre es\<rbrakk> \<Longrightarrow>
      \<exists>es'. report env (Some func) es = Some (code_of (cause env es), es') \<and> error_ok es' \<and>
        last_code es' = code_of (cause env es) \<and> kept_saved es es'"
begin

text \<open>A program that ends with the error tells its parent the cause.\<close>

lemma exit_tells_cause:
  assumes "env_ok env" "length func < 120" "error_ok es" "pre es"
  shows "\<exists>es' n. report env (Some func) es = Some (last_code es', es') \<and> error_ok es' \<and>
    report_fatal True es' = Some n \<and> cause_of_exit (n mod 256) = cause env es"
  using reports [OF assms] cause_of_exit_code [OF cause_in_range [OF assms(4), of env]]
  by (auto simp: report_fatal_def)

end

text \<open>The functions of \<open>error.c\<close> keep it.\<close>

lemma format_error_reports:
  assumes "env_ok env" "length func < 120" "error_ok es" "length desc < 128" "code < 0"
  shows "\<exists>es'. format_error env es code func desc = Some (code, es') \<and> error_ok es' \<and> last_code es' = code \<and>
    kept_saved es es'"
  unfolding format_error_def using assms by (intro error_msg_reports) (auto simp: env_ok_def)

lemma report_errno_reports:
  assumes "env_ok env" "length func < 120" "error_ok es" "cause_ok (Errno (es_errno es))"
  shows "\<exists>es'. report_errno env (Some func) es = Some (error_errno (es_errno es), es') \<and> error_ok es' \<and>
    last_code es' = error_errno (es_errno es) \<and> kept_saved es es'"
proof -
  obtain desc e where x: "xstrerror_r (ev_strerror env) (es_errno es) 128 (es_errno es) = (desc, e)"
    by fastforce
  moreover have "length (fst (xstrerror_r (ev_strerror env) (es_errno es) 128 (es_errno es))) < 128"
    using assms(1) by (simp add: env_ok_def)
  ultimately have "length desc < 128" by simp
  then have "\<exists>es'. format_error env (es\<lparr>es_errno := e\<rparr>) (error_errno (es_errno es)) func desc =
      Some (error_errno (es_errno es), es') \<and> error_ok es' \<and> last_code es' = error_errno (es_errno es) \<and>
      kept_saved (es\<lparr>es_errno := e\<rparr>) es'"
    using assms code_neg [OF assms(4)] by (intro format_error_reports) (auto simp: error_ok_def)
  then show ?thesis using x by (auto simp: report_errno_def kept_saved_def)
qed

definition interrupted :: "raised \<Rightarrow> int \<Rightarrow> cause" where
  "interrupted is_raised errno =
     (case first_raised is_raised of
        Some i \<Rightarrow> if errno = EINTR then Signal i else Errno errno
      | None \<Rightarrow> Errno errno)"

lemma code_interrupted: "code_of (interrupted r e) = error_eintr r e"
  by (simp add: interrupted_def error_eintr_def signal_on_eintr_def split: option.split)

lemma report_eintr_reports:
  assumes "env_ok env" "length func < 120" "error_ok es" "cause_ok (Errno (es_errno es))"
  shows "\<exists>es'. report_eintr env (Some func) es = Some (error_eintr (ev_raised env) (es_errno es), es') \<and>
    error_ok es' \<and> last_code es' = error_eintr (ev_raised env) (es_errno es) \<and> kept_saved es es'"
proof (cases "first_raised (ev_raised env)")
  case None
  with report_errno_reports [OF assms] show ?thesis
    by (auto simp: report_eintr_def report_on_eintr_def error_eintr_def signal_on_eintr_def)
next
  case (Some i)
  then have "SIG_ERROR_BASE - i < 0" using first_raised_Some [OF Some] by (simp add: status_defs)
  moreover have "length (ev_siglist env i) < 128" "length (ev_stamp env) < 32"
    using assms(1) by (simp_all add: env_ok_def)
  ultimately show ?thesis
    using Some report_errno_reports [OF assms] assms(2,3)
    by (auto simp: report_eintr_def report_on_eintr_def error_eintr_def signal_on_eintr_def
      intro!: error_msg_reports)
qed

interpretation at_eof: error_report report_eof "\<lambda>_ _. Library 1" "\<lambda>_. True"
  by unfold_locales (auto simp: report_eof_def status_defs intro!: format_error_reports)

interpretation by_errno: error_report report_errno "\<lambda>_ es. Errno (es_errno es)"
    "\<lambda>es. cause_ok (Errno (es_errno es))"
  by unfold_locales (simp_all only: code_of.simps report_errno_reports)

interpretation bad_argument: error_report report_invalid_arg "\<lambda>_ _. Errno EINVAL" "\<lambda>_. True"
proof unfold_locales
  fix env es and func :: string
  assume "env_ok env" "length func < 120" "error_ok es"
  then show "\<exists>es'. report_invalid_arg env (Some func) es = Some (code_of (Errno EINVAL), es') \<and> error_ok es' \<and>
      last_code es' = code_of (Errno EINVAL) \<and> kept_saved es es'"
    using report_errno_reports [of env func "es\<lparr>es_errno := EINVAL\<rparr>"]
    by (simp add: report_invalid_arg_def error_ok_def kept_saved_def EINVAL_def)
qed (simp add: EINVAL_def)

interpretation missing: error_report report_unimplemented "\<lambda>_ _. Errno ENOSYS" "\<lambda>_. True"
proof unfold_locales
  fix env es and func :: string
  assume "env_ok env" "length func < 120" "error_ok es"
  then show "\<exists>es'. report_unimplemented env (Some func) es = Some (code_of (Errno ENOSYS), es') \<and> error_ok es' \<and>
      last_code es' = code_of (Errno ENOSYS) \<and> kept_saved es es'"
    using report_errno_reports [of env func "es\<lparr>es_errno := ENOSYS\<rparr>"]
    by (simp add: report_unimplemented_def error_ok_def kept_saved_def ENOSYS_def)
qed (simp add: ENOSYS_def)

lemma interrupted_ok: "cause_ok (Errno e) \<Longrightarrow> cause_ok (interrupted r e)"
  by (auto simp: interrupted_def split: option.split dest: first_raised_Some)

interpretation by_signal: error_report report_eintr "\<lambda>env es. interrupted (ev_raised env) (es_errno es)"
    "\<lambda>es. cause_ok (Errno (es_errno es))"
  by unfold_locales (simp_all only: code_interrupted report_eintr_reports interrupted_ok)

section \<open>Properties\<close>



text \<open>
  A prefix with a slash hides the name of the program, because the name is cut at the last slash
  of the whole text.
\<close>

theorem prefix_hides_program:
  assumes "add_prefix es called optarg = Some (name, es')" "CHR ''/'' \<in> set optarg"
  shows "error_get_program_name es' = take 255 (rev (takeWhile (\<lambda>c. c \<noteq> CHR ''/'') (rev optarg)))"
  using assms
  by (auto simp: add_prefix_def error_set_program_name_def error_get_program_name_def Let_def takeWhile_append1
    split: if_splits)

theorem prefix_hides_program_witness:
  "map_option (\<lambda>(_, es). error_get_program_name es)
     (add_prefix \<lparr>msg_lock = 0, prog_name = ''reader'', last_msg = [], saved_msg = [], last_code = 0,
        saved_code = 0, es_errno = 4, saved_errno = 0, with_ts = False\<rparr> ''bin/reader'' ''/x/y'') = Some ''y''"
  using prefix_hides_program [of "\<lparr>msg_lock = 0, prog_name = ''reader'', last_msg = [], saved_msg = [],
      last_code = 0, saved_code = 0, es_errno = 4, saved_errno = 0, with_ts = False\<rparr>" "''bin/reader''" "''/x/y''"]
  by (simp add: add_prefix_def Let_def)

end
