(* ===== verification/Cells.thy ===== *)
theory Cells
  imports Records "HOL-Library.Multiset"
begin

text \<open>
  A storage seen as an array of cells, one for each record: revision, timestamp, value and
  property.  The operations of \<open>storage.c\<close> on single records update single cells; the tools that
  erase and copy records are verified over this view.
\<close>

section \<open>The view\<close>

record cell =
  c_rev :: u64
  c_ts :: u64
  c_val :: "byte list"
  c_prop :: "byte list"

definition cell_of :: "storage \<Rightarrow> mem \<Rightarrow> nat \<Rightarrow> cell" where
  "cell_of st m i = (let r = record_at st m i in
     \<lparr>c_rev = load64 m r, c_ts = load64 m (r + REC_ts),
      c_val = mread m (r + REC_val) (storage_get_value_size m),
      c_prop = mread m (r + storage_get_property_offset m) (storage_get_property_size m)\<rparr>)"

definition cells_of :: "storage \<Rightarrow> mem \<Rightarrow> cell list" where
  "cells_of st m = map (cell_of st m) [0..<storage_count m]"

definition blank_cell :: "mem \<Rightarrow> cell" where
  "blank_cell m = \<lparr>c_rev = 0, c_ts = 0, c_val = replicate (storage_get_value_size m) 0,
     c_prop = replicate (storage_get_property_size m) 0\<rparr>"

definition used :: "cell \<Rightarrow> bool" where
  "used c \<longleftrightarrow> c_rev c \<noteq> 0"

text \<open>The storage can be written to and no record is locked.\<close>

definition cells_ok :: "storage \<Rightarrow> mem \<Rightarrow> bool" where
  "cells_ok st m \<longleftrightarrow> stg_ok st m \<and> \<not> stg_read_only st \<and> (\<forall>c\<in>set (cells_of st m). unlocked (c_rev c))"

lemma length_cells_of [simp]: "length (cells_of st m) = storage_count m"
  by (simp add: cells_of_def)

lemma nth_cells_of [simp]: "i < storage_count m \<Longrightarrow> cells_of st m ! i = cell_of st m i"
  by (simp add: cells_of_def)

lemma cells_ok_unlocked: "cells_ok st m \<Longrightarrow> i < storage_count m \<Longrightarrow> unlocked (load64 m (record_at st m i))"
  by (auto simp: cells_ok_def cells_of_def cell_of_def Let_def)

lemma is_record_at: "i < storage_count m \<Longrightarrow> is_record st m (record_at st m i)"
  by (simp add: is_record_def storage_records_def)

lemma cells_ok_records: "cells_ok st m \<Longrightarrow> \<forall>r\<in>set (storage_records st m). unlocked (load64 m r)"
  by (auto simp: storage_records_def cells_ok_unlocked)

section \<open>Writing one record\<close>

text \<open>A memory in which at most the record at index \<open>i\<close> has changed.\<close>

lemma cells_of_only:
  assumes "stg_ok st m" "i < storage_count m" "only_record st m (record_at st m i) m'"
  shows "same_layout m m'" "stg_ok st m'" "storage_count m' = storage_count m" "record_at st m' j = record_at st m j"
    "blank_cell m' = blank_cell m"
    "cells_of st m' = (cells_of st m)[i := cell_of st m' i]"
proof -
  note r = is_record_at [OF assms(2), of st]
  show lay: "same_layout m m'" by (rule only_record_layout [OF assms(1) r assms(3)])
  then show "stg_ok st m'" "record_at st m' j = record_at st m j"
    using assms(1) by (simp_all add: same_layout_stg_ok same_layout_records)
  note f = same_layout_fields [OF lay]
  show n: "storage_count m' = storage_count m" by (simp add: storage_count_def f)
  show "blank_cell m' = blank_cell m" by (simp add: blank_cell_def f)
  note l = layout_okD [OF stg_okD(1) [OF assms(1)]]
  have "cell_of st m' j = cell_of st m j" if j: "j < storage_count m" "j \<noteq> i" for j
  proof -
    have ne: "record_at st m j \<noteq> record_at st m i" using j(2) record_at_inj [OF assms(1)] by simp
    note o = only_record_other [OF assms(1) r assms(3) is_record_at [OF j(1)] ne]
    have "load64 m' (record_at st m j + k) = load64 m (record_at st m j + k)" if "k + 8 \<le> storage_get_record_size m" for k
      using o [OF that] by (simp add: load_def)
    from this [of 0] this [of REC_ts] have "load64 m' (record_at st m j) = load64 m (record_at st m j)"
      "load64 m' (record_at st m j + REC_ts) = load64 m (record_at st m j + REC_ts)"
      using l(3-6) by simp_all
    moreover have "mread m' (record_at st m j + REC_val) (storage_get_value_size m) =
        mread m (record_at st m j + REC_val) (storage_get_value_size m)"
      using l(3-6) by (intro o) simp
    moreover have "mread m' (record_at st m j + storage_get_property_offset m) (storage_get_property_size m) =
        mread m (record_at st m j + storage_get_property_offset m) (storage_get_property_size m)"
      using l(3-6) by (cases "storage_get_property_size m = 0") (simp, intro o, simp)
    ultimately show ?thesis by (simp add: cell_of_def Let_def f same_layout_records [OF lay])
  qed
  then show "cells_of st m' = (cells_of st m)[i := cell_of st m' i]"
    using assms(2) by (intro nth_equalityI) (auto simp: n nth_list_update)
qed
text \<open>What the steps on a single record do to its cell: \<open>step st m i m' c\<close> says that it becomes \<open>c\<close>.\<close>

definition cell_step :: "storage \<Rightarrow> mem \<Rightarrow> nat \<Rightarrow> mem \<Rightarrow> cell \<Rightarrow> bool" where
  "cell_step st m i m' c \<longleftrightarrow> same_layout m m' \<and> stg_ok st m' \<and> storage_count m' = storage_count m \<and>
     (\<forall>j. record_at st m' j = record_at st m j) \<and> blank_cell m' = blank_cell m \<and>
     cells_of st m' = (cells_of st m)[i := c]"

lemma cell_stepI:
  assumes "stg_ok st m" "i < storage_count m" "only_record st m (record_at st m i) m'" "cell_of st m' i = c"
  shows "cell_step st m i m' c"
  using cells_of_only [OF assms(1-3)] assms(4) by (simp add: cell_step_def)

lemma cell_stepD:
  assumes "cell_step st m i m' c"
  shows "same_layout m m'" "stg_ok st m'" "storage_count m' = storage_count m" "record_at st m' j = record_at st m j"
    "blank_cell m' = blank_cell m" "cells_of st m' = (cells_of st m)[i := c]"
  using assms by (simp_all add: cell_step_def)

lemma cell_step_cell:
  "cell_step st m i m' c \<Longrightarrow> j < storage_count m \<Longrightarrow> cell_of st m' j = (if j = i then c else cell_of st m j)"
  by (auto simp: cell_step_def nth_list_update simp flip: nth_cells_of)

lemma set_revision_step:
  assumes "stg_ok st m" "i < storage_count m"
  shows "cell_step st m i (store64 m (record_at st m i) w) ((cell_of st m i)\<lparr>c_rev := w\<rparr>)"
proof (rule cell_stepI [OF assms])
  let ?r = "record_at st m i" and ?m = "store64 m (record_at st m i) w"
  note l = layout_okD [OF stg_okD(1) [OF assms(1)]]
  show o: "only_record st m ?r ?m" using l(4) by (auto simp: only_record_def mem_other)
  note f = same_layout_fields [OF only_record_layout [OF assms(1) is_record_at [OF assms(2)] o]]
  have "record_at st ?m i = ?r" using cells_of_only(4) [OF assms o] by simp
  moreover have "mread ?m (?r + storage_get_property_offset m) (storage_get_property_size m) =
      mread m (?r + storage_get_property_offset m) (storage_get_property_size m)"
    using l(5) by (cases "storage_get_property_size m = 0") (auto simp: mem_simps)
  ultimately show "cell_of st ?m i = (cell_of st m i)\<lparr>c_rev := w\<rparr>"
    by (simp add: cell_of_def Let_def f mem_simps load_store_disjoint)
qed

lemma clear_step:
  assumes "stg_ok st m" "\<not> stg_read_only st" "i < storage_count m"
  obtains m' where "storage_clear_record st m (record_at st m i) = (OK, m')" "cell_step st m i m' (blank_cell m)"
proof -
  obtain m' where m': "storage_clear_record st m (record_at st m i) = (OK, m')" "only_record st m (record_at st m i) m'"
    "load64 m' (record_at st m i) = 0" "record_get_timestamp m' (record_at st m i) = 0"
    "mread m' (record_get_value_ref (record_at st m i)) (storage_get_value_size m) = replicate (storage_get_value_size m) 0"
    "mread m' (record_at st m i + storage_get_property_offset m) (storage_get_property_size m) =
       replicate (storage_get_property_size m) 0"
    by (rule storage_clear_record_OK [OF assms(1,2) is_record_at [OF assms(3)]])
  note f = same_layout_fields [OF only_record_layout [OF assms(1) is_record_at [OF assms(3)] m'(2)]]
  have "word_of_int (sint (load64 m' (record_at st m i + REC_ts))) = (0 :: u64)"
    using m'(4) by (simp add: record_get_timestamp_def)
  then have "load64 m' (record_at st m i + REC_ts) = 0" by simp
  then have "cell_of st m' i = blank_cell m"
    using m'(3,5,6) cells_of_only(4) [OF assms(1,3) m'(2)] 
    by (simp add: cell_of_def blank_cell_def Let_def f record_get_value_ref_def)
  then show thesis using that m'(1) cell_stepI [OF assms(1,3) m'(2)] by blast
qed

lemma copy_step:
  assumes "stg_ok fs fm" "i < storage_count fm" "stg_ok ts tm" "\<not> stg_read_only ts" "j < storage_count tm"
    and "storage_get_value_size fm = storage_get_value_size tm" "storage_get_property_size fm = storage_get_property_size tm"
  obtains m' where "storage_copy_record fs fm (record_at fs fm i) ts tm (record_at ts tm j)
      (record_get_timestamp fm (record_at fs fm i)) True = (OK, m')"
    "cell_step ts tm j m' ((cell_of fs fm i)\<lparr>c_rev := c_rev (cell_of ts tm j)\<rparr>)"
proof -
  let ?f = "record_at fs fm i" and ?t = "record_at ts tm j"
  obtain m' where m': "storage_copy_record fs fm ?f ts tm ?t (record_get_timestamp fm ?f) True = (OK, m')"
    "only_record ts tm ?t m'" "load64 m' ?t = load64 tm ?t"
    "load64 m' (?t + REC_ts) = word_of_int (record_get_timestamp fm ?f)"
    "mread m' (record_get_value_ref ?t) (storage_get_value_size tm) =
       mread fm (record_get_value_ref ?f) (storage_get_value_size fm)"
    "mread m' (?t + storage_get_property_offset tm) (storage_get_property_size tm) =
       (if True then mread fm (?f + storage_get_property_offset fm) (storage_get_property_size fm)
        else mread tm (?t + storage_get_property_offset tm) (storage_get_property_size tm))"
    by (rule storage_copy_record_OK [OF assms(1) is_record_at [OF assms(2)] assms(3,4) is_record_at [OF assms(5)] assms(6),
          where wp = True]) (use assms(7) in auto)
  note f = same_layout_fields [OF only_record_layout [OF assms(3) is_record_at [OF assms(5)] m'(2)]]
  have "cell_of ts m' j = (cell_of fs fm i)\<lparr>c_rev := c_rev (cell_of ts tm j)\<rparr>"
    using m'(3-6) cells_of_only(4) [OF assms(3,5) m'(2)]
    by (simp add: cell_of_def Let_def f record_get_value_ref_def record_get_timestamp_def)
  then show thesis using that m'(1) cell_stepI [OF assms(3,5) m'(2)] by blast
qed

section \<open>Searching\<close>

lemma find_map: "find P (map f xs) = map_option f (find (\<lambda>x. P (f x)) xs)"
  by (induction xs) auto

text \<open>The greatest index below \<open>b\<close> of a cell in use, and the least from \<open>b\<close> on of one that is not.\<close>

definition last_used :: "nat \<Rightarrow> cell list \<Rightarrow> nat option" where
  "last_used b cs = find (\<lambda>j. used (cs ! j)) (rev [0..<b])"

definition next_free :: "nat \<Rightarrow> cell list \<Rightarrow> nat option" where
  "next_free b cs = find (\<lambda>j. \<not> used (cs ! j)) [b..<length cs]"

lemma find_cong_set: "(\<And>x. x \<in> set xs \<Longrightarrow> P x = Q x) \<Longrightarrow> find P xs = find Q xs"
  by (induction xs) auto

lemma last_used_simps [simp]:
  "last_used 0 cs = None" "last_used (Suc b) cs = (if used (cs ! b) then Some b else last_used b cs)"
  by (simp_all add: last_used_def)

lemma last_used_SomeD:
  "last_used b cs = Some l \<Longrightarrow> l < b \<and> used (cs ! l) \<and> (\<forall>j. l < j \<and> j < b \<longrightarrow> \<not> used (cs ! j))"
  by (induction b) (auto split: if_splits simp: less_Suc_eq)

lemma last_used_NoneD: "last_used b cs = None \<Longrightarrow> j < b \<Longrightarrow> \<not> used (cs ! j)"
  by (induction b) (auto split: if_splits simp: less_Suc_eq)

text \<open>Where a search starts: at the end (or the beginning), or at the record found last.\<close>

definition at_index :: "storage \<Rightarrow> mem \<Rightarrow> nat option \<Rightarrow> nat option" where
  "at_index st m b = map_option (record_at st m) b"

lemma find_prev_used_cells:
  assumes "cells_ok st m" "\<And>i. b = Some i \<Longrightarrow> i < storage_count m"
  shows "storage_find_prev_used slp st m (at_index st m b) True True =
    (case last_used (case b of None \<Rightarrow> storage_count m | Some i \<Rightarrow> i) (cells_of st m) of
       None \<Rightarrow> (FALSE_ST, None, m)
     | Some l \<Rightarrow> (TRUE_ST, Some (record_at st m l, c_rev (cell_of st m l)),
         store64 m (record_at st m l) (c_rev (cell_of st m l) OR SPIN_MASK)))"
proof -
  have ok: "stg_ok st m" "\<not> stg_read_only st" "0 < storage_count m"
    using assms(1) layout_okD(2) [OF stg_okD(1)] by (auto simp: cells_ok_def)
  note e = storage_find_eqs [OF ok(1) cells_ok_records [OF assms(1)], where lock = True]
  have last: "find (\<lambda>r. load64 m r \<noteq> 0) (rev (take k (storage_records st m))) =
      map_option (record_at st m) (last_used k (cells_of st m))" if "k \<le> storage_count m" for k
    using that by (auto simp: storage_records_def take_map find_map last_used_def used_def cell_of_def Let_def
        rev_map intro!: arg_cong [where f = "map_option (record_at st m)"] find_cong_set)
  show ?thesis
  proof (cases b)
    case None
    have "rev (storage_records st m) = rev (take (storage_count m) (storage_records st m))"
      by (simp add: storage_records_def)
    then show ?thesis
      using e [of 0 slp] ok last [of "storage_count m"]
      by (simp add: None at_index_def cell_of_def Let_def split: option.splits)
  next
    case (Some i)
    then show ?thesis
      using e [of i slp] ok assms(2) last [of i]
      by (simp add: at_index_def cell_of_def Let_def split: option.splits)
  qed
qed
lemma find_next_unused_cells:
  assumes "cells_ok st m" "\<And>i. b = Some i \<Longrightarrow> i < storage_count m"
  shows "storage_find_next_unused slp st m (at_index st m b) True True =
    (case next_free (case b of None \<Rightarrow> 0 | Some i \<Rightarrow> Suc i) (cells_of st m) of
       None \<Rightarrow> (FALSE_ST, None, m)
     | Some l \<Rightarrow> (TRUE_ST, Some (record_at st m l, 0), store64 m (record_at st m l) SPIN_MASK))"
proof -
  have ok: "stg_ok st m" "\<not> stg_read_only st" "0 < storage_count m"
    using assms(1) layout_okD(2) [OF stg_okD(1)] by (auto simp: cells_ok_def)
  note e = storage_find_eqs [OF ok(1) cells_ok_records [OF assms(1)], where lock = True]
  have first: "find (\<lambda>r. load64 m r = 0) (drop k (storage_records st m)) =
      map_option (record_at st m) (next_free k (cells_of st m))" for k
    by (auto simp: storage_records_def drop_map find_map next_free_def used_def cell_of_def Let_def
        intro!: arg_cong [where f = "map_option (record_at st m)"] find_cong_set)
  show ?thesis
  proof (cases b)
    case None
    then show ?thesis
      using e [of 0 slp] ok first [of 0] by (simp add: at_index_def split: option.splits)
  next
    case (Some i)
    then show ?thesis
      using e [of i slp] ok assms(2) first [of "Suc i"] by (simp add: at_index_def split: option.splits)
  qed
qed

lemma next_free_SomeD:
  assumes "next_free b cs = Some l"
  shows "b \<le> l \<and> l < length cs \<and> \<not> used (cs ! l) \<and> (\<forall>j. b \<le> j \<and> j < l \<longrightarrow> used (cs ! j))"
proof -
  obtain k where k: "k < length cs - b" "\<not> used (cs ! (b + k))" "l = b + k" "\<forall>i<k. used (cs ! (b + i))"
    using assms by (auto simp: next_free_def find_Some_iff)
  then have "used (cs ! j)" if "b \<le> j" "j < l" for j
    using that k(4) [rule_format, of "j - b"] by simp
  then show ?thesis using k by auto
qed

lemma next_free_NoneD: "next_free b cs = None \<Longrightarrow> b \<le> j \<Longrightarrow> j < length cs \<Longrightarrow> used (cs ! j)"
  by (auto simp: next_free_def find_None_iff)

end
