(* ===== verification/Tools.thy ===== *)
theory Tools
  imports Cells Cmdline
begin

text \<open>
  The command line programs that maintain a storage: \<open>eraser.c\<close>, \<open>copier.c\<close>, \<open>grower.c\<close> and
  \<open>deleter.c\<close>.  Each \<open>main\<close> is a function of the words after the program name, of what the system
  calls give, and of the segments in memory; it gives the exit code and the segments.  Lines
  printed with \<open>-V\<close> are left out.  Source and destination of a copy are different files.
\<close>

record tool_env =
  to_open :: open_env
  to_close :: destroy_env
  to_malloc :: bool
  to_slp :: "nat \<Rightarrow> status"
  to_heap :: "nat \<Rightarrow> int"

text \<open>
  The array of \<open>struct arg\<close>: identifiers and records of the operands.  Its memory comes from
  \<open>xmalloc\<close>; \<open>to_heap\<close> is what it holds before.
\<close>

fun parse_args :: "(nat \<Rightarrow> int) \<Rightarrow> storage \<Rightarrow> mem \<Rightarrow> nat \<Rightarrow> string list \<Rightarrow> (ident \<times> nat) list result" where
  "parse_args heap st m k [] = Inr []"
| "parse_args heap st m k (w # ws) =
     (case a2i_number wrap_long w (heap k) of
        Inl err \<Rightarrow> Inl err
      | Inr i \<Rightarrow>
          (case storage_get_record st m i True of
             Inl err \<Rightarrow> Inl err
           | Inr r \<Rightarrow> (case parse_args heap st m (Suc k) ws of Inl err \<Rightarrow> Inl err | Inr args \<Rightarrow> Inr ((i, r) # args))))"

section \<open>Erasing\<close>

record eraser_opts =
  eo_compact :: bool
  eo_verbose :: bool
  eo_stamp :: bool

definition eraser_option :: "eraser_opts \<Rightarrow> char \<Rightarrow> string \<Rightarrow> eraser_opts run" where
  "eraser_option cfg ch arg =
     (if ch = CHR ''c'' then Runs (cfg\<lparr>eo_compact := True\<rparr>)
      else if ch = CHR ''L'' then Runs (cfg\<lparr>eo_stamp := True\<rparr>)
      else if ch = CHR ''V'' then Runs (cfg\<lparr>eo_verbose := True\<rparr>)
      else if ch = CHR ''v'' then show_version
      else show_syntax)"

fun erase_loop :: "(nat \<Rightarrow> status) \<Rightarrow> storage \<Rightarrow> nat list \<Rightarrow> mem \<Rightarrow> status \<times> mem" where
  "erase_loop slp st [] m = (OK, m)"
| "erase_loop slp st (r # rs) m =
     (case record_write_lock slp m r of
        Inl err \<Rightarrow> (err, m)
      | Inr (rv, m) \<Rightarrow>
          (case storage_clear_record st m r of
             (res, m) \<Rightarrow>
               if FAILED res then (res, record_set_revision m r rv) else erase_loop slp st rs m))"

fun compact_loop :: "(nat \<Rightarrow> status) \<Rightarrow> storage \<Rightarrow> nat list \<Rightarrow> nat option \<Rightarrow> mem \<Rightarrow> status \<times> mem" where
  "compact_loop slp st [] prior m = (OK, m)"
| "compact_loop slp st (r # rs) prior m =
     (case storage_find_prev_used slp st m prior True True of
        (res, None, m) \<Rightarrow> if FAILED res then (res, m) else (OK, m)
      | (res, Some (last_rec, last_rev), m) \<Rightarrow>
          if FAILED res then (res, m)
          else if r \<ge> last_rec
            then compact_loop slp st rs (Some last_rec) (record_set_revision m last_rec last_rev)
          else
            (case record_write_lock slp m r of
               Inl err \<Rightarrow> (err, record_set_revision m last_rec last_rev)
             | Inr (rv, m) \<Rightarrow>
                 (case storage_copy_record st m last_rec st m r (record_get_timestamp m last_rec) True of
                    (res, m) \<Rightarrow>
                      if FAILED res
                        then (res, record_set_revision (record_set_revision m last_rec last_rev) r rv)
                      else
                        (case storage_clear_record st m last_rec of
                           (res, m) \<Rightarrow>
                             if FAILED res then (res, record_set_revision m last_rec last_rev)
                             else compact_loop slp st rs (Some last_rec) (record_set_revision m r last_rev)))))"

text \<open>Both loops of \<open>main\<close>, over the records of the arguments.\<close>

definition erase_records :: "(nat \<Rightarrow> status) \<Rightarrow> storage \<Rightarrow> bool \<Rightarrow> nat list \<Rightarrow> mem \<Rightarrow> status \<times> mem" where
  "erase_records slp st compact rs m =
     (case erase_loop slp st rs m of
        (res, m) \<Rightarrow> if FAILED res then (res, m)
                    else if compact then compact_loop slp st rs None m else (OK, m))"

definition eraser_main :: "tool_env \<Rightarrow> string list \<Rightarrow> mem \<Rightarrow> int \<times> mem" where
  "eraser_main e argv m =
     (case getopt ''cLVv'' argv of (opts, operands) \<Rightarrow>
        case for_options eraser_option opts \<lparr>eo_compact = False, eo_verbose = False, eo_stamp = False\<rparr> of
          Exits n \<Rightarrow> (n, m)
        | Runs cfg \<Rightarrow>
            if length operands < 2 then (- SYNTAX_ERROR, m)
            else (case storage_open ((to_open e)\<lparr>oe_contents := m\<rparr>) (to_close e) True True (Some (hd operands)) O_RDWR of
              (res, None) \<Rightarrow> (exit_code res, m)
            | (res, Some st) \<Rightarrow>
                if FAILED res then (exit_code res, m)
                else if \<not> to_malloc e then (exit_code NO_MEMORY, m)
                else (case parse_args (to_heap e) st m 0 (tl operands) of
                  Inl err \<Rightarrow> (exit_code err, m)
                | Inr args \<Rightarrow>
                    (case erase_records (to_slp e) st (eo_compact cfg) (map snd args) m of
                       (res, m) \<Rightarrow>
                         if FAILED res then (exit_code res, m)
                         else case storage_destroy (to_close e) (Some st) of
                           (res, _) \<Rightarrow> if FAILED res then (exit_code res, m) else (0, m)))))"

section \<open>Copying\<close>

definition copier_option :: "bool \<Rightarrow> char \<Rightarrow> string \<Rightarrow> bool run" where
  "copier_option verbose ch arg =
     (if ch = CHR ''L'' then Runs verbose
      else if ch = CHR ''V'' then Runs True
      else if ch = CHR ''v'' then show_version
      else show_syntax)"

text \<open>\<open>sm\<close> is the segment of the source, \<open>dm\<close> the one of the destination.\<close>

fun copy_loop ::
  "(nat \<Rightarrow> status) \<Rightarrow> bool \<Rightarrow> storage \<Rightarrow> storage \<Rightarrow> nat list \<Rightarrow> nat option \<Rightarrow> mem \<Rightarrow> mem \<Rightarrow> status \<times> mem \<times> mem" where
  "copy_loop slp verbose ss ds [] prior sm dm = (OK, sm, dm)"
| "copy_loop slp verbose ss ds (r # rs) prior sm dm =
     (case storage_find_next_unused slp ds dm prior True True of
        (res, None, dm) \<Rightarrow> if FAILED res then (res, sm, dm) else (STORAGE_FULL, sm, dm)
      | (res, Some (dest_rec, dest_rev), dm) \<Rightarrow>
          if FAILED res then (res, sm, dm)
          else (case record_write_lock slp sm r of
            Inl err \<Rightarrow> (err, sm, record_set_revision dm dest_rec dest_rev)
          | Inr (src_rev, sm) \<Rightarrow>
              (case storage_copy_record ss sm r ds dm dest_rec (record_get_timestamp sm r) True of
                 (res, dm) \<Rightarrow>
                   let dm = record_set_revision dm dest_rec src_rev;
                       sm = record_set_revision sm r src_rev
                   in if FAILED res then (res, sm, dm)
                      else (case (if verbose then storage_get_id ds dm dest_rec True else Inr 0) of
                        Inl err \<Rightarrow> (err, sm, dm)
                      | Inr _ \<Rightarrow> copy_loop slp verbose ss ds rs (Some dest_rec) sm dm))))"

definition copier_main :: "tool_env \<Rightarrow> tool_env \<Rightarrow> string list \<Rightarrow> mem \<Rightarrow> mem \<Rightarrow> int \<times> mem \<times> mem" where
  "copier_main e e2 argv sm dm =
     (case getopt ''LVv'' argv of (opts, operands) \<Rightarrow>
        case for_options copier_option opts False of
          Exits n \<Rightarrow> (n, sm, dm)
        | Runs verbose \<Rightarrow>
            if length operands < 3 then (- SYNTAX_ERROR, sm, dm)
            else (case storage_open ((to_open e)\<lparr>oe_contents := sm\<rparr>) (to_close e) True True (Some (hd operands)) O_RDWR of
              (res, None) \<Rightarrow> (exit_code res, sm, dm)
            | (res, Some ss) \<Rightarrow>
                if FAILED res then (exit_code res, sm, dm)
                else (case storage_open ((to_open e2)\<lparr>oe_contents := dm\<rparr>) (to_close e2) True True
                             (Some (hd (tl operands))) O_RDWR of
                  (res, None) \<Rightarrow> (exit_code res, sm, dm)
                | (res, Some ds) \<Rightarrow>
                    if FAILED res then (exit_code res, sm, dm)
                    else if \<not> to_malloc e then (exit_code NO_MEMORY, sm, dm)
                    else (case parse_args (to_heap e) ss sm 0 (tl (tl operands)) of
                      Inl err \<Rightarrow> (exit_code err, sm, dm)
                    | Inr args \<Rightarrow>
                        (case copy_loop (to_slp e) verbose ss ds (map snd args) None sm dm of
                           (res, sm, dm) \<Rightarrow>
                             if FAILED res then (exit_code res, sm, dm)
                             else if FAILED (fst (storage_destroy (to_close e) (Some ss)))
                               then (exit_code (fst (storage_destroy (to_close e) (Some ss))), sm, dm)
                             else if FAILED (fst (storage_destroy (to_close e2) (Some ds)))
                               then (exit_code (fst (storage_destroy (to_close e2) (Some ds))), sm, dm)
                             else (0, sm, dm))))))"

section \<open>Growing and deleting\<close>

definition grower_option :: "unit \<Rightarrow> char \<Rightarrow> string \<Rightarrow> unit run" where
  "grower_option u ch arg =
     (if ch = CHR ''L'' then Runs () else if ch = CHR ''v'' then show_version else show_syntax)"

text \<open>\<open>parse\<close>: an equals sign stands for the attribute of the old storage; \<open>n\<close> is not initialised.\<close>

definition grower_parse :: "int \<Rightarrow> string \<Rightarrow> int \<Rightarrow> int result" where
  "grower_parse junk text old = (if text \<noteq> [] \<and> hd text = CHR ''='' then Inr old else a2i_number wrap_long text junk)"

definition grower_main ::
  "tool_env \<Rightarrow> create_env \<Rightarrow> status \<Rightarrow> microsec result \<Rightarrow> string list \<Rightarrow> mem \<Rightarrow> int \<times> mem" where
  "grower_main e ce fstat clock argv m =
     (case getopt ''Lv'' argv of (opts, operands) \<Rightarrow>
        case for_options grower_option opts () of
          Exits n \<Rightarrow> (n, ce_contents ce)
        | Runs _ \<Rightarrow>
            if length operands \<noteq> 7 then (- SYNTAX_ERROR, ce_contents ce)
            else (case storage_open ((to_open e)\<lparr>oe_contents := m\<rparr>) (to_close e) True True (Some (hd operands)) O_RDONLY of
              (res, None) \<Rightarrow> (exit_code res, ce_contents ce)
            | (res, Some st) \<Rightarrow>
                if FAILED res then (exit_code res, ce_contents ce)
                else
                  let num = (\<lambda>k old. grower_parse (to_heap e k) (operands ! k) old)
                  in case num 2 (storage_get_base_id m) of Inl err \<Rightarrow> (exit_code err, ce_contents ce) | Inr base \<Rightarrow>
                     case num 3 (storage_get_max_id m) of Inl err \<Rightarrow> (exit_code err, ce_contents ce) | Inr mx \<Rightarrow>
                     case num 4 (int (storage_get_value_size m)) of Inl err \<Rightarrow> (exit_code err, ce_contents ce) | Inr vs \<Rightarrow>
                     case num 5 (int (storage_get_property_size m)) of Inl err \<Rightarrow> (exit_code err, ce_contents ce) | Inr ps \<Rightarrow>
                     case num 6 (sint (storage_get_queue_capacity m)) of Inl err \<Rightarrow> (exit_code err, ce_contents ce) | Inr qc \<Rightarrow>
                     case storage_grow (to_slp e) ce (to_close e) (to_malloc e) fstat clock st m True (Some (operands ! 1))
                            O_CREAT base mx (word_of_int vs) (word_of_int ps) (word_of_int qc) of
                       (res, new, new_m) \<Rightarrow>
                         if FAILED res then (exit_code res, new_m)
                         else let res = first_failed [fst (storage_destroy (to_close e) (Some st)), fst (storage_destroy (to_close e) new)]
                         in (exit_code res, new_m)))"

definition deleter_option :: "bool \<Rightarrow> char \<Rightarrow> string \<Rightarrow> bool run" where
  "deleter_option force ch arg =
     (if ch = CHR ''f'' then Runs True
      else if ch = CHR ''L'' then Runs force
      else if ch = CHR ''v'' then show_version
      else show_syntax)"

text \<open>The files in order, until one cannot be deleted; \<open>res\<close> gives the outcomes of the system calls.\<close>

fun delete_loop :: "(string \<Rightarrow> int option \<times> int option) \<Rightarrow> bool \<Rightarrow> string list \<Rightarrow> status" where
  "delete_loop res force [] = OK"
| "delete_loop res force (w # ws) =
     (let st = storage_delete (fst (res w)) (snd (res w)) w force
      in if FAILED st then st else delete_loop res force ws)"

definition deleter_main :: "(string \<Rightarrow> int option \<times> int option) \<Rightarrow> string list \<Rightarrow> int" where
  "deleter_main res argv =
     (case getopt ''fLv'' argv of (opts, operands) \<Rightarrow>
        case for_options deleter_option opts False of
          Exits n \<Rightarrow> n
        | Runs force \<Rightarrow> if length operands < 1 then - SYNTAX_ERROR else exit_code (delete_loop res force operands))"

section \<open>Erasing and compacting, on cells\<close>

text \<open>What the two loops of the eraser do to the cells, given the indexes of the arguments.\<close>

definition erase_cells :: "cell \<Rightarrow> nat list \<Rightarrow> cell list \<Rightarrow> cell list" where
  "erase_cells blank is cs = foldl (\<lambda>cs i. cs[i := blank]) cs is"

fun compact_cells :: "cell \<Rightarrow> nat \<Rightarrow> nat list \<Rightarrow> cell list \<Rightarrow> cell list" where
  "compact_cells blank b [] cs = cs"
| "compact_cells blank b (i # is) cs =
     (case last_used b cs of
        None \<Rightarrow> cs
      | Some l \<Rightarrow> if i \<ge> l then compact_cells blank l is cs
                  else compact_cells blank l is (cs[i := cs ! l, l := blank]))"

lemma length_compact_cells [simp]: "length (compact_cells blank b is cs) = length cs"
  by (induction blank b "is" cs rule: compact_cells.induct) (auto split: option.splits)

lemma length_erase_cells [simp]: "length (erase_cells blank is cs) = length cs"
  unfolding erase_cells_def by (induction "is" arbitrary: cs) auto

text \<open>Storages on which the next step can work.\<close>

lemma cells_okI:
  assumes "cells_ok st m" "stg_ok st m'" "set (cells_of st m') \<subseteq> insert c (set (cells_of st m))" "unlocked (c_rev c)"
  shows "cells_ok st m'"
  using assms by (auto simp: cells_ok_def)

lemma blank_cell_rev [simp]: "c_rev (blank_cell m) = 0"
  by (simp add: blank_cell_def)

lemma erase_loop_cells:
  assumes "cells_ok st m" "\<forall>i\<in>set is. i < storage_count m"
  shows "\<exists>m'. erase_loop slp st (map (record_at st m) is) m = (OK, m') \<and> cells_ok st m' \<and> same_layout m m' \<and>
    cells_of st m' = erase_cells (blank_cell m) is (cells_of st m)"
  using assms
proof (induction "is" arbitrary: m)
  case Nil
  then show ?case by (simp add: erase_cells_def)
next
  case (Cons i "is")
  have ok: "stg_ok st m" "\<not> stg_read_only st" "i < storage_count m" using Cons.prems by (auto simp: cells_ok_def)
  define m1 where "m1 = store64 m (record_at st m i) (load64 m (record_at st m i) OR SPIN_MASK)"
  have s1: "cell_step st m i m1 ((cell_of st m i)\<lparr>c_rev := load64 m (record_at st m i) OR SPIN_MASK\<rparr>)"
    unfolding m1_def by (rule set_revision_step [OF ok(1,3)])
  have n1: "i < storage_count m1" "\<And>j. record_at st m1 j = record_at st m j" "blank_cell m1 = blank_cell m" "stg_ok st m1"
    using s1 ok(3) by (simp_all add: cell_step_def)
  obtain m2 where m2: "storage_clear_record st m1 (record_at st m i) = (OK, m2)" "cell_step st m1 i m2 (blank_cell m)"
    using clear_step [OF n1(4) ok(2) n1(1)] n1(2,3) by metis
  have c2: "cells_of st m2 = (cells_of st m)[i := blank_cell m]" using m2(2) s1 by (simp add: cell_step_def)
  have "cells_ok st m2"
    using cells_okI [OF Cons.prems(1) cell_stepD(2) [OF m2(2)], of "blank_cell m"] set_update_subset_insert [of "cells_of st m"] c2
    by simp
  moreover have lay: "same_layout m m2" using s1 m2(2) by (auto simp: cell_step_def intro: same_layout_trans)
  moreover have f: "storage_count m2 = storage_count m" "\<And>j. record_at st m2 j = record_at st m j" "blank_cell m2 = blank_cell m"
    using s1 m2(2) by (simp_all add: cell_step_def)
  ultimately obtain m3 where "erase_loop slp st (map (record_at st m) is) m2 = (OK, m3)" "cells_ok st m3" "same_layout m2 m3"
    "cells_of st m3 = erase_cells (blank_cell m2) is (cells_of st m2)"
    using Cons.IH [of m2] Cons.prems(2) by auto
  moreover have "record_write_lock slp m (record_at st m i) = Inr (load64 m (record_at st m i), m1)"
    using cells_ok_unlocked [OF Cons.prems(1) ok(3)] by (simp add: record_write_lock_def m1_def)
  ultimately show ?case
    using m2(1) c2 f lay by (auto simp: erase_cells_def status_defs intro: same_layout_trans)
qed

text \<open>One record moved: from \<open>l\<close>, which the search has locked, to \<open>i\<close>.\<close>

lemma move_record_cells:
  assumes "cells_ok st m" "l < storage_count m" "i < l"
    and "m1 = store64 m (record_at st m l) (c_rev (cell_of st m l) OR SPIN_MASK)"
  obtains m2 m3 m4 where "record_write_lock slp m1 (record_at st m i) = Inr (c_rev (cell_of st m i), m2)"
    "storage_copy_record st m2 (record_at st m l) st m2 (record_at st m i) (record_get_timestamp m2 (record_at st m l)) True = (OK, m3)"
    "storage_clear_record st m3 (record_at st m l) = (OK, m4)"
    "cells_ok st (record_set_revision m4 (record_at st m i) (c_rev (cell_of st m l)))"
    "same_layout m (record_set_revision m4 (record_at st m i) (c_rev (cell_of st m l)))"
    "cells_of st (record_set_revision m4 (record_at st m i) (c_rev (cell_of st m l))) =
       (cells_of st m)[i := cell_of st m l, l := blank_cell m]"
proof -
  have ok: "stg_ok st m" "\<not> stg_read_only st" "i < storage_count m" using assms(1-3) by (auto simp: cells_ok_def)
  have s1: "cell_step st m l m1 ((cell_of st m l)\<lparr>c_rev := c_rev (cell_of st m l) OR SPIN_MASK\<rparr>)"
    unfolding assms(4) by (rule set_revision_step [OF ok(1) assms(2)])
  have n1: "storage_count m1 = storage_count m" "\<And>j. record_at st m1 j = record_at st m j" "blank_cell m1 = blank_cell m" "stg_ok st m1"
    using s1 by (simp_all add: cell_step_def)
  have c1: "cell_of st m1 i = cell_of st m i" using cell_step_cell [OF s1 ok(3)] assms(3) by simp
  then have rv: "load64 m1 (record_at st m i) = c_rev (cell_of st m i)" using n1(2) by (simp add: cell_of_def Let_def)
  define m2 where "m2 = store64 m1 (record_at st m1 i) (c_rev (cell_of st m i) OR SPIN_MASK)"
  have s2: "cell_step st m1 i m2 ((cell_of st m i)\<lparr>c_rev := c_rev (cell_of st m i) OR SPIN_MASK\<rparr>)"
    unfolding m2_def using set_revision_step [OF n1(4), of i] ok(3) n1(1) c1 by simp
  have n2: "storage_count m2 = storage_count m" "\<And>j. record_at st m2 j = record_at st m j" "blank_cell m2 = blank_cell m" "stg_ok st m2"
    using s2 n1 by (simp_all add: cell_step_def)
  have "unlocked (c_rev (cell_of st m i))"
    using cells_ok_unlocked [OF assms(1) ok(3)] by (simp add: cell_of_def Let_def)
  then have lock: "record_write_lock slp m1 (record_at st m i) = Inr (c_rev (cell_of st m i), m2)"
    using rv n1(2) by (simp add: record_write_lock_def m2_def)
  have l: "i < storage_count m2" "l < storage_count m2" using n2(1) ok(3) assms(2) by simp_all
  obtain m3 where m3: "storage_copy_record st m2 (record_at st m l) st m2 (record_at st m i)
      (record_get_timestamp m2 (record_at st m l)) True = (OK, m3)"
    "cell_step st m2 i m3 ((cell_of st m2 l)\<lparr>c_rev := c_rev (cell_of st m2 i)\<rparr>)"
    using copy_step [OF n2(4) l(2) n2(4) ok(2) l(1) refl refl] n2(2) by metis
  have n3: "storage_count m3 = storage_count m" "\<And>j. record_at st m3 j = record_at st m j" "blank_cell m3 = blank_cell m" "stg_ok st m3"
    using m3(2) n2 by (simp_all add: cell_step_def)
  obtain m4 where m4: "storage_clear_record st m3 (record_at st m l) = (OK, m4)" "cell_step st m3 l m4 (blank_cell m)"
    using clear_step [OF n3(4) ok(2), of l] n3 assms(2) by metis
  let ?m5 = "record_set_revision m4 (record_at st m i) (c_rev (cell_of st m l))"
  have n4: "i < storage_count m4" "\<And>j. record_at st m4 j = record_at st m j" "stg_ok st m4"
    using m4(2) n3 ok(3) by (simp_all add: cell_step_def)
  have s5: "cell_step st m4 i ?m5 ((cell_of st m4 i)\<lparr>c_rev := c_rev (cell_of st m l)\<rparr>)"
    using set_revision_step [OF n4(3,1)] n4(2) by (simp add: record_set_revision_def spin_unlock_def)
  have "cell_of st m2 l = (cell_of st m l)\<lparr>c_rev := c_rev (cell_of st m l) OR SPIN_MASK\<rparr>"
    using cell_step_cell [OF s2, of l] cell_step_cell [OF s1, of l] assms(2,3) n1(1) by simp
  then have "(cell_of st m4 i)\<lparr>c_rev := c_rev (cell_of st m l)\<rparr> = cell_of st m l"
    using cell_step_cell [OF m4(2), of i] cell_step_cell [OF m3(2), of i] assms(3) ok(3) n3(1) n2(1) by simp
  then have c5: "cells_of st ?m5 = (cells_of st m)[i := cell_of st m l, l := blank_cell m]"
    using s1 s2 m3(2) m4(2) s5 assms(3) by (simp add: cell_step_def list_update_swap)
  have "cell_of st m l \<in> set (cells_of st m)" using assms(2) by (simp add: cells_of_def)
  then have "set (cells_of st ?m5) \<subseteq> insert (blank_cell m) (set (cells_of st m))"
    using c5 set_update_subset_insert [of "(cells_of st m)[i := cell_of st m l]" l "blank_cell m"]
      set_update_subset_insert [of "cells_of st m" i "cell_of st m l"] by auto
  then have ok5: "cells_ok st ?m5" using cells_okI [OF assms(1) cell_stepD(2) [OF s5]] by simp
  have lay: "same_layout m ?m5"
    using s1 s2 m3(2) m4(2) s5 by (meson cell_stepD(1) same_layout_trans)
  from that [OF lock m3(1) m4(1) ok5 lay c5] show thesis .
qed

lemma compact_loop_cells:
  assumes "cells_ok st m" "\<forall>i\<in>set is. i < storage_count m" "\<And>k. b = Some k \<Longrightarrow> k < storage_count m"
  shows "\<exists>m'. compact_loop slp st (map (record_at st m) is) (at_index st m b) m = (OK, m') \<and> cells_ok st m' \<and>
    same_layout m m' \<and> cells_of st m' =
      compact_cells (blank_cell m) (case b of None \<Rightarrow> storage_count m | Some k \<Rightarrow> k) is (cells_of st m)"
  using assms
proof (induction "is" arbitrary: m b)
  case Nil
  then show ?case by simp
next
  case (Cons i "is")
  let ?b = "case b of None \<Rightarrow> storage_count m | Some k \<Rightarrow> k"
  note f = find_prev_used_cells [OF Cons.prems(1,3), where slp = slp]
  show ?case
  proof (cases "last_used ?b (cells_of st m)")
    case None
    then show ?thesis using Cons.prems f by (simp add: status_defs)
  next
    case (Some l)
    then have l: "l < storage_count m" using last_used_SomeD [OF Some] Cons.prems(3) by (auto split: option.splits)
    have ok: "stg_ok st m" using Cons.prems(1) by (simp add: cells_ok_def)
    have le: "record_at st m l \<le> record_at st m i \<longleftrightarrow> l \<le> i"
      using layout_okD(4) [OF stg_okD(1) [OF ok]] by (auto simp: record_at_def)
    define m1 where "m1 = store64 m (record_at st m l) (c_rev (cell_of st m l) OR SPIN_MASK)"
    have at: "at_index st m' (Some l) = Some (record_at st m l)" if "same_layout m m'" for m'
      using that by (simp add: at_index_def same_layout_records)
    show ?thesis
    proof (cases "l \<le> i")
      case True
      have "record_set_revision m1 (record_at st m l) (c_rev (cell_of st m l)) = m"
        by (simp add: m1_def record_set_revision_def spin_unlock_def cell_of_def Let_def)
      then show ?thesis
        using Cons.IH [of m "Some l"] Cons.prems l f True le at [of m] Some by (simp add: status_defs m1_def)
    next
      case False
      then have "i < l" by simp
      from move_record_cells [OF Cons.prems(1) l this m1_def, of slp] obtain m2 m3 m4 where
        mv: "record_write_lock slp m1 (record_at st m i) = Inr (c_rev (cell_of st m i), m2)"
        "storage_copy_record st m2 (record_at st m l) st m2 (record_at st m i) (record_get_timestamp m2 (record_at st m l)) True = (OK, m3)"
        "storage_clear_record st m3 (record_at st m l) = (OK, m4)"
        and r: "cells_ok st (record_set_revision m4 (record_at st m i) (c_rev (cell_of st m l)))"
        "same_layout m (record_set_revision m4 (record_at st m i) (c_rev (cell_of st m l)))"
        "cells_of st (record_set_revision m4 (record_at st m i) (c_rev (cell_of st m l))) =
           (cells_of st m)[i := cell_of st m l, l := blank_cell m]" by blast
      define m5 where "m5 = record_set_revision m4 (record_at st m i) (c_rev (cell_of st m l))"
      note r = r [folded m5_def]
      have n: "storage_count m5 = storage_count m" "blank_cell m5 = blank_cell m" "\<And>j. record_at st m5 j = record_at st m j"
        using same_layout_fields [OF r(2)] r(2) by (simp_all add: storage_count_def blank_cell_def same_layout_records)
      from Cons.IH [of m5 "Some l"] Cons.prems l r(1) n obtain m6 where
        "compact_loop slp st (map (record_at st m) is) (Some (record_at st m l)) m5 = (OK, m6)" "cells_ok st m6"
        "same_layout m5 m6" "cells_of st m6 = compact_cells (blank_cell m) l is (cells_of st m5)"
        using at [OF r(2)] by auto
      then show ?thesis
        using f Some False le mv r(2,3) l by (auto simp: status_defs m5_def [symmetric] m1_def [symmetric] intro: same_layout_trans)
    qed
  qed
qed
lemma compact_cells_settled: "\<forall>i\<in>set is. b \<le> i \<Longrightarrow> compact_cells blank b is cs = cs"
proof (induction "is" arbitrary: b)
  case (Cons i "is")
  show ?case
  proof (cases "last_used b cs")
    case (Some l)
    have "l < b" using last_used_SomeD [OF Some] by simp
    with Cons.prems have "l \<le> i" "\<forall>i\<in>set is. l \<le> i" by auto
    then show ?thesis using Some Cons.IH by simp
  qed simp
qed simp

lemma erase_cells_nth:
  "j < length cs \<Longrightarrow> erase_cells blank is cs ! j = (if j \<in> set is then blank else cs ! j)"
  unfolding erase_cells_def by (induction "is" arbitrary: cs) (auto simp: nth_list_update)

lemma mset_move:
  assumes "i < l" "l < length cs" "\<not> P (cs ! i)" "\<not> P blank"
  shows "filter_mset P (mset (cs[i := cs ! l, l := blank])) = filter_mset P (mset cs)"
proof -
  have "mset (cs[i := cs ! l, l := blank]) = add_mset blank (mset cs - {#cs ! i#})"
    using assms(1,2) by (simp add: mset_update)
  then show ?thesis using assms(3,4) by simp
qed

lemma compact_cells_prefix:
  assumes "sorted_wrt (<) is" "n \<le> b" "b \<le> length cs" "\<not> used blank"
    and "\<forall>j<length cs. used (cs ! j) \<longleftrightarrow> j < n \<and> j \<notin> set is"
  shows "\<exists>k\<le>length cs. (\<forall>j<length cs. used (compact_cells blank b is cs ! j) \<longleftrightarrow> j < k) \<and>
    filter_mset used (mset (compact_cells blank b is cs)) = filter_mset used (mset cs)"
  using assms
proof (induction "is" arbitrary: n b cs)
  case Nil
  then show ?case by (intro exI [of _ n]) auto
next
  case (Cons i "is")
  show ?case
  proof (cases "last_used b cs")
    case None
    then have "\<forall>j<length cs. \<not> used (cs ! j)"
      using last_used_NoneD [OF None] Cons.prems(2,5) by (meson leI less_le_trans)
    then show ?thesis using None by (intro exI [of _ 0]) simp
  next
    case (Some l)
    note l = last_used_SomeD [OF Some]
    have l': "l < length cs" "l < n" "l \<notin> set (i # is)" using l Cons.prems(3,5) by auto
    have top: "j \<le> l" if "j < n" "j \<notin> set (i # is)" for j
      using that l Cons.prems(2,3,5) by (meson leI less_le_trans)
    show ?thesis
    proof (cases "l \<le> i")
      case True
      have "\<forall>k\<in>set is. l \<le> k" using True Cons.prems(1) by auto
      then have "compact_cells blank b (i # is) cs = cs" using Some True by (simp add: compact_cells_settled)
      moreover have "used (cs ! j) \<longleftrightarrow> j < Suc l" if "j < length cs" for j
      proof
        assume "used (cs ! j)"
        then show "j < Suc l" using top [of j] Cons.prems(5) that by auto
      next
        assume "j < Suc l"
        then have "j \<notin> set (i # is)" using l'(3) True Cons.prems(1) by (cases "j = l") auto
        then show "used (cs ! j)" using \<open>j < Suc l\<close> l'(2) Cons.prems(5) that by auto
      qed
      ultimately show ?thesis using l'(1) by (intro exI [of _ "Suc l"]) auto
    next
      case False
      let ?cs = "cs[i := cs ! l, l := blank]"
      have i: "i < l" "i \<notin> set is" "\<not> used (cs ! i)" using False Cons.prems(1,5) l'(1) by auto
      have "used (?cs ! j) \<longleftrightarrow> j < l \<and> j \<notin> set is" if "j < length ?cs" for j
        using that i l' l top [of j] Cons.prems(4,5) by (auto simp: nth_list_update)
      then obtain k where "k \<le> length cs" "\<forall>j<length cs. used (compact_cells blank l is ?cs ! j) \<longleftrightarrow> j < k"
        "filter_mset used (mset (compact_cells blank l is ?cs)) = filter_mset used (mset ?cs)"
        using Cons.IH [of l l ?cs] Cons.prems(1,4) l'(1) by auto
      then show ?thesis
        using Some False mset_move [of i l cs used blank] i l'(1) Cons.prems(4) by auto
    qed
  qed
qed

lemma filter_nth: "filter P xs = map ((!) xs) (filter (\<lambda>j. P (xs ! j)) [0..<length xs])"
  using filter_map [of P "(!) xs" "[0..<length xs]"] by (simp add: map_nth comp_def)

lemma filter_prefix: "k \<le> n \<Longrightarrow> filter (\<lambda>j. j < k) [0..<n] = [0..<k]"
  by (induction n) (auto simp: le_Suc_eq)

lemma length_filter_notin:
  assumes "distinct is" "\<forall>i\<in>set is. i < n"
  shows "length (filter (\<lambda>j. j \<notin> set is) [0..<n]) = n - length is"
proof -
  have "set (filter (\<lambda>j. j \<notin> set is) [0..<n]) = {0..<n} - set is" by auto
  moreover have "set is \<subseteq> {0..<n}" using assms(2) by auto
  ultimately show ?thesis
    using distinct_card [of "filter (\<lambda>j. j \<notin> set is) [0..<n]"] distinct_card [OF assms(1)]
    by (simp add: card_Diff_subset)
qed

section \<open>Properties\<close>

lemma erase_records_cells:
  assumes "cells_ok st m" "\<forall>i\<in>set is. i < storage_count m"
  shows "\<exists>m'. erase_records slp st True (map (record_at st m) is) m = (OK, m') \<and> cells_ok st m' \<and> same_layout m m' \<and>
    cells_of st m' = compact_cells (blank_cell m) (storage_count m) is (erase_cells (blank_cell m) is (cells_of st m))"
proof -
  obtain m1 where m1: "erase_loop slp st (map (record_at st m) is) m = (OK, m1)" "cells_ok st m1" "same_layout m m1"
    "cells_of st m1 = erase_cells (blank_cell m) is (cells_of st m)"
    using erase_loop_cells [OF assms] by blast
  have f: "storage_count m1 = storage_count m" "blank_cell m1 = blank_cell m" "record_at st m1 = record_at st m"
    using same_layout_fields [OF m1(3)] m1(3) by (auto simp: storage_count_def blank_cell_def same_layout_records)
  obtain m2 where "compact_loop slp st (map (record_at st m) is) None m1 = (OK, m2)" "cells_ok st m2" "same_layout m1 m2"
    "cells_of st m2 = compact_cells (blank_cell m) (storage_count m) is (cells_of st m1)"
    using compact_loop_cells [OF m1(2), of "is" None slp] assms(2) f by (auto simp: at_index_def)
  then show ?thesis
    using m1 by (auto simp: erase_records_def status_defs intro: same_layout_trans)
qed

text \<open>
  C20.  Erasing records of a compact storage (the first \<open>n\<close> are in use) with \<open>-c\<close>, the arguments in
  ascending order, leaves a compact storage with exactly the other records in it: revision,
  timestamp, value and property of each, perhaps under another identifier.
\<close>

theorem eraser_compacts:
  assumes "cells_ok st m" "sorted_wrt (<) is" "\<forall>i\<in>set is. i < n" "n \<le> storage_count m"
    and "\<forall>j < storage_count m. used (cell_of st m j) \<longleftrightarrow> j < n"
  shows "\<exists>m'. erase_records slp st True (map (record_at st m) is) m = (OK, m') \<and> cells_ok st m' \<and>
    (\<forall>j < storage_count m. used (cell_of st m' j) \<longleftrightarrow> j < n - length is) \<and>
    mset (map (cell_of st m') [0..<n - length is]) = mset (map (cell_of st m) (filter (\<lambda>j. j \<notin> set is) [0..<n]))"
proof -
  let ?N = "storage_count m" and ?e = "erase_cells (blank_cell m) is (cells_of st m)"
  have lt: "\<forall>i\<in>set is. i < ?N" using assms(3,4) by auto
  obtain m' where m': "erase_records slp st True (map (record_at st m) is) m = (OK, m')" "cells_ok st m'" "same_layout m m'"
    "cells_of st m' = compact_cells (blank_cell m) ?N is ?e"
    using erase_records_cells [OF assms(1) lt] by blast
  have N: "storage_count m' = ?N" using same_layout_fields [OF m'(3)] by (simp add: storage_count_def)
  have blank: "\<not> used (blank_cell m)" by (simp add: used_def)
  have u: "used (?e ! j) \<longleftrightarrow> j < n \<and> j \<notin> set is" if "j < ?N" for j
    using that assms(5) blank by (simp add: erase_cells_nth)
  obtain k where k: "k \<le> ?N" "\<forall>j<?N. used (cells_of st m' ! j) \<longleftrightarrow> j < k"
    "filter_mset used (mset (cells_of st m')) = filter_mset used (mset ?e)"
    using compact_cells_prefix [OF assms(2), of n ?N ?e "blank_cell m"] u blank assms(4) m'(4) by auto
  have "filter used (cells_of st m') = map (cell_of st m') [0..<k]"
  proof -
    have "filter (\<lambda>j. used (cells_of st m' ! j)) [0..<?N] = [0..<k]"
      using filter_prefix [OF k(1)] k(2) by (metis (mono_tags, lifting) filter_cong atLeastLessThan_iff set_upt)
    then show ?thesis using k(1) N by (simp add: filter_nth [of used "cells_of st m'"])
  qed
  moreover have "filter used ?e = map (cell_of st m) (filter (\<lambda>j. j \<notin> set is) [0..<n])"
  proof -
    have "filter (\<lambda>j. used (?e ! j)) [0..<?N] = filter (\<lambda>j. j < n \<and> j \<notin> set is) [0..<?N]"
      using u by (intro filter_cong) auto
    also have "\<dots> = filter (\<lambda>j. j \<notin> set is) [0..<n]"
      using filter_prefix [OF assms(4)] by (metis (no_types, lifting) filter_filter filter_cong)
    finally show ?thesis using assms(4) by (auto simp: filter_nth [of used ?e] erase_cells_nth)
  qed
  ultimately have ms: "mset (map (cell_of st m') [0..<k]) = mset (map (cell_of st m) (filter (\<lambda>j. j \<notin> set is) [0..<n]))"
    using k(3) by (metis mset_filter)
  then have "k = n - length is"
    using length_filter_notin [of "is" n] strict_sorted_iff [of "is"] assms(2,3)
    by (metis length_map mset_eq_length length_upt minus_nat.diff_0 strict_sorted_equal)
  then show ?thesis using m'(1,2) ms k(2) N by auto
qed

text \<open>Storages whose records have any revisions.\<close>

lemma sample_cells:
  assumes "\<forall>w\<in>set [w0, w1, w2, w3]. unlocked w"
  obtains st m c0 c1 c2 c3 where "cells_ok st m" "cells_of st m = [c0, c1, c2, c3]"
    "c_rev c0 = w0" "c_rev c1 = w1" "c_rev c2 = w2" "c_rev c3 = w3" "storage_get_value_size m = 8"
proof -
  obtain st m where s: "stg_ok st m" "\<not> stg_read_only st" "storage_get_base_id m = 10" "storage_get_max_id m = 14"
    "\<forall>r\<in>set (storage_records st m). unlocked (load64 m r)" "storage_get_value_size m = 8"
    using sample_store by blast
  have n: "storage_count m = 4" using s(3,4) by (simp add: storage_count_def)
  have ok: "cells_ok st m" using s(1,2,5) by (auto simp: cells_ok_def cells_of_def cell_of_def storage_records_def Let_def)
  have set_rev: "\<exists>m'. cells_ok st m' \<and> storage_count m' = 4 \<and> storage_get_value_size m' = 8 \<and> cells_of st m' = (cells_of st m)[i := (cells_of st m ! i)\<lparr>c_rev := w\<rparr>]"
    if "cells_ok st m" "storage_count m = 4" "storage_get_value_size m = 8" "i < 4" "unlocked w" for m i w
  proof -
    have c: "cell_step st m i (store64 m (record_at st m i) w) ((cell_of st m i)\<lparr>c_rev := w\<rparr>)"
      using that set_revision_step [of st m i] by (simp add: cells_ok_def)
    then have "cells_ok st (store64 m (record_at st m i) w)"
      using that cells_okI [OF that(1) cell_stepD(2) [OF c], of "(cell_of st m i)\<lparr>c_rev := w\<rparr>"]
        set_update_subset_insert [of "cells_of st m" i] by (simp add: cell_step_def)
    then show ?thesis using c that same_layout_fields [OF cell_stepD(1) [OF c]] by (auto simp: cell_step_def)
  qed
  obtain m1 where m1: "cells_ok st m1" "storage_count m1 = 4" "storage_get_value_size m1 = 8" "cells_of st m1 = (cells_of st m)[0 := (cells_of st m ! 0)\<lparr>c_rev := w0\<rparr>]"
    using set_rev [OF ok n s(6), of 0 w0] assms by auto
  obtain m2 where m2: "cells_ok st m2" "storage_count m2 = 4" "storage_get_value_size m2 = 8" "cells_of st m2 = (cells_of st m1)[1 := (cells_of st m1 ! 1)\<lparr>c_rev := w1\<rparr>]"
    using set_rev [OF m1(1-3), of 1 w1] assms by auto
  obtain m3 where m3: "cells_ok st m3" "storage_count m3 = 4" "storage_get_value_size m3 = 8" "cells_of st m3 = (cells_of st m2)[2 := (cells_of st m2 ! 2)\<lparr>c_rev := w2\<rparr>]"
    using set_rev [OF m2(1-3), of 2 w2] assms by auto
  obtain m4 where m4: "cells_ok st m4" "storage_get_value_size m4 = 8" "cells_of st m4 = (cells_of st m3)[3 := (cells_of st m3 ! 3)\<lparr>c_rev := w3\<rparr>]"
    using set_rev [OF m3(1-3), of 3 w3] assms by auto
  obtain d0 d1 d2 d3 where "cells_of st m = [d0, d1, d2, d3]"
    using n length_cells_of [of st m] by (auto simp: numeral_eq_Suc length_Suc_conv simp del: length_cells_of)
  then show thesis using that [OF m4(1)] m1(4) m2(4) m3(4) m4(2,3) by (simp add: eval_nat_numeral)
qed

theorem eraser_compacts_witness:
  "\<exists>st m m'. cells_ok st m \<and> erase_records (\<lambda>_. OK) st True (map (record_at st m) [0]) m = (OK, m') \<and>
    cells_ok st m' \<and> cell_of st m' 0 = cell_of st m 1"
proof -
  obtain st m c0 c1 c2 c3 where s: "cells_ok st m" "cells_of st m = [c0, c1, c2, c3]" "c_rev c0 = 1" "c_rev c1 = 1"
    "c_rev c2 = 0" "c_rev c3 = 0"
    by (rule sample_cells [of 1 1 0 0]) (simp_all add: unlocked_def)
  have n: "storage_count m = 4" using s(2) length_cells_of [of st m] by simp
  have "cell_of st m 0 = c0" "cell_of st m 1 = c1" "cell_of st m 2 = c2" "cell_of st m 3 = c3"
    using s(2) n nth_cells_of [of 0 m st] nth_cells_of [of 1 m st] nth_cells_of [of 2 m st] nth_cells_of [of 3 m st]
    by simp_all
  then have "\<forall>j < storage_count m. used (cell_of st m j) \<longleftrightarrow> j < 2"
    using s n by (auto simp: used_def less_Suc_eq numeral_eq_Suc)
  from eraser_compacts [OF s(1) _ _ _ this, of "[0]" "\<lambda>_. OK"] n obtain m' where
    "erase_records (\<lambda>_. OK) st True (map (record_at st m) [0]) m = (OK, m')" "cells_ok st m'"
    "mset (map (cell_of st m') [0..<1]) = mset (map (cell_of st m) (filter (\<lambda>j. j \<notin> set [0]) [0..<2]))"
    by auto
  then show ?thesis using s(1) by (auto simp: upt_rec numeral_2_eq_2)
qed


section \<open>Copying, on cells\<close>

text \<open>The free cells from \<open>b\<close> on, and what the copier does: it puts the records into the first of them.\<close>

definition free_cells :: "nat \<Rightarrow> cell list \<Rightarrow> nat list" where
  "free_cells b cs = filter (\<lambda>j. \<not> used (cs ! j)) [b..<length cs]"

definition put_cells :: "cell list \<Rightarrow> (nat \<times> cell) list \<Rightarrow> cell list" where
  "put_cells cs ps = foldl (\<lambda>cs (j, c). cs[j := c]) cs ps"

lemma find_is_filter: "find P xs = (case filter P xs of [] \<Rightarrow> None | x # _ \<Rightarrow> Some x)"
  by (induction xs) auto

lemma next_free_hd: "next_free b cs = (case free_cells b cs of [] \<Rightarrow> None | j # js \<Rightarrow> Some j)"
  by (simp add: next_free_def free_cells_def find_is_filter)

lemma filter_upt_Cons:
  "filter P [b..<n] = j # js \<Longrightarrow> b \<le> j \<and> j < n \<and> P j \<and> js = filter P [Suc j..<n]"
proof (induction "n - b" arbitrary: b)
  case (Suc k)
  then have "[b..<n] = b # [Suc b..<n]" by (simp add: upt_conv_Cons)
  moreover have "k = n - Suc b" "b < n" using Suc.hyps(2) by simp_all
  ultimately show ?case using Suc.hyps(1) [of "Suc b"] Suc.prems by (cases "P b") auto
qed simp

lemma free_cells_Cons:
  "free_cells b cs = j # js \<Longrightarrow> b \<le> j \<and> j < length cs \<and> \<not> used (cs ! j) \<and> js = free_cells (Suc j) (cs[j := c])"
  unfolding free_cells_def by (drule filter_upt_Cons) (auto intro!: filter_cong)

text \<open>One record copied: the source is locked and restored, the free record \<open>j\<close> takes its cell.\<close>

lemma copy_record_cells:
  assumes "cells_ok ss sm" "cells_ok ds dm" "i < storage_count sm" "j < storage_count dm"
    and "storage_get_value_size sm = storage_get_value_size dm" "storage_get_property_size sm = storage_get_property_size dm"
  obtains sm1 dm2 where "record_write_lock slp sm (record_at ss sm i) = Inr (c_rev (cell_of ss sm i), sm1)"
    "record_set_revision sm1 (record_at ss sm i) (c_rev (cell_of ss sm i)) = sm"
    "storage_copy_record ss sm1 (record_at ss sm i) ds (store64 dm (record_at ds dm j) SPIN_MASK) (record_at ds dm j)
       (record_get_timestamp sm1 (record_at ss sm i)) True = (OK, dm2)"
    "cells_ok ds (record_set_revision dm2 (record_at ds dm j) (c_rev (cell_of ss sm i)))"
    "same_layout dm (record_set_revision dm2 (record_at ds dm j) (c_rev (cell_of ss sm i)))"
    "cells_of ds (record_set_revision dm2 (record_at ds dm j) (c_rev (cell_of ss sm i))) = (cells_of ds dm)[j := cell_of ss sm i]"
proof -
  define c where "c = cell_of ss sm i"
  define dm1 where "dm1 = store64 dm (record_at ds dm j) SPIN_MASK"
  define sm1 where "sm1 = store64 sm (record_at ss sm i) (c_rev c OR SPIN_MASK)"
  have ok: "stg_ok ss sm" "stg_ok ds dm" "\<not> stg_read_only ds" using assms(1,2) by (auto simp: cells_ok_def)
  have s1: "cell_step ds dm j dm1 ((cell_of ds dm j)\<lparr>c_rev := SPIN_MASK\<rparr>)"
    unfolding dm1_def by (rule set_revision_step [OF ok(2) assms(4)])
  have s2: "cell_step ss sm i sm1 (c\<lparr>c_rev := c_rev c OR SPIN_MASK\<rparr>)"
    unfolding sm1_def c_def by (rule set_revision_step [OF ok(1) assms(3)])
  have restored: "record_set_revision sm1 (record_at ss sm i) (c_rev c) = sm"
    by (simp add: sm1_def c_def record_set_revision_def spin_unlock_def cell_of_def Let_def)
  have lock: "record_write_lock slp sm (record_at ss sm i) = Inr (c_rev c, sm1)"
    using cells_ok_unlocked [OF assms(1,3)] by (simp add: record_write_lock_def sm1_def c_def cell_of_def Let_def)
  have n: "stg_ok ss sm1" "i < storage_count sm1" "\<And>k. record_at ss sm1 k = record_at ss sm k" "cell_of ss sm1 i = c\<lparr>c_rev := c_rev c OR SPIN_MASK\<rparr>"
    using s2 assms(3) cell_step_cell [OF s2 assms(3)] by (simp_all add: cell_step_def)
  have n1: "stg_ok ds dm1" "j < storage_count dm1" "\<And>k. record_at ds dm1 k = record_at ds dm k" "storage_count dm1 = storage_count dm"
    using s1 assms(4) by (simp_all add: cell_step_def)
  have sz: "storage_get_value_size sm1 = storage_get_value_size dm1" "storage_get_property_size sm1 = storage_get_property_size dm1"
    using same_layout_fields [OF cell_stepD(1) [OF s1]] same_layout_fields [OF cell_stepD(1) [OF s2]] assms(5,6) by simp_all
  obtain dm2 where dm2: "storage_copy_record ss sm1 (record_at ss sm i) ds dm1 (record_at ds dm j)
      (record_get_timestamp sm1 (record_at ss sm i)) True = (OK, dm2)"
    "cell_step ds dm1 j dm2 ((cell_of ss sm1 i)\<lparr>c_rev := c_rev (cell_of ds dm1 j)\<rparr>)"
    using copy_step [OF n(1,2) n1(1) ok(3) n1(2) sz] n(3) n1(3) by metis
  have n2: "stg_ok ds dm2" "j < storage_count dm2" "\<And>k. record_at ds dm2 k = record_at ds dm k"
    using dm2(2) n1 by (simp_all add: cell_step_def)
  let ?dm3 = "record_set_revision dm2 (record_at ds dm j) (c_rev c)"
  have s3: "cell_step ds dm2 j ?dm3 ((cell_of ds dm2 j)\<lparr>c_rev := c_rev c\<rparr>)"
    using set_revision_step [OF n2(1,2)] n2(3) by (simp add: record_set_revision_def spin_unlock_def)
  have "(cell_of ds dm2 j)\<lparr>c_rev := c_rev c\<rparr> = c" using cell_step_cell [OF dm2(2) n1(2)] n(4) by simp
  then have c3: "cells_of ds ?dm3 = (cells_of ds dm)[j := c]" using s1 dm2(2) s3 by (simp add: cell_step_def)
  have lay: "same_layout dm ?dm3" using s1 dm2(2) s3 by (meson cell_stepD(1) same_layout_trans)
  have "c \<in> set (cells_of ss sm)" using assms(3) by (simp add: c_def cells_of_def)
  then have "cells_ok ds ?dm3"
    using cells_okI [OF assms(2) cell_stepD(2) [OF s3], of c] assms(1) c3 set_update_subset_insert [of "cells_of ds dm" j c]
    by (simp add: cells_ok_def)
  from that [unfolded c_def [symmetric] dm1_def [symmetric], OF lock restored dm2(1) this lay c3] show thesis .
qed

text \<open>
  The loop of the copier, on storages whose records have the same shape: the source stays as it
  is, and a storage with too few free records is filled before the copier gives up.
\<close>

lemma copy_loop_cells:
  assumes "cells_ok ss sm" "cells_ok ds dm" "\<forall>i\<in>set is. i < storage_count sm" "\<And>k. b = Some k \<Longrightarrow> k < storage_count dm"
    and "storage_get_value_size sm = storage_get_value_size dm" "storage_get_property_size sm = storage_get_property_size dm"
    and "js = free_cells (case b of None \<Rightarrow> 0 | Some k \<Rightarrow> Suc k) (cells_of ds dm)"
  shows "\<exists>dm'. copy_loop slp verbose ss ds (map (record_at ss sm) is) (at_index ds dm b) sm dm =
      (if length is \<le> length js then OK else STORAGE_FULL, sm, dm') \<and> cells_ok ds dm' \<and> same_layout dm dm' \<and>
    cells_of ds dm' = put_cells (cells_of ds dm) (zip js (map (cell_of ss sm) is))"
  using assms(2-)
proof (induction "is" arbitrary: dm b js)
  case Nil
  then show ?case by (simp add: put_cells_def)
next
  case (Cons i "is")
  have f: "storage_find_next_unused slp ds dm (at_index ds dm b) True True =
    (case next_free (case b of None \<Rightarrow> 0 | Some i \<Rightarrow> Suc i) (cells_of ds dm) of
       None \<Rightarrow> (FALSE_ST, None, dm)
     | Some l \<Rightarrow> (TRUE_ST, Some (record_at ds dm l, 0), store64 dm (record_at ds dm l) SPIN_MASK))"
    using Cons.prems(3) by (rule find_next_unused_cells [OF Cons.prems(1)])
  show ?case
  proof (cases js)
    case Nil
    then show ?thesis using f Cons.prems(1,6) by (simp add: next_free_hd status_defs put_cells_def)
  next
    case (Cons j js')
    let ?c = "cell_of ss sm i"
    have j: "j < storage_count dm" "\<not> used (cells_of ds dm ! j)" "js' = free_cells (Suc j) ((cells_of ds dm)[j := ?c])"
      using free_cells_Cons [OF Cons.prems(6) [symmetric, unfolded Cons], of ?c] by auto
    have i: "i < storage_count sm" using Cons.prems(2) by simp
    from copy_record_cells [OF assms(1) Cons.prems(1) i j(1) Cons.prems(4,5), of slp] obtain sm1 dm2 where
      cp: "record_write_lock slp sm (record_at ss sm i) = Inr (c_rev ?c, sm1)"
        "record_set_revision sm1 (record_at ss sm i) (c_rev ?c) = sm"
        "storage_copy_record ss sm1 (record_at ss sm i) ds (store64 dm (record_at ds dm j) SPIN_MASK) (record_at ds dm j)
          (record_get_timestamp sm1 (record_at ss sm i)) True = (OK, dm2)"
      and r: "cells_ok ds (record_set_revision dm2 (record_at ds dm j) (c_rev ?c))"
        "same_layout dm (record_set_revision dm2 (record_at ds dm j) (c_rev ?c))"
        "cells_of ds (record_set_revision dm2 (record_at ds dm j) (c_rev ?c)) = (cells_of ds dm)[j := ?c]" by blast
    define dm3 where "dm3 = record_set_revision dm2 (record_at ds dm j) (c_rev ?c)"
    note ok3 = r(1) [folded dm3_def] and lay = r(2) [folded dm3_def] and c3 = r(3) [folded dm3_def]
    have n3: "storage_count dm3 = storage_count dm" "record_at ds dm3 = record_at ds dm"
      using same_layout_fields [OF lay] lay by (auto simp: storage_count_def same_layout_records)
    have idx: "storage_get_id ds dm3 (record_at ds dm j) True = Inr (int j)"
      using storage_get_id_record_at [of ds dm3 j] ok3 n3 j(1) by (simp add: cells_ok_def)
    obtain dm4 where dm4: "copy_loop slp verbose ss ds (map (record_at ss sm) is) (Some (record_at ds dm j)) sm dm3 =
        (if length is \<le> length js' then OK else STORAGE_FULL, sm, dm4)" "cells_ok ds dm4" "same_layout dm3 dm4"
      "cells_of ds dm4 = put_cells (cells_of ds dm3) (zip js' (map (cell_of ss sm) is))"
      using Cons.IH [OF ok3, of "Some j" js'] Cons.prems(2,4,5) same_layout_fields [OF lay] n3 j(1,3) c3 by (auto simp: at_index_def)
    have "next_free (case b of None \<Rightarrow> 0 | Some k \<Rightarrow> Suc k) (cells_of ds dm) = Some j"
      using Cons.prems(6) [symmetric, unfolded Cons] by (simp add: next_free_hd)
    then have "copy_loop slp verbose ss ds (map (record_at ss sm) (i # is)) (at_index ds dm b) sm dm =
        copy_loop slp verbose ss ds (map (record_at ss sm) is) (Some (record_at ds dm j)) sm dm3"
      using f cp idx by (simp add: status_defs dm3_def [symmetric] Let_def)
    then show ?thesis
      using dm4 c3 lay Cons by (auto simp: put_cells_def intro: same_layout_trans)
  qed
qed
lemma put_cells_spec:
  assumes "distinct js" "\<forall>j\<in>set js. j < length cs" "length ds \<le> length js"
  shows "length (put_cells cs (zip js ds)) = length cs \<and>
    (\<forall>k<length ds. put_cells cs (zip js ds) ! (js ! k) = ds ! k) \<and>
    (\<forall>p<length cs. p \<notin> set (take (length ds) js) \<longrightarrow> put_cells cs (zip js ds) ! p = cs ! p)"
  using assms
proof (induction js arbitrary: cs ds)
  case Nil
  then show ?case by (simp add: put_cells_def)
next
  case (Cons j js)
  show ?case
  proof (cases ds)
    case Nil
    then show ?thesis by (simp add: put_cells_def)
  next
    case (Cons d ds')
    let ?cs = "cs[j := d]" and ?r = "put_cells (cs[j := d]) (zip js ds')"
    have r: "put_cells cs (zip (j # js) ds) = ?r" by (simp add: Cons put_cells_def)
    have ih: "length ?r = length cs" "\<forall>k<length ds'. ?r ! (js ! k) = ds' ! k"
      "\<forall>p<length cs. p \<notin> set (take (length ds') js) \<longrightarrow> ?r ! p = ?cs ! p"
      using Cons.IH [of ?cs ds'] Cons.prems Cons by simp_all
    have "j \<notin> set (take (length ds') js)" "j < length cs" using Cons.prems by (auto dest: in_set_takeD)
    then show ?thesis
      using ih r Cons by (auto simp: nth_Cons' less_Suc_eq_0_disj)
  qed
qed

text \<open>
  C24.  The copier puts the records, in the order of the arguments, into the first unused records of
  the destination: each copy has revision, timestamp, value and property of its source, every
  other record of the destination stays as it is, and so does the source.
\<close>

theorem copier_copies:
  assumes "cells_ok ss sm" "cells_ok ds dm" "\<forall>i\<in>set is. i < storage_count sm"
    and "storage_get_value_size sm = storage_get_value_size dm" "storage_get_property_size sm = storage_get_property_size dm"
    and "js = filter (\<lambda>j. \<not> used (cell_of ds dm j)) [0..<storage_count dm]" "length is \<le> length js"
  shows "\<exists>dm'. copy_loop slp verbose ss ds (map (record_at ss sm) is) None sm dm = (OK, sm, dm') \<and> cells_ok ds dm' \<and>
    (\<forall>k<length is. cell_of ds dm' (js ! k) = cell_of ss sm (is ! k)) \<and>
    (\<forall>p < storage_count dm. p \<notin> set (take (length is) js) \<longrightarrow> cell_of ds dm' p = cell_of ds dm p)"
proof -
  have js: "js = free_cells 0 (cells_of ds dm)" unfolding assms(6) free_cells_def by (auto intro!: filter_cong)
  obtain dm' where d: "copy_loop slp verbose ss ds (map (record_at ss sm) is) None sm dm = (OK, sm, dm')" "cells_ok ds dm'"
    "same_layout dm dm'" "cells_of ds dm' = put_cells (cells_of ds dm) (zip js (map (cell_of ss sm) is))"
    using copy_loop_cells [OF assms(1-3) _ assms(4,5), of None js slp verbose] js assms(7) by (auto simp: at_index_def)
  have "distinct js" "\<forall>j\<in>set js. j < length (cells_of ds dm)" by (simp_all add: assms(6))
  note p = put_cells_spec [OF this, of "map (cell_of ss sm) is"]
  have n: "storage_count dm' = storage_count dm" using same_layout_fields [OF d(3)] by (simp add: storage_count_def)
  have "js ! k < storage_count dm" if "k < length is" for k
    using that assms(7) nth_mem [of k js] by (simp add: assms(6))
  then have "cell_of ds dm' (js ! k) = cell_of ss sm (is ! k)" if "k < length is" for k
    using p that assms(7) n d(4) nth_cells_of [of "js ! k" dm' ds] by simp
  moreover have "cell_of ds dm' q = cell_of ds dm q" if "q < storage_count dm" "q \<notin> set (take (length is) js)" for q
    using p that assms(7) n d(4) nth_cells_of [of q dm' ds] nth_cells_of [of q dm ds] by simp
  ultimately show ?thesis using d(1,2) by blast
qed

text \<open>
  When the values of the two storages differ in size, the copier reports it, but the unused
  record it had chosen is then in use: it has the revision of the source and its old contents.
\<close>

theorem copier_unequal:
  assumes "cells_ok ss sm" "cells_ok ds dm" "i < storage_count sm" "next_free 0 (cells_of ds dm) = Some j"
    and "storage_get_value_size sm \<noteq> storage_get_value_size dm"
  shows "\<exists>dm'. copy_loop slp verbose ss ds [record_at ss sm i] None sm dm = (STORAGE_UNEQUAL, sm, dm') \<and>
    cells_of ds dm' = (cells_of ds dm)[j := (cell_of ds dm j)\<lparr>c_rev := c_rev (cell_of ss sm i)\<rparr>]"
proof -
  let ?r = "record_at ss sm i" and ?d = "record_at ds dm j" and ?c = "cell_of ss sm i"
  define dm1 where "dm1 = store64 dm ?d SPIN_MASK"
  define sm1 where "sm1 = store64 sm ?r (c_rev ?c OR SPIN_MASK)"
  have j: "j < storage_count dm" using next_free_SomeD [OF assms(4)] by simp
  have ok: "stg_ok ss sm" "stg_ok ds dm" "\<not> stg_read_only ds" using assms(1,2) by (simp_all add: cells_ok_def)
  have s1: "cell_step ds dm j dm1 ((cell_of ds dm j)\<lparr>c_rev := SPIN_MASK\<rparr>)"
    unfolding dm1_def by (rule set_revision_step [OF ok(2) j])
  have s2: "cell_step ss sm i sm1 (?c\<lparr>c_rev := c_rev ?c OR SPIN_MASK\<rparr>)"
    unfolding sm1_def by (rule set_revision_step [OF ok(1) assms(3)])
  have find: "storage_find_next_unused slp ds dm None True True = (TRUE_ST, Some (?d, 0), dm1)"
    using find_next_unused_cells [OF assms(2), of None slp] assms(4) by (simp add: at_index_def dm1_def)
  have lock: "record_write_lock slp sm ?r = Inr (c_rev ?c, sm1)"
    using cells_ok_unlocked [OF assms(1,3)] by (simp add: record_write_lock_def sm1_def cell_of_def Let_def)
  have sz: "storage_get_value_size sm1 \<noteq> storage_get_value_size dm1"
    using assms(5) same_layout_fields [OF cell_stepD(1) [OF s1]] same_layout_fields [OF cell_stepD(1) [OF s2]] by simp
  have cp: "storage_copy_record ss sm1 ?r ds dm1 ?d (record_get_timestamp sm1 ?r) True = (STORAGE_UNEQUAL, dm1)"
    using is_record_bounds [OF ok(1) is_record_at [OF assms(3)]] is_record_bounds [OF ok(2) is_record_at [OF j]] ok(3) sz
    by (simp add: storage_copy_record_def)
  have restored: "record_set_revision sm1 ?r (c_rev ?c) = sm"
    by (simp add: sm1_def record_set_revision_def spin_unlock_def cell_of_def Let_def)
  have s3: "cell_step ds dm1 j (record_set_revision dm1 ?d (c_rev ?c)) ((cell_of ds dm1 j)\<lparr>c_rev := c_rev ?c\<rparr>)"
    using set_revision_step [OF cell_stepD(2) [OF s1], of j "c_rev ?c"] j s1
    by (simp add: record_set_revision_def spin_unlock_def cell_step_def)
  then have "cells_of ds (record_set_revision dm1 ?d (c_rev ?c)) = (cells_of ds dm)[j := (cell_of ds dm j)\<lparr>c_rev := c_rev ?c\<rparr>]"
    using s1 cell_step_cell [OF s1 j] by (simp add: cell_step_def)
  then show ?thesis using find lock cp restored by (simp add: status_defs Let_def)
qed
theorem copier_copies_witness:
  "\<exists>st m dm'. cells_ok st m \<and> copy_loop (\<lambda>_. OK) True st st (map (record_at st m) [0]) None m m = (OK, m, dm') \<and>
    cell_of st dm' 2 = cell_of st m 0 \<and> c_rev (cell_of st m 0) = 9"
proof -
  obtain st m c0 c1 c2 c3 where s: "cells_ok st m" "cells_of st m = [c0, c1, c2, c3]" "c_rev c0 = 9" "c_rev c1 = 1"
    "c_rev c2 = 0" "c_rev c3 = 0"
    by (rule sample_cells [of 9 1 0 0]) (simp_all add: unlocked_def)
  have n: "storage_count m = 4" using s(2) length_cells_of [of st m] by simp
  have c: "cell_of st m 0 = c0" "cell_of st m 1 = c1" "cell_of st m 2 = c2" "cell_of st m 3 = c3"
    using s(2) n nth_cells_of [of 0 m st] nth_cells_of [of 1 m st] nth_cells_of [of 2 m st] nth_cells_of [of 3 m st]
    by simp_all
  have "[0..<storage_count m] = [0, 1, 2, 3]" by (simp add: n upt_rec)
  then have "[2, 3] = filter (\<lambda>j. \<not> used (cell_of st m j)) [0..<storage_count m]"
    using c s(3-6) by (simp add: used_def del: One_nat_def)
  from copier_copies [OF s(1) s(1) _ refl refl this, of "[0]" "\<lambda>_. OK" True] show ?thesis
    using n s(1,3) c(1) by auto
qed

text \<open>A storage like the sample one, with values of 16 bytes.\<close>

lemma sample_store16:
  "\<exists>st m. cells_ok st m \<and> storage_get_value_size m = 16 \<and> 0 < storage_count m"
proof -
  obtain st m where c: "storage_create (fresh_env (\<lambda>_. 0)) close_ok True True (Some ''f'')
      (O_RDWR OR O_CREAT) True 10 14 16 4 4 None = (OK, Some st, m)"
    using fresh_create [of 10 14 16 4 None "\<lambda>_. 0" "''f''" True 4] by auto
  have "create_fits 12 16 4 4 (14 - 10)"
    by (simp add: create_fits_def ref_hdr_size_def ref_rec_size_def align8_def)
  moreover have "(O_RDWR OR O_CREAT) AND O_CREAT \<noteq> 0" "(O_RDWR OR O_CREAT) AND O_EXCL = 0"
    by (simp_all add: O_RDWR_def O_CREAT_def O_EXCL_def)
  moreover have "is_long 10" "is_long 14" by (simp_all add: is_long_def LONG_MAX_def LONG_MIN_def)
  ultimately have s: "stg_ok st m" "\<not> stg_read_only st" "storage_get_value_size m = 16" "storage_get_base_id m = 10"
    "storage_get_max_id m = 14" "\<forall>r\<in>set (storage_records st m). unlocked (load64 m r)"
    using storage_created [OF c, of 12] by (auto simp: status_defs)
  then show ?thesis
    by (intro exI [of _ st] exI [of _ m])
      (auto simp: cells_ok_def cells_of_def cell_of_def storage_records_def storage_count_def Let_def)
qed

theorem copier_unequal_witness:
  "\<exists>ss sm ds dm dm'. cells_ok ss sm \<and> cells_ok ds dm \<and>
    copy_loop (\<lambda>_. OK) False ss ds [record_at ss sm 0] None sm dm = (STORAGE_UNEQUAL, sm, dm') \<and>
    \<not> used (cell_of ds dm 0) \<and> cells_of ds dm' ! 0 = (cell_of ds dm 0)\<lparr>c_rev := c_rev (cell_of ss sm 0)\<rparr>"
proof -
  obtain ds dm c0 c1 c2 c3 where s: "cells_ok ds dm" "cells_of ds dm = [c0, c1, c2, c3]" "c_rev c0 = 0"
    "storage_get_value_size dm = 8"
    by (rule sample_cells [of 0 0 0 0]) (simp_all add: unlocked_def)
  obtain ss sm where t: "cells_ok ss sm" "storage_get_value_size sm = 16" "0 < storage_count sm" using sample_store16 by blast
  have n: "storage_count dm = 4" using s(2) length_cells_of [of ds dm] by simp
  have u: "\<not> used (cells_of ds dm ! 0)" using s(2,3) by (simp add: used_def)
  then have "next_free 0 (cells_of ds dm) = Some 0" using n by (simp add: next_free_def upt_rec)
  moreover have "storage_get_value_size dm = 8" using s(4) .
  ultimately obtain dm' where "copy_loop (\<lambda>_. OK) False ss ds [record_at ss sm 0] None sm dm = (STORAGE_UNEQUAL, sm, dm')"
    "cells_of ds dm' = (cells_of ds dm)[0 := (cell_of ds dm 0)\<lparr>c_rev := c_rev (cell_of ss sm 0)\<rparr>]"
    using copier_unequal [OF t(1) s(1) t(3), of 0 "\<lambda>_. OK" False] t(2) by auto
  then show ?thesis
    using s(1) t(1) u n nth_cells_of [of 0 dm ds] by (intro exI conjI) auto
qed

end
