(* ===== verification/Testers.thy ===== *)
theory Testers
  imports Batch Toucher Twist Latency Cmdline
begin

text \<open>
  The pair of test programs, \<open>writer.c\<close> and \<open>reader.c\<close>: the writer numbers its updates and stores the
  number in the record it updates, the reader follows the change queue and compares.  System calls,
  clocks and the memory the other process writes to are arguments; the name of the program that
  error messages start with, and the printed statistics, are left out.
\<close>

section \<open>The writer\<close>

definition MAX_ID :: nat where "MAX_ID = 1000"

definition writer_update ::
  "(nat \<Rightarrow> status) \<Rightarrow> status \<Rightarrow> microsec result \<Rightarrow> status \<Rightarrow> storage \<Rightarrow> microsec \<Rightarrow> mem \<Rightarrow> ident \<Rightarrow> int \<Rightarrow> status \<times> mem" where
  "writer_update slp raised clk slept st delay m i n =
     (if FAILED raised then (raised, m)
      else case storage_get_record st m i True of
        Inl err \<Rightarrow> (err, m)
      | Inr r \<Rightarrow>
          (case clk of
             Inl err \<Rightarrow> (err, m)
           | Inr now \<Rightarrow>
               (case record_write_lock slp m r of
                  Inl err \<Rightarrow> (err, m)
                | Inr (rv, m) \<Rightarrow>
                    let m = store64 m (record_get_value_ref r) (word_of_int n);
                        m = record_set_timestamp m r now;
                        m = record_set_revision m r (NEXT_REV rv)
                    in case (if storage_get_queue_capacity m > 0 then storage_write_queue st m i else (OK, m)) of
                         (res, m) \<Rightarrow>
                           if FAILED res then (res, m)
                           else if delay > 0 \<and> FAILED slept then (slept, m) else (OK, m))))"

record writer_env =
  we_slp :: "nat \<Rightarrow> status"
  we_signals :: "status list"
  we_create :: create_env
  we_close :: destroy_env
  we_malloc :: bool
  we_toucher_malloc :: bool
  we_target_malloc :: bool
  we_thread :: status
  we_twist :: "twist option"
  we_time :: u32
  we_raised :: "nat \<Rightarrow> status"
  we_clock :: "nat \<Rightarrow> microsec result"
  we_slept :: "nat \<Rightarrow> status"

text \<open>
  The identifier of update \<open>n\<close>: the next random number, or one after the other.  Both loops go on
  until an update fails; one unit of fuel per update.
\<close>

definition writer_next :: "twist option \<Rightarrow> nat \<Rightarrow> ident \<times> twist option" where
  "writer_next tw n =
     (case tw of
        Some tw \<Rightarrow> (case twist_rand tw of (x, tw) \<Rightarrow> (int (unat x mod MAX_ID), Some tw))
      | None \<Rightarrow> (int (n mod MAX_ID), None))"

fun writer_loop ::
  "nat \<Rightarrow> writer_env \<Rightarrow> storage \<Rightarrow> microsec \<Rightarrow> twist option \<Rightarrow> nat \<Rightarrow> mem \<Rightarrow> (status \<times> mem) option" where
  "writer_loop 0 e st delay tw n m = None"
| "writer_loop (Suc fuel) e st delay tw n m =
     (case writer_next tw n of
        (i, tw) \<Rightarrow>
          (case writer_update (we_slp e) (we_raised e n) (we_clock e n) (we_slept e n) st delay m i (int n) of
             (res, m) \<Rightarrow> if FAILED res then Some (res, m) else writer_loop fuel e st delay tw (Suc n) m))"

record writer_opts =
  wo_q_capacity :: int
  wo_random :: bool
  wo_touch :: microsec
  wo_stamp :: bool

definition writer_option :: "writer_opts \<Rightarrow> char \<Rightarrow> string \<Rightarrow> writer_opts run" where
  "writer_option cfg ch arg =
     (if ch = CHR ''L'' then Runs (cfg\<lparr>wo_stamp := True\<rparr>)
      else if ch = CHR ''p'' then Runs cfg
      else if ch = CHR ''q'' then or_die (a2i_number to_ulong arg (wo_q_capacity cfg)) (\<lambda>n. Runs (cfg\<lparr>wo_q_capacity := n\<rparr>))
      else if ch = CHR ''r'' then Runs (cfg\<lparr>wo_random := True\<rparr>)
      else if ch = CHR ''T'' then or_die (a2i_number wrap_long arg (wo_touch cfg)) (\<lambda>n. Runs (cfg\<lparr>wo_touch := n\<rparr>))
      else if ch = CHR ''v'' then show_version
      else show_syntax)"

text \<open>
  \<open>main\<close>.  Whatever ends a loop is a failure, so that the first test after \<open>finish\<close> succeeds and the
  program ends there, with \<open>error_report_fatal\<close>.
\<close>

definition writer_main :: "nat \<Rightarrow> writer_env \<Rightarrow> string list \<Rightarrow> (int \<times> mem) option" where
  "writer_main fuel e argv =
     (let m0 = ce_contents (we_create e) in
      case getopt ''Lp:q:rT:v'' argv of (opts, operands) \<Rightarrow>
      case for_options writer_option opts
             \<lparr>wo_q_capacity = 256, wo_random = False, wo_touch = 1000000, wo_stamp = False\<rparr> of
        Exits n \<Rightarrow> Some (n, m0)
      | Runs cfg \<Rightarrow>
          if length operands \<noteq> 2 then Some (- SYNTAX_ERROR, m0)
          else case a2i_number wrap_long (operands ! 1) 0 of
            Inl err \<Rightarrow> Some (exit_code err, m0)
          | Inr delay \<Rightarrow>
              if FAILED (first_failed (we_signals e)) then Some (exit_code (first_failed (we_signals e)), m0)
              else case storage_create (we_create e) (we_close e) (we_malloc e) True (Some (operands ! 0))
                          (O_RDWR OR O_CREAT) False 0 (int MAX_ID) 8 0 (word_of_int (wo_q_capacity cfg))
                          (Some (bytes_of ''TEST'')) of
                (res, None, m) \<Rightarrow> Some (exit_code res, m)
              | (res, Some st, m) \<Rightarrow>
                  if FAILED res then Some (exit_code res, m)
                  else case storage_reset st m of (res, m) \<Rightarrow>
                    if FAILED res then Some (exit_code res, m)
                    else case toucher_create True (we_toucher_malloc e) (we_thread e) (wo_touch cfg) of
                      Inl err \<Rightarrow> Some (exit_code err, m)
                    | Inr tc \<Rightarrow>
                        let res = fst (toucher_add_storage (we_slp e) (we_target_malloc e) tc 1) in
                        if FAILED res then Some (exit_code res, m)
                        else if wo_random cfg then
                          (case we_twist e of
                             None \<Rightarrow> Some (exit_code NO_MEMORY, m)
                           | Some tw \<Rightarrow>
                               map_option (apfst exit_code) (writer_loop fuel e st delay (Some (twist_seed tw (we_time e))) 0 m))
                        else map_option (apfst exit_code) (writer_loop fuel e st delay None 0 m))"

section \<open>The reader\<close>

definition DATA_UPDATED :: u32 where "DATA_UPDATED = 1"
definition DATA_SKIPPED :: u32 where "DATA_SKIPPED = 2"
definition QUEUE_OVERRUN :: u32 where "QUEUE_OVERRUN = 4"

record reader_st =
  rd_event :: u32
  rd_latency :: "latency option"
  rd_old_head :: u64
  rd_last_print :: microsec
  rd_shown :: "u32 list"

text \<open>The memory is the one the value is read from, so that the closing check of the revision succeeds.\<close>

definition reader_update ::
  "(nat \<Rightarrow> status) \<Rightarrow> status \<Rightarrow> microsec result \<Rightarrow> storage \<Rightarrow> mem \<Rightarrow> u64 \<Rightarrow> reader_st \<Rightarrow> status \<times> reader_st" where
  "reader_update slp raised clk st m qi rs =
     (if FAILED raised then (raised, rs)
      else case storage_read_queue m qi True of
        Inl err \<Rightarrow> (err, rs)
      | Inr i \<Rightarrow>
          (case storage_get_record st m i True of
             Inl err \<Rightarrow> (err, rs)
           | Inr r \<Rightarrow>
               (case record_read_lock slp m r of
                  Inl err \<Rightarrow> (err, rs)
                | Inr rv \<Rightarrow>
                    let xyz = sint (load64 m (record_get_value_ref r));
                        since = record_get_timestamp m r;
                        rs = rs\<lparr>rd_event := rd_event rs OR DATA_UPDATED\<rparr>;
                        rs = (if sint qi > xyz then rs\<lparr>rd_event := rd_event rs OR DATA_SKIPPED\<rparr> else rs)
                    in case rd_latency rs of
                         None \<Rightarrow> (OK, rs)
                       | Some lat \<Rightarrow>
                           (case clk of
                              Inl err \<Rightarrow> (err, rs)
                            | Inr now \<Rightarrow>
                                (case latency_on_sample slp lat (of_int (now - since)) of
                                   (res, lat) \<Rightarrow> (res, rs\<lparr>rd_latency := Some lat\<rparr>))))))"

fun reader_updates ::
  "(nat \<Rightarrow> status) \<Rightarrow> (nat \<Rightarrow> status) \<Rightarrow> (nat \<Rightarrow> microsec result) \<Rightarrow> storage \<Rightarrow> (nat \<Rightarrow> mem) \<Rightarrow> nat \<Rightarrow> u64 list \<Rightarrow>
     reader_st \<Rightarrow> status \<times> reader_st" where
  "reader_updates slp raised clk st mems k [] rs = (OK, rs)"
| "reader_updates slp raised clk st mems k (q # qs) rs =
     (case reader_update slp (raised k) (clk k) st (mems k) q rs of
        (res, rs) \<Rightarrow> if FAILED res then (res, rs) else reader_updates slp raised clk st mems (Suc k) qs rs)"

text \<open>
  One round of the loop of \<open>main\<close>: the memory at the look at the queue head, at each update, and
  after them, and the outcomes of the calls.  The calls of \<open>clock_time\<close> and
  \<open>storage_get_touched_time\<close> leave \<open>st\<close> as it is, so that their failure breaks the loop with \<open>OK\<close>.
\<close>

record round_env =
  rn_head :: mem
  rn_mems :: "nat \<Rightarrow> mem"
  rn_raised_q :: "nat \<Rightarrow> status"
  rn_clock_q :: "nat \<Rightarrow> microsec result"
  rn_slept :: status
  rn_raised :: status
  rn_after :: mem
  rn_clock :: "microsec result"
  rn_printed :: status

record reader_opts =
  rdo_orphan :: microsec
  rdo_overrun :: bool
  rdo_recreate :: bool
  rdo_stats :: bool
  rdo_stamp :: bool

datatype round_end = Break status | Fatal status | Again reader_st

definition reader_queue ::
  "(nat \<Rightarrow> status) \<Rightarrow> round_env \<Rightarrow> bool \<Rightarrow> u64 \<Rightarrow> storage \<Rightarrow> reader_st \<Rightarrow> round_end" where
  "reader_queue slp e ignore_overrun q_capacity st rs =
     (let new_head = storage_get_queue_head (rn_head e) in
      if new_head = rd_old_head rs then
        (if FAILED (rn_slept e) then Break (rn_slept e) else Again rs)
      else if new_head - rd_old_head rs > q_capacity \<and> \<not> ignore_overrun then Fatal CHANGE_QUEUE_OVERRUN
      else
        let rs = (if new_head - rd_old_head rs > q_capacity
                  then rs\<lparr>rd_old_head := new_head - q_capacity, rd_event := rd_event rs OR QUEUE_OVERRUN\<rparr> else rs)
        in case reader_updates slp (rn_raised_q e) (rn_clock_q e) st (rn_mems e) 0
                  (queue_range (rd_old_head rs) new_head) rs of
             (res, rs) \<Rightarrow> if FAILED res then Break res else Again (rs\<lparr>rd_old_head := new_head\<rparr>))"

definition reader_show :: "(nat \<Rightarrow> status) \<Rightarrow> round_env \<Rightarrow> bool \<Rightarrow> microsec \<Rightarrow> reader_st \<Rightarrow> round_end" where
  "reader_show slp e stg_stats now rs =
     (let shown = rs\<lparr>rd_shown := rd_shown rs @ [rd_event rs], rd_event := 0, rd_last_print := now\<rparr> in
      if \<not> stg_stats then Again shown
      else if FAILED (rn_printed e) then Break (rn_printed e)
      else case rd_latency rs of
        None \<Rightarrow> Again shown
      | Some lat \<Rightarrow>
          (case latency_roll slp lat of
             (res, lat) \<Rightarrow> if FAILED res then Break res else Again (shown\<lparr>rd_latency := Some lat\<rparr>)))"

definition reader_round ::
  "(nat \<Rightarrow> status) \<Rightarrow> round_env \<Rightarrow> reader_opts \<Rightarrow> microsec \<Rightarrow> u64 \<Rightarrow> storage \<Rightarrow> reader_st \<Rightarrow> round_end" where
  "reader_round slp e cfg created_time q_capacity st rs =
     (case reader_queue slp e (rdo_overrun cfg) q_capacity st rs of
        Break res \<Rightarrow> Break res
      | Fatal res \<Rightarrow> Fatal res
      | Again rs \<Rightarrow>
          if FAILED (rn_raised e) then Break (rn_raised e)
          else case (if rdo_recreate cfg then Inr created_time else storage_get_created_time (rn_after e) True) of
            Inl err \<Rightarrow> Break err
          | Inr created \<Rightarrow>
              if created \<noteq> created_time then Fatal STORAGE_RECREATED
              else case rn_clock e of
                Inl err \<Rightarrow> Break OK
              | Inr now \<Rightarrow>
                  (case storage_get_touched_time slp (rn_after e) True of
                     Inl err \<Rightarrow> Break OK
                   | Inr touched \<Rightarrow>
                       if rdo_orphan cfg > 0 \<and> now - touched \<ge> rdo_orphan cfg then Fatal STORAGE_ORPHANED
                       else if now - rd_last_print rs \<ge> (if rdo_stats cfg then 1000000 else 200000)
                         then reader_show slp e (rdo_stats cfg) now rs
                       else Again rs))"

text \<open>One unit of fuel per round.  A fatal error exits at once, a break ends the loop.\<close>

fun reader_loop ::
  "nat \<Rightarrow> (nat \<Rightarrow> status) \<Rightarrow> (nat \<Rightarrow> round_env) \<Rightarrow> reader_opts \<Rightarrow> microsec \<Rightarrow> u64 \<Rightarrow> storage \<Rightarrow> nat \<Rightarrow> reader_st \<Rightarrow>
     status run option" where
  "reader_loop 0 slp e cfg created_time q_capacity st k rs = None"
| "reader_loop (Suc fuel) slp e cfg created_time q_capacity st k rs =
     (case reader_round slp (e k) cfg created_time q_capacity st rs of
        Break res \<Rightarrow> Some (Runs res)
      | Fatal res \<Rightarrow> Some (error_report_fatal res)
      | Again rs \<Rightarrow> reader_loop fuel slp e cfg created_time q_capacity st (Suc k) rs)"

definition reader_option :: "reader_opts \<Rightarrow> char \<Rightarrow> string \<Rightarrow> reader_opts run" where
  "reader_option cfg ch arg =
     (if ch = CHR ''L'' then Runs (cfg\<lparr>rdo_stamp := True\<rparr>)
      else if ch = CHR ''O'' then or_die (a2i_number wrap_long arg (rdo_orphan cfg)) (\<lambda>n. Runs (cfg\<lparr>rdo_orphan := n\<rparr>))
      else if ch = CHR ''p'' then Runs cfg
      else if ch = CHR ''Q'' then Runs (cfg\<lparr>rdo_overrun := True\<rparr>)
      else if ch = CHR ''R'' then Runs (cfg\<lparr>rdo_recreate := True\<rparr>)
      else if ch = CHR ''s'' then Runs (cfg\<lparr>rdo_stats := True\<rparr>)
      else if ch = CHR ''v'' then show_version
      else show_syntax)"

record reader_env =
  rde_slp :: "nat \<Rightarrow> status"
  rde_signals :: "status list"
  rde_open :: open_env
  rde_close :: destroy_env
  rde_mallocs :: "bool \<times> bool \<times> bool"
  rde_clock :: "microsec result"
  rde_start :: mem
  rde_rounds :: "nat \<Rightarrow> round_env"
  rde_unsignals :: "status list"

definition reader_main :: "nat \<Rightarrow> reader_env \<Rightarrow> string list \<Rightarrow> int option" where
  "reader_main fuel e argv =
     (case getopt ''LO:p:QRsv'' argv of (opts, operands) \<Rightarrow>
      case for_options reader_option opts
             \<lparr>rdo_orphan = 3000000, rdo_overrun = False, rdo_recreate = False, rdo_stats = False, rdo_stamp = False\<rparr> of
        Exits n \<Rightarrow> Some n
      | Runs cfg \<Rightarrow>
          if length operands \<noteq> 1 then Some (- SYNTAX_ERROR)
          else if FAILED (first_failed (rde_signals e)) then Some (exit_code (first_failed (rde_signals e)))
          else case storage_open (rde_open e) (rde_close e) True True (Some (operands ! 0)) O_RDONLY of
            (res, None) \<Rightarrow> Some (exit_code res)
          | (res, Some st) \<Rightarrow>
              if FAILED res then Some (exit_code res)
              else case (if rdo_recreate cfg then Inr 0 else storage_get_created_time (rde_start e) True) of
                Inl err \<Rightarrow> Some (exit_code err)
              | Inr created_time \<Rightarrow>
                  (case (if rdo_stats cfg
                         then (case rde_mallocs e of (a, b, c) \<Rightarrow> map_sum (\<lambda>err. err) Some (latency_create True a b c))
                         else Inr None) of
                     Inl err \<Rightarrow> Some (exit_code err)
                   | Inr lat \<Rightarrow>
                       (case rde_clock e of
                          Inl err \<Rightarrow> Some (exit_code err)
                        | Inr last_print \<Rightarrow>
                            if storage_get_description (rde_start e) \<noteq> bytes_of ''TEST'' then Some (exit_code WRONG_DATA_VERSION)
                            else
                              (case reader_loop fuel (rde_slp e) (rde_rounds e) cfg created_time
                                      (storage_get_queue_capacity (rde_start e)) st 0
                                      \<lparr>rd_event = 0, rd_latency = lat, rd_old_head = storage_get_queue_head (rde_start e),
                                       rd_last_print = last_print, rd_shown = []\<rparr> of
                                 None \<Rightarrow> None
                               | Some (Exits n) \<Rightarrow> Some n
                               | Some (Runs res) \<Rightarrow>
                                   if FAILED res then Some (exit_code res)
                                   else Some (exit_code (first_failed (fst (storage_destroy (rde_close e) (Some st)) # rde_unsignals e)))))))"

section \<open>What the writer leaves\<close>

text \<open>
  After \<open>n\<close> updates: the queue head is \<open>n\<close>, and every index below it leads to a record whose number
  is at least the index.
\<close>

definition number_of :: "storage \<Rightarrow> mem \<Rightarrow> ident \<Rightarrow> int" where
  "number_of st m i = sint (load64 m (record_get_value_ref (rec_of st m i)))"

definition tracked :: "storage \<Rightarrow> mem \<Rightarrow> nat \<Rightarrow> bool" where
  "tracked st m n \<longleftrightarrow> stg_ok st m \<and> \<not> stg_read_only st \<and> has_queue m \<and> 8 \<le> storage_get_value_size m \<and>
     (\<forall>i. valid_id m i \<longrightarrow> unlocked (load64 m (rec_of st m i))) \<and> storage_get_queue_head m = of_nat n \<and>
     (\<forall>q<n. \<exists>i. storage_read_queue m (of_nat q) True = Inr i \<and> valid_id m i \<and> int q \<le> number_of st m i)"

lemma tracked_step:
  assumes t: "tracked st m n" and i: "valid_id m i" and n: "n < 2 ^ 63" and sl: "same_layout m m'"
    and com: "committed st m m' i (lebytes 8 (word_of_int (int n))) now"
    and unt: "\<And>j. valid_id m j \<Longrightarrow> j \<noteq> i \<Longrightarrow> untouched st m m' j" and qw: "queue_wrote (st, m) i (st, m')"
  shows "tracked st m' (Suc n)"
proof -
  have f: "stg_ok st m" "\<not> stg_read_only st" "has_queue m" "8 \<le> storage_get_value_size m"
    "unlocked (load64 m (rec_of st m i))" "storage_get_queue_head m = of_nat n"
    using t i by (auto simp: tracked_def)
  have "queue_ok (st, m)" using f by simp
  note qf = queue_wrote_fields [OF this qw]
  have rev: "unlocked (load64 m' (rec_of st m' j))" if "valid_id m' j" for j
  proof (cases "j = i")
    case True
    then show ?thesis using com by (simp add: committed_def same_layout_ids [OF sl])
  next
    case False
    then show ?thesis
      using that unt [of j] untouched_rev [OF f(1), of m' j] t by (simp add: same_layout_ids [OF sl] tracked_def)
  qed
  have "is_long (int n)" using n by (simp add: is_long_def LONG_MAX_def LONG_MIN_def)
  then have num: "number_of st m' i = int n"
    using com sint_word_of_int_long [of "int n"] by (simp add: committed_def number_of_def same_layout_ids [OF sl] load_def)
  have old: "number_of st m' j = number_of st m j" if "valid_id m j" "j \<noteq> i" for j
    using untouched_part [OF unt [OF that], of 16 8] f(4) layout_okD(3,4) [OF stg_okD(1) [OF f(1)]]
    by (simp add: number_of_def same_layout_ids [OF sl] load_def record_get_value_ref_def)
  have read: "storage_read_queue m' x True =
      (if unat x mod queue_slots m = n mod queue_slots m then Inr i else storage_read_queue m x True)" for x
  proof -
    have "is_long i" using i by (auto simp: valid_id_def storage_get_base_id_def storage_get_max_id_def is_long_def
      intro: order_trans [OF conjunct1 [OF is_long_sint [unfolded is_long_def]]]
        order_trans [OF less_imp_le conjunct2 [OF is_long_sint [unfolded is_long_def]]])
    moreover have "unat (of_nat n :: u64) = n" using n by (simp add: unat_of_nat take_bit_nat_eq_self)
    ultimately show ?thesis
      using f(3,6) same_layout_queue [OF sl] qf(4) [of x] by (simp add: storage_read_queue_def has_queue_def)
  qed
  have "\<exists>j. storage_read_queue m' (of_nat q) True = Inr j \<and> valid_id m' j \<and> int q \<le> number_of st m' j"
    if "q < Suc n" for q
  proof (cases "q mod queue_slots m = n mod queue_slots m")
    case True
    moreover have "unat (of_nat q :: u64) = q" using n that by (simp add: unat_of_nat take_bit_nat_eq_self)
    ultimately show ?thesis using read [of "of_nat q"] num i that by (simp add: same_layout_ids [OF sl])
  next
    case False
    then have "q < n" using that by (metis less_SucE)
    then obtain j where j: "storage_read_queue m (of_nat q) True = Inr j" "valid_id m j" "int q \<le> number_of st m j"
      using t by (auto simp: tracked_def)
    moreover have "unat (of_nat q :: u64) = q" using n that by (simp add: unat_of_nat take_bit_nat_eq_self)
    ultimately show ?thesis
      using read [of "of_nat q"] False num old [of j] \<open>q < n\<close>
      by (cases "j = i") (auto simp: same_layout_ids [OF sl])
  qed
  then show ?thesis
    using f sl qf(3) rev
    by (simp add: tracked_def same_layout_stg_ok same_layout_queue same_layout_fields)
qed

lemma writer_update_tracked:
  assumes t: "tracked st m n" and i: "valid_id m i" and n: "n < 2 ^ 63"
    and ok: "\<not> FAILED raised" "\<not> FAILED slept"
  obtains m' where "writer_update slp raised (Inr now) slept st delay m i (int n) = (OK, m')"
    "tracked st m' (Suc n)" "same_layout m m'"
proof -
  let ?r = "rec_of st m i"
  let ?w = "load64 m ?r OR SPIN_MASK"
  let ?c = "commit_record (store64 m ?r ?w) ?r (load64 m ?r) (lebytes 8 (word_of_int (int n))) now"
  have f: "stg_ok st m" "\<not> stg_read_only st" "has_queue m" "8 \<le> storage_get_value_size m"
    "unlocked (load64 m ?r)" "storage_get_queue_head m = of_nat n"
    using t i by (auto simp: tracked_def)
  have len: "length (lebytes 8 (word_of_int (int n) :: u64)) \<le> storage_get_value_size m" using f(4) by simp
  note only = commit_record_fields(1) [OF f(1) rec_of_is_record [OF i] len refl, where ?w = ?w and ?rv = "load64 m ?r" and ?now = now]
  note same = only_record_layout [OF f(1) rec_of_is_record [OF i] only]
  have cap: "storage_get_queue_capacity ?c > 0"
    using queue_capacity_slots(2) [of st ?c] f same by (simp add: same_layout_stg_ok same_layout_queue)
  obtain m' where q0: "(if has_queue m then storage_write_queue st ?c i else (OK, ?c)) = (OK, m')" and sl: "same_layout m m'"
    and com: "committed st m m' i (lebytes 8 (word_of_int (int n))) now"
    and unt: "\<And>j. valid_id m j \<Longrightarrow> j \<noteq> i \<Longrightarrow> untouched st m m' j" and qw0: "has_queue m \<Longrightarrow> queue_wrote (st, m) i (st, m')"
    and "\<not> has_queue m \<Longrightarrow> \<forall>a < stg_first st. m' a = m a"
    by (rule write_step [OF f(1,2) i len refl, where ?w = ?w and ?now = now]) (rule that)
  have q: "storage_write_queue st ?c i = (OK, m')" and qw: "queue_wrote (st, m) i (st, m')"
    using q0 qw0 f(3) by simp_all
  have "writer_update slp raised (Inr now) slept st delay m i (int n) = (OK, m')"
    using i f(5) ok q cap
    by (simp add: writer_update_def record_write_lock_def Let_def commit_record_def store_def FAILED_def OK_def)
  moreover have "tracked st m' (Suc n)" using t i n sl com unt qw by (rule tracked_step)
  ultimately show thesis using sl that by blast
qed

lemma reset_tracked:
  assumes "stg_ok st m" "\<not> stg_read_only st" "has_queue m" "8 \<le> storage_get_value_size m"
    and "storage_reset st m = (res, m')"
  shows "tracked st m' 0 \<and> same_layout m m'"
proof -
  from storage_reset_zeroes [OF assms(1,2)] have z: "stg_ok st m'" "storage_get_queue_head m' = 0"
    "\<forall>r\<in>set (storage_records st m'). record_get_revision m' r = 0" "\<forall>a<OFF_q_head. m' a = m a"
    using assms(5) by auto
  have sl: "same_layout m m'" using z(4) by (simp add: same_layout_def)
  moreover have "unlocked (load64 m' (rec_of st m' i))" if "valid_id m' i" for i
    using z(3) rec_of_is_record [OF that, of st] by (auto simp: is_record_def record_get_revision_def)
  ultimately show ?thesis
    using assms z(1,2) by (simp add: tracked_def same_layout_queue same_layout_fields)
qed

text \<open>The state of the loops before update \<open>n\<close>: the random numbers and the memory.\<close>

fun writer_state :: "writer_env \<Rightarrow> storage \<Rightarrow> microsec \<Rightarrow> twist option \<Rightarrow> mem \<Rightarrow> nat \<Rightarrow> twist option \<times> mem" where
  "writer_state e st delay tw m 0 = (tw, m)"
| "writer_state e st delay tw m (Suc n) =
     (case writer_state e st delay tw m n of
        (tw, m) \<Rightarrow>
          (case writer_next tw n of
             (i, tw) \<Rightarrow>
               (tw, snd (writer_update (we_slp e) (we_raised e n) (we_clock e n) (we_slept e n) st delay m i (int n)))))"

definition writer_quiet :: "writer_env \<Rightarrow> bool" where
  "writer_quiet e \<longleftrightarrow> (\<forall>n. \<not> FAILED (we_raised e n) \<and> \<not> FAILED (we_slept e n) \<and> \<not> isl (we_clock e n))"

lemma writer_next_valid: "0 \<le> fst (writer_next tw n) \<and> fst (writer_next tw n) < int MAX_ID"
  by (auto simp: writer_next_def MAX_ID_def split: option.splits prod.splits)

lemma writer_state_tracked:
  assumes "tracked st m 0" "storage_get_base_id m = 0" "storage_get_max_id m = int MAX_ID" "writer_quiet e" "n \<le> 2 ^ 63"
  shows "tracked st (snd (writer_state e st delay tw m n)) n \<and> same_layout m (snd (writer_state e st delay tw m n)) \<and>
    writer_loop (n + fuel) e st delay tw 0 m =
    writer_loop fuel e st delay (fst (writer_state e st delay tw m n)) n (snd (writer_state e st delay tw m n))"
  using assms(5)
proof (induction n arbitrary: fuel)
  case 0
  then show ?case using assms by (simp add: same_layout_def)
next
  case (Suc n)
  obtain tw1 m1 where s: "writer_state e st delay tw m n = (tw1, m1)" by (cases "writer_state e st delay tw m n")
  obtain i tw2 where nx: "writer_next tw1 n = (i, tw2)" by (cases "writer_next tw1 n")
  have IH: "tracked st m1 n" "same_layout m m1"
    "\<And>fuel. writer_loop (n + fuel) e st delay tw 0 m = writer_loop fuel e st delay tw1 n m1"
    using Suc by (simp_all add: s)
  have "valid_id m1 i"
    using writer_next_valid [of tw1 n] assms(2,3) by (simp add: nx same_layout_fields [OF IH(2)] valid_id_def)
  moreover have ok: "\<not> FAILED (we_raised e n)" "\<not> FAILED (we_slept e n)" "\<not> isl (we_clock e n)"
    using assms(4) by (auto simp: writer_quiet_def)
  moreover obtain now where "we_clock e n = Inr now" using ok(3) by (cases "we_clock e n") simp_all
  ultimately obtain m2 where
    u: "writer_update (we_slp e) (we_raised e n) (we_clock e n) (we_slept e n) st delay m1 i (int n) = (OK, m2)"
    "tracked st m2 (Suc n)" "same_layout m1 m2"
    using writer_update_tracked [OF IH(1), of i] Suc.prems by (metis Suc_le_eq)
  then show ?case
    using IH(3) [of "Suc fuel"] same_layout_trans [OF IH(2) u(3)] by (simp add: s nx FAILED_def OK_def)
qed

section \<open>Properties\<close>

definition quiet_latency :: "latency option \<Rightarrow> bool" where
  "quiet_latency l \<longleftrightarrow> (case l of None \<Rightarrow> True | Some lat \<Rightarrow> unlocked (lat_lock lat))"

lemma reader_update_tracked:
  assumes "tracked st m n" "stg_first rst = stg_first st" "unat q < n" "n \<le> 2 ^ 63" "\<not> FAILED raised"
    and "\<not> isl clk" "quiet_latency (rd_latency rs)"
  obtains rs' where "reader_update slp raised clk rst m q rs = (OK, rs')"
    "rd_event rs' = rd_event rs OR DATA_UPDATED" "quiet_latency (rd_latency rs')"
proof -
  have q: "of_nat (unat q) = q" by simp
  obtain i where i: "storage_read_queue m q True = Inr i" "valid_id m i" "int (unat q) \<le> number_of st m i"
    using assms(1,3) by (auto simp: tracked_def simp del: of_nat_unat) (metis q)
  have "unlocked (load64 m (rec_of st m i))" using assms(1) i(2) by (auto simp: tracked_def)
  moreover have r: "storage_get_record rst m i True = Inr (rec_of st m i)"
    using i(2) storage_get_record_rec_of [OF i(2), of st] assms(2)
    by (simp add: storage_get_record_def valid_id_def split: if_splits)
  moreover have "sint q = int (unat q)"
    using assms(3,4) unlocked_unat_less [of q] by (intro sint_nonneg_unat) (simp add: unlocked_def)
  ultimately show thesis
    using that assms(5-7) i(1,3)
    by (cases clk; cases "rd_latency rs")
      (auto simp: reader_update_def record_read_lock_def Let_def number_of_def quiet_latency_def
        latency_on_sample_def spin_write_lock_from spin_from_free [of _ 0, simplified])
qed

text \<open>
  C13.  A reader never sees an update skipped.  From a storage that has just been reset, let the writer make
  any number of updates, at random or in turn.  Whenever the reader comes to an index of the change
  queue, after the update with that number and any number of others, so that the slot may have
  been written to again, the record it finds has a number that is at least the index: the
  reader reports data updated, and never data skipped.
\<close>

theorem reader_never_skips:
  assumes "stg_ok st m" "\<not> stg_read_only st" "has_queue m" "8 \<le> storage_get_value_size m"
    and "storage_get_base_id m = 0" "storage_get_max_id m = int MAX_ID"
    and "storage_reset st m = (res, m0)" "writer_quiet e" "stg_first rst = stg_first st"
    and "\<forall>k<length qs. unat (qs ! k) < after k \<and> after k \<le> 2 ^ 63 \<and>
      mems k = snd (writer_state e st delay tw m0 (after k)) \<and> \<not> FAILED (raised k) \<and> \<not> isl (clk k)"
    and "quiet_latency (rd_latency rs)"
  shows "\<exists>rs'. reader_updates slp raised clk rst mems 0 qs rs = (OK, rs') \<and>
    rd_event rs' = (if qs = [] then rd_event rs else rd_event rs OR DATA_UPDATED)"
proof -
  have t: "tracked st m0 0" "same_layout m m0" using reset_tracked [OF assms(1-4,7)] by simp_all
  have b: "storage_get_base_id m0 = 0" "storage_get_max_id m0 = int MAX_ID"
    using assms(5,6) by (simp_all add: same_layout_fields [OF t(2)])
  have trk: "tracked st (snd (writer_state e st delay tw m0 n)) n" if "n \<le> 2 ^ 63" for n
    using writer_state_tracked [OF t(1) b assms(8) that, of delay tw 0] by simp
  have "\<exists>rs'. reader_updates slp raised clk rst mems k qs rs = (OK, rs') \<and>
      rd_event rs' = (if qs = [] then rd_event rs else rd_event rs OR DATA_UPDATED)"
    if "\<forall>j<length qs. unat (qs ! j) < after (k + j) \<and> after (k + j) \<le> 2 ^ 63 \<and>
      mems (k + j) = snd (writer_state e st delay tw m0 (after (k + j))) \<and> \<not> FAILED (raised (k + j)) \<and> \<not> isl (clk (k + j))"
      "quiet_latency (rd_latency rs)" for qs k rs
    using that
  proof (induction qs arbitrary: k rs)
    case (Cons q qs)
    have h: "unat q < after k" "after k \<le> 2 ^ 63" "mems k = snd (writer_state e st delay tw m0 (after k))"
      "\<not> FAILED (raised k)" "\<not> isl (clk k)" using Cons.prems(1) [rule_format, of 0] by simp_all
    obtain rs1 where u: "reader_update slp (raised k) (clk k) rst (mems k) q rs = (OK, rs1)"
      "rd_event rs1 = rd_event rs OR DATA_UPDATED" "quiet_latency (rd_latency rs1)"
      using reader_update_tracked [OF trk [OF h(2)] assms(9) h(1,2,4,5) Cons.prems(2)] h(3) by metis
    have "\<exists>rs'. reader_updates slp raised clk rst mems (Suc k) qs rs1 = (OK, rs') \<and>
        rd_event rs' = (if qs = [] then rd_event rs1 else rd_event rs1 OR DATA_UPDATED)"
    proof (rule Cons.IH [OF _ u(3)], intro allI impI)
      fix j assume "j < length qs"
      then show "unat (qs ! j) < after (Suc k + j) \<and> after (Suc k + j) \<le> 2 ^ 63 \<and>
          mems (Suc k + j) = snd (writer_state e st delay tw m0 (after (Suc k + j))) \<and>
          \<not> FAILED (raised (Suc k + j)) \<and> \<not> isl (clk (Suc k + j))"
        using Cons.prems(1) [rule_format, of "Suc j"] by simp
    qed
    then show ?case using u by (auto simp: FAILED_def OK_def or.assoc)
  qed simp
  from this [of qs 0 rs] show ?thesis using assms(10,11) by simp
qed

text \<open>The storage the writer creates, with room for 256 changes.\<close>

lemma sample_tester:
  "\<exists>st m. storage_create (fresh_env (\<lambda>_. 0)) close_ok True True (Some ''f'') (O_RDWR OR O_CREAT) False
      0 (int MAX_ID) 8 0 256 (Some (bytes_of ''TEST'')) = (OK, Some st, m) \<and>
    stg_ok st m \<and> \<not> stg_read_only st \<and> has_queue m \<and> storage_get_value_size m = 8 \<and>
    storage_get_base_id m = 0 \<and> storage_get_max_id m = int MAX_ID"
proof -
  obtain st m where c: "storage_create (fresh_env (\<lambda>_. 0)) close_ok True True (Some ''f'')
      (O_RDWR OR O_CREAT) False 0 (int MAX_ID) 8 0 256 (Some (bytes_of ''TEST'')) = (OK, Some st, m)"
    using fresh_create [of 0 "int MAX_ID" 8 256 "Some (bytes_of ''TEST'')" "\<lambda>_. 0" "''f''" False 0]
    by (auto simp: MAX_ID_def bytes_of_def)
  have "create_fits 12 8 0 256 (int MAX_ID - 0)"
    by (simp add: create_fits_def ref_hdr_size_def ref_rec_size_def align8_def MAX_ID_def)
  moreover have f: "(O_RDWR OR O_CREAT) AND O_CREAT \<noteq> 0" by (simp add: O_RDWR_def O_CREAT_def)
  moreover have "is_long 0" "is_long (int MAX_ID)" by (simp_all add: is_long_def LONG_MAX_def LONG_MIN_def MAX_ID_def)
  moreover have "c_string (bytes_of ''TEST'')" by (simp add: c_string_def bytes_of_def of_char_def)
  ultimately show ?thesis
    using storage_created [OF c, of 12] c by (intro exI [of _ st] exI [of _ m]) (auto simp: has_queue_def status_defs)
qed

definition sample_writer :: writer_env where
  "sample_writer = \<lparr>we_slp = \<lambda>_. OK, we_signals = [OK, OK, OK], we_create = fresh_env (\<lambda>_. 0), we_close = close_ok,
     we_malloc = True, we_toucher_malloc = True, we_target_malloc = True, we_thread = OK, we_twist = None, we_time = 0,
     we_raised = \<lambda>_. OK, we_clock = \<lambda>n. Inr (int n), we_slept = \<lambda>_. OK\<rparr>"

theorem reader_never_skips_witness:
  "\<exists>st m m0 rs'. storage_reset st m = (OK, m0) \<and>
    reader_updates (\<lambda>_. OK) (\<lambda>_. OK) (\<lambda>_. Inr 5) st
      (\<lambda>k. snd (writer_state sample_writer st 0 None m0 (300 + k))) 0 [1, 299, 44]
      \<lparr>rd_event = 0, rd_latency = None, rd_old_head = 0, rd_last_print = 0, rd_shown = []\<rparr> = (OK, rs') \<and>
    rd_event rs' = DATA_UPDATED"
proof -
  obtain st m where s: "stg_ok st m" "\<not> stg_read_only st" "has_queue m" "storage_get_value_size m = 8"
    "storage_get_base_id m = 0" "storage_get_max_id m = int MAX_ID" using sample_tester by blast
  obtain m0 where m0: "storage_reset st m = (OK, m0)" using storage_reset_zeroes [OF s(1,2)] by blast
  have q: "writer_quiet sample_writer" by (simp add: writer_quiet_def sample_writer_def status_defs)
  have "\<exists>rs'. reader_updates (\<lambda>_. OK) (\<lambda>_. OK) (\<lambda>_. Inr 5) st
      (\<lambda>k. snd (writer_state sample_writer st 0 None m0 (300 + k))) 0 [1, 299, 44]
      \<lparr>rd_event = 0, rd_latency = None, rd_old_head = 0, rd_last_print = 0, rd_shown = []\<rparr> = (OK, rs') \<and>
    rd_event rs' = (if [1, 299, 44 :: u64] = [] then 0 else 0 OR DATA_UPDATED)"
    using reader_never_skips [where st = st and rst = st and m = m and ?m0.0 = m0 and res = OK and e = sample_writer and
        after = "\<lambda>k. 300 + k" and delay = 0 and tw = None and slp = "\<lambda>_. OK" and raised = "\<lambda>_. OK" and
        clk = "\<lambda>_. Inr 5" and mems = "\<lambda>k. snd (writer_state sample_writer st 0 None m0 (300 + k))" and
        qs = "[1, 299, 44]" and
        rs = "\<lparr>rd_event = 0, rd_latency = None, rd_old_head = 0, rd_last_print = 0, rd_shown = []\<rparr>"] s m0 q
    by (simp add: quiet_latency_def status_defs less_Suc_eq numeral_eq_Suc [of "num.Bit1 num.One"] all_conj_distrib)
  then show ?thesis using m0 by auto
qed

end
