(* ===== verification/Dump.thy ===== *)
theory Dump
  imports Cmdline
begin

text \<open>
  The hex dump of a memory area, \<open>dump.c\<close>.  The area is a function from offsets to bytes, \<open>base\<close>
  enters only through the difference \<open>off\<close> of the two pointers, and sizes are 64 bits wide.  A file
  takes bytes until it has no room left; then it is at its end or has failed.
\<close>

section \<open>Files\<close>

record out_file =
  f_out :: "byte list"
  f_room :: nat
  f_eof :: bool
  f_errno :: int

definition emit :: "byte list \<Rightarrow> out_file \<Rightarrow> status \<times> out_file" where
  "emit s f =
     (if length s \<le> f_room f then OK else if f_eof f then EOF_STATUS else error_errno (f_errno f),
      f\<lparr>f_out := f_out f @ take (f_room f) s, f_room := f_room f - length s\<rparr>)"

fun emit_all :: "byte list list \<Rightarrow> out_file \<Rightarrow> status \<times> out_file" where
  "emit_all [] f = (OK, f)"
| "emit_all (s # ss) f = (case emit s f of (st, f) \<Rightarrow> if FAILED st then (st, f) else emit_all ss f)"

section \<open>Lines\<close>

definition hex_digit :: "nat \<Rightarrow> byte" where
  "hex_digit d = (if d < 10 then 48 + of_nat d else 55 + of_nat d)"

fun hex_digits :: "nat \<Rightarrow> byte list" where
  "hex_digits n = (if n < 16 then [hex_digit n] else hex_digits (n div 16) @ [hex_digit (n mod 16)])"

declare hex_digits.simps [simp del]

definition hex_padded :: "nat \<Rightarrow> nat \<Rightarrow> byte list" where
  "hex_padded w n = replicate (w - length (hex_digits n)) 48 @ hex_digits n"

definition hex2 :: "byte \<Rightarrow> byte list" where
  "hex2 b = [hex_digit (unat b div 16), hex_digit (unat b mod 16)]"

definition is_print :: "byte \<Rightarrow> bool" where
  "is_print b \<longleftrightarrow> 32 \<le> b \<and> b \<le> 126"

definition OCTET_PER_LINE :: nat where "OCTET_PER_LINE = 16"

text \<open>The pieces of one line, in the order in which they are written.\<close>

definition dump_line :: "(u64 \<Rightarrow> byte) \<Rightarrow> u64 \<Rightarrow> u64 \<Rightarrow> u64 \<Rightarrow> byte list list" where
  "dump_line q off sz n =
     (hex_padded 12 (unat (off + n)) @ [124]) #
     concat (map (\<lambda>i. (if n + of_nat i < sz then [hex2 (q (n + of_nat i))] else [[32], [32]]) @
                      (if i < OCTET_PER_LINE - 1 then [[32]] else [])) [0..<OCTET_PER_LINE]) @
     [124] # map (\<lambda>i. [if is_print (q (n + of_nat i)) then q (n + of_nat i) else 46])
                 (takeWhile (\<lambda>i. n + of_nat i < sz) [0..<OCTET_PER_LINE]) @
     [[10]]"

partial_function (option) dump_loop :: "(u64 \<Rightarrow> byte) \<Rightarrow> u64 \<Rightarrow> u64 \<Rightarrow> u64 \<Rightarrow> out_file \<Rightarrow> (status \<times> out_file) option" where
  "dump_loop q off sz n f =
     (if n < sz then
        (case emit_all (dump_line q off sz n) f of
           (st, f) \<Rightarrow> if FAILED st then Some (st, f) else dump_loop q off sz (n + of_nat OCTET_PER_LINE) f)
      else Some (OK, f))"

definition fdump :: "bool \<Rightarrow> (u64 \<Rightarrow> byte) \<Rightarrow> u64 \<Rightarrow> u64 \<Rightarrow> out_file \<Rightarrow> (status \<times> out_file) option" where
  "fdump args_ok q off sz f =
     (if \<not> args_ok \<or> sz = 0 then Some (error_invalid_arg, f) else dump_loop q off sz 0 f)"

definition dump :: "bool \<Rightarrow> (u64 \<Rightarrow> byte) \<Rightarrow> u64 \<Rightarrow> u64 \<Rightarrow> out_file \<Rightarrow> (status \<times> out_file) option" where
  "dump p_ok q off sz stdout = fdump p_ok q off sz stdout"

section \<open>Reading a dump\<close>

definition unhex :: "byte \<Rightarrow> nat" where
  "unhex b = (if b \<le> 57 then unat b - 48 else unat b - 55)"

text \<open>The octets of a line after its first bar, up to the first blank column.\<close>

fun undump_octets :: "byte list \<Rightarrow> byte list" where
  "undump_octets (a # b # c # s) =
     (if a = 32 then [] else of_nat (16 * unhex a + unhex b) # (if c = 124 then [] else undump_octets s))"
| "undump_octets s = []"

definition undump_line :: "byte list \<Rightarrow> byte list" where
  "undump_line s = undump_octets (tl (dropWhile (\<lambda>b. b \<noteq> 124) s))"

section \<open>Properties\<close>

lemma hex_digit_value: "d < 16 \<Longrightarrow> unhex (hex_digit d) = d \<and> hex_digit d \<noteq> 32 \<and> hex_digit d \<noteq> 124"
proof -
  assume "d < 16"
  then have "d \<in> set [0..<16]" by simp
  then show ?thesis by (auto simp: upt_rec hex_digit_def unhex_def word_le_nat_alt)
qed

lemma hex2_value:
  "\<exists>c d. hex2 b = [c, d] \<and> c \<noteq> 32 \<and> of_nat (16 * unhex c + unhex d) = b"
  "undump_octets (hex2 b @ c # s) = b # (if c = 124 then [] else undump_octets s)"
proof -
  have u: "unat b < 256" using unsigned_less [of b, where ?'a = nat] by simp
  have "16 * (unat b div 16) + unat b mod 16 = unat b" by simp
  then have b: "of_nat (16 * (unat b div 16) + unat b mod 16) = b" by (simp only: of_nat_unat ucast_id)
  have c: "unat b div 16 < 16" using u by linarith
  show "\<exists>c d. hex2 b = [c, d] \<and> c \<noteq> 32 \<and> of_nat (16 * unhex c + unhex d) = b"
    using hex_digit_value [OF c] hex_digit_value [of "unat b mod 16"] b by (simp add: hex2_def del: of_nat_add of_nat_mult)
  then show "undump_octets (hex2 b @ c # s) = b # (if c = 124 then [] else undump_octets s)" by auto
qed

lemma hex_digits_bar: "124 \<notin> set (hex_digits n)"
proof (induction n rule: hex_digits.induct)
  case (1 n)
  have "hex_digit (n mod 16) \<noteq> 124" using hex_digit_value [of "n mod 16"] by simp
  moreover have "n < 16 \<Longrightarrow> hex_digit n \<noteq> 124" using hex_digit_value by simp
  ultimately show ?case using 1 by (subst hex_digits.simps) auto
qed

lemma emit_all_room:
  assumes "length (concat ss) \<le> f_room f"
  shows "emit_all ss f = (OK, f\<lparr>f_out := f_out f @ concat ss, f_room := f_room f - length (concat ss)\<rparr>)"
  using assms by (induction ss arbitrary: f) (auto simp: emit_def FAILED_def OK_def)

text \<open>
  A dump ends: unless the area reaches into the last fifteen bytes of the address space,
  where the offset would wrap around, \<open>fdump\<close> returns, whatever happens to the file.
\<close>

theorem fdump_returns:
  assumes "sz \<le> - 16"
  shows "\<exists>st f'. fdump args_ok q off sz f = Some (st, f')"
proof -
  have "\<exists>r. dump_loop q off sz n f = Some r" if "unat n < unat sz + 16" "16 dvd unat n" for n f
    using that
  proof (induction "unat sz + 16 - unat n" arbitrary: n f rule: less_induct)
    case less
    obtain st f' where e: "emit_all (dump_line q off sz n) f = (st, f')" by (cases "emit_all (dump_line q off sz n) f")
    show ?case
    proof (cases "n < sz")
      case True
      have "unat sz \<le> 2 ^ 64 - 16" using assms by (simp add: word_le_nat_alt)
      then have "unat (n + 16) = unat n + 16" using True by (subst unat_add_lem [THEN iffD1]) (simp_all add: word_less_nat_alt)
      then have "\<exists>r. dump_loop q off sz (n + 16) f' = Some r"
        using less.prems True by (intro less.hyps) (auto simp: word_less_nat_alt)
      then show ?thesis using True e by (subst dump_loop.simps) (simp add: OCTET_PER_LINE_def)
    next
      case False
      then show ?thesis by (subst dump_loop.simps) simp
    qed
  qed
  from this [of 0 f] show ?thesis by (auto simp: fdump_def)
qed

theorem fdump_returns_witness:
  "\<exists>st f'. fdump True (\<lambda>_. 0) 0 40 \<lparr>f_out = [], f_room = 5, f_eof = False, f_errno = 28\<rparr> = Some (st, f')"
  using fdump_returns [of 40] by (simp add: word_le_nat_alt)

lemma unat_of_nat_u64: "n < 2 ^ 64 \<Longrightarrow> unat (of_nat n :: u64) = n"
  by (simp add: unat_of_nat take_bit_nat_eq_self)

lemma undump_columns:
  assumes "m \<le> 15"
  shows "undump_octets (concat (concat (map (\<lambda>i.
      (if n + of_nat i < sz then [hex2 (q (n + of_nat i))] else [[32], [32]]) @
      (if i < OCTET_PER_LINE - 1 then [[32]] else [])) [m..<16])) @ 124 # s) =
    map (\<lambda>i. q (n + of_nat i)) (takeWhile (\<lambda>i. n + of_nat i < sz) [m..<16])"
  using assms
proof (induction "15 - m" arbitrary: m)
  case 0
  then have "m = 15" by simp
  then show ?case by (simp add: OCTET_PER_LINE_def upt_rec hex2_value)
next
  case (Suc d)
  then have m: "m < 15" "d = 15 - Suc m" "Suc m \<le> 15" by simp_all
  then have "[m..<16] = m # [Suc m..<16]" by (simp add: upt_conv_Cons)
  then show ?case using m Suc.hyps(1) [OF m(2,3)] by (simp add: OCTET_PER_LINE_def hex2_value)
qed

lemma undump_dump_line:
  "undump_line (concat (dump_line q off sz n)) =
    map (\<lambda>i. q (n + of_nat i)) (takeWhile (\<lambda>i. n + of_nat i < sz) [0..<16])"
proof -
  have bar: "124 \<notin> set (hex_padded 12 k)" for k by (simp add: hex_padded_def hex_digits_bar)
  then have "dropWhile (\<lambda>b. b \<noteq> 124) (hex_padded 12 k @ 124 # s) = 124 # s" for k s
    by (subst dropWhile_append2) auto
  then show ?thesis
    using undump_columns [of 0 n sz q] by (simp add: undump_line_def dump_line_def OCTET_PER_LINE_def)
qed

lemma takeWhile_upt: "m \<le> k \<Longrightarrow> takeWhile (\<lambda>i. i < j) [m..<k] = [m..<min j k]"
proof (induction k)
  case (Suc k)
  show ?case
  proof (cases "m = Suc k")
    case False
    then have IH: "takeWhile (\<lambda>i. i < j) [m..<k] = [m..<min j k]" and m: "m \<le> k" using Suc by simp_all
    show ?thesis
    proof (cases "j < k")
      case True
      then have "takeWhile (\<lambda>i. i < j) [m..<Suc k] = takeWhile (\<lambda>i. i < j) [m..<k]"
        using m by (cases "m = k") (auto intro!: takeWhile_append1 [of "k - 1"])
      then show ?thesis using IH True by simp
    next
      case False
      then have "takeWhile (\<lambda>i. i < j) [m..<Suc k] = [m..<k] @ takeWhile (\<lambda>i. i < j) [k]"
        using m by (auto simp: takeWhile_append)
      moreover have "min j (Suc k) = (if j = k then k else Suc k)" using False by simp
      ultimately show ?thesis using False m by simp
    qed
  qed simp
qed simp

lemma undump_dump_line_at:
  assumes "sz \<le> - 16" "of_nat (16 * k) < sz" "16 * k < unat sz"
  shows "undump_line (concat (dump_line q off sz (of_nat (16 * k)))) =
    map (\<lambda>i. q (of_nat i)) [16 * k..<min (16 * Suc k) (unat sz)]"
proof -
  have sz: "unat sz \<le> 2 ^ 64 - 16" using assms by (simp add: word_le_nat_alt)
  have "of_nat (16 * k) + of_nat i < sz \<longleftrightarrow> i < unat sz - 16 * k" if "i \<in> set [0..<16]" for i
  proof -
    have "16 * k + i < 2 ^ 64" using that sz assms(3) by simp
    then have "unat (of_nat (16 * k + i) :: u64) = 16 * k + i" by (rule unat_of_nat_u64)
    then show ?thesis by (simp only: word_less_nat_alt of_nat_add [symmetric]) linarith
  qed
  then have "takeWhile (\<lambda>i. of_nat (16 * k) + of_nat i < sz) [0..<16] = takeWhile (\<lambda>i. i < unat sz - 16 * k) [0..<16]"
    by (intro takeWhile_cong) simp_all
  then have "undump_line (concat (dump_line q off sz (of_nat (16 * k)))) =
      map (\<lambda>i. q (of_nat (16 * k + i))) [0..<min (unat sz - 16 * k) 16]"
    by (simp only: undump_dump_line takeWhile_upt le0 of_nat_add)
  also have "\<dots> = map (\<lambda>i. q (of_nat i)) (map (\<lambda>i. i + 16 * k) [0..<min (unat sz - 16 * k) 16])"
    by (simp add: add.commute del: map_add_upt)
  also have "map (\<lambda>i. i + 16 * k) [0..<min (unat sz - 16 * k) 16] = [16 * k..<min (unat sz - 16 * k) 16 + 16 * k]"
    by (rule map_add_upt)
  also have "min (unat sz - 16 * k) 16 + 16 * k = min (16 * Suc k) (unat sz)" using assms(3) unfolding min_def by (simp split: if_splits) linarith
  finally show ?thesis .
qed

definition dump_lines :: "(u64 \<Rightarrow> byte) \<Rightarrow> u64 \<Rightarrow> u64 \<Rightarrow> byte list list" where
  "dump_lines q off sz = map (\<lambda>k. concat (dump_line q off sz (of_nat (16 * k)))) [0..<(unat sz + 15) div 16]"

lemma undump_dump_lines:
  assumes "sz \<le> - 16" "K \<le> (unat sz + 15) div 16"
  shows "concat (map undump_line (map (\<lambda>k. concat (dump_line q off sz (of_nat (16 * k)))) [0..<K])) =
    map (\<lambda>i. q (of_nat i)) [0..<min (16 * K) (unat sz)]"
  using assms(2)
proof (induction K)
  case 0
  then show ?case by simp
next
  case (Suc K)
  then have K: "16 * K < unat sz" by linarith
  have w: "unat sz < 2 ^ 64" using unsigned_less [of sz, where ?'a = nat] by simp
  then have "of_nat (16 * K) < sz"
    using K by (simp only: word_less_nat_alt) (subst unat_of_nat_u64, simp_all)
  note l = undump_dump_line_at [OF assms(1) this K, of q off]
  have "[0..<min (16 * Suc K) (unat sz)] = [0..<16 * K] @ [16 * K..<min (16 * Suc K) (unat sz)]"
    using K upt_add_eq_append [of 0 "16 * K" "min (16 * Suc K) (unat sz) - 16 * K"] by (simp add: min_def)
  moreover have "min (16 * K) (unat sz) = 16 * K" using K by simp
  ultimately show ?case using Suc l by (simp del: upt_Suc add: upt_Suc_append)
qed

lemma dump_loop_lines:
  assumes "sz \<le> - 16" "k \<le> (unat sz + 15) div 16"
    "length (concat (map (\<lambda>k. concat (dump_line q off sz (of_nat (16 * k)))) [k..<(unat sz + 15) div 16])) \<le> f_room f"
  shows "dump_loop q off sz (of_nat (16 * k)) f = Some (OK,
    f\<lparr>f_out := f_out f @ concat (map (\<lambda>k. concat (dump_line q off sz (of_nat (16 * k)))) [k..<(unat sz + 15) div 16]),
      f_room := f_room f -
        length (concat (map (\<lambda>k. concat (dump_line q off sz (of_nat (16 * k)))) [k..<(unat sz + 15) div 16]))\<rparr>)"
  using assms(2,3)
proof (induction "(unat sz + 15) div 16 - k" arbitrary: k f)
  case 0
  then have k: "k = (unat sz + 15) div 16" by simp
  have "unat sz \<le> 2 ^ 64 - 16" using assms by (simp add: word_le_nat_alt)
  then have "16 * k < 2 ^ 64" unfolding k by simp
  moreover have "unat sz \<le> 16 * k" unfolding k by linarith
  ultimately have "\<not> of_nat (16 * k) < sz" by (simp only: word_less_nat_alt) (subst unat_of_nat_u64, simp_all)
  then show ?case unfolding k by (subst dump_loop.simps) simp
next
  case (Suc d)
  then have K: "16 * k < unat sz" and le: "Suc k \<le> (unat sz + 15) div 16" and d: "d = (unat sz + 15) div 16 - Suc k"
    by linarith+
  let ?l = "concat (dump_line q off sz (of_nat (16 * k)))"
  have up: "[k..<(unat sz + 15) div 16] = k # [Suc k..<(unat sz + 15) div 16]" using le by (simp add: upt_conv_Cons)
  have "unat sz < 2 ^ 64" using unsigned_less [of sz, where ?'a = nat] by simp
  then have lt: "of_nat (16 * k) < sz" using K by (simp only: word_less_nat_alt) (subst unat_of_nat_u64, simp_all)
  have e: "emit_all (dump_line q off sz (of_nat (16 * k))) f =
      (OK, f\<lparr>f_out := f_out f @ ?l, f_room := f_room f - length ?l\<rparr>)"
    using Suc.prems(2) unfolding up by (intro emit_all_room) simp
  have nx: "of_nat (16 * k) + of_nat OCTET_PER_LINE = (of_nat (16 * Suc k) :: u64)"
    by (simp add: OCTET_PER_LINE_def algebra_simps)
  have "dump_loop q off sz (of_nat (16 * k)) f =
      dump_loop q off sz (of_nat (16 * Suc k)) (f\<lparr>f_out := f_out f @ ?l, f_room := f_room f - length ?l\<rparr>)"
    using lt by (subst dump_loop.simps) (simp only: e nx if_True prod.case, simp add: FAILED_def OK_def)
  also note Suc.hyps(1) [OF d le]
  finally show ?case using Suc.prems(2) unfolding up by simp
qed



end
