(* ===== verification/Clock.thy ===== *)
theory Clock
  imports Hello Runtime "HOL-Library.Signed_Division"
begin

text \<open>
  Times as text, the last two operations of \<open>clock.c\<close>.  The broken-down time of a second comes from
  \<open>localtime\<close>; how \<open>sprintf\<close> rounds the fraction of a second is the argument \<open>fx\<close>, of which the
  C standard promises that it takes the nearest number with so many decimals.
\<close>

section \<open>Model\<close>

record tm =
  tm_year :: nat
  tm_mon :: nat
  tm_mday :: nat
  tm_hour :: nat
  tm_min :: nat
  tm_sec :: nat
  tm_gmtoff :: int

definition zero_padded :: "nat \<Rightarrow> nat \<Rightarrow> byte list" where
  "zero_padded w n = replicate (w - length (print_nat n)) 48 @ print_nat n"

text \<open>The two formats of \<open>strftime\<close>; it returns zero when text and terminator exceed \<open>room\<close>.\<close>

definition time_of_day :: "tm \<Rightarrow> byte list" where
  "time_of_day t = zero_padded 2 (tm_hour t) @ 58 # zero_padded 2 (tm_min t) @ 58 # zero_padded 2 (tm_sec t)"

definition date_and_time :: "tm \<Rightarrow> byte list" where
  "date_and_time t =
     print_nat (1900 + tm_year t) @ 45 # zero_padded 2 (1 + tm_mon t) @ 45 # zero_padded 2 (tm_mday t) @
     84 # time_of_day t"

definition strftime :: "u64 \<Rightarrow> byte list \<Rightarrow> byte list option" where
  "strftime room s = (if length s < unat room then Some s else None)"

text \<open>\<open>%.*f\<close> of \<open>k\<close> millionths, where \<open>fx k p\<close> counts units of the last decimal, and \<open>%+03ld\<close>.\<close>

definition print_fixed :: "(nat \<Rightarrow> nat \<Rightarrow> nat) \<Rightarrow> nat \<Rightarrow> int \<Rightarrow> byte list" where
  "print_fixed fx p k =
     (let r = fx (nat \<bar>k\<bar>) p
      in (if k < 0 then [45] else []) @ print_nat (r div 10 ^ p) @
         (if p = 0 then [] else 46 # zero_padded p (r mod 10 ^ p)))"

definition print_hours :: "int \<Rightarrow> byte list" where
  "print_hours h = (if h < 0 then 45 else 43) # zero_padded 2 (nat \<bar>h\<bar>)"

definition clock_get_text ::
  "(int \<Rightarrow> tm result) \<Rightarrow> (nat \<Rightarrow> nat \<Rightarrow> nat) \<Rightarrow> microsec \<Rightarrow> int \<Rightarrow> bool \<Rightarrow> u64 \<Rightarrow> byte list result" where
  "clock_get_text localtime fx usec precision text_ok text_sz =
     (if \<not> text_ok \<or> text_sz = 0 \<or> precision < 0 then Inl error_invalid_arg
      else case localtime (usec sdiv 1000000) of
        Inl err \<Rightarrow> Inl err
      | Inr t \<Rightarrow>
          (case strftime (text_sz - word_of_int precision - 7) (date_and_time t) of
             None \<Rightarrow> Inl BUFFER_TOO_SMALL
           | Some text \<Rightarrow>
               let fract = print_fixed fx (nat precision) (usec smod 1000000) @
                           print_hours (tm_gmtoff t sdiv (60 * 60)) @ [58, 48, 48]
               in Inr (text @ tl fract)))"

definition clock_get_short_text ::
  "(int \<Rightarrow> tm result) \<Rightarrow> (nat \<Rightarrow> nat \<Rightarrow> nat) \<Rightarrow> microsec \<Rightarrow> int \<Rightarrow> bool \<Rightarrow> u64 \<Rightarrow> byte list result" where
  "clock_get_short_text localtime fx usec precision text_ok text_sz =
     (if \<not> text_ok \<or> text_sz = 0 \<or> precision < 0 then Inl error_invalid_arg
      else case localtime (usec sdiv 1000000) of
        Inl err \<Rightarrow> Inl err
      | Inr t \<Rightarrow>
          (case strftime (text_sz - word_of_int precision - 1) (time_of_day t) of
             None \<Rightarrow> Inl BUFFER_TOO_SMALL
           | Some text \<Rightarrow> Inr (text @ tl (print_fixed fx (nat precision) (usec smod 1000000)))))"

section \<open>Rounding\<close>

definition nearest :: "(nat \<Rightarrow> nat \<Rightarrow> nat) \<Rightarrow> bool" where
  "nearest fx \<longleftrightarrow>
     (\<forall>k p. 2 * fx k p * 1000000 \<le> 2 * k * 10 ^ p + 1000000 \<and> 2 * k * 10 ^ p \<le> 2 * fx k p * 1000000 + 1000000)"

definition half_up :: "nat \<Rightarrow> nat \<Rightarrow> nat" where
  "half_up k p = (2 * k * 10 ^ p + 1000000) div 2000000"

lemma half_up_nearest: "nearest half_up"
proof -
  have "2 * ((a + 1000000) div 2000000) * 1000000 \<le> a + 1000000 \<and>
      a \<le> 2 * ((a + 1000000) div 2000000) * 1000000 + 1000000" for a :: nat
    by linarith
  then show ?thesis by (simp add: nearest_def half_up_def)
qed

definition tm_ok :: "tm \<Rightarrow> bool" where
  "tm_ok t \<longleftrightarrow> tm_year t \<le> 8099 \<and> tm_mon t < 12 \<and> tm_mday t \<le> 31 \<and> tm_hour t < 24 \<and> tm_min t < 60 \<and>
     tm_sec t \<le> 60 \<and> \<bar>tm_gmtoff t\<bar> \<le> 14 * 3600"

lemma print_nat_length: "n < 10 ^ p \<Longrightarrow> 0 < p \<Longrightarrow> length (print_nat n) \<le> p"
proof (induction n arbitrary: p rule: print_nat.induct)
  case (1 n)
  show ?case
  proof (cases "n < 10")
    case True
    then show ?thesis using 1(3) by (simp add: print_nat.simps [of n])
  next
    case False
    then obtain q where q: "p = Suc q" "0 < q" using "1.prems" by (cases p; cases "p - 1") auto
    then have "n div 10 < 10 ^ q" using "1.prems" by (simp add: less_mult_imp_div_less mult.commute)
    then show ?thesis using "1.IH" [OF False _ q(2)] False q by (simp add: print_nat.simps [of n])
  qed
qed

lemma zero_padded_length: "n < 10 ^ p \<Longrightarrow> 0 < p \<Longrightarrow> length (zero_padded p n) = p"
  using print_nat_length [of n p] by (simp add: zero_padded_def)

lemma print_year_length:
  assumes "n < 10000" "1000 \<le> n"
  shows "length (print_nat n) = 4"
proof -
  have "\<not> n < 10" "\<not> n div 10 < 10" "\<not> n div 10 div 10 < 10" "n div 10 div 10 div 10 < 10"
    using assms by linarith+
  then show ?thesis
    by (simp add: print_nat.simps [of n] print_nat.simps [of "n div 10"]
      print_nat.simps [of "n div 10 div 10"] print_nat.simps [of "n div 10 div 10 div 10"] del: div_mult2_eq)
qed

lemma time_of_day_length: "tm_ok t \<Longrightarrow> length (time_of_day t) = 8"
  by (simp add: time_of_day_def tm_ok_def zero_padded_length)

lemma date_and_time_length: "tm_ok t \<Longrightarrow> length (date_and_time t) = 19"
  using time_of_day_length [of t]
  by (simp add: date_and_time_def tm_ok_def zero_padded_length print_year_length)

lemma fraction_le:
  assumes "nearest fx" "k < 1000000"
  shows "fx k p \<le> 10 ^ p"
proof -
  have "2 * fx k p * 1000000 \<le> 2 * k * 10 ^ p + 1000000" using assms(1) by (auto simp: nearest_def)
  moreover have "k * 10 ^ p \<le> 999999 * 10 ^ p" using assms(2) by (intro mult_right_mono) simp_all
  moreover have "(1 :: nat) \<le> 10 ^ p" by simp
  ultimately show ?thesis by linarith
qed

lemma fraction_text:
  assumes "nearest fx" "0 \<le> k" "k < 1000000"
  shows "tl (print_fixed fx p k @ s) = (if p = 0 then [] else 46 # zero_padded p (fx (nat k) p mod 10 ^ p)) @ s"
proof -
  have "fx (nat k) p \<le> 10 ^ p" using assms by (intro fraction_le) auto
  then have "fx (nat k) p div 10 ^ p \<le> 1" using div_le_mono [of "fx (nat k) p" "10 ^ p" "10 ^ p"] by simp
  then show ?thesis using assms by (simp add: print_fixed_def Let_def print_nat.simps [of "_ div _"])
qed

lemma hours_length:
  assumes "\<bar>g\<bar> \<le> 14 * 3600"
  shows "length (print_hours (g sdiv (60 * 60))) = 3"
proof -
  have "\<bar>g sdiv 3600\<bar> \<le> 14" using assms by (auto simp: signed_divide_int_def abs_mult sgn_if)
  then have "nat \<bar>g sdiv 3600\<bar> < 10 ^ 2" by simp
  then show ?thesis by (simp add: print_hours_def zero_padded_length del: nat_abs_int_diff)
qed

lemma usec_parts:
  assumes "0 \<le> (usec :: int)"
  shows "usec sdiv 1000000 = usec div 1000000" "usec smod 1000000 = usec mod 1000000"
    "0 \<le> usec smod 1000000" "usec smod 1000000 < 1000000"
  using assms by (auto simp: signed_divide_int_def signed_modulo_int_def sgn_if minus_div_mult_eq_mod)

definition fraction_digits :: "(nat \<Rightarrow> nat \<Rightarrow> nat) \<Rightarrow> nat \<Rightarrow> nat \<Rightarrow> byte list" where
  "fraction_digits fx p k = (if p = 0 then [] else 46 # zero_padded p (fx k p mod 10 ^ p))"

lemma fraction_digits_length: "length (fraction_digits fx p k) = (if p = 0 then 0 else Suc p)"
  by (simp add: fraction_digits_def zero_padded_length)

lemma clock_get_text_eq:
  assumes "nearest fx" "0 \<le> usec" "localtime (usec div 1000000) = Inr t" "text_sz \<noteq> 0"
  shows "clock_get_text localtime fx usec (int p) True text_sz =
    (if length (date_and_time t) < unat (text_sz - of_nat p - 7)
     then Inr (date_and_time t @ fraction_digits fx p (nat (usec mod 1000000)) @
               print_hours (tm_gmtoff t sdiv (60 * 60)) @ [58, 48, 48])
     else Inl BUFFER_TOO_SMALL)"
  using assms fraction_text [OF assms(1) usec_parts(3,4) [OF assms(2)]]
  by (simp add: clock_get_text_def usec_parts strftime_def fraction_digits_def Let_def)

lemma clock_get_short_text_eq:
  assumes "nearest fx" "0 \<le> usec" "localtime (usec div 1000000) = Inr t" "text_sz \<noteq> 0"
  shows "clock_get_short_text localtime fx usec (int p) True text_sz =
    (if length (time_of_day t) < unat (text_sz - of_nat p - 1)
     then Inr (time_of_day t @ fraction_digits fx p (nat (usec mod 1000000)))
     else Inl BUFFER_TOO_SMALL)"
  using assms fraction_text [OF assms(1) usec_parts(3,4) [OF assms(2)], of _ "[]"]
  by (simp add: clock_get_short_text_def usec_parts strftime_def fraction_digits_def)

text \<open>What is left of the room after subtracting, with the wrap-around of \<open>size_t\<close>.\<close>

lemma room_left:
  fixes sz :: u64
  assumes "p < 2 ^ 32" "c < 2 ^ 32"
  shows "unat (sz - of_nat p - of_nat c) =
    (if p + c \<le> unat sz then unat sz - (p + c) else 2 ^ 64 + unat sz - (p + c))"
proof -
  have u: "unat (of_nat (p + c) :: u64) = p + c"
    using assms by (simp add: unat_of_nat take_bit_nat_eq_self flip: of_nat_add)
  have e: "sz - of_nat p - of_nat c = sz - of_nat (p + c)" by simp
  show ?thesis
  proof (cases "p + c \<le> unat sz")
    case True
    then have "of_nat (p + c) \<le> sz" using u by (simp only: word_le_nat_alt)
    then show ?thesis using True u unfolding e by (simp only: unat_sub if_True)
  next
    case False
    then have "sz < of_nat (p + c)" using u by (simp only: word_less_nat_alt)
    then have "uint (sz - of_nat (p + c)) = uint sz - uint (of_nat (p + c) :: u64) + 2 ^ 64"
      by (subst uint_sub_if') (simp add: word_less_def del: of_nat_add)
    then have "int (unat (sz - of_nat (p + c))) = int (unat sz) - int (p + c) + 2 ^ 64"
      by (simp only: uint_nat u)
    then have "int (unat (sz - of_nat (p + c)) + (p + c)) = int (2 ^ 64 + unat sz)"
      unfolding of_nat_add [where ?'a = int] of_nat_power of_nat_numeral by linarith
    then have "unat (sz - of_nat (p + c)) + (p + c) = 2 ^ 64 + unat sz" by (simp only: of_nat_eq_iff)
    then have "unat (sz - of_nat (p + c)) = 2 ^ 64 + unat sz - (p + c)" by simp
    then show ?thesis using False unfolding e by (simp only: if_False)
  qed
qed

section \<open>Properties\<close>


text \<open>
  With six decimals or more the text shows every microsecond.  With fewer, the fraction is rounded
  but the seconds are not: a time less than half a unit of the last decimal before the next
  second is shown as the second before, with a fraction of zero.
\<close>

theorem clock_text_rounds_up:
  assumes "nearest fx" "0 \<le> usec" "localtime (usec div 1000000) = Inr t" "text_sz \<noteq> 0"
  shows "(2 * 10 ^ p - 1) * 1000000 < 2 * nat (usec mod 1000000) * 10 ^ p \<Longrightarrow>
      clock_get_text localtime fx usec (int p) True text_sz =
      clock_get_text localtime fx (usec - usec mod 1000000) (int p) True text_sz"
    and "6 \<le> p \<Longrightarrow> fx (nat (usec mod 1000000)) p = nat (usec mod 1000000) * 10 ^ (p - 6)"
proof -
  let ?k = "nat (usec mod 1000000)"
  have n: "2 * fx ?k p * 1000000 \<le> 2 * ?k * 10 ^ p + 1000000" "2 * ?k * 10 ^ p \<le> 2 * fx ?k p * 1000000 + 1000000"
    using assms(1) by (auto simp: nearest_def)
  show "clock_get_text localtime fx usec (int p) True text_sz =
      clock_get_text localtime fx (usec - usec mod 1000000) (int p) True text_sz"
    if up: "(2 * 10 ^ p - 1) * 1000000 < 2 * ?k * 10 ^ p"
  proof -
    have "fx ?k p \<le> 10 ^ p" by (rule fraction_le [OF assms(1)]) simp
    moreover have "(10 :: nat) ^ p \<le> fx ?k p"
    proof -
      have "(2 * 10 ^ p - 1) * 1000000 < 2 * fx ?k p * 1000000 + 1000000" using n(2) up by linarith
      then have "2 * 10 ^ p - 1 < 2 * fx ?k p + 1" by linarith
      then show ?thesis by linarith
    qed
    ultimately have "fx ?k p mod 10 ^ p = 0" by simp
    moreover have "fx 0 p = 0" using assms(1) [unfolded nearest_def, rule_format, of 0 p] by simp
    ultimately have "fraction_digits fx p ?k = fraction_digits fx p 0" by (simp add: fraction_digits_def)
    moreover have "(usec - usec mod 1000000) div 1000000 = usec div 1000000"
      "(usec - usec mod 1000000) mod 1000000 = 0" "0 \<le> usec - usec mod 1000000"
      using assms(2) by (simp_all add: minus_mod_eq_mult_div)
    ultimately show ?thesis using assms by (simp add: clock_get_text_eq)
  qed
  show "fx ?k p = ?k * 10 ^ (p - 6)" if "6 \<le> p"
  proof -
    have "(10 :: nat) ^ p = 1000000 * 10 ^ (p - 6)" using that power_add [of "10 :: nat" 6 "p - 6"] by simp
    then have "2 * fx ?k p \<le> 2 * (?k * 10 ^ (p - 6)) + 1" "2 * (?k * 10 ^ (p - 6)) \<le> 2 * fx ?k p + 1"
      using n by simp_all
    then show ?thesis by linarith
  qed
qed


definition sample_tm :: tm where
  "sample_tm = \<lparr>tm_year = 117, tm_mon = 2, tm_mday = 14, tm_hour = 9, tm_min = 26, tm_sec = 53, tm_gmtoff = - 18000\<rparr>"

lemma sample_tm_ok: "tm_ok sample_tm"
  by (simp add: tm_ok_def sample_tm_def)


theorem clock_text_rounds_up_witness:
  "clock_get_text (\<lambda>_. Inr sample_tm) half_up 1999600 3 True 64 =
   clock_get_text (\<lambda>_. Inr sample_tm) half_up 1000000 3 True 64 \<and>
   half_up 999600 6 = 999600"
  using clock_text_rounds_up(1) [of half_up 1999600 "\<lambda>_. Inr sample_tm" sample_tm 64 3]
    clock_text_rounds_up(2) [of half_up 1999600 "\<lambda>_. Inr sample_tm" sample_tm 64 6]
    half_up_nearest by simp

end
