(* ===== verification/Inspector.thy ===== *)
theory Inspector
  imports Records Dump Clock
begin

text \<open>
  The program that shows a storage, \<open>inspector.c\<close>: its attributes, its change queue and its records.
  Standard output is an \<open>out_file\<close>; when writing fails, the error depends on the end of standard
  input (\<open>feof(stdin)\<close>), the argument \<open>eof\<close>.  Times are printed through \<open>clock_get_text\<close>.
\<close>

section \<open>Formats\<close>

definition text_of :: "string \<Rightarrow> byte list" where "text_of s = bytes_of s"

text \<open>\<open>%08ld\<close>: the sign counts for the width.\<close>

definition print_08 :: "int \<Rightarrow> byte list" where
  "print_08 x = (if x < 0 then 45 # zero_padded 7 (nat (- x)) else zero_padded 8 (nat x))"

definition put_out :: "bool \<Rightarrow> byte list \<Rightarrow> out_file \<Rightarrow> status \<times> out_file" where
  "put_out eof s f =
     (case emit s f of
        (st, f) \<Rightarrow> (if FAILED st then if eof then EOF_STATUS else error_errno (f_errno f) else OK, f))"

section \<open>Attributes and queue\<close>

record insp_env =
  ie_slp :: "nat \<Rightarrow> status"
  ie_local :: "int \<Rightarrow> tm result"
  ie_fixed :: "nat \<Rightarrow> nat \<Rightarrow> nat"
  ie_eof :: bool
  ie_malloc_val :: bool
  ie_malloc_prop :: bool

definition print_version :: "u64 \<Rightarrow> byte list" where
  "print_version v = print_nat (unat v div 256) @ 46 # print_nat (unat v mod 256)"

definition attribute_text :: "storage \<Rightarrow> mem \<Rightarrow> byte list \<Rightarrow> byte list \<Rightarrow> byte list" where
  "attribute_text st m created touched =
     text_of ''storage:          '' @ bytes_of (stg_file st) @ [10] @
     text_of ''description:      '' @ 34 # storage_get_description m @ [34, 10] @
     text_of ''file version:     '' @ print_version (storage_get_file_version m) @ [10] @
     text_of ''data version:     '' @ print_version (storage_get_data_version m) @ [10] @
     text_of ''base id:          '' @ print_int (storage_get_base_id m) @ [10] @
     text_of ''max id:           '' @ print_int (storage_get_max_id m) @ [10] @
     text_of ''segment size:     '' @ print_int (int (storage_get_segment_size m)) @ [10] @
     text_of ''record size:      '' @ print_nat (storage_get_record_size m) @ [10] @
     text_of ''value size:       '' @ print_nat (storage_get_value_size m) @ [10] @
     text_of ''property size:    '' @ print_nat (storage_get_property_size m) @ [10] @
     text_of ''value offset:     '' @ print_nat (storage_get_value_offset m) @ [10] @
     text_of ''property offset:  '' @ print_nat (storage_get_property_offset m) @ [10] @
     text_of ''timestamp offset: '' @ print_nat (storage_get_timestamp_offset m) @ [10] @
     text_of ''queue base ref:   0x'' @ hex_padded 12 OFF_change_q @ [10] @
     text_of ''queue capacity:   '' @ print_nat (unat (storage_get_queue_capacity m)) @ [10] @
     text_of ''queue head ref:   0x'' @ hex_padded 12 OFF_q_head @ [10] @
     text_of ''queue head:       '' @ print_nat (unat (storage_get_queue_head m)) @ text_of '' ('' @
       print_nat (if storage_get_queue_capacity m > 0
                  then unat (storage_get_queue_head m mod storage_get_queue_capacity m) else 0) @ text_of '')'' @ [10] @
     text_of ''array base ref:   0x'' @ hex_padded 12 (stg_first st) @ [10] @
     text_of ''created time:     '' @ created @ [10] @
     text_of ''touched time:     '' @ touched @ [10]"

definition time_text :: "insp_env \<Rightarrow> microsec \<Rightarrow> byte list result" where
  "time_text e t = clock_get_text (ie_local e) (ie_fixed e) t 6 True 64"

definition put_attributes :: "insp_env \<Rightarrow> storage \<Rightarrow> mem \<Rightarrow> out_file \<Rightarrow> status \<times> out_file" where
  "put_attributes e st m f =
     (case storage_get_created_time m True of
        Inl err \<Rightarrow> (err, f)
      | Inr t \<Rightarrow>
          (case time_text e t of
             Inl err \<Rightarrow> (err, f)
           | Inr created \<Rightarrow>
               (case storage_get_touched_time (ie_slp e) m True of
                  Inl err \<Rightarrow> (err, f)
                | Inr t \<Rightarrow>
                    (case time_text e t of
                       Inl err \<Rightarrow> (err, f)
                     | Inr touched \<Rightarrow> put_out (ie_eof e) (attribute_text st m created touched) f))))"

definition print_div1 :: "bool \<Rightarrow> out_file \<Rightarrow> status \<times> out_file" where
  "print_div1 eof f = put_out eof (replicate 50 45 @ [10]) f"

definition queue_line :: "mem \<Rightarrow> u64 \<Rightarrow> u64 \<Rightarrow> ident \<Rightarrow> byte list" where
  "queue_line m q_head i rec_id =
     print_08 (sint i) @ text_of '' #'' @ print_08 rec_id @ (if q_head = i then text_of '' <--'' else []) @ [10]"

text \<open>The loop from slot \<open>i\<close> on, \<open>k\<close> slots being left.\<close>

fun print_slots :: "bool \<Rightarrow> mem \<Rightarrow> u64 \<Rightarrow> nat \<Rightarrow> u64 \<Rightarrow> out_file \<Rightarrow> status \<times> out_file" where
  "print_slots eof m q_head 0 i f = (OK, f)"
| "print_slots eof m q_head (Suc k) i f =
     (case storage_read_queue m i True of
        Inl err \<Rightarrow> (err, f)
      | Inr rec_id \<Rightarrow>
          (case put_out eof (queue_line m q_head i rec_id) f of
             (st, f) \<Rightarrow> if FAILED st then (st, f) else print_slots eof m q_head k (i + 1) f))"

definition print_queue :: "bool \<Rightarrow> mem \<Rightarrow> out_file \<Rightarrow> status \<times> out_file" where
  "print_queue eof m f =
     (let cap = storage_get_queue_capacity m
      in print_slots eof m (storage_get_queue_head m AND (cap - 1)) (unat cap) 0 f)"

section \<open>Records\<close>

text \<open>
  The copies that \<open>copy_record\<close> makes, and the output.  \<open>in_outside\<close> says that the program has read
  outside of an object, or has not returned; what it does then is not defined.
\<close>

record insp =
  in_rev :: u64
  in_ts :: microsec
  in_val :: "byte list option"
  in_val_off :: nat
  in_prop :: "byte list option"
  in_prop_off :: nat
  in_out :: out_file
  in_outside :: bool

definition copy_record :: "insp_env \<Rightarrow> mem \<Rightarrow> nat \<Rightarrow> insp \<Rightarrow> status \<times> insp" where
  "copy_record e m r s =
     (let val_sz = storage_get_value_size m;
          prop_sz = storage_get_property_size m
      in if in_val s = None \<and> (val_sz = 0 \<or> \<not> ie_malloc_val e) then (NO_MEMORY, s)
         else
           let s = s\<lparr>in_val_off := r + storage_get_value_offset m\<rparr>
           in if prop_sz > 0 \<and> in_prop s = None \<and> \<not> ie_malloc_prop e then (NO_MEMORY, s)
              else
                let s = s\<lparr>in_prop_off := r + storage_get_property_offset m\<rparr>
                in case record_read_lock (ie_slp e) m r of
                     Inl err \<Rightarrow> (err, s)
                   | Inr rv \<Rightarrow>
                       (OK, s\<lparr>in_rev := rv, in_ts := record_get_timestamp m r,
                              in_val := Some (mread m (record_get_value_ref r) val_sz),
                              in_prop := (if prop_sz > 0
                                then map_option (\<lambda>a. mread m a prop_sz) (storage_get_property_ref m r) else in_prop s)\<rparr>))"

definition divider :: "byte list" where "divider = replicate 78 61"

definition record_header :: "ident \<Rightarrow> nat \<Rightarrow> u64 \<Rightarrow> byte list \<Rightarrow> byte list" where
  "record_header rec_id off rv ts_text =
     text_of '' #'' @ print_08 rec_id @ text_of '' [0x'' @ hex_padded 12 off @ text_of ''] rev '' @ print_08 (sint rv) @
     32 # ts_text"

text \<open>\<open>divider + st + 1\<close> has to stay within the 79 bytes of the array.\<close>

definition put_record :: "insp_env \<Rightarrow> storage \<Rightarrow> mem \<Rightarrow> nat \<Rightarrow> insp \<Rightarrow> status \<times> insp" where
  "put_record e st m r s =
     (case storage_get_id st m r True of
        Inl err \<Rightarrow> (err, s)
      | Inr rec_id \<Rightarrow>
          (case time_text e (in_ts s) of
             Inl err \<Rightarrow> (err, s)
           | Inr ts_text \<Rightarrow>
               let buf = record_header rec_id (r - stg_first st) (in_rev s) ts_text
               in if length divider < length buf + 1 then (EOF_STATUS, s\<lparr>in_outside := True\<rparr>)
                  else case put_out (ie_eof e) (drop (length buf + 1) divider @ buf @ [10]) (in_out s) of
                         (res, f) \<Rightarrow> (res, s\<lparr>in_out := f\<rparr>)))"

definition dump_bytes :: "byte list \<Rightarrow> nat \<Rightarrow> insp \<Rightarrow> status \<times> insp" where
  "dump_bytes bs off s =
     (case dump True (\<lambda>i. if unat i < length bs then bs ! unat i else 0) (of_nat off) (of_nat (length bs)) (in_out s) of
        None \<Rightarrow> (EOF_STATUS, s\<lparr>in_outside := True\<rparr>)
      | Some (res, f) \<Rightarrow> (if FAILED res then res else OK, s\<lparr>in_out := f\<rparr>))"

definition print_value :: "insp \<Rightarrow> status \<times> insp" where
  "print_value s = (case in_val s of None \<Rightarrow> (error_invalid_arg, s) | Some bs \<Rightarrow> dump_bytes bs (in_val_off s) s)"

definition print_div2 :: "bool \<Rightarrow> insp \<Rightarrow> status \<times> insp" where
  "print_div2 eof s = (case put_out eof [42, 10] (in_out s) of (res, f) \<Rightarrow> (res, s\<lparr>in_out := f\<rparr>))"

definition print_property :: "mem \<Rightarrow> insp \<Rightarrow> status \<times> insp" where
  "print_property m s =
     (if storage_get_property_size m > 0 then
        (case in_prop s of None \<Rightarrow> (error_invalid_arg, s) | Some bs \<Rightarrow> dump_bytes bs (in_prop_off s) s)
      else (OK, s))"

text \<open>What to show; a failure of \<open>print_div2\<close> does not reach \<open>st\<close>.\<close>

record show_flags =
  sh_attributes :: bool
  sh_queue :: bool
  sh_records :: bool
  sh_values :: bool
  sh_properties :: bool

definition iter_func :: "insp_env \<Rightarrow> storage \<Rightarrow> mem \<Rightarrow> show_flags \<Rightarrow> nat \<Rightarrow> insp \<Rightarrow> status \<times> insp" where
  "iter_func e st m sh r s =
     (case copy_record e m r s of (res, s) \<Rightarrow>
      if FAILED res then (res, s)
      else case (if sh_records sh then put_record e st m r s else (res, s)) of (res, s) \<Rightarrow>
      if FAILED res then (res, s)
      else case (if sh_values sh then print_value s else (res, s)) of (res, s) \<Rightarrow>
      if FAILED res then (res, s)
      else case (if sh_records sh \<and> sh_properties sh then print_div2 (ie_eof e) s else (OK, s)) of (dv, s) \<Rightarrow>
      if FAILED dv then (res, s)
      else case (if sh_properties sh then print_property m s else (res, s)) of (res, s) \<Rightarrow>
      if FAILED res then (res, s) else (TRUE_ST, s))"

section \<open>The program\<close>

definition inspector_option :: "show_flags \<Rightarrow> char \<Rightarrow> string \<Rightarrow> show_flags run" where
  "inspector_option sh ch arg =
     (if ch = CHR ''a'' then Runs (sh\<lparr>sh_attributes := True\<rparr>)
      else if ch = CHR ''L'' then Runs sh
      else if ch = CHR ''p'' then Runs (sh\<lparr>sh_properties := True, sh_records := True\<rparr>)
      else if ch = CHR ''q'' then Runs (sh\<lparr>sh_queue := True\<rparr>)
      else if ch = CHR ''r'' then Runs (sh\<lparr>sh_records := True\<rparr>)
      else if ch = CHR ''v'' then show_version
      else if ch = CHR ''V'' then Runs (sh\<lparr>sh_values := True, sh_records := True\<rparr>)
      else show_syntax)"

text \<open>The records named on the command line; \<open>id\<close> is not initialised.\<close>

fun inspect_named ::
  "insp_env \<Rightarrow> int \<Rightarrow> storage \<Rightarrow> mem \<Rightarrow> show_flags \<Rightarrow> string list \<Rightarrow> insp \<Rightarrow> status \<times> insp" where
  "inspect_named e junk st m sh [] s = (OK, s)"
| "inspect_named e junk st m sh (w # ws) s =
     (case a2i_number wrap_long w junk of
        Inl err \<Rightarrow> (err, s)
      | Inr i \<Rightarrow>
          (case storage_get_record st m i True of
             Inl err \<Rightarrow> (err, s)
           | Inr r \<Rightarrow>
               (case iter_func e st m sh r s of
                  (res, s) \<Rightarrow> if FAILED res then (res, s) else inspect_named e i st m sh ws s)))"

definition inspector_main ::
  "insp_env \<Rightarrow> open_env \<Rightarrow> destroy_env \<Rightarrow> int \<Rightarrow> mem \<Rightarrow> string list \<Rightarrow> out_file \<Rightarrow> int \<times> out_file \<times> bool" where
  "inspector_main e oe de junk m argv f =
     (case getopt ''aLpqrvV'' argv of (opts, operands) \<Rightarrow>
      case for_options inspector_option opts \<lparr>sh_attributes = False, sh_queue = False, sh_records = False,
             sh_values = False, sh_properties = False\<rparr> of
        Exits n \<Rightarrow> (n, f, False)
      | Runs sh \<Rightarrow>
          if length operands < 1 then (- SYNTAX_ERROR, f, False)
          else case storage_open oe de True True (Some (hd operands)) O_RDONLY of
            (res, None) \<Rightarrow> (exit_code res, f, False)
          | (res, Some st) \<Rightarrow>
              if FAILED res then (exit_code res, f, False)
              else case (if sh_attributes sh then put_attributes e st m f else (OK, f)) of (res, f) \<Rightarrow>
              if FAILED res then (exit_code res, f, False)
              else case (if sh_attributes sh \<and> sh_queue sh then print_div1 (ie_eof e) f else (OK, f)) of (res, f) \<Rightarrow>
              if FAILED res then (exit_code res, f, False)
              else case (if sh_queue sh then print_queue (ie_eof e) m f else (OK, f)) of (res, f) \<Rightarrow>
              if FAILED res then (exit_code res, f, False)
              else
                let s = \<lparr>in_rev = 0, in_ts = 0, in_val = None, in_val_off = 0, in_prop = None, in_prop_off = 0,
                         in_out = f, in_outside = False\<rparr>
                in case (if \<not> sh_records sh then (OK, s)
                         else if tl operands \<noteq> [] then inspect_named e junk st m sh (tl operands) s
                         else storage_iterate st m None (Some (iter_func e st m sh)) s) of
                     (res, s) \<Rightarrow>
                       if FAILED res then (exit_code res, in_out s, in_outside s)
                       else (exit_code (fst (storage_destroy de (Some st))), in_out s, in_outside s))"

section \<open>Properties\<close>

lemma print_nat_digits_less: "10 ^ k \<le> n \<Longrightarrow> k < length (print_nat n)"
proof (induction k arbitrary: n)
  case (Suc k)
  then have n: "\<not> n < 10" using order_trans [OF _ Suc.prems, of 10] by simp
  have "10 ^ k \<le> n div 10" using div_le_mono [OF Suc.prems, of 10] by simp
  from Suc.IH [OF this] show ?case using n by (simp add: print_nat.simps [of n])
qed (simp add: print_nat.simps)

lemma hex_digits_length: "n < 16 ^ k \<Longrightarrow> 0 < k \<Longrightarrow> length (hex_digits n) \<le> k"
proof (induction k arbitrary: n)
  case (Suc k)
  show ?case
  proof (cases "n < 16")
    case False
    then have "0 < k" using Suc.prems by (cases k) auto
    moreover have "n div 16 < 16 ^ k" using Suc.prems by (simp add: less_mult_imp_div_less mult.commute)
    ultimately show ?thesis using Suc.IH [of "n div 16"] False by (simp add: hex_digits.simps [of n])
  qed (simp add: hex_digits.simps [of n])
qed simp

lemma time_text_length:
  assumes "nearest (ie_fixed e)" "0 \<le> t" "ie_local e (t div 1000000) = Inr tm" "tm_ok tm"
  obtains s where "time_text e t = Inr s" "length s = 32"
proof -
  have "length (print_hours (tm_gmtoff tm sdiv (60 * 60))) = 3"
    using assms(4) by (intro hours_length) (simp add: tm_ok_def)
  moreover have "unat ((64 :: u64) - of_nat 6 - 7) = 51" by simp
  ultimately show thesis
    using that clock_get_text_eq [of "ie_fixed e" t "ie_local e" tm 64 6] assms(1-3) date_and_time_length [OF assms(4)]
    by (simp add: time_text_def fraction_digits_length)
qed

lemma record_header_length:
  assumes "0 \<le> rec_id" "rec_id < 10 ^ 8" "off < 16 ^ 12" "0 \<le> sint rv"
  shows "length (record_header rec_id off rv ts) = 33 + length (print_08 (sint rv)) + length ts"
proof -
  have "nat rec_id < 10 ^ 8" using assms(1,2) by simp
  then have "length (print_08 rec_id) = 8" using assms(1) zero_padded_length [of "nat rec_id" 8] by (simp add: print_08_def)
  moreover have "length (hex_padded 12 off) = 12" using hex_digits_length [OF assms(3)] by (simp add: hex_padded_def)
  ultimately show ?thesis by (simp add: record_header_def text_of_def bytes_of_def)
qed

text \<open>
  The line above each record is 77 characters wide, as long as the revision has at most twelve
  digits.  From revision \<open>10 ^ 12\<close> on, the address \<open>divider + st + 1\<close> is outside of the array.
\<close>

theorem record_line_width:
  assumes "storage_get_id st m r True = Inr rec_id" "0 \<le> rec_id" "rec_id < 10 ^ 8" "r - stg_first st < 16 ^ 12"
    and "unlocked (in_rev s)" "nearest (ie_fixed e)" "0 \<le> in_ts s" "ie_local e (in_ts s div 1000000) = Inr tm" "tm_ok tm"
  shows "if sint (in_rev s) < 10 ^ 12
    then \<exists>line res f. length line = 77 \<and> put_out (ie_eof e) (line @ [10]) (in_out s) = (res, f) \<and>
      put_record e st m r s = (res, s\<lparr>in_out := f\<rparr>)
    else in_outside (snd (put_record e st m r s))"
proof -
  obtain ts where ts: "time_text e (in_ts s) = Inr ts" "length ts = 32"
    using time_text_length [OF assms(6-9)] by blast
  let ?v = "sint (in_rev s)"
  have v: "0 \<le> ?v" using assms(5) by (simp add: unlocked_def)
  let ?buf = "record_header rec_id (r - stg_first st) (in_rev s) ts"
  have len: "length ?buf = 65 + length (print_08 ?v)"
    using record_header_length [OF assms(2-4) v, of ts] ts(2) by simp
  show ?thesis
  proof (cases "?v < 10 ^ 12")
    case True
    then have "length (print_nat (nat ?v)) \<le> 12" using v by (intro print_nat_length) (simp_all add: nat_less_iff)
    then have le: "length ?buf \<le> 77" using v by (simp add: len print_08_def zero_padded_def)
    then have "length (drop (length ?buf + 1) divider @ ?buf) = 77" by (simp add: divider_def)
    moreover obtain res f where "put_out (ie_eof e) ((drop (length ?buf + 1) divider @ ?buf) @ [10]) (in_out s) = (res, f)"
      by fastforce
    ultimately show ?thesis
      using True le assms(1) ts(1)
      by (intro if_P [THEN iffD2]) (auto simp: put_record_def Let_def divider_def intro!: exI [of _ "drop (length ?buf + 1) divider @ ?buf"])
  next
    case False
    then have "10 ^ 12 \<le> nat ?v" by simp
    then have "12 < length (print_nat (nat ?v))" by (rule print_nat_digits_less)
    then have "77 < length ?buf" using v by (simp add: len print_08_def zero_padded_def)
    then show ?thesis using False assms(1) ts(1) by (simp add: put_record_def Let_def divider_def)
  qed
qed

definition sample_insp :: "u64 \<Rightarrow> insp" where
  "sample_insp rv = \<lparr>in_rev = rv, in_ts = 1500000, in_val = None, in_val_off = 0, in_prop = None, in_prop_off = 0,
     in_out = \<lparr>f_out = [], f_room = 100, f_eof = False, f_errno = 0\<rparr>, in_outside = False\<rparr>"

definition sample_insp_env :: insp_env where
  "sample_insp_env = \<lparr>ie_slp = \<lambda>_. OK, ie_local = \<lambda>_. Inr sample_tm, ie_fixed = half_up, ie_eof = False,
     ie_malloc_val = True, ie_malloc_prop = True\<rparr>"

theorem record_line_width_witness:
  "\<exists>st m r. (\<exists>line res f. length line = 77 \<and>
      put_out False (line @ [10]) \<lparr>f_out = [], f_room = 100, f_eof = False, f_errno = 0\<rparr> = (res, f) \<and>
      put_record sample_insp_env st m r (sample_insp 5) = (res, sample_insp 5\<lparr>in_out := f\<rparr>)) \<and>
    in_outside (snd (put_record sample_insp_env st m r (sample_insp 1000000000000)))"
proof -
  obtain st m where s: "stg_ok st m" "storage_get_base_id m = 10" "storage_get_max_id m = 14" using sample_store by blast
  have i: "storage_get_id st m (record_at st m 0) True = Inr 0" "record_at st m 0 = stg_first st"
    using storage_get_id_record_at [OF s(1), of 0] s(2,3) by (simp_all add: storage_count_def record_at_def)
  show ?thesis
    using record_line_width [OF i(1), where e = sample_insp_env and s = "sample_insp 5" and tm = sample_tm]
      record_line_width [OF i(1), where e = sample_insp_env and s = "sample_insp 1000000000000" and tm = sample_tm]
      half_up_nearest sample_tm_ok i(2)
    by (intro exI [of _ st] exI [of _ m] exI [of _ "record_at st m 0"])
      (simp add: sample_insp_def sample_insp_env_def unlocked_def)
qed

end
