(* ===== verification/Sockets.thy ===== *)
theory Sockets
  imports Wire Cmdline
begin

text \<open>
  The rest of \<open>socket.c\<close>: addresses and their text, the life of a socket and its descriptor, and
  the options.  The transfers are in theory \<open>Wire\<close>.  An address holds its fields in network byte
  order, as \<open>struct sockaddr_in\<close> does.  System calls give \<open>None\<close> for success, or their \<open>errno\<close>; the
  descriptors of the process that are open are part of the state, so that a leak can be seen.
\<close>

section \<open>Addresses\<close>

definition htonl :: "u32 \<Rightarrow> u32" where
  "htonl w = (push_bit 24 (w AND 0xFF)) OR (push_bit 8 (w AND 0xFF00)) OR (drop_bit 8 w AND 0xFF00) OR drop_bit 24 w"

definition htons :: "u16 \<Rightarrow> u16" where
  "htons w = push_bit 8 w OR drop_bit 8 w"

record sock_addr =
  sin_addr :: u32
  sin_port :: u16

definition INADDR_ANY :: u32 where "INADDR_ANY = 0"
definition INADDR_NONE :: u32 where "INADDR_NONE = 0xFFFFFFFF"
definition INET_ADDRSTRLEN :: nat where "INET_ADDRSTRLEN = 16"

text \<open>\<open>aton\<close> is \<open>inet_aton\<close> of the C library, \<open>None\<close> for text it does not take.\<close>

definition sock_addr_create ::
  "(byte list \<Rightarrow> u32 option) \<Rightarrow> bool \<Rightarrow> bool \<Rightarrow> byte list option \<Rightarrow> u16 \<Rightarrow> sock_addr result" where
  "sock_addr_create aton paddr_ok malloc_ok address port =
     (if \<not> paddr_ok then Inl error_invalid_arg
      else if \<not> malloc_ok then Inl NO_MEMORY
      else let addr = \<lparr>sin_addr = 0, sin_port = htons port\<rparr>
      in case address of
           None \<Rightarrow> Inr (addr\<lparr>sin_addr := htonl INADDR_ANY\<rparr>)
         | Some text \<Rightarrow>
             (case aton text of
                None \<Rightarrow> Inl INVALID_ADDRESS
              | Some a \<Rightarrow> Inr (addr\<lparr>sin_addr := a\<rparr>)))"

definition sock_addr_destroy :: "sock_addr option \<Rightarrow> status \<times> sock_addr option" where
  "sock_addr_destroy paddr = (OK, None)"

definition sock_addr_get_ip :: "sock_addr \<Rightarrow> u32" where
  "sock_addr_get_ip addr = htonl (sin_addr addr)"

definition sock_addr_get_port :: "sock_addr \<Rightarrow> u16" where
  "sock_addr_get_port addr = htons (sin_port addr)"

text \<open>\<open>inet_ntop\<close>: the four bytes in the order of the network, in decimal, with dots between.\<close>

definition inet_ntop :: "u32 \<Rightarrow> byte list" where
  "inet_ntop a =
     print_nat (unat (a AND 0xFF)) @ [46] @ print_nat (unat (drop_bit 8 a AND 0xFF)) @ [46] @
     print_nat (unat (drop_bit 16 a AND 0xFF)) @ [46] @ print_nat (unat (drop_bit 24 a AND 0xFF))"

definition sock_addr_get_text :: "sock_addr \<Rightarrow> bool \<Rightarrow> nat \<Rightarrow> bool \<Rightarrow> byte list result" where
  "sock_addr_get_text addr text_ok text_sz with_port =
     (if \<not> text_ok \<or> text_sz < INET_ADDRSTRLEN then Inl error_invalid_arg
      else let a_buf = inet_ntop (sin_addr addr);
               p_buf = (if with_port then 58 # print_int (uint (htons (sin_port addr))) else [])
      in if length a_buf + length p_buf \<ge> text_sz then Inl BUFFER_TOO_SMALL else Inr (a_buf @ p_buf))"

text \<open>\<open>old\<close> is what the variable for the port holds before.\<close>

definition sock_addr_split :: "bool \<Rightarrow> byte list \<Rightarrow> nat \<Rightarrow> u16 \<Rightarrow> (byte list \<times> u16) result" where
  "sock_addr_split args_ok addr_and_port addr_sz old =
     (if \<not> args_ok \<or> addr_sz = 0 then Inl error_invalid_arg
      else if 58 \<notin> set addr_and_port then Inl INVALID_ADDRESS
      else let addr = takeWhile (\<lambda>b. b \<noteq> 58) addr_and_port
      in if length addr \<ge> addr_sz then Inl BUFFER_TOO_SMALL
         else (case a2i_bytes to_ushort (drop (length addr + 1) addr_and_port) (uint old) of
                 Inl err \<Rightarrow> Inl err
               | Inr port \<Rightarrow> Inr (addr, word_of_int port)))"

definition sock_addr_is_equal :: "sock_addr option \<Rightarrow> sock_addr option \<Rightarrow> bool" where
  "sock_addr_is_equal lhs rhs =
     (case (lhs, rhs) of
        (Some a, Some b) \<Rightarrow> sin_addr a = sin_addr b \<and> sin_port a = sin_port b
      | _ \<Rightarrow> False)"

definition sock_addr_set_none :: "sock_addr \<Rightarrow> sock_addr" where
  "sock_addr_set_none addr = addr\<lparr>sin_addr := htonl INADDR_NONE, sin_port := 0\<rparr>"

definition sock_addr_copy :: "sock_addr \<Rightarrow> sock_addr \<Rightarrow> sock_addr" where
  "sock_addr_copy dest src = src"

section \<open>Sockets\<close>

record sock_obj =
  so_fd :: int
  so_prop :: nat

type_synonym sys = "int option"
type_synonym fds = "int set"

definition sys_status :: "sys \<Rightarrow> status" where
  "sys_status res = (case res of None \<Rightarrow> OK | Some e \<Rightarrow> error_errno e)"

text \<open>A descriptor is released when \<open>close\<close> succeeds.\<close>

definition sock_close :: "raised \<Rightarrow> sys \<Rightarrow> sock_obj \<Rightarrow> fds \<Rightarrow> status \<times> sock_obj \<times> fds" where
  "sock_close sg res s ds =
     (if so_fd s \<noteq> -1 then
        (case res of
           Some e \<Rightarrow> (error_eintr sg e, s, ds)
         | None \<Rightarrow> (OK, s\<lparr>so_fd := -1\<rparr>, ds - {so_fd s}))
      else (OK, s, ds))"

text \<open>The handle is released whatever \<open>sock_close\<close> gives.\<close>

definition sock_destroy :: "raised \<Rightarrow> sys \<Rightarrow> sock_obj option \<Rightarrow> fds \<Rightarrow> status \<times> sock_obj option \<times> fds" where
  "sock_destroy sg res psock ds =
     (case psock of
        None \<Rightarrow> (OK, None, ds)
      | Some s \<Rightarrow> (case sock_close sg res s ds of (st, _, ds) \<Rightarrow> (st, None, ds)))"

text \<open>\<open>res\<close> is the outcome of \<open>socket\<close>; when it fails there is nothing to close.\<close>

definition sock_create :: "bool \<Rightarrow> bool \<Rightarrow> int + int \<Rightarrow> fds \<Rightarrow> status \<times> sock_obj option \<times> fds" where
  "sock_create psock_ok malloc_ok res ds =
     (if \<not> psock_ok then (error_invalid_arg, None, ds)
      else if \<not> malloc_ok then (NO_MEMORY, None, ds)
      else case res of
        Inl e \<Rightarrow>
          (case sock_destroy (\<lambda>_. False) None (Some \<lparr>so_fd = -1, so_prop = 0\<rparr>) ds of
             (_, p, ds) \<Rightarrow> (error_errno e, p, ds))
      | Inr fd \<Rightarrow> (OK, Some \<lparr>so_fd = fd, so_prop = 0\<rparr>, insert fd ds))"

definition sock_accept ::
  "raised \<Rightarrow> bool \<Rightarrow> bool \<Rightarrow> int + int \<Rightarrow> sys \<Rightarrow> fds \<Rightarrow> status \<times> sock_obj option \<times> fds" where
  "sock_accept sg new_ok malloc_ok res close_res ds =
     (if \<not> new_ok then (error_invalid_arg, None, ds)
      else case res of
        Inl e \<Rightarrow> (if e = EAGAIN then BLOCKED else error_eintr sg e, None, ds)
      | Inr fd \<Rightarrow>
          let ds = insert fd ds
          in if malloc_ok then (OK, Some \<lparr>so_fd = fd, so_prop = 0\<rparr>, ds)
             else case close_res of
               Some e \<Rightarrow> (error_eintr sg e, None, ds)
             | None \<Rightarrow> (NO_MEMORY, None, ds - {fd}))"

definition sock_get_hostname :: "bool \<Rightarrow> nat \<Rightarrow> int + byte list \<Rightarrow> byte list result" where
  "sock_get_hostname name_ok name_sz res =
     (if \<not> name_ok \<or> name_sz = 0 then Inl error_invalid_arg
      else case res of
        Inl e \<Rightarrow> Inl (error_errno e)
      | Inr name \<Rightarrow> Inr (take (name_sz - 1) name))"

definition sock_get_property_ref :: "sock_obj \<Rightarrow> nat" where "sock_get_property_ref s = so_prop s"
definition sock_set_property_ref :: "sock_obj \<Rightarrow> nat \<Rightarrow> sock_obj" where "sock_set_property_ref s p = s\<lparr>so_prop := p\<rparr>"
definition sock_get_descriptor :: "sock_obj \<Rightarrow> int" where "sock_get_descriptor s = so_fd s"

text \<open>The local and the remote address: what \<open>getsockname\<close> or \<open>getpeername\<close> gives.\<close>

definition sock_get_local_address :: "int + sock_addr \<Rightarrow> sock_addr option \<Rightarrow> status \<times> sock_addr option" where
  "sock_get_local_address res addr =
     (if addr = None then (error_invalid_arg, addr)
      else case res of Inl e \<Rightarrow> (error_errno e, addr) | Inr a \<Rightarrow> (OK, Some a))"

definition sock_get_remote_address :: "int + sock_addr \<Rightarrow> sock_addr option \<Rightarrow> status \<times> sock_addr option" where
  "sock_get_remote_address res addr =
     (if addr = None then (error_invalid_arg, addr)
      else case res of Inl e \<Rightarrow> (error_errno e, addr) | Inr a \<Rightarrow> (OK, Some a))"

definition IFNAMSIZ :: nat where "IFNAMSIZ = 16"

text \<open>The two \<open>ioctl\<close> calls get the first sixteen bytes of the name of the device.\<close>

definition sock_get_interface_address ::
  "(byte list \<Rightarrow> int + u32) \<Rightarrow> byte list option \<Rightarrow> sock_addr \<Rightarrow> status \<times> sock_addr" where
  "sock_get_interface_address ioctl device addr =
     (case device of
        None \<Rightarrow> (error_invalid_arg, addr)
      | Some name \<Rightarrow>
          (case ioctl (take IFNAMSIZ name) of
             Inl e \<Rightarrow> (error_errno e, addr)
           | Inr a \<Rightarrow> (OK, addr\<lparr>sin_addr := a\<rparr>)))"

definition sock_get_mtu :: "(byte list \<Rightarrow> int + int) \<Rightarrow> bool \<Rightarrow> byte list option \<Rightarrow> u64 result" where
  "sock_get_mtu ioctl pmtu_ok device =
     (case device of
        None \<Rightarrow> Inl error_invalid_arg
      | Some name \<Rightarrow>
          if \<not> pmtu_ok then Inl error_invalid_arg
          else (case ioctl (take IFNAMSIZ name) of Inl e \<Rightarrow> Inl (error_errno e) | Inr mtu \<Rightarrow> Inr (word_of_int mtu)))"

section \<open>Options\<close>

datatype sock_option =
  Nonblock | Reuseaddr | Rx_buf | Tx_buf | Tcp_nodelay | Mcast_ttl | Mcast_loop | Mcast_if

text \<open>The options of one socket in the kernel, and the calls that change them.\<close>

type_synonym kopts = "sock_option \<rightharpoonup> int"

definition setsockopt :: "sys \<Rightarrow> sock_option \<Rightarrow> int \<Rightarrow> kopts \<Rightarrow> status \<times> kopts" where
  "setsockopt res opt val opts =
     (case res of Some e \<Rightarrow> (error_errno e, opts) | None \<Rightarrow> (OK, opts(opt \<mapsto> val)))"

definition sock_set_nonblock :: "int + int \<Rightarrow> sys \<Rightarrow> kopts \<Rightarrow> status \<times> kopts" where
  "sock_set_nonblock getfl setfl opts =
     (case getfl of Inl e \<Rightarrow> (error_errno e, opts) | Inr flags \<Rightarrow> setsockopt setfl Nonblock 1 opts)"

definition sock_set_reuseaddr :: "sys \<Rightarrow> int \<Rightarrow> kopts \<Rightarrow> status \<times> kopts" where
  "sock_set_reuseaddr res reuse opts = setsockopt res Reuseaddr (if reuse \<noteq> 0 then 1 else 0) opts"

definition sock_set_rx_buf :: "sys \<Rightarrow> u64 \<Rightarrow> kopts \<Rightarrow> status \<times> kopts" where
  "sock_set_rx_buf res buf_sz opts = setsockopt res Rx_buf (sint (ucast buf_sz :: u32)) opts"

definition sock_set_tx_buf :: "sys \<Rightarrow> u64 \<Rightarrow> kopts \<Rightarrow> status \<times> kopts" where
  "sock_set_tx_buf res buf_sz opts = setsockopt res Tx_buf (sint (ucast buf_sz :: u32)) opts"

definition sock_set_tcp_nodelay :: "sys \<Rightarrow> int \<Rightarrow> kopts \<Rightarrow> status \<times> kopts" where
  "sock_set_tcp_nodelay res disable_delay opts = setsockopt res Tcp_nodelay (if disable_delay \<noteq> 0 then 1 else 0) opts"

definition sock_set_mcast_ttl :: "sys \<Rightarrow> int \<Rightarrow> kopts \<Rightarrow> status \<times> kopts" where
  "sock_set_mcast_ttl res ttl opts = setsockopt res Mcast_ttl (uint (word_of_int ttl :: byte)) opts"

definition sock_set_mcast_loopback :: "sys \<Rightarrow> int \<Rightarrow> kopts \<Rightarrow> status \<times> kopts" where
  "sock_set_mcast_loopback res allow_loop opts = setsockopt res Mcast_loop allow_loop opts"

definition sock_set_mcast_interface :: "sys \<Rightarrow> sock_addr option \<Rightarrow> kopts \<Rightarrow> status \<times> kopts" where
  "sock_set_mcast_interface res addr opts =
     (case addr of
        None \<Rightarrow> (error_invalid_arg, opts)
      | Some a \<Rightarrow> setsockopt res Mcast_if (uint (sin_addr a)) opts)"

section \<open>Connecting\<close>

definition sock_bind :: "sys \<Rightarrow> sock_addr option \<Rightarrow> status" where
  "sock_bind res addr = (if addr = None then error_invalid_arg else sys_status res)"

definition sock_listen :: "sys \<Rightarrow> status" where "sock_listen res = sys_status res"

definition sock_connect :: "sys \<Rightarrow> sock_addr option \<Rightarrow> status" where
  "sock_connect res addr = (if addr = None then error_invalid_arg else sys_status res)"

definition sock_shutdown :: "sys \<Rightarrow> status" where "sock_shutdown res = sys_status res"

text \<open>The multicast groups a socket belongs to: pairs of group and interface.\<close>

definition sock_mcast_add ::
  "sys \<Rightarrow> sock_addr option \<Rightarrow> sock_addr option \<Rightarrow> (u32 \<times> u32) set \<Rightarrow> status \<times> (u32 \<times> u32) set" where
  "sock_mcast_add res multi iface groups =
     (case (multi, iface) of
        (Some a, Some b) \<Rightarrow>
          (case res of Some e \<Rightarrow> (error_errno e, groups) | None \<Rightarrow> (OK, insert (sin_addr a, sin_addr b) groups))
      | _ \<Rightarrow> (error_invalid_arg, groups))"

definition sock_mcast_drop ::
  "sys \<Rightarrow> sock_addr option \<Rightarrow> sock_addr option \<Rightarrow> (u32 \<times> u32) set \<Rightarrow> status \<times> (u32 \<times> u32) set" where
  "sock_mcast_drop res multi iface groups =
     (case (multi, iface) of
        (Some a, Some b) \<Rightarrow>
          (case res of Some e \<Rightarrow> (error_errno e, groups) | None \<Rightarrow> (OK, groups - {(sin_addr a, sin_addr b)}))
      | _ \<Rightarrow> (error_invalid_arg, groups))"
section \<open>The text of an address\<close>

lemma htons_htons [simp]: "htons (htons w) = w"
  by (simp add: htons_def bit_eq_iff bit_simps) (auto simp: bit_simps)

lemma print_nat_length3: "n < 1000 \<Longrightarrow> length (print_nat n) \<le> 3"
  by (simp add: print_nat.simps [of n] print_nat.simps [of "n div 10"] print_nat.simps [of "n div 10 div 10"])

lemma inet_ntop_length: "length (inet_ntop a) \<le> 15"
proof -
  have "unat (w AND 0xFF) < 1000" for w :: u32
    using word_and_le1 [of w "0xFF"] by (auto simp: word_le_nat_alt)
  then have "length (print_nat (unat (w AND 0xFF))) \<le> 3" for w :: u32 by (rule print_nat_length3)
  from this [of a] this [of "drop_bit 8 a"] this [of "drop_bit 16 a"] this [of "drop_bit 24 a"]
  show ?thesis by (simp add: inet_ntop_def)
qed

lemma inet_ntop_colon: "58 \<notin> set (inet_ntop a)"
proof -
  have "58 \<notin> set (print_nat n)" for n using print_nat_digits [of n] by (auto simp: is_digit_def)
  then show ?thesis by (simp add: inet_ntop_def)
qed

lemma to_ushort_uint: "word_of_int (to_ushort (uint p)) = (p :: u16)"
  by (simp add: to_ushort_def)

text \<open>
  The text of an address with its port, which always fits into 22 bytes, is split into the
  text of the address and the port; an address created from the two is the address itself,
  provided that \<open>inet_aton\<close> reads what \<open>inet_ntop\<close> writes.
\<close>

theorem sock_addr_text_roundtrip:
  assumes "22 \<le> text_sz" "16 \<le> addr_sz" "aton (inet_ntop (sin_addr addr)) = Some (sin_addr addr)"
  shows "\<exists>text. sock_addr_get_text addr True text_sz True = Inr text \<and>
    sock_addr_split True text addr_sz old = Inr (inet_ntop (sin_addr addr), sock_addr_get_port addr) \<and>
    sock_addr_create aton True True (Some (inet_ntop (sin_addr addr))) (sock_addr_get_port addr) = Inr addr"
proof -
  let ?a = "inet_ntop (sin_addr addr)" and ?p = "print_int (uint (htons (sin_port addr)))"
  have p: "?p = print_nat (unat (htons (sin_port addr)))" by (simp add: print_int_def flip: unat_eq_nat_uint)
  have "length (print_nat n) \<le> 5" if "n < 65536" for n
    using that print_nat_length3 [of "n div 10 div 10"] by (simp add: print_nat.simps [of n] print_nat.simps [of "n div 10"])
  moreover have "unat (htons (sin_port addr)) < 65536" using unsigned_less [of "htons (sin_port addr)"] by simp
  ultimately have "length ?p \<le> 5" by (simp add: p)
  then have t: "sock_addr_get_text addr True text_sz True = Inr (?a @ 58 # ?p)"
    using assms(1) inet_ntop_length [of "sin_addr addr"] by (simp add: sock_addr_get_text_def INET_ADDRSTRLEN_def Let_def)
  have w: "takeWhile (\<lambda>b. b \<noteq> 58) (?a @ 58 # ?p) = ?a"
    using inet_ntop_colon [of "sin_addr addr"] by (subst takeWhile_append2) auto
  have "sock_addr_split True (?a @ 58 # ?p) addr_sz old = Inr (?a, sock_addr_get_port addr)"
    using assms(2) inet_ntop_length [of "sin_addr addr"]
    by (simp add: sock_addr_split_def w a2i_bytes_print Let_def sock_addr_get_port_def to_ushort_uint)
  moreover have "sock_addr_create aton True True (Some ?a) (sock_addr_get_port addr) = Inr addr"
    using assms(3) by (simp add: sock_addr_create_def sock_addr_get_port_def Let_def)
  ultimately show ?thesis using t by blast
qed

theorem sock_addr_text_roundtrip_witness:
  "\<exists>text. sock_addr_get_text \<lparr>sin_addr = 0x0100007F, sin_port = htons 4096\<rparr> True 64 True = Inr text \<and>
    sock_addr_split True text 64 0 = Inr (inet_ntop 0x0100007F, 4096)"
  using sock_addr_text_roundtrip [of 64 64 "\<lambda>_. Some 0x0100007F" "\<lparr>sin_addr = 0x0100007F, sin_port = htons 4096\<rparr>" 0]
  by (auto simp: sock_addr_get_port_def)

section \<open>The life of descriptors\<close>

text \<open>
  The sockets of a program: its handles, and the descriptors that are open.  Each step is a call
  of the library with any outcome, except that closing succeeds; the system gives out a
  descriptor that is not open.
\<close>

record socks =
  sk_handles :: "nat \<rightharpoonup> sock_obj"
  sk_fds :: fds

inductive sock_step :: "socks \<Rightarrow> socks \<Rightarrow> bool" where
  creates: "h \<notin> dom (sk_handles w) \<Longrightarrow> (\<forall>fd. res = Inr fd \<longrightarrow> 0 \<le> fd \<and> fd \<notin> sk_fds w) \<Longrightarrow>
     sock_create ok malloc_ok res (sk_fds w) = (st, p, ds) \<Longrightarrow>
     sock_step w \<lparr>sk_handles = (sk_handles w)(h := p), sk_fds = ds\<rparr>"
| accepts: "h \<notin> dom (sk_handles w) \<Longrightarrow> (\<forall>fd. res = Inr fd \<longrightarrow> 0 \<le> fd \<and> fd \<notin> sk_fds w) \<Longrightarrow>
     sock_accept sg ok malloc_ok res None (sk_fds w) = (st, p, ds) \<Longrightarrow>
     sock_step w \<lparr>sk_handles = (sk_handles w)(h := p), sk_fds = ds\<rparr>"
| closes: "sk_handles w h = Some s \<Longrightarrow> sock_close sg None s (sk_fds w) = (st, s', ds) \<Longrightarrow>
     sock_step w \<lparr>sk_handles = (sk_handles w)(h \<mapsto> s'), sk_fds = ds\<rparr>"
| destroys: "sock_destroy sg None (sk_handles w h) (sk_fds w) = (st, p, ds) \<Longrightarrow>
     sock_step w \<lparr>sk_handles = (sk_handles w)(h := p), sk_fds = ds\<rparr>"

abbreviation sock_reach :: "socks \<Rightarrow> bool" where
  "sock_reach \<equiv> reach (\<lambda>w. w = \<lparr>sk_handles = Map.empty, sk_fds = {}\<rparr>) sock_step"

text \<open>The descriptors that are open are those of the sockets, each of one socket.\<close>

definition fd_of :: "sock_obj option \<Rightarrow> int" where
  "fd_of p = (case p of None \<Rightarrow> - 1 | Some s \<Rightarrow> so_fd s)"

definition owns :: "(nat \<Rightarrow> int) \<Rightarrow> fds \<Rightarrow> bool" where
  "owns g ds \<longleftrightarrow> ds = g ` {h. g h \<noteq> - 1} \<and> inj_on g {h. g h \<noteq> - 1}"

definition socks_inv :: "socks \<Rightarrow> bool" where
  "socks_inv w \<longleftrightarrow> owns (\<lambda>h. fd_of (sk_handles w h)) (sk_fds w)"

lemma owns_new:
  assumes "owns g ds" "g h = - 1" "fd \<notin> ds" "fd \<noteq> - 1"
  shows "owns (g(h := fd)) (insert fd ds)"
proof -
  have "{k. (g(h := fd)) k \<noteq> - 1} = insert h {k. g k \<noteq> - 1}" "h \<notin> {k. g k \<noteq> - 1}" using assms(2,4) by auto
  then show ?thesis using assms(1,3) by (simp add: owns_def inj_on_def) auto
qed

lemma owns_closed:
  assumes "owns g ds"
  shows "owns (g(h := - 1)) (ds - {g h})"
proof -
  have "{k. (g(h := - 1)) k \<noteq> - 1} = {k. g k \<noteq> - 1} - {h}" by auto
  then show ?thesis using assms by (auto simp: owns_def inj_on_def)
qed

lemma owns_same: "owns g ds \<Longrightarrow> g h = fd \<Longrightarrow> owns (g(h := fd)) ds"
  by (metis fun_upd_triv)

lemma socks_inv_upd:
  "owns ((\<lambda>h. fd_of (sk_handles w h))(h := fd_of p)) ds \<Longrightarrow> socks_inv \<lparr>sk_handles = (sk_handles w)(h := p), sk_fds = ds\<rparr>"
  by (simp add: socks_inv_def fun_upd_def if_distrib [of fd_of] cong: if_cong)

text \<open>A call that makes a socket gives a new descriptor or none; one that ends it releases its descriptor.\<close>

lemma sock_create_fd:
  "sock_create ok malloc_ok res ds = (st, p, ds') \<Longrightarrow> p = None \<and> ds' = ds \<or> (\<exists>fd. res = Inr fd \<and> fd_of p = fd \<and> ds' = insert fd ds)"
  by (auto simp: sock_create_def sock_destroy_def sock_close_def fd_of_def split: if_splits sum.splits)

lemma sock_accept_fd:
  "sock_accept sg ok malloc_ok res None ds = (st, p, ds') \<Longrightarrow> (\<forall>fd. res = Inr fd \<longrightarrow> fd \<notin> ds) \<Longrightarrow>
    p = None \<and> ds' = ds \<or> (\<exists>fd. res = Inr fd \<and> fd_of p = fd \<and> ds' = insert fd ds)"
  by (auto simp: sock_accept_def fd_of_def Let_def split: if_splits sum.splits)

lemma sock_close_fd: "sock_close sg None s ds = (st, s', ds') \<Longrightarrow> - 1 \<notin> ds \<Longrightarrow> so_fd s' = - 1 \<and> ds' = ds - {so_fd s}"
  by (auto simp: sock_close_def split: if_splits)

lemma sock_destroy_fd: "sock_destroy sg None p ds = (st, p', ds') \<Longrightarrow> - 1 \<notin> ds \<Longrightarrow> fd_of p' = - 1 \<and> ds' = ds - {fd_of p}"
  by (auto simp: sock_destroy_def fd_of_def sock_close_def split: option.splits prod.splits if_splits)

lemma socks_inv_new:
  assumes "socks_inv w" "h \<notin> dom (sk_handles w)" "\<forall>fd. res = Inr fd \<longrightarrow> 0 \<le> fd \<and> fd \<notin> sk_fds w"
    and "p = None \<and> ds = sk_fds w \<or> (\<exists>fd. res = Inr fd \<and> fd_of p = fd \<and> ds = insert fd (sk_fds w))"
  shows "socks_inv \<lparr>sk_handles = (sk_handles w)(h := p), sk_fds = ds\<rparr>"
proof (rule socks_inv_upd)
  have h: "fd_of (sk_handles w h) = - 1" using assms(2) by (auto simp: fd_of_def split: option.splits)
  from assms(4) show "owns ((\<lambda>h. fd_of (sk_handles w h))(h := fd_of p)) ds"
  proof
    assume "p = None \<and> ds = sk_fds w"
    then show ?thesis using assms(1) h owns_same [of "\<lambda>h. fd_of (sk_handles w h)" _ h "- 1"] by (simp add: socks_inv_def fd_of_def [of None])
  next
    assume "\<exists>fd. res = Inr fd \<and> fd_of p = fd \<and> ds = insert fd (sk_fds w)"
    then show ?thesis using assms(1,3) h owns_new [of "\<lambda>h. fd_of (sk_handles w h)" "sk_fds w" h "fd_of p"] by (auto simp: socks_inv_def)
  qed
qed

lemma socks_inv_closed:
  assumes "socks_inv w" "fd_of p = - 1" "ds = sk_fds w - {fd_of (sk_handles w h)}"
  shows "socks_inv \<lparr>sk_handles = (sk_handles w)(h := p), sk_fds = ds\<rparr>"
  using assms owns_closed [of "\<lambda>h. fd_of (sk_handles w h)" "sk_fds w" h]
  by (intro socks_inv_upd) (simp add: socks_inv_def)

lemma socks_inv_fds: "socks_inv w \<Longrightarrow> - 1 \<notin> sk_fds w"
  by (auto simp: socks_inv_def owns_def)

lemma sock_step_inv: "sock_step w w' \<Longrightarrow> socks_inv w \<Longrightarrow> socks_inv w'"
proof (induction rule: sock_step.induct)
  case (creates h w res ok malloc_ok st p ds)
  then show ?case by (intro socks_inv_new [of w h res]) (auto dest: sock_create_fd)
next
  case (accepts h w res sg ok malloc_ok st p ds)
  then show ?case using sock_accept_fd [OF accepts(3)] by (intro socks_inv_new [of w h res]) auto
next
  case (closes w h s sg st s' ds)
  then show ?case
    using sock_close_fd [OF closes(2) socks_inv_fds] by (intro socks_inv_closed) (auto simp: fd_of_def)
next
  case (destroys sg w h st p ds)
  then show ?case using sock_destroy_fd [OF destroys(1) socks_inv_fds] by (intro socks_inv_closed) auto
qed

interpretation open_socks: invariant_of "\<lambda>w. w = \<lparr>sk_handles = Map.empty, sk_fds = {}\<rparr>" sock_step socks_inv
proof
  fix w :: socks
  assume "w = \<lparr>sk_handles = Map.empty, sk_fds = {}\<rparr>"
  then show "socks_inv w" by (simp add: socks_inv_def owns_def fd_of_def)
qed (rule sock_step_inv)

text \<open>
  C23.  No descriptor is leaked and none is closed twice: in every state that calls of the library
  can reach, as long as \<open>close\<close> succeeds, the open descriptors are exactly those of the sockets
  that are there, each of one socket only; when all sockets are destroyed, none is open.
\<close>

theorem sock_descriptors:
  assumes "sock_reach w"
  shows "(\<forall>fd. fd \<in> sk_fds w \<longleftrightarrow> fd \<noteq> - 1 \<and> (\<exists>h s. sk_handles w h = Some s \<and> so_fd s = fd)) \<and>
    (\<forall>h h' s s'. sk_handles w h = Some s \<longrightarrow> sk_handles w h' = Some s' \<longrightarrow> so_fd s = so_fd s' \<longrightarrow> so_fd s \<noteq> - 1 \<longrightarrow> h = h') \<and>
    (sk_handles w = Map.empty \<longrightarrow> sk_fds w = {})"
proof -
  note i = open_socks.reach_inv [OF assms]
  have mem: "fd \<in> sk_fds w \<longleftrightarrow> fd \<noteq> - 1 \<and> (\<exists>h s. sk_handles w h = Some s \<and> so_fd s = fd)" for fd
    using i by (fastforce simp: socks_inv_def owns_def fd_of_def split: option.splits)
  moreover have "h = h'" if "sk_handles w h = Some s" "sk_handles w h' = Some s'" "so_fd s = so_fd s'" "so_fd s \<noteq> - 1" for h h' s s'
    using i inj_onD [of "\<lambda>h. fd_of (sk_handles w h)" "{h. fd_of (sk_handles w h) \<noteq> - 1}" h h'] that
    by (simp add: socks_inv_def owns_def fd_of_def)
  ultimately show ?thesis by auto
qed

theorem sock_descriptors_witness:
  "\<exists>w. sock_reach w \<and> sk_handles w 0 = Some \<lparr>so_fd = 3, so_prop = 0\<rparr> \<and> 3 \<in> sk_fds w"
proof -
  define w :: socks where "w = \<lparr>sk_handles = Map.empty, sk_fds = {}\<rparr>"
  define w' where "w' = \<lparr>sk_handles = (sk_handles w)(0 \<mapsto> \<lparr>so_fd = 3, so_prop = 0\<rparr>), sk_fds = {3}\<rparr>"
  have "sock_create True True (Inr 3) (sk_fds w) = (OK, Some \<lparr>so_fd = 3, so_prop = 0\<rparr>, {3})"
    by (simp add: sock_create_def w_def)
  then have "sock_step w w'" unfolding w'_def by (rule creates [rotated 2]) (simp_all add: w_def)
  moreover have "sock_reach w" by (rule reach_init) (rule w_def)
  ultimately have r: "sock_reach w'" by (rule reach_step [rotated])
  have "sk_handles w' 0 = Some \<lparr>so_fd = 3, so_prop = 0\<rparr>" by (simp add: w'_def)
  moreover from this have "3 \<in> sk_fds w'" using sock_descriptors [OF r] by force
  ultimately show ?thesis using r by blast
qed

text \<open>
  The time to live of multicast packets is cut to a byte and the sizes of the buffers to 32
  bits, without an error: what is set is what was asked for only within these bounds, and a time
  to live of 256 sets zero.
\<close>

theorem sock_option_widths:
  "(\<exists>opts'. sock_set_mcast_ttl None ttl opts = (OK, opts') \<and> (opts' Mcast_ttl = Some ttl \<longleftrightarrow> 0 \<le> ttl \<and> ttl \<le> 255)) \<and>
   (\<exists>opts'. sock_set_rx_buf None sz opts = (OK, opts') \<and> (opts' Rx_buf = Some (uint sz) \<longleftrightarrow> sz < 2 ^ 31)) \<and>
   (\<exists>opts'. sock_set_mcast_ttl None 256 opts = (OK, opts') \<and> opts' Mcast_ttl = Some 0)"
proof -
  have "uint (word_of_int ttl :: byte) = ttl \<longleftrightarrow> 0 \<le> ttl \<and> ttl \<le> 255"
    by (auto simp: uint_word_of_int mod_pos_pos_trivial)
  moreover have "sint (ucast sz :: u32) = uint sz \<longleftrightarrow> sz < 2 ^ 31"
  proof -
    have "sint (ucast sz :: u32) = signed_take_bit 31 (uint sz)"
      by (simp add: sint_uint unsigned_ucast_eq signed_take_bit_take_bit)
    moreover have "0 \<le> uint sz" by simp
    then have "- 2147483648 \<le> uint sz" by linarith
    ultimately show ?thesis by (simp add: signed_take_bit_int_eq_self_iff word_less_def)
  qed
  ultimately show ?thesis by (simp add: sock_set_mcast_ttl_def sock_set_rx_buf_def setsockopt_def)
qed

end
