(* ===== verification/Threads.thy ===== *)
theory Threads
  imports Runtime
begin

text \<open>
  Threads, \<open>thread.c\<close>.  Beside the operations, which run in the thread that owns the handle, the
  wrapper around the thread's function runs in the new thread; a step relation interleaves the
  two.  \<open>thread_create\<close> is two steps of it: \<open>pthread_create\<close>, after which the new thread may run, and
  the assignment of \<open>running\<close> that follows.
\<close>

section \<open>The operations\<close>

text \<open>A function and its parameter are numbers; \<open>th_sys\<close> says that \<open>sys_thr\<close> is set.\<close>

record thread =
  th_sys :: bool
  th_func :: nat
  th_param :: nat
  th_property :: nat
  th_running :: bool
  th_stopping :: bool

definition ESRCH :: int where "ESRCH = 3"

text \<open>\<open>res\<close> is the outcome of \<open>pthread_create\<close>, zero for success; the handle is released on failure.\<close>

definition thread_start :: "bool \<Rightarrow> bool \<Rightarrow> int \<Rightarrow> nat \<Rightarrow> nat \<Rightarrow> thread result" where
  "thread_start args_ok malloc_ok res fn param =
     (if \<not> args_ok then Inl error_invalid_arg
      else if \<not> malloc_ok then Inl NO_MEMORY
      else if res \<noteq> 0 then Inl (error_errno res)
      else Inr \<lparr>th_sys = True, th_func = fn, th_param = param, th_property = 0, th_running = False, th_stopping = False\<rparr>)"

definition thread_started :: "thread \<Rightarrow> thread" where
  "thread_started thr = thr\<lparr>th_running := True\<rparr>"

text \<open>The end of \<open>wrapper_fn\<close>, after the function has returned.\<close>

definition wrapper_done :: "thread \<Rightarrow> thread" where
  "wrapper_done thr = thr\<lparr>th_running := False\<rparr>"

definition thread_get_param :: "thread \<Rightarrow> nat" where "thread_get_param thr = th_param thr"
definition thread_get_property :: "thread \<Rightarrow> nat" where "thread_get_property thr = th_property thr"
definition thread_set_property :: "thread \<Rightarrow> nat \<Rightarrow> thread" where "thread_set_property thr prop = thr\<lparr>th_property := prop\<rparr>"
definition thread_is_running :: "thread \<Rightarrow> bool" where "thread_is_running thr = th_running thr"
definition thread_is_stopping :: "thread \<Rightarrow> bool" where "thread_is_stopping thr = th_stopping thr"

text \<open>
  \<open>thread_stop\<close> asks the thread to stop and then waits for its end in \<open>pthread_join\<close>; \<open>res\<close> is the
  outcome of the wait.
\<close>

definition thread_ask_stop :: "thread \<Rightarrow> thread" where
  "thread_ask_stop thr = (if th_sys thr then thr\<lparr>th_stopping := True\<rparr> else thr)"

definition thread_stop :: "int \<Rightarrow> thread \<Rightarrow> status \<times> thread" where
  "thread_stop res thr =
     (let thr = thread_ask_stop thr
      in if th_sys thr \<and> res \<noteq> 0 \<and> res \<noteq> ESRCH then (error_errno res, thr)
         else (OK, thr\<lparr>th_running := False\<rparr>))"

text \<open>Whether \<open>thread_destroy\<close> waits for the thread depends on \<open>running\<close>; the handle is always released.\<close>

definition thread_destroy :: "int \<Rightarrow> thread option \<Rightarrow> status \<times> thread option" where
  "thread_destroy res pthr =
     (case pthr of
        None \<Rightarrow> (OK, None)
      | Some thr \<Rightarrow> (if th_running thr then fst (thread_stop res thr) else OK, None))"

section \<open>Interleaving\<close>

datatype wrapper_pc = In_func | Func_returned | Ended

record thr_world =
  tw_thr :: thread
  tw_created :: bool
  tw_pc :: wrapper_pc
  tw_joined :: bool

inductive thr_step :: "thr_world \<Rightarrow> thr_world \<Rightarrow> bool" where
  creator: "\<not> tw_created w \<Longrightarrow> thr_step w (w\<lparr>tw_created := True, tw_thr := thread_started (tw_thr w)\<rparr>)"
| func_returns: "tw_pc w = In_func \<Longrightarrow> thr_step w (w\<lparr>tw_pc := Func_returned\<rparr>)"
| wrapper: "tw_pc w = Func_returned \<Longrightarrow> thr_step w (w\<lparr>tw_pc := Ended, tw_thr := wrapper_done (tw_thr w)\<rparr>)"
| ask_stop: "tw_created w \<Longrightarrow> thr_step w (w\<lparr>tw_thr := thread_ask_stop (tw_thr w)\<rparr>)"
| join: "tw_created w \<Longrightarrow> tw_pc w = Ended \<Longrightarrow> \<not> tw_joined w \<Longrightarrow> thread_stop 0 (tw_thr w) = (st, thr) \<Longrightarrow>
     thr_step w (w\<lparr>tw_joined := True, tw_thr := thr\<rparr>)"

text \<open>It begins when \<open>pthread_create\<close> has succeeded inside \<open>thread_create\<close>, which has not set \<open>running\<close> yet.\<close>

definition thr_init :: "nat \<Rightarrow> nat \<Rightarrow> thr_world \<Rightarrow> bool" where
  "thr_init fn param w \<longleftrightarrow> thread_start True True 0 fn param = Inr (tw_thr w) \<and>
     \<not> tw_created w \<and> tw_pc w = In_func \<and> \<not> tw_joined w"

abbreviation thr_reach :: "nat \<Rightarrow> nat \<Rightarrow> thr_world \<Rightarrow> bool" where
  "thr_reach fn param \<equiv> reach (thr_init fn param) thr_step"

section \<open>Properties\<close>

definition thr_inv :: "nat \<Rightarrow> nat \<Rightarrow> thr_world \<Rightarrow> bool" where
  "thr_inv fn param w \<longleftrightarrow> th_sys (tw_thr w) \<and> th_func (tw_thr w) = fn \<and> th_param (tw_thr w) = param \<and>
     (tw_created w \<and> \<not> th_running (tw_thr w) \<longrightarrow> tw_pc w = Ended) \<and>
     (tw_joined w \<longrightarrow> tw_created w \<and> tw_pc w = Ended \<and> \<not> th_running (tw_thr w) \<and> th_stopping (tw_thr w))"

lemma thr_begins:
  "thread_start True True 0 fn param = Inr thr \<Longrightarrow>
    thr_reach fn param \<lparr>tw_thr = thr, tw_created = False, tw_pc = In_func, tw_joined = False\<rparr>"
  by (rule reach_init) (simp add: thr_init_def)

lemma thr_step_inv: "thr_step w w' \<Longrightarrow> thr_inv fn param w \<Longrightarrow> thr_inv fn param w'"
  by (induction rule: thr_step.induct)
    (auto simp: thr_inv_def thread_started_def wrapper_done_def thread_ask_stop_def thread_stop_def Let_def)

interpretation one_thread: invariant_of "thr_init fn param" thr_step "thr_inv fn param" for fn param
proof
  fix w
  assume "thr_init fn param w"
  then show "thr_inv fn param w" by (cases w) (auto simp: thr_init_def thr_inv_def thread_start_def)
qed (rule thr_step_inv)

text \<open>
  C35.  When \<open>thread_is_running\<close> says no to the owner of a thread, the thread's function has returned
  and the wrapper is through with the handle, so that releasing it is safe; and a thread that has
  been waited for does not count as running again.
\<close>

theorem thread_not_running:
  assumes "thr_reach fn param w" "tw_created w" "\<not> thread_is_running (tw_thr w) \<or> tw_joined w"
  shows "tw_pc w = Ended \<and> \<not> thread_is_running (tw_thr w) \<and> thread_get_param (tw_thr w) = param"
proof -
  have "thr_inv fn param w" using assms(1) by (rule one_thread.reach_inv)
  then show ?thesis using assms(2,3) by (auto simp: thr_inv_def thread_is_running_def thread_get_param_def)
qed

theorem thread_not_running_witness:
  "\<exists>w. thr_reach 1 2 w \<and> \<not> thread_is_running (tw_thr w) \<and> tw_pc w = Ended \<and> thread_get_param (tw_thr w) = 2"
proof -
  obtain thr where t: "thread_start True True 0 1 2 = Inr thr" by (simp add: thread_start_def)
  note s0 = thr_begins [OF t]
  note s1 = reach_step [OF s0 creator, simplified]
  note s2 = reach_step [OF s1 func_returns, simplified]
  note s3 = reach_step [OF s2 wrapper, simplified]
  show ?thesis
    using thread_not_running [OF s3] s3 by (auto simp: thread_is_running_def wrapper_done_def)
qed

text \<open>
  The other direction fails: a thread whose function returns before \<open>thread_create\<close> has set
  \<open>running\<close> has ended, but counts as running until it is stopped.
\<close>

theorem thread_ends_early:
  "\<exists>w. thr_reach fn param w \<and> tw_created w \<and> tw_pc w = Ended \<and> thread_is_running (tw_thr w) \<and>
    (\<forall>w'. thr_step w w' \<longrightarrow> \<not> tw_joined w' \<longrightarrow> thread_is_running (tw_thr w'))"
proof -
  obtain thr where t: "thread_start True True 0 fn param = Inr thr" by (simp add: thread_start_def)
  note s0 = thr_begins [OF t]
  note s1 = reach_step [OF s0 func_returns, simplified]
  note s2 = reach_step [OF s1 wrapper, simplified]
  note s3 = reach_step [OF s2 creator, simplified]
  show ?thesis
    using s3 by (intro exI conjI) (assumption | auto simp: thread_is_running_def thread_started_def thread_ask_stop_def elim!: thr_step.cases)+
qed
theorem thread_ends_early_witness:
  "\<exists>w. thr_reach 1 2 w \<and> tw_pc w = Ended \<and> thread_is_running (tw_thr w)"
  using thread_ends_early [of 1 2] by blast

end
