(* ===== verification/Adverts.thy ===== *)
theory Adverts
  imports Sockets Threads
begin

text \<open>
  Advertisements, \<open>advert.c\<close>, and the sender of statistics, \<open>reporter.c\<close>.  An advert keeps one notice
  for each publisher and, from them, the text of a message that a thread multicasts from time to
  time.  Publishers are named by handles; their port and description are arguments.  A text that
  does not fit into the buffer it is built in, which in C overruns the buffer, is \<open>None\<close>.
\<close>

section \<open>Texts\<close>

text \<open>\<open>escape_quotes\<close> writes into a buffer of 512 bytes.\<close>

definition escape :: "byte list \<Rightarrow> byte list" where
  "escape s = concat (map (\<lambda>b. if b = 34 then [92, 34] else [b]) s)"

definition fits :: "nat \<Rightarrow> byte list \<Rightarrow> byte list option" where
  "fits n s = (if length s < n then Some s else None)"

definition escape_quotes :: "byte list \<Rightarrow> byte list option" where
  "escape_quotes s = fits 512 (escape s)"

text \<open>\<open>make_json_notice\<close>: the notice of a publisher.\<close>

definition notice_text :: "int \<Rightarrow> byte list \<Rightarrow> byte list" where
  "notice_text port desc =
     bytes_of ''{\"port\":'' @ print_int port @ bytes_of '', \"description\":\"'' @ desc @ bytes_of ''\"}''"

definition make_json_notice :: "bool \<Rightarrow> int \<Rightarrow> byte list \<Rightarrow> byte list result option" where
  "make_json_notice xstrdup_ok port desc =
     Option.bind (escape_quotes desc) (\<lambda>d.
     Option.bind (fits 512 (notice_text port d)) (\<lambda>buf.
     Some (if xstrdup_ok then Inr buf else Inl NO_MEMORY)))"

section \<open>Adverts\<close>

type_synonym snd_handle = nat

record advert =
  adv_sock :: sock_obj
  adv_msg :: "byte list option"
  adv_env :: "byte list"
  adv_period :: microsec
  adv_notices :: "(snd_handle \<times> byte list) list"
  adv_lock :: u64

definition join_notices :: "byte list list \<Rightarrow> byte list" where
  "join_notices ns = (case ns of [] \<Rightarrow> [] | n # ns \<Rightarrow> n @ concat (map (\<lambda>n. bytes_of '', '' @ n) ns))"

definition map_text :: "byte list \<Rightarrow> byte list \<Rightarrow> byte list list \<Rightarrow> byte list" where
  "map_text host env ns =
     bytes_of ''{\"hostname\":\"'' @ host @ bytes_of ''\", \"env\":\"'' @ env @ bytes_of ''\", \"version\":\"'' @
     print_int version_get_wire_major @ [46] @ print_int version_get_wire_minor @ bytes_of ''\", \"data\":['' @
     join_notices ns @ bytes_of '']}''"

text \<open>What \<open>make_json_map\<close> finds outside: the name of the host, memory, and the sleeps of the lock.\<close>

record map_env =
  me_hostname :: "int + byte list"
  me_xstrdup :: bool
  me_slp :: "nat \<Rightarrow> status"

definition make_json_map :: "map_env \<Rightarrow> advert \<Rightarrow> (status \<times> advert) option" where
  "make_json_map e adv =
     (case sock_get_hostname True 8192 (me_hostname e) of
        Inl err \<Rightarrow> Some (err, adv)
      | Inr name \<Rightarrow>
          Option.bind (escape_quotes name) (\<lambda>h.
          Option.bind (fits 256 h) (\<lambda>host.
          Option.bind (escape_quotes (adv_env adv)) (\<lambda>env.
          Option.bind (fits 8192 (map_text host env (map snd (adv_notices adv)))) (\<lambda>buf.
          Some (if \<not> me_xstrdup e then (NO_MEMORY, adv)
                else case spin_write_lock (\<lambda>_. adv_lock adv) (me_slp e) of
                  Inl err \<Rightarrow> (err, adv)
                | Inr _ \<Rightarrow> (OK, adv\<lparr>adv_msg := Some buf, adv_lock := 0\<rparr>)))))))"

text \<open>A null publisher is handle zero.\<close>

definition advert_publish ::
  "map_env \<Rightarrow> bool \<Rightarrow> bool \<Rightarrow> int \<Rightarrow> byte list \<Rightarrow> snd_handle \<Rightarrow> advert \<Rightarrow> (status \<times> advert) option" where
  "advert_publish e malloc_ok xstrdup_ok port desc h adv =
     (if h = 0 then Some (error_invalid_arg, adv)
      else if h \<in> fst ` set (adv_notices adv) then Some (OK, adv)
      else if \<not> malloc_ok then Some (NO_MEMORY, adv)
      else Option.bind (make_json_notice xstrdup_ok port desc) (\<lambda>res.
        case res of
          Inl err \<Rightarrow> Some (err, adv)
        | Inr text \<Rightarrow> make_json_map e (adv\<lparr>adv_notices := (h, text) # adv_notices adv\<rparr>)))"

fun drop_notice :: "snd_handle \<Rightarrow> (snd_handle \<times> byte list) list \<Rightarrow> (snd_handle \<times> byte list) list" where
  "drop_notice h [] = []"
| "drop_notice h (n # ns) = (if fst n = h then ns else n # drop_notice h ns)"

definition advert_retract :: "map_env \<Rightarrow> snd_handle \<Rightarrow> advert \<Rightarrow> (status \<times> advert) option" where
  "advert_retract e h adv =
     (if h = 0 then Some (error_invalid_arg, adv)
      else if h \<in> fst ` set (adv_notices adv)
        then make_json_map e (adv\<lparr>adv_notices := drop_notice h (adv_notices adv)\<rparr>)
      else Some (NOT_FOUND, adv))"

section \<open>The thread\<close>

text \<open>
  One turn of the loop of \<open>mcast_func\<close>: the status, and the message that has been sent, if any.  The
  lock is held while the message is sent.
\<close>

definition mcast_round :: "(nat \<Rightarrow> status) \<Rightarrow> raised \<Rightarrow> status \<Rightarrow> io \<Rightarrow> advert \<Rightarrow> status \<times> advert \<times> byte list option" where
  "mcast_round slp sg slept sent adv =
     (if FAILED slept then (slept, adv, None)
      else case spin_write_lock (\<lambda>_. adv_lock adv) slp of
        Inl err \<Rightarrow> (err, adv, None)
      | Inr _ \<Rightarrow>
          let adv = adv\<lparr>adv_lock := 0\<rparr>
          in case adv_msg adv of
               None \<Rightarrow> (OK, adv, None)
             | Some msg \<Rightarrow>
                 (case sock_sendto sg sent True (length msg) of
                    Inl err \<Rightarrow> (err, adv, None)
                  | Inr n \<Rightarrow> (int n, adv, Some msg)))"

text \<open>Rounds until one fails or the thread is asked to stop; then the socket is closed.\<close>

fun mcast_func ::
  "(nat \<Rightarrow> status) \<Rightarrow> raised \<Rightarrow> (status \<times> io) list \<Rightarrow> sys \<Rightarrow> status \<Rightarrow> advert \<Rightarrow> fds \<Rightarrow>
     status \<times> advert \<times> fds \<times> byte list list" where
  "mcast_func slp sg [] close_res st adv ds =
     (case sock_close sg close_res (adv_sock adv) ds of
        (st2, s, ds) \<Rightarrow> (if FAILED st then st else st2, adv\<lparr>adv_sock := s\<rparr>, ds, []))"
| "mcast_func slp sg ((slept, sent) # rs) close_res st adv ds =
     (case mcast_round slp sg slept sent adv of
        (st, adv, out) \<Rightarrow>
          (case (if FAILED st then mcast_func slp sg [] close_res st adv ds
                 else mcast_func slp sg rs close_res st adv ds) of
             (st, adv, ds, outs) \<Rightarrow> (st, adv, ds, (case out of None \<Rightarrow> outs | Some msg \<Rightarrow> msg # outs))))"

section \<open>Creating and destroying\<close>

text \<open>
  What \<open>init\<close> meets: memory, the outcome of \<open>socket\<close>, the statuses of the four calls for an interface
  (\<open>None\<close> when there is none), those of the four further calls, and that of \<open>thread_create\<close>.
\<close>

record advert_env =
  ae_malloc :: bool
  ae_xstrdup :: bool
  ae_socket :: "int + int"
  ae_iface :: "status list option"
  ae_setup :: "status list"
  ae_thread :: status
  ae_close :: sys

definition advert_init ::
  "advert_env \<Rightarrow> byte list option \<Rightarrow> microsec \<Rightarrow> fds \<Rightarrow> status \<times> advert \<times> fds" where
  "advert_init e env period ds =
     (let adv = \<lparr>adv_sock = \<lparr>so_fd = -1, so_prop = 0\<rparr>, adv_msg = None, adv_env = (case env of None \<Rightarrow> [] | Some s \<Rightarrow> s),
                 adv_period = period, adv_notices = [], adv_lock = spin_create\<rparr>
      in if \<not> ae_xstrdup e then (NO_MEMORY, adv, ds)
         else case sock_create True True (ae_socket e) ds of
           (st, None, ds) \<Rightarrow> (st, adv, ds)
         | (st, Some s, ds) \<Rightarrow>
             let adv = adv\<lparr>adv_sock := s\<rparr>
             in if FAILED st then (st, adv, ds)
                else if FAILED (first_failed (case ae_iface e of None \<Rightarrow> [] | Some sts \<Rightarrow> sts))
                  then (first_failed (case ae_iface e of None \<Rightarrow> [] | Some sts \<Rightarrow> sts), adv, ds)
                else (first_failed (ae_setup e @ [ae_thread e]), adv, ds))"

text \<open>\<open>thread_res\<close> is the status of \<open>thread_destroy\<close>.  The notices and texts are freed with the
  advert; the socket's handle is gone even when the descriptor could not be closed.\<close>

definition advert_destroy ::
  "raised \<Rightarrow> status \<Rightarrow> sys \<Rightarrow> advert option \<Rightarrow> fds \<Rightarrow> status \<times> advert option \<times> fds" where
  "advert_destroy sg thread_res close_res padv ds =
     (case padv of
        None \<Rightarrow> (OK, None, ds)
      | Some adv \<Rightarrow>
          if FAILED thread_res then (thread_res, Some adv, ds)
          else case sock_destroy sg close_res (Some (adv_sock adv)) ds of
            (st, _, ds) \<Rightarrow>
              if FAILED st then (st, Some (adv\<lparr>adv_sock := \<lparr>so_fd = -1, so_prop = 0\<rparr>\<rparr>), ds) else (OK, None, ds))"

definition advert_create ::
  "raised \<Rightarrow> advert_env \<Rightarrow> bool \<Rightarrow> bool \<Rightarrow> byte list option \<Rightarrow> microsec \<Rightarrow> fds \<Rightarrow> status \<times> advert option \<times> fds" where
  "advert_create sg e padv_ok addr_ok env period ds =
     (if \<not> padv_ok \<or> \<not> addr_ok \<or> period \<le> 0 then (error_invalid_arg, None, ds)
      else if \<not> ae_malloc e then (NO_MEMORY, None, ds)
      else case advert_init e env period ds of
        (st, adv, ds) \<Rightarrow>
          if FAILED st
            then (case advert_destroy sg OK (ae_close e) (Some adv) ds of (_, p, ds) \<Rightarrow> (st, p, ds))
          else (st, Some adv, ds))"

definition advert_is_running :: "thread option \<Rightarrow> bool" where
  "advert_is_running thr = (case thr of None \<Rightarrow> False | Some t \<Rightarrow> thread_is_running t)"

text \<open>\<open>stopped\<close> is the outcome of \<open>thread_stop\<close>: a failure, or what \<open>mcast_func\<close> returned.\<close>

definition advert_stop :: "raised \<Rightarrow> status result \<Rightarrow> sys \<Rightarrow> advert \<Rightarrow> fds \<Rightarrow> status \<times> advert \<times> fds" where
  "advert_stop sg stopped close_res adv ds =
     (let st = (case stopped of Inl err \<Rightarrow> err | Inr p \<Rightarrow> p)
      in case sock_close sg close_res (adv_sock adv) ds of
           (st2, s, ds) \<Rightarrow> (if FAILED st then st else st2, adv\<lparr>adv_sock := s\<rparr>, ds))"

section \<open>Reporting statistics\<close>

record reporter =
  rep_sock :: sock_obj
  rep_addr :: sock_addr

definition reporter_destroy :: "raised \<Rightarrow> sys \<Rightarrow> sock_obj option \<Rightarrow> fds \<Rightarrow> status \<times> sock_obj option \<times> fds" where
  "reporter_destroy sg close_res ps ds = sock_destroy sg close_res ps ds"

definition reporter_create ::
  "raised \<Rightarrow> (byte list \<Rightarrow> u32 option) \<Rightarrow> bool \<Rightarrow> bool \<Rightarrow> bool \<Rightarrow> int + int \<Rightarrow> sys \<Rightarrow> byte list option \<Rightarrow> u16 \<Rightarrow> fds \<Rightarrow>
     status \<times> reporter option \<times> fds" where
  "reporter_create sg aton prep_ok malloc_ok addr_malloc_ok res close_res address port ds =
     (if \<not> prep_ok \<or> address = None then (error_invalid_arg, None, ds)
      else if \<not> malloc_ok then (NO_MEMORY, None, ds)
      else case sock_create True True res ds of
        (st, None, ds) \<Rightarrow> (st, None, ds)
      | (st, Some s, ds) \<Rightarrow>
          (case sock_addr_create aton True addr_malloc_ok address port of
             Inl err \<Rightarrow> (case reporter_destroy sg close_res (Some s) ds of (_, _, ds) \<Rightarrow> (err, None, ds))
           | Inr a \<Rightarrow> (OK, Some \<lparr>rep_sock = s, rep_addr = a\<rparr>, ds)))"

definition reporter_send :: "raised \<Rightarrow> io \<Rightarrow> byte list option \<Rightarrow> nat result" where
  "reporter_send sg x msg = (case msg of None \<Rightarrow> Inl error_invalid_arg | Some s \<Rightarrow> sock_sendto sg x True (length s))"

section \<open>Properties\<close>

text \<open>
  An advert after calls that succeed, on one host, with the publishers it should announce.
  \<open>port\<close> and \<open>desc\<close> are the ports and descriptions of the publishers.
\<close>

inductive adv_step :: "byte list \<Rightarrow> (snd_handle \<Rightarrow> int) \<Rightarrow> (snd_handle \<Rightarrow> byte list) \<Rightarrow>
    advert \<times> snd_handle set \<Rightarrow> advert \<times> snd_handle set \<Rightarrow> bool"
  for name port desc where
  adv_publishes: "me_hostname e = Inr name \<Longrightarrow>
     advert_publish e malloc_ok xstrdup_ok (port h) (desc h) h adv = Some (OK, adv') \<Longrightarrow>
     adv_step name port desc (adv, S) (adv', insert h S)"
| adv_retracts: "me_hostname e = Inr name \<Longrightarrow> advert_retract e h adv = Some (OK, adv') \<Longrightarrow>
     adv_step name port desc (adv, S) (adv', S - {h})"

definition adv_new :: "byte list \<Rightarrow> advert \<times> snd_handle set \<Rightarrow> bool" where
  "adv_new env a \<longleftrightarrow> (case a of (adv, S) \<Rightarrow>
     S = {} \<and> adv_notices adv = [] \<and> adv_msg adv = None \<and> adv_env adv = env \<and> unlocked (adv_lock adv))"

abbreviation adv_reach :: "byte list \<Rightarrow> (snd_handle \<Rightarrow> int) \<Rightarrow> (snd_handle \<Rightarrow> byte list) \<Rightarrow> byte list \<Rightarrow>
    advert \<times> snd_handle set \<Rightarrow> bool" where
  "adv_reach name port desc env \<equiv> reach (adv_new env) (adv_step name port desc)"

definition announced :: "byte list \<Rightarrow> (snd_handle \<Rightarrow> int) \<Rightarrow> (snd_handle \<Rightarrow> byte list) \<Rightarrow> byte list \<Rightarrow> snd_handle list \<Rightarrow> byte list" where
  "announced name port desc env hs =
     map_text (escape (take 8191 name)) (escape env) (map (\<lambda>h. notice_text (port h) (escape (desc h))) hs)"

definition adv_inv :: "byte list \<Rightarrow> (snd_handle \<Rightarrow> int) \<Rightarrow> (snd_handle \<Rightarrow> byte list) \<Rightarrow> byte list \<Rightarrow>
    advert \<times> snd_handle set \<Rightarrow> bool" where
  "adv_inv name port desc env a \<longleftrightarrow> (case a of (adv, S) \<Rightarrow> unlocked (adv_lock adv) \<and> adv_env adv = env \<and>
     (\<exists>hs. distinct hs \<and> set hs = S \<and> adv_notices adv = map (\<lambda>h. (h, notice_text (port h) (escape (desc h)))) hs \<and>
       (adv_msg adv = Some (announced name port desc env hs) \<or> adv_msg adv = None \<and> hs = [])))"

lemma make_json_map_msg:
  assumes "make_json_map e adv = Some (OK, adv')" "me_hostname e = Inr name" "unlocked (adv_lock adv)"
  shows "adv' = adv\<lparr>adv_msg := Some (map_text (escape (take 8191 name)) (escape (adv_env adv)) (map snd (adv_notices adv))), adv_lock := 0\<rparr>"
  using assms
  by (auto simp: make_json_map_def sock_get_hostname_def escape_quotes_def fits_def status_defs spin_write_lock_from spin_from_free [of _ 0, simplified]
      split: if_splits sum.splits bind_splits)

lemma unlocked_zero: "unlocked 0"
  by (simp add: unlocked_def)

lemma drop_notice_map:
  "distinct hs \<Longrightarrow> drop_notice h (map (\<lambda>h. (h, f h)) hs) = map (\<lambda>h. (h, f h)) (remove1 h hs)"
  by (induction hs) auto

lemma adv_step_inv: "adv_step name port desc a a' \<Longrightarrow> adv_inv name port desc env a \<Longrightarrow> adv_inv name port desc env a'"
proof (induction rule: adv_step.induct)
  case (adv_publishes e malloc_ok xstrdup_ok h adv adv' S)
  then obtain hs where hs: "unlocked (adv_lock adv)" "adv_env adv = env" "distinct hs" "set hs = S"
    "adv_notices adv = map (\<lambda>h. (h, notice_text (port h) (escape (desc h)))) hs"
    by (auto simp: adv_inv_def)
  show ?case
  proof (cases "h \<in> S")
    case True
    then have "adv' = adv" using adv_publishes(2) hs(4,5)
      by (auto simp: advert_publish_def image_image status_defs split: if_splits)
    then show ?thesis using adv_publishes.prems True by (simp add: insert_absorb)
  next
    case False
    have "make_json_map e (adv\<lparr>adv_notices := (h, notice_text (port h) (escape (desc h))) # adv_notices adv\<rparr>) = Some (OK, adv')"
      using adv_publishes(2) hs(4,5) False
      by (auto simp: advert_publish_def make_json_notice_def escape_quotes_def fits_def image_image status_defs error_invalid_arg_eq
          split: if_splits bind_splits)
    from make_json_map_msg [OF this adv_publishes(1)] hs show ?thesis
      using False unlocked_zero
      by (auto simp: adv_inv_def announced_def comp_def intro!: exI [of _ "h # hs"])
  qed
next
  case (adv_retracts e h adv adv' S)
  then obtain hs where hs: "unlocked (adv_lock adv)" "adv_env adv = env" "distinct hs" "set hs = S"
    "adv_notices adv = map (\<lambda>h. (h, notice_text (port h) (escape (desc h)))) hs"
    by (auto simp: adv_inv_def)
  have "make_json_map e (adv\<lparr>adv_notices := drop_notice h (adv_notices adv)\<rparr>) = Some (OK, adv')"
    using adv_retracts(2) by (auto simp: advert_retract_def status_defs error_invalid_arg_eq split: if_splits)
  from make_json_map_msg [OF this adv_retracts(1)] hs show ?case
    using unlocked_zero
    by (auto simp: adv_inv_def announced_def drop_notice_map comp_def intro!: exI [of _ "remove1 h hs"])
qed

interpretation one_advert: invariant_of "adv_new env" "adv_step name port desc" "adv_inv name port desc env" for name port desc env
proof
  fix a
  assume "adv_new env a"
  then show "adv_inv name port desc env a" by (auto simp: adv_new_def adv_inv_def)
qed (rule adv_step_inv)


text \<open>An advert that has just been created, and a host on which nothing fails.\<close>

definition sample_advert :: advert where
  "sample_advert = \<lparr>adv_sock = \<lparr>so_fd = 3, so_prop = 0\<rparr>, adv_msg = None, adv_env = [], adv_period = 1000000,
     adv_notices = [], adv_lock = 0\<rparr>"

definition sample_host :: map_env where
  "sample_host = \<lparr>me_hostname = Inr [104], me_xstrdup = True, me_slp = (\<lambda>_. OK)\<rparr>"

lemma print_int_small: "0 \<le> x \<Longrightarrow> x < 1000 \<Longrightarrow> length (print_int x) \<le> 3"
  by (simp add: print_int_def print_nat_length3)

lemma length_escape: "length (escape s) = length s + count_list s 34"
  unfolding escape_def by (induction s) auto

lemma length_bytes_of [simp]: "length (bytes_of s) = length s"
  by (simp add: bytes_of_def)

lemma notice_text_length: "length (notice_text port desc) = 27 + length (print_int port) + length desc"
  by (simp add: notice_text_def)

lemma sample_publish:
  "\<exists>adv'. advert_publish sample_host True True 80 [97] 7 sample_advert = Some (OK, adv')"
proof -
  have "print_int version_get_wire_major = [50]" "print_int version_get_wire_minor = [48]"
    by (simp_all add: version_get_wire_major_def version_get_wire_minor_def print_int_def print_nat.simps)
  then have "length (map_text [104] [] [notice_text 80 [97]]) < 8192"
    using print_int_small [of 80] by (simp add: map_text_def join_notices_def notice_text_length)
  moreover have "escape [104] = [104]" "escape [] = []" "escape [97] = [97]" by (simp_all add: escape_def)
  moreover have "length (notice_text 80 [97]) < 512" using print_int_small [of 80] by (simp add: notice_text_length)
  ultimately show ?thesis
    by (simp add: advert_publish_def make_json_notice_def escape_quotes_def fits_def make_json_map_def sample_advert_def sample_host_def
        sock_get_hostname_def spin_write_lock_from spin_from_free [of _ 0, simplified] unlocked_zero)
qed


text \<open>
  When a message cannot be made, the publisher has been noted all the same: a second call,
  in the best of circumstances, reports success without announcing it.
\<close>

theorem advert_publish_again:
  assumes "h \<noteq> 0" "h \<notin> fst ` set (adv_notices adv)" "make_json_notice True port desc = Some (Inr text)"
    and "me_hostname e = Inl err" "0 < err"
  shows "\<exists>adv'. advert_publish e True True port desc h adv = Some (error_errno err, adv') \<and>
    adv_msg adv' = adv_msg adv \<and> advert_publish e' True True port desc h adv' = Some (OK, adv')"
  using assms by (simp add: advert_publish_def make_json_map_def sock_get_hostname_def)

theorem advert_publish_again_witness:
  "\<exists>adv'. advert_publish (sample_host\<lparr>me_hostname := Inl 14\<rparr>) True True 80 [97] 7 sample_advert = Some (- 14, adv') \<and>
    advert_publish sample_host True True 80 [97] 7 adv' = Some (OK, adv') \<and> adv_msg adv' = None"
proof -
  have "escape [97] = [97]" by (simp add: escape_def)
  moreover have "length (notice_text 80 [97]) < 512" using print_int_small [of 80] by (simp add: notice_text_length)
  ultimately have "make_json_notice True 80 [97] = Some (Inr (notice_text 80 [97]))"
    by (simp add: make_json_notice_def escape_quotes_def fits_def)
  from advert_publish_again [OF _ _ this, of 7 sample_advert "sample_host\<lparr>me_hostname := Inl 14\<rparr>" 14 sample_host]
  show ?thesis by (auto simp: sample_advert_def sample_host_def error_errno_def status_defs)
qed

text \<open>How a reader of JSON takes in a string, from after its opening quote on.\<close>

fun json_string :: "byte list \<Rightarrow> (byte list \<times> byte list) option" where
  "json_string [] = None"
| "json_string (b # bs) =
     (if b = 34 then Some ([], bs)
      else if b = 92 then
        (case bs of
           [] \<Rightarrow> None
         | c # cs \<Rightarrow> (case json_string cs of None \<Rightarrow> None | Some (s, rest) \<Rightarrow> Some (c # s, rest)))
      else (case json_string bs of None \<Rightarrow> None | Some (s, rest) \<Rightarrow> Some (b # s, rest)))"

text \<open>
  A description without a backslash is read back from the notice as it is, whatever quotes it
  has; but one that ends in a backslash takes away the closing quote, so that the notice is not
  JSON any more.
\<close>

theorem notice_description:
  "(92 \<notin> set desc \<longrightarrow> json_string (drop (25 + length (print_int port)) (notice_text port (escape desc))) = Some (desc, [125])) \<and>
   (92 \<notin> set desc \<longrightarrow> json_string (drop (25 + length (print_int port)) (notice_text port (escape (desc @ [92])))) = None)"
proof -
  have d: "drop (25 + length (print_int port)) (notice_text port d) = d @ [34, 125]" for d
    by (simp add: notice_text_def bytes_of_def numeral_eq_Suc)
  have "json_string (escape s @ [34, 125]) = Some (s, [125])" if "92 \<notin> set s" for s
    using that unfolding escape_def by (induction s) auto
  moreover have "json_string (escape (s @ [92]) @ [34, 125]) = None" if "92 \<notin> set s" for s
    using that unfolding escape_def by (induction s) auto
  ultimately show ?thesis by (simp add: d)
qed

theorem notice_description_witness:
  "json_string (drop (25 + length (print_int 80)) (notice_text 80 (escape [97, 34]))) = Some ([97, 34], [125])"
  using notice_description [of "[97, 34]" 80] by simp

text \<open>
  The notice of a publisher with a port of 16 bits fits its buffer if the description and the
  quotes in it make no more than 479 bytes, and then only memory can fail; but a description that a
  storage can hold, 255 quotes, overruns it.
\<close>

theorem make_json_notice_bounds:
  assumes "0 \<le> port" "port < 65536"
  shows "(length desc + count_list desc 34 \<le> 479 \<longrightarrow>
      make_json_notice True port desc = Some (Inr (notice_text port (escape desc)))) \<and>
    make_json_notice True port (replicate 255 34) = None"
proof -
  have "length (print_nat n) \<le> 5" if "n < 65536" for n
    using that print_nat_length3 [of "n div 10 div 10"] by (simp add: print_nat.simps [of n] print_nat.simps [of "n div 10"])
  then have "length (print_int port) \<le> 5" using assms by (simp add: print_int_def)
  moreover have "count_list (replicate n 34) (34 :: byte) = n" for n by (induction n) auto
  ultimately show ?thesis
    by (auto simp: make_json_notice_def escape_quotes_def fits_def length_escape notice_text_length)
qed

theorem make_json_notice_bounds_witness:
  "make_json_notice True 80 [97] = Some (Inr (notice_text 80 (escape [97])))"
  using make_json_notice_bounds [of 80 "[97]"] by simp

end
