(* ===== verification/Daemons.thy ===== *)
theory Daemons
  imports Delivery Adverts Clock
begin

text \<open>
  The two servers, \<open>publisher.c\<close> and \<open>subscriber.c\<close>: their options, the statistics they report, the
  thread that does so and also watches for signals, and the calls of \<open>main\<close>.  How \<open>%.2f\<close> prints a
  number is the argument \<open>fmt\<close>.  The name of the program that error messages start with is left out.
\<close>

section \<open>Statistics of the publisher\<close>

definition line_end :: "bool \<Rightarrow> byte list" where
  "line_end tty = (if tty then [27, 91, 75, 13] else [10])"

definition quoted_20 :: "byte list \<Rightarrow> byte list" where
  "quoted_20 s = 34 # take 20 s @ [34]"

text \<open>A member of a JSON object, with a value that is quoted or not.\<close>

definition json_text :: "string \<Rightarrow> byte list \<Rightarrow> byte list" where
  "json_text k v = 34 # bytes_of k @ [34, 58, 34] @ v @ [34]"

definition json_num :: "string \<Rightarrow> byte list \<Rightarrow> byte list" where
  "json_num k v = 34 # bytes_of k @ [34, 58] @ v"

fun comma_joined :: "byte list list \<Rightarrow> byte list" where
  "comma_joined [] = []"
| "comma_joined [x] = x"
| "comma_joined (x # y # zs) = x @ [44, 32] @ comma_joined (y # zs)"

definition pub_output_stg :: "(real \<Rightarrow> byte list) \<Rightarrow> bool \<Rightarrow> byte list \<Rightarrow> sender \<Rightarrow> real \<Rightarrow> byte list" where
  "pub_output_stg fmt tty desc sndr secs =
     quoted_20 desc @
     bytes_of '', STG.REC/s: '' @ fmt (of_int (sender_get_storage_record_count sndr) / secs) @
     bytes_of '', STG.MIN/us: '' @ fmt (sender_get_storage_min_latency sndr) @
     bytes_of '', STG.AVG/us: '' @ fmt (sender_get_storage_mean_latency sndr) @
     bytes_of '', STG.MAX/us: '' @ fmt (sender_get_storage_max_latency sndr) @
     bytes_of '', STG.STD/us: '' @ fmt (sender_get_storage_stddev_latency sndr) @ line_end tty"

definition pub_output_std :: "(real \<Rightarrow> byte list) \<Rightarrow> bool \<Rightarrow> byte list \<Rightarrow> sender \<Rightarrow> real \<Rightarrow> byte list" where
  "pub_output_std fmt tty desc sndr secs =
     quoted_20 desc @
     bytes_of '', RECV: '' @ print_int (sender_get_receiver_count sndr) @
     bytes_of '', PKT/s: '' @ fmt (of_int (sender_get_mcast_packets_sent sndr) / secs) @
     bytes_of '', GAP/s: '' @ fmt (of_int (sender_get_tcp_gap_count sndr) / secs) @
     bytes_of '', TCP KB/s: '' @ fmt (of_int (sender_get_tcp_bytes_sent sndr) / secs / 1024) @
     bytes_of '', MCAST KB/s: '' @ fmt (of_int (sender_get_mcast_bytes_sent sndr) / secs / 1024) @ line_end tty"

definition pub_output_json ::
  "(real \<Rightarrow> byte list) \<Rightarrow> byte list \<Rightarrow> byte list \<Rightarrow> byte list \<Rightarrow> sender \<Rightarrow> real \<Rightarrow> byte list" where
  "pub_output_json fmt ts hostname stg_file_name sndr secs =
     123 # comma_joined [
       json_text ''@timestamp'' ts, json_text ''host'' hostname, json_text ''type'' (bytes_of ''publisher''),
       json_text ''app'' (bytes_of ''publisher''), json_text ''cat'' (bytes_of ''data_feed''),
       json_text ''storage'' stg_file_name,
       json_num ''recv'' (print_int (sender_get_receiver_count sndr)),
       json_num ''pkt/s'' (fmt (of_int (sender_get_mcast_packets_sent sndr) / secs)),
       json_num ''gap/s'' (fmt (of_int (sender_get_tcp_gap_count sndr) / secs)),
       json_num ''tcp_kb/s'' (fmt (of_int (sender_get_tcp_bytes_sent sndr) / secs / 1024)),
       json_num ''mcast_kb/s'' (fmt (of_int (sender_get_mcast_bytes_sent sndr) / secs / 1024)),
       json_num ''stg_rec/s'' (fmt (of_int (sender_get_storage_record_count sndr) / secs)),
       json_num ''stg_min/us'' (fmt (sender_get_storage_min_latency sndr)),
       json_num ''stg_avg/us'' (fmt (sender_get_storage_mean_latency sndr)),
       json_num ''stg_max/us'' (fmt (sender_get_storage_max_latency sndr)),
       json_num ''stg_std/us'' (fmt (sender_get_storage_stddev_latency sndr))] @ [125]"

text \<open>
  One round of \<open>stats_func\<close>: whether the thread has been asked to stop, and the outcomes of the
  calls.  What the output functions return is not looked at.
\<close>

record stats_round =
  sa_stopping :: bool
  sa_raised :: raised
  sa_slept :: status
  sa_clock :: "microsec result"
  sa_text_time :: "byte list result"
  sa_slp :: "nat \<Rightarrow> status"
  sa_flush :: "int option"

record stats_cfg =
  sc_json :: bool
  sc_stg :: bool
  sc_reporter :: bool
  sc_tty :: bool
  sc_fmt :: "real \<Rightarrow> byte list"
  sc_host :: "byte list"
  sc_desc :: "byte list"

definition pub_output :: "stats_cfg \<Rightarrow> byte list result \<Rightarrow> sender \<Rightarrow> real \<Rightarrow> byte list list" where
  "pub_output c ts sndr secs =
     (if sc_stg c then [pub_output_stg (sc_fmt c) (sc_tty c) (sc_desc c) sndr secs]
      else if sc_json c then
        (case ts of
           Inl err \<Rightarrow> []
         | Inr ts \<Rightarrow> [pub_output_json (sc_fmt c) ts (sc_host c) (bytes_of (stg_file (sender_get_storage sndr))) sndr secs])
      else [pub_output_std (sc_fmt c) (sc_tty c) (sc_desc c) sndr secs])"

fun pub_stats_loop ::
  "stats_cfg \<Rightarrow> stats_round list \<Rightarrow> microsec \<Rightarrow> status \<Rightarrow> sender \<Rightarrow> (status \<times> sender \<times> byte list list) option" where
  "pub_stats_loop c [] last_print st sndr = None"
| "pub_stats_loop c (d # ds) last_print st sndr =
     (if sa_stopping d then Some (st, sndr, [])
      else if FAILED (signal_any_raised (sa_raised d)) then Some (signal_any_raised (sa_raised d), sndr, [])
      else if FAILED (sa_slept d) then Some (sa_slept d, sndr, [])
      else case sa_clock d of
        Inl err \<Rightarrow> Some (err, sndr, [])
      | Inr now \<Rightarrow>
          let out = pub_output c (sa_text_time d) sndr (of_int (now - last_print) / 1000000)
          in case sender_roll_stats (sa_slp d) sndr of
               (st, sndr) \<Rightarrow>
                 if FAILED st then Some (st, sndr, out)
                 else case (if sc_reporter c then None else sa_flush d) of
                   Some e \<Rightarrow> Some (error_errno e, sndr, out)
                 | None \<Rightarrow> map_option (\<lambda>(st, sndr, outs). (st, sndr, out @ outs)) (pub_stats_loop c ds now st sndr))"

definition pub_stats_func ::
  "stats_cfg \<Rightarrow> microsec result \<Rightarrow> stats_round list \<Rightarrow> sender \<Rightarrow> (status \<times> sender \<times> byte list list) option" where
  "pub_stats_func c clk ds sndr =
     (case clk of
        Inl err \<Rightarrow> Some (err, sender_stop sndr, [])
      | Inr last_print \<Rightarrow> map_option (\<lambda>(st, sndr, out). (st, sender_stop sndr, out)) (pub_stats_loop c ds last_print OK sndr))"

section \<open>The publisher\<close>

record pub_opts =
  po_adv :: "(byte list \<times> u16) option"
  po_adv_period :: microsec
  po_env :: "byte list"
  po_hb :: microsec
  po_iface :: "byte list option"
  po_adv_iface :: "byte list option"
  po_json :: bool
  po_host :: "byte list"
  po_loopback :: bool
  po_orphan :: microsec
  po_age :: microsec
  po_overrun :: bool
  po_recreate :: bool
  po_stg_stats :: bool
  po_reporter :: "reporter option"
  po_ttl :: int

definition pub_defaults :: pub_opts where
  "pub_defaults = \<lparr>po_adv = None, po_adv_period = 10 * 1000000, po_env = [], po_hb = 1000000, po_iface = None,
     po_adv_iface = None, po_json = False, po_host = [], po_loopback = False, po_orphan = 3 * 1000000, po_age = 2000,
     po_overrun = False, po_recreate = False, po_stg_stats = False, po_reporter = None, po_ttl = 1\<rparr>"

text \<open>\<open>host\<close> is what \<open>gethostname\<close> gives, \<open>rep\<close> what \<open>reporter_create\<close> does, \<open>port\<close> what a port holds before.\<close>

definition pub_option ::
  "int + byte list \<Rightarrow> (byte list \<Rightarrow> u16 \<Rightarrow> reporter result) \<Rightarrow> u16 \<Rightarrow> pub_opts \<Rightarrow> char \<Rightarrow> string \<Rightarrow> pub_opts run" where
  "pub_option host rep port cfg ch arg =
     (if ch = CHR ''a'' then
        or_die (sock_addr_split True (bytes_of arg) 64 (case po_adv cfg of None \<Rightarrow> 0 | Some (_, p) \<Rightarrow> p))
          (\<lambda>ap. Runs (cfg\<lparr>po_adv := Some ap\<rparr>))
      else if ch = CHR ''A'' then or_die (a2i_number wrap_long arg (po_adv_period cfg)) (\<lambda>n. Runs (cfg\<lparr>po_adv_period := n\<rparr>))
      else if ch = CHR ''e'' then Runs (cfg\<lparr>po_env := bytes_of arg\<rparr>)
      else if ch = CHR ''H'' then or_die (a2i_number wrap_long arg (po_hb cfg)) (\<lambda>n. Runs (cfg\<lparr>po_hb := n\<rparr>))
      else if ch = CHR ''i'' then Runs (cfg\<lparr>po_iface := Some (bytes_of arg)\<rparr>)
      else if ch = CHR ''I'' then Runs (cfg\<lparr>po_adv_iface := Some (bytes_of arg)\<rparr>)
      else if ch = CHR ''j'' then
        (if po_stg_stats cfg then show_syntax
         else or_die (sock_get_hostname True 256 host) (\<lambda>h. Runs (cfg\<lparr>po_host := h, po_json := True\<rparr>)))
      else if ch = CHR ''l'' then Runs (cfg\<lparr>po_loopback := True\<rparr>)
      else if ch = CHR ''L'' then Runs cfg
      else if ch = CHR ''O'' then or_die (a2i_number wrap_long arg (po_orphan cfg)) (\<lambda>n. Runs (cfg\<lparr>po_orphan := n\<rparr>))
      else if ch = CHR ''p'' then Runs cfg
      else if ch = CHR ''P'' then or_die (a2i_number wrap_long arg (po_age cfg)) (\<lambda>n. Runs (cfg\<lparr>po_age := n\<rparr>))
      else if ch = CHR ''Q'' then Runs (cfg\<lparr>po_overrun := True\<rparr>)
      else if ch = CHR ''R'' then Runs (cfg\<lparr>po_recreate := True\<rparr>)
      else if ch = CHR ''s'' then (if po_json cfg then show_syntax else Runs (cfg\<lparr>po_stg_stats := True\<rparr>))
      else if ch = CHR ''S'' then
        or_die (sock_addr_split True (bytes_of arg) 64 port)
          (\<lambda>(a, p). or_die (rep a p) (\<lambda>r. Runs (cfg\<lparr>po_reporter := Some r\<rparr>)))
      else if ch = CHR ''t'' then or_die (a2i_number to_short arg (po_ttl cfg)) (\<lambda>n. Runs (cfg\<lparr>po_ttl := n\<rparr>))
      else if ch = CHR ''v'' then show_version
      else show_syntax)"

text \<open>
  What \<open>main\<close> meets.  \<open>pe_advert\<close> is the outcome of \<open>advert_create\<close> and \<open>advert_publish\<close> when an
  advertisement is asked for; \<open>pe_rounds\<close> and \<open>pe_stats\<close> are the rounds of the two threads, \<open>pe_join\<close> the
  statuses of \<open>thread_stop\<close> and \<open>thread_destroy\<close>, and \<open>pe_last\<close> those of the calls after the result of the
  statistics thread is looked at.
\<close>

record pub_env =
  pe_host :: "int + byte list"
  pe_reporter :: "byte list \<Rightarrow> u16 \<Rightarrow> reporter result"
  pe_port :: u16
  pe_signals :: "status list"
  pe_malloc :: bool
  pe_init :: sender_init_env
  pe_advert :: "pub_opts \<Rightarrow> sender \<Rightarrow> status"
  pe_thread :: status
  pe_stats_clock :: "microsec result"
  pe_stats :: "stats_round list"
  pe_fmt :: "real \<Rightarrow> byte list"
  pe_tty :: bool
  pe_quit :: quit_env
  pe_rounds :: "snd_round list"
  pe_avail :: "nat \<Rightarrow> byte list"
  pe_join :: "status list"
  pe_last :: "status list"

definition pub_stats_cfg :: "pub_env \<Rightarrow> pub_opts \<Rightarrow> stats_cfg" where
  "pub_stats_cfg e cfg = \<lparr>sc_json = po_json cfg, sc_stg = po_stg_stats cfg, sc_reporter = (po_reporter cfg \<noteq> None),
     sc_tty = pe_tty e, sc_fmt = pe_fmt e, sc_host = po_host cfg,
     sc_desc = storage_get_description (oe_contents (si_open (pe_init e)))\<rparr>"

definition pub_serve :: "pub_env \<Rightarrow> pub_opts \<Rightarrow> sender \<Rightarrow> poller \<Rightarrow> int option" where
  "pub_serve e cfg sndr pol =
     (if FAILED (pe_thread e) then Some (exit_code (pe_thread e))
      else case sender_run (pe_quit e) (pe_rounds e) OK pol
                  \<lparr>sw_sender = sndr, sw_dgrams = [], sw_sent = \<lambda>_. [], sw_avail = pe_avail e\<rparr> of
        None \<Rightarrow> None
      | Some (res, pol, w) \<Rightarrow>
          if FAILED res then Some (exit_code res)
          else case pub_stats_func (pub_stats_cfg e cfg) (pe_stats_clock e) (pe_stats e) sndr of
            None \<Rightarrow> None
          | Some (stats_result, _, _) \<Rightarrow> Some (exit_code (first_failed (pe_join e @ stats_result # pe_last e))))"

definition publisher_main :: "pub_env \<Rightarrow> string list \<Rightarrow> int option" where
  "publisher_main e argv =
     (case getopt ''a:A:e:H:i:I:jlLO:p:P:QRsS:t:v'' argv of (opts, operands) \<Rightarrow>
      case for_options (pub_option (pe_host e) (pe_reporter e) (pe_port e)) opts pub_defaults of
        Exits n \<Rightarrow> Some n
      | Runs cfg \<Rightarrow>
          if length operands \<noteq> 3 then Some (- SYNTAX_ERROR)
          else case sock_addr_split True (bytes_of (operands ! 1)) 64 (pe_port e) of
            Inl err \<Rightarrow> Some (exit_code err)
          | Inr (tcp_addr, tcp_port) \<Rightarrow>
              (case sock_addr_split True (bytes_of (operands ! 2)) 64 (pe_port e) of
                 Inl err \<Rightarrow> Some (exit_code err)
               | Inr (mcast_addr, mcast_port) \<Rightarrow>
                   if FAILED (first_failed (pe_signals e)) then Some (exit_code (first_failed (pe_signals e)))
                   else case sender_create (pe_init e) (pe_malloc e) True (Some (operands ! 0)) True (Some mcast_addr)
                               (uint mcast_port) (po_iface cfg \<noteq> None) (po_recreate cfg) (po_overrun cfg) (po_hb cfg)
                               (po_orphan cfg) (po_age cfg) of
                     Inl err \<Rightarrow> Some (exit_code err)
                   | Inr (sndr, pol) \<Rightarrow>
                       if po_adv cfg \<noteq> None \<and> FAILED (pe_advert e cfg sndr) then Some (exit_code (pe_advert e cfg sndr))
                       else pub_serve e cfg sndr pol))"

section \<open>The subscriber\<close>

definition sub_output_std :: "(real \<Rightarrow> byte list) \<Rightarrow> bool \<Rightarrow> byte list \<Rightarrow> receiver \<Rightarrow> real \<Rightarrow> byte list" where
  "sub_output_std fmt tty desc recv secs =
     quoted_20 desc @
     bytes_of '', PKT/s: '' @ fmt (of_int (receiver_get_mcast_packets_recv recv) / secs) @
     bytes_of '', GAP/s: '' @ fmt (of_int (receiver_get_tcp_gap_count recv) / secs) @
     bytes_of '', TCP KB/s: '' @ fmt (of_int (receiver_get_tcp_bytes_recv recv) / secs / 1024) @
     bytes_of '', MCAST KB/s: '' @ fmt (of_int (receiver_get_mcast_bytes_recv recv) / secs / 1024) @
     bytes_of '', MIN/us: '' @ fmt (receiver_get_mcast_min_latency recv) @
     bytes_of '', AVG/us: '' @ fmt (receiver_get_mcast_mean_latency recv) @
     bytes_of '', MAX/us: '' @ fmt (receiver_get_mcast_max_latency recv) @
     bytes_of '', STD/us: '' @ fmt (receiver_get_mcast_stddev_latency recv) @ line_end tty"

definition sub_output_json ::
  "(real \<Rightarrow> byte list) \<Rightarrow> byte list \<Rightarrow> byte list \<Rightarrow> byte list \<Rightarrow> byte list \<Rightarrow> receiver \<Rightarrow> real \<Rightarrow> byte list" where
  "sub_output_json fmt ts hostname alias stg_file_name recv secs =
     123 # comma_joined [
       json_text ''@timestamp'' ts, json_text ''host'' hostname, json_text ''type'' (bytes_of ''subscriber''),
       json_text ''app'' (bytes_of ''subscriber''), json_text ''cat'' (bytes_of ''data_feed''),
       json_text ''alias'' alias, json_text ''storage'' stg_file_name,
       json_num ''pkt/s'' (fmt (of_int (receiver_get_mcast_packets_recv recv) / secs)),
       json_num ''gap/s'' (fmt (of_int (receiver_get_tcp_gap_count recv) / secs)),
       json_num ''tcp_kb/s'' (fmt (of_int (receiver_get_tcp_bytes_recv recv) / secs / 1024)),
       json_num ''mcast_kb/s'' (fmt (of_int (receiver_get_mcast_bytes_recv recv) / secs / 1024)),
       json_num ''min/us'' (fmt (receiver_get_mcast_min_latency recv)),
       json_num ''avg/us'' (fmt (receiver_get_mcast_mean_latency recv)),
       json_num ''max/us'' (fmt (receiver_get_mcast_max_latency recv)),
       json_num ''std/us'' (fmt (receiver_get_mcast_stddev_latency recv))] @ [125]"

text \<open>The alias: the description up to its first dot, at most 31 characters.\<close>

definition sub_alias :: "byte list \<Rightarrow> byte list" where
  "sub_alias desc =
     (if 46 \<notin> set desc then bytes_of ''unknown''
      else let sz = length (takeWhile (\<lambda>b. b \<noteq> 46) desc); sz = (if sz \<ge> 32 then 31 else sz) in take sz desc)"

definition sub_output :: "stats_cfg \<Rightarrow> byte list result \<Rightarrow> receiver \<Rightarrow> real \<Rightarrow> byte list list" where
  "sub_output c ts recv secs =
     (if sc_json c then
        (case ts of
           Inl err \<Rightarrow> []
         | Inr ts \<Rightarrow> [sub_output_json (sc_fmt c) ts (sc_host c) (sub_alias (sc_desc c))
                       (bytes_of (stg_file (receiver_get_storage recv))) recv secs])
      else [sub_output_std (sc_fmt c) (sc_tty c) (sc_desc c) recv secs])"

fun sub_stats_loop ::
  "stats_cfg \<Rightarrow> stats_round list \<Rightarrow> microsec \<Rightarrow> status \<Rightarrow> receiver \<Rightarrow> (status \<times> receiver \<times> byte list list) option" where
  "sub_stats_loop c [] last_print st recv = None"
| "sub_stats_loop c (d # ds) last_print st recv =
     (if sa_stopping d then Some (st, recv, [])
      else if FAILED (signal_any_raised (sa_raised d)) then Some (signal_any_raised (sa_raised d), recv, [])
      else if FAILED (sa_slept d) then Some (sa_slept d, recv, [])
      else case sa_clock d of
        Inl err \<Rightarrow> Some (err, recv, [])
      | Inr now \<Rightarrow>
          let out = sub_output c (sa_text_time d) recv (of_int (now - last_print) / 1000000)
          in case receiver_roll_stats (sa_slp d) recv of
               (st, recv) \<Rightarrow>
                 if FAILED st then Some (st, recv, out)
                 else case (if sc_reporter c then None else sa_flush d) of
                   Some e \<Rightarrow> Some (error_errno e, recv, out)
                 | None \<Rightarrow> map_option (\<lambda>(st, recv, outs). (st, recv, out @ outs)) (sub_stats_loop c ds now st recv))"

definition sub_stats_func ::
  "stats_cfg \<Rightarrow> microsec result \<Rightarrow> stats_round list \<Rightarrow> receiver \<Rightarrow> (status \<times> receiver \<times> byte list list) option" where
  "sub_stats_func c clk ds recv =
     (case clk of
        Inl err \<Rightarrow> Some (err, receiver_stop recv, [])
      | Inr last_print \<Rightarrow> map_option (\<lambda>(st, recv, out). (st, receiver_stop recv, out)) (sub_stats_loop c ds last_print OK recv))"

record sub_opts =
  uo_missed_hb :: int
  uo_json :: bool
  uo_host :: "byte list"
  uo_q_capacity :: int
  uo_reporter :: "reporter option"
  uo_touch :: microsec

definition sub_defaults :: sub_opts where
  "sub_defaults = \<lparr>uo_missed_hb = 5, uo_json = False, uo_host = [], uo_q_capacity = uint SENDER_QUEUE_CAPACITY,
     uo_reporter = None, uo_touch = 1000000\<rparr>"

definition sub_option ::
  "int + byte list \<Rightarrow> (byte list \<Rightarrow> u16 \<Rightarrow> reporter result) \<Rightarrow> u16 \<Rightarrow> sub_opts \<Rightarrow> char \<Rightarrow> string \<Rightarrow> sub_opts run" where
  "sub_option host rep port cfg ch arg =
     (if ch = CHR ''H'' then or_die (a2i_number to_uint arg (uo_missed_hb cfg)) (\<lambda>n. Runs (cfg\<lparr>uo_missed_hb := n\<rparr>))
      else if ch = CHR ''j'' then
        or_die (sock_get_hostname True 256 host) (\<lambda>h. Runs (cfg\<lparr>uo_host := h, uo_json := True\<rparr>))
      else if ch = CHR ''L'' then Runs cfg
      else if ch = CHR ''p'' then Runs cfg
      else if ch = CHR ''q'' then or_die (a2i_number to_ulong arg (uo_q_capacity cfg)) (\<lambda>n. Runs (cfg\<lparr>uo_q_capacity := n\<rparr>))
      else if ch = CHR ''S'' then
        or_die (sock_addr_split True (bytes_of arg) 64 port)
          (\<lambda>(a, p). or_die (rep a p) (\<lambda>r. Runs (cfg\<lparr>uo_reporter := Some r\<rparr>)))
      else if ch = CHR ''T'' then or_die (a2i_number wrap_long arg (uo_touch cfg)) (\<lambda>n. Runs (cfg\<lparr>uo_touch := n\<rparr>))
      else if ch = CHR ''v'' then show_version
      else show_syntax)"

record sub_env =
  ue_host :: "int + byte list"
  ue_reporter :: "byte list \<Rightarrow> u16 \<Rightarrow> reporter result"
  ue_port :: u16
  ue_signals :: "status list"
  ue_malloc :: bool
  ue_init :: receiver_init_env
  ue_thread :: status
  ue_stats_clock :: "microsec result"
  ue_stats :: "stats_round list"
  ue_fmt :: "real \<Rightarrow> byte list"
  ue_tty :: bool
  ue_rounds :: "rcv_round list"
  ue_world :: "receiver \<Rightarrow> mem \<Rightarrow> rcv_world"
  ue_join :: "status list"
  ue_last :: "status list"

definition sub_stats_cfg :: "sub_env \<Rightarrow> sub_opts \<Rightarrow> mem \<Rightarrow> stats_cfg" where
  "sub_stats_cfg e cfg m = \<lparr>sc_json = uo_json cfg, sc_stg = False, sc_reporter = (uo_reporter cfg \<noteq> None),
     sc_tty = ue_tty e, sc_fmt = ue_fmt e, sc_host = uo_host cfg, sc_desc = storage_get_description m\<rparr>"

text \<open>\<open>ue_world\<close> puts the receiver beside what it receives; the calls are those of the publisher.\<close>

definition sub_serve :: "sub_env \<Rightarrow> sub_opts \<Rightarrow> receiver \<Rightarrow> mem \<Rightarrow> poller \<Rightarrow> int option" where
  "sub_serve e cfg recv m pol =
     (if FAILED (ue_thread e) then Some (exit_code (ue_thread e))
      else case receiver_run (ue_rounds e) OK pol (ue_world e recv m) of
        None \<Rightarrow> None
      | Some (res, pol, w) \<Rightarrow>
          if FAILED res then Some (exit_code res)
          else case sub_stats_func (sub_stats_cfg e cfg m) (ue_stats_clock e) (ue_stats e) recv of
            None \<Rightarrow> None
          | Some (stats_result, _, _) \<Rightarrow> Some (exit_code (first_failed (ue_join e @ stats_result # ue_last e))))"

definition subscriber_main :: "sub_env \<Rightarrow> string list \<Rightarrow> int option" where
  "subscriber_main e argv =
     (case getopt ''H:jLp:q:S:T:v'' argv of (opts, operands) \<Rightarrow>
      case for_options (sub_option (ue_host e) (ue_reporter e) (ue_port e)) opts sub_defaults of
        Exits n \<Rightarrow> Some n
      | Runs cfg \<Rightarrow>
          if length operands \<noteq> 2 then Some (- SYNTAX_ERROR)
          else case sock_addr_split True (bytes_of (operands ! 1)) 64 (ue_port e) of
            Inl err \<Rightarrow> Some (exit_code err)
          | Inr (tcp_addr, tcp_port) \<Rightarrow>
              if FAILED (first_failed (ue_signals e)) then Some (exit_code (first_failed (ue_signals e)))
              else case receiver_create (ue_init e) (ue_malloc e) True (Some (operands ! 0)) 0
                          (word_of_int (uo_q_capacity cfg)) (uo_touch cfg) (word_of_int (uo_missed_hb cfg)) True of
                Inl err \<Rightarrow> Some (exit_code err)
              | Inr (recv, m, pol) \<Rightarrow> sub_serve e cfg recv m pol)"

section \<open>The statistics threads\<close>

definition quiet_round :: "stats_cfg \<Rightarrow> stats_round \<Rightarrow> bool" where
  "quiet_round c d \<longleftrightarrow> \<not> sa_stopping d \<and> first_raised (sa_raised d) = None \<and> \<not> FAILED (sa_slept d) \<and>
     \<not> isl (sa_clock d) \<and> (sc_reporter c \<or> sa_flush d = None)"

text \<open>
  What both threads promise: a round without trouble goes on to the next one and reports what
  \<open>shows\<close> says, a round that finds a signal ends the loop.
\<close>

locale stats_thread =
  fixes run_loop :: "stats_cfg \<Rightarrow> stats_round list \<Rightarrow> microsec \<Rightarrow> status \<Rightarrow> 's \<Rightarrow> (status \<times> 's \<times> byte list list) option"
    and ready :: "'s \<Rightarrow> bool"
  assumes found_signal: "\<not> sa_stopping d \<Longrightarrow> first_raised (sa_raised d) = Some sig \<Longrightarrow>
      run_loop c (d # ds) t st s = Some (SIG_ERROR_BASE - sig, s, [])"
    and quiet: "quiet_round c d \<Longrightarrow> ready s \<Longrightarrow>
      \<exists>out s' t' st'. ready s' \<and> run_loop c (d # ds) t st s = map_option (\<lambda>(st, s, outs). (st, s, out @ outs)) (run_loop c ds t' st' s')"
begin

lemma signal_ends:
  assumes "\<forall>d\<in>set pre. quiet_round c d" "ready s" "\<not> sa_stopping d" "first_raised (sa_raised d) = Some sig"
  shows "\<exists>s' out. run_loop c (pre @ d # post) t st s = Some (SIG_ERROR_BASE - sig, s', out)"
  using assms(1,2)
proof (induction pre arbitrary: t st s)
  case Nil
  then show ?case using found_signal [OF assms(3,4)] by simp
next
  case (Cons p pre)
  obtain out s' t' st' where "ready s'"
    "run_loop c (p # pre @ d # post) t st s =
      map_option (\<lambda>(st, s, outs). (st, s, out @ outs)) (run_loop c (pre @ d # post) t' st' s')"
    using quiet [of c p s "pre @ d # post" t st] Cons.prems by auto
  moreover from Cons.IH [OF _ this(1), of t' st'] Cons.prems obtain s2 out2 where
    "run_loop c (pre @ d # post) t' st' s' = Some (SIG_ERROR_BASE - sig, s2, out2)" by auto
  ultimately show ?case by auto
qed

end

definition sender_ready :: "sender \<Rightarrow> bool" where
  "sender_ready sndr \<longleftrightarrow> unlocked (stats_lock sndr) \<and> unlocked (lat_lock (stg_latency sndr))"

definition receiver_ready :: "receiver \<Rightarrow> bool" where
  "receiver_ready recv \<longleftrightarrow> unlocked (r_stats_lock recv) \<and> unlocked (lat_lock (r_mcast_latency recv))"

lemma lock_at_once: "unlocked w \<Longrightarrow> spin_write_lock (\<lambda>_. w) slp = Inr (w, 0, w OR SPIN_MASK)"
  by (simp add: spin_write_lock_from spin_from_free [of _ 0, simplified])

lemma latency_roll_ready:
  assumes "unlocked (lat_lock lat)"
  shows "\<exists>lat'. latency_roll slp lat = (OK, lat') \<and> unlocked (lat_lock lat')"
  by (simp add: latency_roll_def lock_at_once [OF assms] Let_def)

lemma sender_roll_ready:
  assumes "sender_ready sndr"
  obtains sndr' where "sender_roll_stats slp sndr = (OK, sndr')" "sender_ready sndr'"
proof -
  obtain lat' where l: "latency_roll slp (stg_latency sndr) = (OK, lat')" "unlocked (lat_lock lat')"
    using latency_roll_ready assms by (auto simp: sender_ready_def)
  show thesis
    using that assms l by (simp add: sender_roll_stats_def lock_at_once sender_ready_def Let_def)
qed

lemma receiver_roll_ready:
  assumes "receiver_ready recv"
  obtains recv' where "receiver_roll_stats slp recv = (OK, recv')" "receiver_ready recv'"
proof -
  obtain lat' where l: "latency_roll slp (r_mcast_latency recv) = (OK, lat')" "unlocked (lat_lock lat')"
    using latency_roll_ready assms by (auto simp: receiver_ready_def)
  show thesis
    using that assms l by (simp add: receiver_roll_stats_def lock_at_once receiver_ready_def Let_def)
qed

lemma first_failed_append: "\<forall>st\<in>set xs. \<not> FAILED st \<Longrightarrow> first_failed (xs @ ys) = first_failed ys"
  by (induction xs) auto

interpretation pub: stats_thread pub_stats_loop sender_ready
proof
  show "pub_stats_loop c (d # ds) t st s = Some (SIG_ERROR_BASE - sig, s, [])"
    if "\<not> sa_stopping d" "first_raised (sa_raised d) = Some sig" for c d ds t st s sig
    using that first_raised_Some [OF that(2)] by (simp add: signal_any_raised_def status_defs NSIG_def)
  show "\<exists>out s' t' st'. sender_ready s' \<and> pub_stats_loop c (d # ds) t st s =
      map_option (\<lambda>(st, s, outs). (st, s, out @ outs)) (pub_stats_loop c ds t' st' s')"
    if q: "quiet_round c d" and rd: "sender_ready s" for c d ds t st s
  proof -
    obtain s' where r: "sender_roll_stats (sa_slp d) s = (OK, s')" "sender_ready s'" using sender_roll_ready [OF rd] .
    obtain now where "sa_clock d = Inr now" using q by (cases "sa_clock d") (auto simp: quiet_round_def)
    then show ?thesis
      using q r by (intro exI [of _ "pub_output c (sa_text_time d) s (of_int (now - t) / 1000000)"] exI [of _ s'] exI [of _ now] exI [of _ OK])
        (auto simp: quiet_round_def signal_any_raised_def FAILED_def OK_def Let_def)
  qed
qed

interpretation sub: stats_thread sub_stats_loop receiver_ready
proof
  show "sub_stats_loop c (d # ds) t st s = Some (SIG_ERROR_BASE - sig, s, [])"
    if "\<not> sa_stopping d" "first_raised (sa_raised d) = Some sig" for c d ds t st s sig
    using that first_raised_Some [OF that(2)] by (simp add: signal_any_raised_def status_defs NSIG_def)
  show "\<exists>out s' t' st'. receiver_ready s' \<and> sub_stats_loop c (d # ds) t st s =
      map_option (\<lambda>(st, s, outs). (st, s, out @ outs)) (sub_stats_loop c ds t' st' s')"
    if q: "quiet_round c d" and rd: "receiver_ready s" for c d ds t st s
  proof -
    obtain s' where r: "receiver_roll_stats (sa_slp d) s = (OK, s')" "receiver_ready s'" using receiver_roll_ready [OF rd] .
    obtain now where "sa_clock d = Inr now" using q by (cases "sa_clock d") (auto simp: quiet_round_def)
    then show ?thesis
      using q r by (intro exI [of _ "sub_output c (sa_text_time d) s (of_int (now - t) / 1000000)"] exI [of _ s'] exI [of _ now] exI [of _ OK])
        (auto simp: quiet_round_def signal_any_raised_def FAILED_def OK_def Let_def)
  qed
qed

section \<open>Properties\<close>


text \<open>
  The same of a subscriber: the statistics thread that finds a signal tells the receiver to stop, the
  receiver leaves its loop at the next round, and \<open>main\<close> exits with 128 and the number of the signal.
\<close>

theorem subscriber_stops_on_signal:
  assumes "\<forall>d\<in>set pre. quiet_round (sub_stats_cfg e cfg m) d" "receiver_ready recv" "\<not> sa_stopping d"
    and "first_raised (sa_raised d) = Some sig" "ue_stats e = pre @ d # post" "ue_stats_clock e = Inr t"
  shows "\<exists>recv' out. sub_stats_func (sub_stats_cfg e cfg m) (ue_stats_clock e) (ue_stats e) recv =
      Some (SIG_ERROR_BASE - sig, recv', out) \<and> r_is_stopping recv'"
    and "r_is_stopping (rw_recv w) \<Longrightarrow> receiver_run (r # rs) st pol w = Some (st, pol, w)"
    and "\<not> FAILED (ue_thread e) \<Longrightarrow> receiver_run (ue_rounds e) OK pol (ue_world e recv m) = Some (res, pol', w') \<Longrightarrow>
      \<not> FAILED res \<Longrightarrow> \<forall>st\<in>set (ue_join e). \<not> FAILED st \<Longrightarrow> sub_serve e cfg recv m pol = Some (128 + sig)"
proof -
  show f: "\<exists>recv' out. sub_stats_func (sub_stats_cfg e cfg m) (ue_stats_clock e) (ue_stats e) recv =
      Some (SIG_ERROR_BASE - sig, recv', out) \<and> r_is_stopping recv'"
    using sub.signal_ends [OF assms(1-4), of post t OK] assms(5,6) by (auto simp: sub_stats_func_def receiver_stop_def)
  show "r_is_stopping (rw_recv w) \<Longrightarrow> receiver_run (r # rs) st pol w = Some (st, pol, w)" by simp
  have "FAILED (SIG_ERROR_BASE - sig)" "exit_code (SIG_ERROR_BASE - sig) = 128 + sig"
    using first_raised_Some [OF assms(4)] by (simp_all add: exit_code_def status_defs NSIG_def)
  then show "sub_serve e cfg recv m pol = Some (128 + sig)" if "\<not> FAILED (ue_thread e)"
    "receiver_run (ue_rounds e) OK pol (ue_world e recv m) = Some (res, pol', w')"
    "\<not> FAILED res" "\<forall>st\<in>set (ue_join e). \<not> FAILED st"
    using f that first_failed_append [OF that(4)] by (auto simp: sub_serve_def)
qed

text \<open>A publisher and a subscriber that have reported once when the signal comes.\<close>

definition sample_stats :: "bool \<Rightarrow> stats_round" where
  "sample_stats int_raised = \<lparr>sa_stopping = False, sa_raised = (\<lambda>i. int_raised \<and> i = 2), sa_slept = OK, sa_clock = Inr 2000000,
     sa_text_time = Inr [], sa_slp = (\<lambda>_. OK), sa_flush = None\<rparr>"

definition sample_accept :: accept_env where
  "sample_accept = \<lparr>acc_raised = (\<lambda>_. False), acc_accept = Inl BLOCKED, acc_nodelay = OK, acc_add_handler = OK,
     acc_write = Moved 0, acc_remove_handler = OK, acc_malloc = (True, True, True), acc_clock = Inr 0, acc_nonblock = OK,
     acc_desc = int, acc_realloc = (\<lambda>_. (True, True)), acc_pad = no_pollfd, acc_clock2 = Inr 0\<rparr>"

definition sample_snd_round :: "mem \<Rightarrow> snd_round" where
  "sample_snd_round m = \<lparr>sr_stop = True, sr_raised = (\<lambda>_. False), sr_slp = (\<lambda>_. OK), sr_poll = (0, 0, []),
     sr_env = \<lparr>sv_accept = sample_accept, sv_mem = m, sv_accum = (\<lambda>_. sample_accum m), sv_clock = Inr 0, sv_send = sample_send,
       sv_reads = (\<lambda>_. []), sv_write = (\<lambda>_. sample_write_env m), sv_destroy = (\<lambda>_. OK)\<rparr>,
     sr_mem = m, sr_clock = Inr 0, sr_sleep = OK\<rparr>"

definition sample_publisher :: "mem \<Rightarrow> pub_env" where
  "sample_publisher m = \<lparr>pe_host = Inr [], pe_reporter = (\<lambda>_ _. Inl INVALID_ADDRESS), pe_port = 0, pe_signals = [OK, OK, OK],
     pe_malloc = True,
     pe_init = \<lparr>si_open = \<lparr>oe_open = Inr 3, oe_fstat = Inr 0, oe_mmap_header = OK, oe_munmap = OK, oe_mmap = OK,
         oe_contents = m, oe_xstrdup = True\<rparr>, si_destroy = close_ok, si_malloc = (\<lambda>_. True), si_listen = [],
       si_listen_port = 0, si_mcast = [], si_mtu = Inr 1500, si_interface = [], si_setup = [], si_desc = int,
       si_clock = Inr 0, si_listen_sock = 1, si_mcast_sock = 2\<rparr>,
     pe_advert = (\<lambda>_ _. OK), pe_thread = OK, pe_stats_clock = Inr 1000000, pe_stats = [sample_stats False, sample_stats True],
     pe_fmt = (\<lambda>_. []), pe_tty = False,
     pe_quit = \<lparr>qe_raised = (\<lambda>_. False), qe_slp = (\<lambda>_. OK), qe_rounds = (\<lambda>_. []), qe_sleep = OK, qe_destroy = (\<lambda>_. OK)\<rparr>,
     pe_rounds = [sample_snd_round m], pe_avail = (\<lambda>_. []), pe_join = [OK, OK], pe_last = [OK, OK, OK, OK, OK, OK]\<rparr>"

lemma sample_stats_facts:
  "quiet_round c (sample_stats False)" "\<not> sa_stopping (sample_stats True)"
  "first_raised (sa_raised (sample_stats True)) = Some 2"
proof -
  have "first_raised (\<lambda>_. False) = None" by (simp add: first_raised_None)
  then show "quiet_round c (sample_stats False)" by (simp add: quiet_round_def sample_stats_def status_defs)
  show "\<not> sa_stopping (sample_stats True)" by (simp add: sample_stats_def)
  show "first_raised (sa_raised (sample_stats True)) = Some 2"
    by (simp add: sample_stats_def first_raised_def NSIG_def upto_rec1)
qed


definition sample_subscriber :: sub_env where
  "sample_subscriber = \<lparr>ue_host = Inr [], ue_reporter = (\<lambda>_ _. Inl INVALID_ADDRESS), ue_port = 0, ue_signals = [OK, OK, OK],
     ue_malloc = True,
     ue_init = \<lparr>ri_malloc = (\<lambda>_. True), ri_connect = [], ri_tcp_ip = 77, ri_raised = (\<lambda>_. False), ri_read = Moved 0, ri_text = [],
       ri_remove_handler = OK, ri_create = fresh_env (\<lambda>_. 0), ri_destroy = close_ok, ri_setup = [], ri_desc = int,
       ri_clock = Inr 0, ri_addr_destroy = OK, ri_mcast_sock = 6, ri_tcp_sock = 5\<rparr>,
     ue_thread = OK, ue_stats_clock = Inr 1000000, ue_stats = [sample_stats False, sample_stats True],
     ue_fmt = (\<lambda>_. []), ue_tty = False,
     ue_rounds = [\<lparr>rr_stop = True, rr_raised = (\<lambda>_. False), rr_slp = (\<lambda>_. OK), rr_poll = (0, 0, []),
       rr_env = \<lparr>rv_mcast = sample_arrival [], rv_tcp = sample_tcp_env, rv_writes = []\<rparr>, rr_clock = Inr 0\<rparr>],
     ue_world = (\<lambda>recv m. \<lparr>rw_recv = recv, rw_mem = m, rw_avail = [], rw_sent = []\<rparr>),
     ue_join = [OK, OK], ue_last = [OK, OK, OK, OK, OK]\<rparr>"

theorem subscriber_stops_on_signal_witness:
  "\<exists>st m pol. sub_serve sample_subscriber sub_defaults (sample_receiver st m) m pol = Some 130"
proof -
  obtain st m where "stg_ok st m" using sample_store by blast
  define recv where d: "recv = sample_receiver st m"
  have r: "receiver_ready recv" by (simp add: d receiver_ready_def sample_receiver_def)
  have s: "ue_stats sample_subscriber = [sample_stats False] @ sample_stats True # []"
    "ue_stats_clock sample_subscriber = Inr 1000000" by (simp_all add: sample_subscriber_def)
  obtain pol :: poller where "poller_ok pol" using sample_poller by blast
  have "sub_serve sample_subscriber sub_defaults recv m pol = Some (128 + 2)"
    using subscriber_stops_on_signal(3) [where pre = "[sample_stats False]" and d = "sample_stats True" and e = sample_subscriber
        and cfg = sub_defaults and recv = recv, OF _ r sample_stats_facts(2,3) s] sample_stats_facts(1)
    by (auto simp: sample_subscriber_def status_defs)
  then show ?thesis by (auto simp: d)
qed

end
