(* ===== verification/Spec2Isabelle.thy ===== *)
theory Spec2Isabelle
  imports Seqlock Tables Twist Toucher Convergence Errors Tools Testers Inspector Daemons
begin

text \<open>
  Verification of lancaster, a library and a set of programs that keep arrays of records in shared
  memory and copy them, record by record, from one publisher to many subscribers.

  \<^bold>\<open>The program.\<close>  A storage (\<open>src/storage.c\<close>) is a memory-mapped file: a header, a ring of the
  identifiers changed last (the change queue), and an array of records.  A record has a revision,
  which is also its lock (\<open>src/spin.c\<close>), a timestamp, a value and a property.  Processes on one host
  read and write records under the revision, one at a time or many (\<open>src/batch.c\<close>).  A publisher
  (\<open>src/sender.c\<close>) follows the change queue, puts changed records into numbered multicast packets and
  answers requests for packets that were lost over TCP.  A subscriber (\<open>src/receiver.c\<close>) applies packets and
  replies to a storage of its own and asks for what it misses.  Around them are sockets and their
  poller, threads, a thread that marks storages as alive, advertisements of publishers, hash
  tables, a random number generator, latency statistics, and the programs: \<open>publisher\<close>, \<open>subscriber\<close>,
  \<open>reader\<close>, \<open>writer\<close>, \<open>inspector\<close>, \<open>eraser\<close>, \<open>copier\<close>, \<open>grower\<close> and \<open>deleter\<close>.

  \<^bold>\<open>How it is modelled.\<close>  Memory is a function from addresses to bytes, and a segment is read and written
  at the offsets of the C structures, with integers at their widths.  Handles are records; an
  operation takes and returns the state it changes and a status.  System calls, the clock, the
  memory another process writes to, and the functions of the C library whose result depends on the
  system are arguments.  Waiting loops take the sequence of what they see; loops that may go on for
  ever take a list with one entry per round or fuel, and give \<open>None\<close> when it runs out, so that
  \<open>None\<close> always means that the code is still running; where a loop is claimed to end, the theorem says
  that it gives a result.  \<open>None\<close> also stands for undefined behaviour where a theory says so (\<open>Tables\<close>,
  \<open>Adverts\<close>), and for the death of the process in \<open>Errors\<close>.  Handles whose allocation fails are part of the result.

  \<^bold>\<open>The theories\<close>, with the sources they model:

  \<^item> \<open>Steps\<close>: transition systems, their reachable states, invariants and simulations.
  \<^item> \<open>Prelude\<close>: machine types, status codes (\<open>lancaster/status.h\<close>), bytes and words in memory, the
    lemmas on them that the components share, and messages on a stream of bytes.
  \<^item> \<open>Spin\<close> (\<open>spin.c\<close>): the locks.  A waiting loop gives the revision of the first free look, and otherwise,
    after 11001 looks, a deadlock.
  \<^item> \<open>Seqlock\<close> (the access protocol of \<open>batch.c\<close>, \<open>receiver.c\<close> and \<open>storage.c\<close>): readers and writers of one record as an
    interleaved step relation.  A copy a reader accepts is one committed version; at most one writer
    holds the record; erasing a record breaks the first of these.
  \<^item> \<open>Storage\<close> and \<open>Records\<close> (\<open>storage.c\<close>): creating, opening, closing and growing; attributes; the
    queue; single records and walks over them.  Creation gives a well-formed segment that can be
    opened again; the queue is a ring; identifiers and records correspond; growing keeps records; a
    read-only handle changes nothing.
  \<^item> \<open>Batch\<close> (\<open>batch.c\<close>): batches are read back, and a reader that waits for changes gets them in order and
    returns.
  \<^item> \<open>Cells\<close>: a storage seen as an array of cells, for the tools.
  \<^item> \<open>Tables\<close> (\<open>table.c\<close>, \<open>dict.c\<close>): the table refines a finite map.  \<open>Twist\<close> (\<open>twist.c\<close>): the generator is
    MT19937.  \<open>Latency\<close> (\<open>latency.c\<close>): the running formulas are exact over the reals.
  \<^item> \<open>Runtime\<close> (\<open>clock.c\<close>, \<open>signals.c\<close>, \<open>a2i.c\<close>, \<open>xalloc.c\<close>), \<open>Clock\<close> (the text of times in \<open>clock.c\<close>) and \<open>Dump\<close>
    (\<open>dump.c\<close>): the texts of times fit their buffers, dumps can be read back.  The other theories work
    with the statuses errors become; \<open>Errors\<close> (\<open>error.c\<close>) has the state behind them: the functions that report
    an error record the status they return, and the exit status of a program tells the cause.
  \<^item> \<open>Poller\<close> (\<open>poller.c\<close>), \<open>Toucher\<close> (\<open>toucher.c\<close>), \<open>Threads\<close> (\<open>thread.c\<close>), \<open>Sockets\<close> (\<open>socket.c\<close>; its transfer operations
    are in \<open>Wire\<close>): every socket is called back once although callbacks remove sockets; no descriptor
    is leaked or closed twice; a thread that does not count as running is through.
  \<^item> \<open>Wire\<close> (\<open>lancaster/sequence.h\<close> and what both sides share) and \<open>Hello\<close> (the greeting, printed in \<open>sender.c\<close> and
    parsed in \<open>receiver.c\<close>): the greeting is read back.
  \<^item> \<open>Sender\<close> and \<open>Receiver\<close> (\<open>sender.c\<close>, \<open>receiver.c\<close>): every handler, the event loops, creation and destruction.
    \<open>Multicast\<close> shows that packets are well formed and catch up with the queue, \<open>Gaps\<close> that requests are
    understood, kept and answered completely, \<open>Delivery\<close> that packets and replies reach the
    subscriber's storage as an abstract receiver says.
  \<^item> \<open>Protocol\<close> and \<open>Convergence\<close>: an abstract protocol over a network that loses, repeats and reorders
    packets never loses an update; the handlers implement it (a simulation), so that a record is at
    the subscriber or asked for or on the way, and is there when nothing is on the way any more.
  \<^item> \<open>Adverts\<close> (\<open>advert.c\<close>, \<open>reporter.c\<close>): the message names exactly the publishers published.
  \<^item> \<open>Cmdline\<close> (what the programs share), \<open>Tools\<close> (\<open>eraser.c\<close>, \<open>copier.c\<close>, \<open>grower.c\<close>, \<open>deleter.c\<close>), \<open>Testers\<close> (\<open>writer.c\<close>,
    \<open>reader.c\<close>), \<open>Inspector\<close> (\<open>inspector.c\<close>) and \<open>Daemons\<close> (\<open>publisher.c\<close>, \<open>subscriber.c\<close>): erasing keeps a storage
    compact when its arguments ascend, copies go to the first free records, a reader never finds an
    update skipped, and a signal ends a server with its number in the exit code.

  Interfaces are locales, each interpreted on the definitions of the code; the properties rest on the
  interpretations.

  \<^item> \<open>invariant_of\<close> in \<open>Steps\<close>: a state machine with an invariant, interpreted for a shared record (\<open>Seqlock\<close>), a
    sender that serves a client (\<open>Gaps\<close>), open descriptors (\<open>Sockets\<close>), a thread (\<open>Threads\<close>) and an
    advertisement (\<open>Adverts\<close>); \<open>refinement\<close> extends it to a simulation, interpreted for the handlers and the
    abstract protocol (\<open>Convergence\<close>).
  \<^item> \<open>framing\<close> in \<open>Prelude\<close>: messages on a stream that are told apart in one way only, interpreted for requests
    (\<open>Gaps\<close>) and replies (\<open>Delivery\<close>).
  \<^item> \<open>change_queue\<close> in \<open>Records\<close>: the change queue as a ring.
  \<^item> \<open>key_map\<close> in \<open>Tables\<close>: a table as a map that a dictionary is built on, interpreted for both of its tables.
  \<^item> \<open>stats_thread\<close> in \<open>Daemons\<close>: the statistics threads of the two servers.
  \<^item> \<open>error_report\<close> in \<open>Errors\<close>: what a function that reports an error promises, interpreted for the five of \<open>error.c\<close>.

  \<^bold>\<open>Bounds and fuel.\<close>  Sequence numbers and revisions are words or integers with the wrap-around of the
  code; properties that depend on a counter not wrapping say so (less than \<open>2 ^ 63\<close> updates, a segment
  that fits its address space).  The waiting loops look at most 11001 times, a constant of the
  code.  The fuel of \<open>batch_read_changed_records\<close> is one unit per look at the queue; the number of looks
  that suffices is part of its theorem.  \<open>fdump\<close> is a partial function and its theorem says when it
  returns.  Doubles are reals in \<open>Latency\<close>; how \<open>printf\<close> rounds decimals is an argument of \<open>Clock\<close> and \<open>Daemons\<close>,
  with the promise of the C standard, where it is needed, as a hypothesis that is shown to hold of
  rounding half up.

  \<^bold>\<open>Not modelled.\<close>  The lines the tools print with \<open>-V\<close>, usage texts, the debug output under \<open>DEBUG_PROTOCOL\<close>, the functions that
  only free memory (\<open>xfree\<close>, \<open>poller_destroy\<close>, \<open>latency_destroy\<close>, \<open>twist_destroy\<close>) and a few that only return a field of
  a handle: they print, release or read.  The texts of system errors are an argument of \<open>Errors\<close>.  \<open>xalloca.h\<close> chooses a header.  The Go programs and the shell
  scripts around the library are other languages, and \<open>go/src/vendor\<close> is third-party code.  The
  weak memory of the machine is not modelled: the steps of \<open>Seqlock\<close> are atomic and in program order,
  as the fences of the code are meant to ensure.
\<close>

end
